(* ===== verification/Prelude.thy ===== *)
theory Prelude
  imports Main "HOL-Library.Word" "HOL-Library.List_Lexorder" "HOL-Library.Char_ord"
    "HOL-Library.Product_Lexorder"
begin

unbundle bit_operations_syntax

text \<open>
  Shared material of the development: the machine types of the relay, the parts of the Rust
  standard library the modelled code calls (string splitting, trimming and number parsing on
  UTF-8 byte strings, saturating arithmetic, big-endian byte order, hash-set iteration), the
  interface of the \<open>hex\<close> crate as a locale, and the generic lemmas the component theories use.

  A Rust \<open>String\<close> is its UTF-8 byte sequence, an Isabelle \<open>string\<close> (a list of 8-bit characters);
  \<open>len\<close> is \<open>length\<close>. A \<open>Vec<u8>\<close> is a list of 8-bit words, a \<open>u64\<close> is a 64-bit word, and a
  \<open>usize\<close> length or counter that the code bounds by the size of a container is a \<open>nat\<close>.
\<close>

section \<open>Machine types\<close>

type_synonym u8 = "8 word"
type_synonym u16 = "16 word"
type_synonym u32 = "32 word"
type_synonym u64 = "64 word"
type_synonym bytes = "u8 list"
type_synonym tag = "string list"

abbreviation u64_max :: u64 where "u64_max \<equiv> 0xFFFFFFFFFFFFFFFF"

named_theorems std_defs \<open>definitions of the standard-library helpers\<close>

section \<open>Arithmetic of the standard library\<close>

definition saturating_add :: "u64 \<Rightarrow> u64 \<Rightarrow> u64" where
  "saturating_add a b = (if unat a + unat b < 2 ^ 64 then a + b else u64_max)"

definition saturating_sub :: "u64 \<Rightarrow> u64 \<Rightarrow> u64" where
  "saturating_sub a b = (if a < b then 0 else a - b)"

definition abs_diff :: "u64 \<Rightarrow> u64 \<Rightarrow> u64" where
  "abs_diff a b = (if a < b then b - a else a - b)"

definition checked_add :: "u64 \<Rightarrow> u64 \<Rightarrow> u64 option" where
  "checked_add a b = (if unat a + unat b < 2 ^ 64 then Some (a + b) else None)"

definition checked_mul :: "u64 \<Rightarrow> u64 \<Rightarrow> u64 option" where
  "checked_mul a b = (if unat a * unat b < 2 ^ 64 then Some (a * b) else None)"

lemma unat_lt64 [simp]: "unat (a :: u64) < 18446744073709551616"
  using unsigned_less [of a] by simp

lemma unat_saturating_add: "unat (saturating_add a b) = min (unat a + unat b) (2 ^ 64 - 1)"
  unfolding saturating_add_def by (auto simp: unat_word_ariths)

lemma unat_saturating_sub: "unat (saturating_sub a b) = unat a - unat b"
  unfolding saturating_sub_def
  by (auto simp: unat_sub word_less_nat_alt not_less word_le_nat_alt)

lemma unat_abs_diff: "unat (abs_diff a b) = (unat a - unat b) + (unat b - unat a)"
  unfolding abs_diff_def
  by (auto simp: unat_sub word_less_nat_alt word_le_nat_alt not_less)

lemma checked_add_SomeD: "checked_add a b = Some c \<Longrightarrow> unat c = unat a + unat b"
  by (auto simp: checked_add_def unat_word_ariths split: if_splits)

lemma checked_mul_SomeD: "checked_mul a b = Some c \<Longrightarrow> unat c = unat a * unat b"
  by (auto simp: checked_mul_def unat_word_ariths split: if_splits)

lemma unat_ucast8: "unat (ucast (x :: u8) :: u32) = unat x" "unat (ucast x :: u64) = unat x"
proof -
  have "unat x < 2 ^ 8" using unsigned_less [of x] by simp
  then have "unat x < 2 ^ 32" "unat x < 2 ^ 64" by simp_all
  then show "unat (ucast x :: u32) = unat x" "unat (ucast x :: u64) = unat x"
    by (simp_all add: unsigned_ucast_eq take_bit_nat_eq_self del: power_numeral)
qed

section \<open>Characters\<close>

definition code :: "char \<Rightarrow> nat" where
  "code c = of_char c"

definition ascii_lower :: "char \<Rightarrow> char" where
  "ascii_lower c = (if 65 \<le> code c \<and> code c \<le> 90 then char_of (code c + 32) else c)"

definition is_ascii :: "char \<Rightarrow> bool" where
  "is_ascii c \<longleftrightarrow> code c < 128"

definition is_ascii_digit :: "char \<Rightarrow> bool" where
  "is_ascii_digit c \<longleftrightarrow> 48 \<le> code c \<and> code c \<le> 57"

definition is_ascii_hexdigit :: "char \<Rightarrow> bool" where
  "is_ascii_hexdigit c \<longleftrightarrow> is_ascii_digit c \<or> 65 \<le> code c \<and> code c \<le> 70 \<or> 97 \<le> code c \<and> code c \<le> 102"

definition is_ascii_uppercase :: "char \<Rightarrow> bool" where
  "is_ascii_uppercase c \<longleftrightarrow> 65 \<le> code c \<and> code c \<le> 90"

definition is_ascii_lowercase :: "char \<Rightarrow> bool" where
  "is_ascii_lowercase c \<longleftrightarrow> 97 \<le> code c \<and> code c \<le> 122"

definition is_ascii_alphanumeric :: "char \<Rightarrow> bool" where
  "is_ascii_alphanumeric c \<longleftrightarrow> is_ascii_digit c \<or> is_ascii_uppercase c \<or> is_ascii_lowercase c"

definition to_ascii_lowercase :: "string \<Rightarrow> string" where
  "to_ascii_lowercase s = map ascii_lower s"

definition eq_ignore_ascii_case :: "string \<Rightarrow> string \<Rightarrow> bool" where
  "eq_ignore_ascii_case a b \<longleftrightarrow> to_ascii_lowercase a = to_ascii_lowercase b"

definition as_bytes :: "string \<Rightarrow> bytes" where
  "as_bytes s = map (\<lambda>c. of_nat (code c)) s"

lemmas char_class_defs =
  is_ascii_def is_ascii_digit_def is_ascii_hexdigit_def is_ascii_uppercase_def
  is_ascii_lowercase_def is_ascii_alphanumeric_def

declare char_class_defs [std_defs] code_def [std_defs] ascii_lower_def [std_defs]
  to_ascii_lowercase_def [std_defs] eq_ignore_ascii_case_def [std_defs] as_bytes_def [std_defs]

lemma code_less: "code c < 256"
  unfolding code_def by (cases c) (auto simp: of_char_def horner_sum_simps split: if_splits)

lemma code_char_of [simp]: "n < 256 \<Longrightarrow> code (char_of n) = n"
  by (simp add: code_def)

lemma char_of_code [simp]: "char_of (code c) = c"
  by (simp add: code_def)

lemma code_eq_iff: "code a = code b \<longleftrightarrow> a = b"
  by (metis char_of_code)

lemma length_as_bytes [simp]: "length (as_bytes s) = length s"
  by (simp add: as_bytes_def)

lemma as_bytes_append [simp]: "as_bytes (s @ t) = as_bytes s @ as_bytes t"
  by (simp add: as_bytes_def)

lemma of_nat_code_inj: "(of_nat (code a) :: u8) = of_nat (code b) \<longleftrightarrow> a = b"
proof -
  have "unat (of_nat (code c) :: u8) = code c" for c
    using code_less [of c] by (simp add: unat_of_nat)
  then show ?thesis by (metis code_eq_iff)
qed

lemma as_bytes_inj [simp]: "as_bytes s = as_bytes t \<longleftrightarrow> s = t"
  unfolding as_bytes_def by (rule inj_map_eq_map) (simp add: inj_def of_nat_code_inj)

lemma code_ascii_lower:
  "code (ascii_lower c) = (if 65 \<le> code c \<and> code c \<le> 90 then code c + 32 else code c)"
  by (simp add: ascii_lower_def)

lemma ascii_lower_idem [simp]: "ascii_lower (ascii_lower c) = ascii_lower c"
  using code_less [of c] by (auto simp: ascii_lower_def code_ascii_lower)

lemma to_ascii_lowercase_idem [simp]: "to_ascii_lowercase (to_ascii_lowercase s) = to_ascii_lowercase s"
  by (simp add: to_ascii_lowercase_def comp_def)

lemma length_to_ascii_lowercase [simp]: "length (to_ascii_lowercase s) = length s"
  by (simp add: to_ascii_lowercase_def)

lemma eq_ignore_ascii_case_refl [simp]: "eq_ignore_ascii_case s s"
  by (simp add: eq_ignore_ascii_case_def)

lemma eq_ignore_ascii_case_sym: "eq_ignore_ascii_case a b \<longleftrightarrow> eq_ignore_ascii_case b a"
  by (auto simp: eq_ignore_ascii_case_def)

lemma eq_ignore_ascii_case_trans [trans]:
  "eq_ignore_ascii_case a b \<Longrightarrow> eq_ignore_ascii_case b c \<Longrightarrow> eq_ignore_ascii_case a c"
  by (simp add: eq_ignore_ascii_case_def)

lemma eq_ignore_ascii_case_length: "eq_ignore_ascii_case a b \<Longrightarrow> length a = length b"
  unfolding eq_ignore_ascii_case_def by (metis length_to_ascii_lowercase)

lemma eq_ignore_ascii_case_lower [simp]:
  "eq_ignore_ascii_case (to_ascii_lowercase a) b = eq_ignore_ascii_case a b"
  "eq_ignore_ascii_case a (to_ascii_lowercase b) = eq_ignore_ascii_case a b"
  by (simp_all add: eq_ignore_ascii_case_def)

section \<open>UTF-8 boundaries\<close>

text \<open>\<open>str::is_char_boundary\<close>: both ends, and every byte that is not a continuation byte.\<close>

definition is_continuation :: "char \<Rightarrow> bool" where
  "is_continuation c \<longleftrightarrow> 128 \<le> code c \<and> code c \<le> 191"

definition is_char_boundary :: "string \<Rightarrow> nat \<Rightarrow> bool" where
  "is_char_boundary s i \<longleftrightarrow>
     i = 0 \<or> i = length s \<or> (i < length s \<and> \<not> is_continuation (s ! i))"

text \<open>\<open>chars().count()\<close>: one character per byte that starts one.\<close>

definition chars_count :: "string \<Rightarrow> nat" where
  "chars_count s = length (filter (\<lambda>c. \<not> is_continuation c) s)"

lemma chars_count_le: "chars_count s \<le> length s"
  by (simp add: chars_count_def)

text \<open>
  The search for a boundary at or below an index, written in the source as a loop that steps
  down (\<open>floor_char_boundary\<close>, \<open>dtag_key_safe_max\<close>).
\<close>

fun boundary_below :: "string \<Rightarrow> nat \<Rightarrow> nat" where
  "boundary_below s 0 = 0"
| "boundary_below s (Suc n) = (if is_char_boundary s (Suc n) then Suc n else boundary_below s n)"

lemma boundary_below_le: "boundary_below s n \<le> n"
  by (induction s n rule: boundary_below.induct) auto

lemma boundary_below_boundary: "is_char_boundary s (boundary_below s n)"
  by (induction s n rule: boundary_below.induct) (auto simp: is_char_boundary_def)

section \<open>Splitting strings\<close>

definition strip_prefix :: "string \<Rightarrow> string \<Rightarrow> string option" where
  "strip_prefix p s = (if take (length p) s = p then Some (drop (length p) s) else None)"

definition starts_with :: "string \<Rightarrow> string \<Rightarrow> bool" where
  "starts_with p s \<longleftrightarrow> take (length p) s = p"

text \<open>\<open>str::split(char)\<close>: always at least one piece.\<close>

fun split_on :: "char \<Rightarrow> string \<Rightarrow> string list" where
  "split_on c [] = [[]]"
| "split_on c (x # xs) =
     (if x = c then [] # split_on c xs
      else case split_on c xs of [] \<Rightarrow> [[x]] | y # ys \<Rightarrow> (x # y) # ys)"

text \<open>\<open>split_once\<close> and \<open>rsplit_once\<close> on a character, \<open>split_once\<close> on a string.\<close>

fun split_once :: "char \<Rightarrow> string \<Rightarrow> (string \<times> string) option" where
  "split_once c [] = None"
| "split_once c (x # xs) =
     (if x = c then Some ([], xs) else map_option (\<lambda>(a, b). (x # a, b)) (split_once c xs))"

definition rsplit_once :: "char \<Rightarrow> string \<Rightarrow> (string \<times> string) option" where
  "rsplit_once c s = map_option (\<lambda>(a, b). (rev b, rev a)) (split_once c (rev s))"

fun split_once_str :: "string \<Rightarrow> string \<Rightarrow> (string \<times> string) option" where
  "split_once_str p [] = (if p = [] then Some ([], []) else None)"
| "split_once_str p (x # xs) =
     (if starts_with p (x # xs) then Some ([], drop (length p) (x # xs))
      else map_option (\<lambda>(a, b). (x # a, b)) (split_once_str p xs))"

lemma split_on_nonempty [simp]: "split_on c s \<noteq> []"
  by (induction s) (auto split: list.splits)

lemma split_once_Some: "split_once c s = Some (a, b) \<longleftrightarrow> s = a @ c # b \<and> c \<notin> set a"
proof (induction s arbitrary: a)
  case Nil
  show ?case by simp
next
  case (Cons x xs)
  show ?case
  proof (cases a)
    case Nil
    then show ?thesis by (auto split: option.splits)
  next
    case (Cons y ys)
    have "split_once c (x # xs) = Some (a, b) \<longleftrightarrow> x \<noteq> c \<and> x = y \<and> split_once c xs = Some (ys, b)"
      using Cons by auto
    then show ?thesis using Cons Cons.IH [of ys] by auto
  qed
qed

lemma split_once_None: "split_once c s = None \<longleftrightarrow> c \<notin> set s"
  by (induction s) auto

lemma rsplit_once_Some: "rsplit_once c s = Some (a, b) \<longleftrightarrow> s = a @ c # b \<and> c \<notin> set b"
proof -
  have "rsplit_once c s = Some (a, b) \<longleftrightarrow> split_once c (rev s) = Some (rev b, rev a)"
    by (auto simp: rsplit_once_def)
  also have "\<dots> \<longleftrightarrow> rev s = rev (a @ c # b) \<and> c \<notin> set b"
    by (simp add: split_once_Some)
  finally show ?thesis by (simp only: rev_is_rev_conv)
qed

lemma strip_prefix_Some: "strip_prefix p s = Some r \<longleftrightarrow> s = p @ r"
  by (auto simp: strip_prefix_def) (metis append_take_drop_id)

section \<open>White space\<close>

text \<open>
  The Unicode \<open>White_Space\<close> characters in UTF-8, which \<open>trim\<close> and \<open>split_whitespace\<close> remove:
  the number of bytes of the white-space character a string starts with, zero when it starts
  with none, and the same for a reversed string.
\<close>

definition ws3 :: "nat \<Rightarrow> nat \<Rightarrow> nat \<Rightarrow> bool" where
  "ws3 a b c \<longleftrightarrow>
     (a = 0xE1 \<and> b = 0x9A \<and> c = 0x80)
   \<or> (a = 0xE2 \<and> b = 0x80 \<and> (0x80 \<le> c \<and> c \<le> 0x8A \<or> c = 0xA8 \<or> c = 0xA9 \<or> c = 0xAF))
   \<or> (a = 0xE2 \<and> b = 0x81 \<and> c = 0x9F)
   \<or> (a = 0xE3 \<and> b = 0x80 \<and> c = 0x80)"

definition ws2 :: "nat \<Rightarrow> nat \<Rightarrow> bool" where
  "ws2 a b \<longleftrightarrow> a = 0xC2 \<and> (b = 0x85 \<or> b = 0xA0)"

definition ws1 :: "nat \<Rightarrow> bool" where
  "ws1 a \<longleftrightarrow> 9 \<le> a \<and> a \<le> 13 \<or> a = 32"

fun ws_len :: "string \<Rightarrow> nat" where
  "ws_len (a # b # c # r) =
     (if ws1 (code a) then 1 else if ws2 (code a) (code b) then 2
      else if ws3 (code a) (code b) (code c) then 3 else 0)"
| "ws_len [a, b] = (if ws1 (code a) then 1 else if ws2 (code a) (code b) then 2 else 0)"
| "ws_len [a] = (if ws1 (code a) then 1 else 0)"
| "ws_len [] = 0"

fun ws_len_rev :: "string \<Rightarrow> nat" where
  "ws_len_rev (c # b # a # r) =
     (if ws1 (code c) then 1 else if ws2 (code b) (code c) then 2
      else if ws3 (code a) (code b) (code c) then 3 else 0)"
| "ws_len_rev [b, a] = (if ws1 (code b) then 1 else if ws2 (code a) (code b) then 2 else 0)"
| "ws_len_rev [a] = (if ws1 (code a) then 1 else 0)"
| "ws_len_rev [] = 0"

lemma ws_len_le: "ws_len s \<le> length s"
  by (induction s rule: ws_len.induct) auto

lemma ws_len_rev_le: "ws_len_rev s \<le> length s"
  by (induction s rule: ws_len_rev.induct) auto

function trim_start :: "string \<Rightarrow> string" where
  "trim_start s = (if ws_len s = 0 then s else trim_start (drop (ws_len s) s))"
  by pat_completeness auto
termination
proof (relation "measure length")
  fix s assume "ws_len s \<noteq> 0"
  with ws_len_le [of s] show "(drop (ws_len s) s, s) \<in> measure length" by simp
qed simp

function trim_end_rev :: "string \<Rightarrow> string" where
  "trim_end_rev s = (if ws_len_rev s = 0 then s else trim_end_rev (drop (ws_len_rev s) s))"
  by pat_completeness auto
termination
proof (relation "measure length")
  fix s assume "ws_len_rev s \<noteq> 0"
  with ws_len_rev_le [of s] show "(drop (ws_len_rev s) s, s) \<in> measure length" by simp
qed simp

declare trim_start.simps [simp del] trim_end_rev.simps [simp del]

definition trim :: "string \<Rightarrow> string" where
  "trim s = rev (trim_end_rev (rev (trim_start s)))"

text \<open>\<open>str::split_whitespace\<close>: the maximal runs without white space.\<close>

function split_ws :: "string \<Rightarrow> string \<Rightarrow> string list" where
  "split_ws cur s =
     (if ws_len s \<noteq> 0 then
        (if cur = [] then split_ws [] (drop (ws_len s) s)
         else rev cur # split_ws [] (drop (ws_len s) s))
      else case s of
        [] \<Rightarrow> if cur = [] then [] else [rev cur]
      | x # xs \<Rightarrow> split_ws (x # cur) xs)"
  by pat_completeness auto
termination
proof (relation "measure (\<lambda>(cur, s). length s)")
  fix cur s assume "ws_len s \<noteq> 0"
  with ws_len_le [of s]
  show "(([], drop (ws_len s) s), (cur, s)) \<in> measure (\<lambda>(cur, s). length s)" by simp
  then show "(([], drop (ws_len s) s), (cur, s)) \<in> measure (\<lambda>(cur, s). length s)" .
qed auto

declare split_ws.simps [simp del]

definition split_whitespace :: "string \<Rightarrow> string list" where
  "split_whitespace s = split_ws [] s"

section \<open>Numbers in text\<close>

text \<open>
  \<open>str::parse\<close> for an unsigned integer below \<open>bound\<close>: an optional \<open>+\<close>, then at least one decimal
  digit; anything else, and an overflow, is an error.
\<close>

fun parse_digits :: "nat \<Rightarrow> nat \<Rightarrow> string \<Rightarrow> nat option" where
  "parse_digits bound acc [] = Some acc"
| "parse_digits bound acc (c # cs) =
     (if \<not> is_ascii_digit c then None
      else let n = acc * 10 + (code c - 48) in
        if n < bound then parse_digits bound n cs else None)"

definition parse_uint :: "nat \<Rightarrow> string \<Rightarrow> nat option" where
  "parse_uint bound s =
     (let d = (case s of [] \<Rightarrow> [] | c # cs \<Rightarrow> if c = CHR ''+'' then cs else s)
      in if d = [] then None else parse_digits bound 0 d)"

definition parse_u64 :: "string \<Rightarrow> u64 option" where
  "parse_u64 s = map_option of_nat (parse_uint (2 ^ 64) s)"

definition parse_u16 :: "string \<Rightarrow> u16 option" where
  "parse_u16 s = map_option of_nat (parse_uint (2 ^ 16) s)"

definition parse_u8 :: "string \<Rightarrow> u8 option" where
  "parse_u8 s = map_option of_nat (parse_uint (2 ^ 8) s)"

text \<open>\<open>Display\<close> of an unsigned integer.\<close>

fun show_nat :: "nat \<Rightarrow> string" where
  "show_nat n = (if n < 10 then [char_of (48 + n)] else show_nat (n div 10) @ [char_of (48 + n mod 10)])"

declare show_nat.simps [simp del]

lemma parse_digits_append:
  "parse_digits B a (s @ t) = Option.bind (parse_digits B a s) (\<lambda>b. parse_digits B b t)"
  by (induction B a s rule: parse_digits.induct) (auto simp: Let_def)

lemma parse_digits_less: "a < B \<Longrightarrow> parse_digits B a s = Some n \<Longrightarrow> n < B"
  by (induction B a s rule: parse_digits.induct) (auto simp: Let_def split: if_splits)

lemma digit_char:
  assumes "d < 10"
  shows "is_ascii_digit (char_of (48 + d))" and "code (char_of (48 + d)) = 48 + d"
  using assms by (simp_all add: is_ascii_digit_def)

lemma parse_show_nat: "n < B \<Longrightarrow> parse_digits B 0 (show_nat n) = Some n"
proof (induction n rule: show_nat.induct)
  case (1 n)
  show ?case
  proof (cases "n < 10")
    case True
    then show ?thesis using "1.prems" digit_char [OF True]
      by (simp add: show_nat.simps [of n] del: code_char_of)
  next
    case False
    have "n div 10 < B" using "1.prems" by simp
    then have "parse_digits B 0 (show_nat (n div 10)) = Some (n div 10)"
      using "1.IH" False by simp
    moreover have "n div 10 * 10 + n mod 10 = n" by simp
    ultimately show ?thesis using False "1.prems" digit_char [of "n mod 10"]
      by (simp add: show_nat.simps [of n] parse_digits_append del: code_char_of)
  qed
qed

lemma show_nat_digits: "c \<in> set (show_nat n) \<Longrightarrow> is_ascii_digit c"
proof (induction n rule: show_nat.induct)
  case (1 n)
  then show ?case using digit_char(1) [of n] digit_char(1) [of "n mod 10"]
    by (subst (asm) (2) show_nat.simps) (auto split: if_splits)
qed

lemma show_nat_nonempty [simp]: "show_nat n \<noteq> []"
  by (subst show_nat.simps) simp

theorem parse_uint_show_nat: "n < B \<Longrightarrow> parse_uint B (show_nat n) = Some n"
proof -
  assume n: "n < B"
  obtain c cs where s: "show_nat n = c # cs" by (cases "show_nat n") auto
  then have "is_ascii_digit c" using show_nat_digits [of c n] by simp
  then have "c \<noteq> CHR ''+''" by (auto simp: is_ascii_digit_def code_def)
  then show ?thesis using parse_show_nat [OF n] s by (simp add: parse_uint_def)
qed

section \<open>Big-endian byte order\<close>

text \<open>\<open>slice.get(a..b)\<close>.\<close>

definition get_slice :: "'a list \<Rightarrow> nat \<Rightarrow> nat \<Rightarrow> 'a list option" where
  "get_slice xs a b = (if a \<le> b \<and> b \<le> length xs then Some (take (b - a) (drop a xs)) else None)"

lemma get_slice_mid:
  "get_slice (pre @ mid @ post) (length pre) (length pre + length mid) = Some mid"
  by (simp add: get_slice_def)

text \<open>\<open>String::from_utf8\<close>: the bytes when they are well-formed UTF-8.\<close>

abbreviation cont :: "u8 \<Rightarrow> bool" where "cont b \<equiv> 0x80 \<le> b \<and> b \<le> 0xBF"

fun utf8_ok :: "bytes \<Rightarrow> bool" where
  "utf8_ok [] = True"
| "utf8_ok (a # r) =
     (if a < 0x80 then utf8_ok r
      else case r of
        [] \<Rightarrow> False
      | b # r1 \<Rightarrow>
          if 0xC2 \<le> a \<and> a \<le> 0xDF then cont b \<and> utf8_ok r1
          else (case r1 of
            [] \<Rightarrow> False
          | c # r2 \<Rightarrow>
              if 0xE0 \<le> a \<and> a \<le> 0xEF then
                cont b \<and> (a = 0xE0 \<longrightarrow> 0xA0 \<le> b) \<and> (a = 0xED \<longrightarrow> b \<le> 0x9F) \<and> cont c \<and> utf8_ok r2
              else (case r2 of
                [] \<Rightarrow> False
              | d # r3 \<Rightarrow>
                  0xF0 \<le> a \<and> a \<le> 0xF4 \<and> cont b \<and> (a = 0xF0 \<longrightarrow> 0x90 \<le> b) \<and> (a = 0xF4 \<longrightarrow> b \<le> 0x8F)
                  \<and> cont c \<and> cont d \<and> utf8_ok r3)))"

definition from_utf8 :: "bytes \<Rightarrow> string option" where
  "from_utf8 bs = (if utf8_ok bs then Some (map (\<lambda>b. char_of (unat b)) bs) else None)"

lemma char_of_as_byte [simp]: "char_of (unat (of_nat (code c) :: u8)) = c"
proof -
  have "unat (of_nat (code c) :: u8) = code c" using code_less [of c] by (simp add: unat_of_nat)
  then show ?thesis by simp
qed

lemma from_utf8_as_bytes [simp]: "utf8_ok (as_bytes s) \<Longrightarrow> from_utf8 (as_bytes s) = Some s"
  by (simp add: from_utf8_def as_bytes_def comp_def map_idI)

text \<open>\<open>to_be_bytes\<close> and \<open>from_be_bytes\<close>, for any number of bytes.\<close>

fun be_bytes :: "nat \<Rightarrow> nat \<Rightarrow> bytes" where
  "be_bytes 0 n = []"
| "be_bytes (Suc k) n = of_nat (n div 256 ^ k mod 256) # be_bytes k n"

fun be_nat :: "bytes \<Rightarrow> nat" where
  "be_nat [] = 0"
| "be_nat (b # bs) = unat b * 256 ^ length bs + be_nat bs"

definition be64 :: "u64 \<Rightarrow> bytes" where
  "be64 x = be_bytes 8 (unat x)"

definition from_be64 :: "bytes \<Rightarrow> u64" where
  "from_be64 bs = of_nat (be_nat bs)"

definition be32 :: "nat \<Rightarrow> bytes" where
  \<comment> \<open>\<open>(n as u32).to_be_bytes()\<close>\<close>
  "be32 n = be_bytes 4 (n mod 2 ^ 32)"

lemma length_be_bytes [simp]: "length (be_bytes k n) = k"
  by (induction k) auto

lemma length_be64 [simp]: "length (be64 x) = 8"
  by (simp add: be64_def)

lemma length_be32 [simp]: "length (be32 x) = 4"
  by (simp add: be32_def)

lemma be_nat_less: "be_nat bs < 256 ^ length bs"
proof (induction bs)
  case Nil
  show ?case by simp
next
  case (Cons b bs)
  let ?p = "(256 :: nat) ^ length bs"
  have "unat b < 256" using unsigned_less [of b] by simp
  then have "unat b + 1 \<le> 256" by simp
  then have "(unat b + 1) * ?p \<le> 256 * ?p" by (rule mult_le_mono1)
  then have "unat b * ?p + ?p \<le> 256 * ?p" by (simp only: distrib_right mult_1)
  with Cons have "unat b * ?p + be_nat bs < 256 * ?p" by linarith
  then show ?case by simp
qed

lemma be_nat_be_bytes: "be_nat (be_bytes k n) = n mod 256 ^ k"
proof (induction k)
  case 0
  show ?case by simp
next
  case (Suc k)
  have "unat (of_nat (n div 256 ^ k mod 256) :: u8) = n div 256 ^ k mod 256"
    by (simp add: unat_of_nat)
  then show ?case
    using mod_mult2_eq [of n "256 ^ k" 256]
    by (simp add: Suc.IH mult.commute)
qed

lemma be_bytes_inj: "a < 256 ^ k \<Longrightarrow> b < 256 ^ k \<Longrightarrow> be_bytes k a = be_bytes k b \<longleftrightarrow> a = b"
  by (metis be_nat_be_bytes mod_less)

lemma from_be64_be64 [simp]: "from_be64 (be64 x) = x"
proof -
  have "unat x < 256 ^ 8" using unsigned_less [of x] by simp
  then show ?thesis
    by (simp add: from_be64_def be64_def be_nat_be_bytes)
qed

lemma be64_inj [simp]: "be64 x = be64 y \<longleftrightarrow> x = y"
  by (metis from_be64_be64)

lemma be32_inj: "a < 2 ^ 32 \<Longrightarrow> b < 2 ^ 32 \<Longrightarrow> be32 a = be32 b \<longleftrightarrow> a = b"
  unfolding be32_def by (subst be_bytes_inj) simp_all

text \<open>Big-endian keys sort like the numbers they encode.\<close>

lemma be_bytes_less:
  "a < 256 ^ k \<Longrightarrow> b < 256 ^ k \<Longrightarrow> be_bytes k a < be_bytes k b \<longleftrightarrow> a < b"
proof (induction k arbitrary: a b)
  case 0
  then show ?case by simp
next
  case (Suc k)
  let ?p = "(256 :: nat) ^ k"
  have low: "be_bytes k n = be_bytes k (n mod ?p)" for n
  proof -
    have "be_bytes j n = be_bytes j (n mod ?p)" if "j \<le> k" for j
      using that
    proof (induction j)
      case (Suc j)
      have "n mod ?p div 256 ^ j mod 256 = n div 256 ^ j mod 256"
      proof -
        have "?p = 256 ^ j * 256 ^ (k - j)" using Suc.prems by (simp flip: power_add)
        then have "n mod ?p div 256 ^ j = n div 256 ^ j mod 256 ^ (k - j)"
          by (simp add: mod_mult2_eq)
        moreover have "(256 :: nat) dvd 256 ^ (k - j)" using Suc.prems by (simp add: dvd_power)
        ultimately show ?thesis by (simp add: mod_mod_cancel)
      qed
      with Suc show ?case by simp
    qed simp
    then show ?thesis by simp
  qed
  have hi: "a div ?p < 256" "b div ?p < 256"
    using Suc.prems by (simp_all add: less_mult_imp_div_less mult.commute)
  have w: "(of_nat x :: u8) < of_nat y \<longleftrightarrow> x < y" "(of_nat x :: u8) = of_nat y \<longleftrightarrow> x = y"
    if "x < 256" "y < 256" for x y
    using that by (simp_all add: word_less_nat_alt unat_of_nat word_unat_eq_iff)
  have lt: "be_bytes k a < be_bytes k b \<longleftrightarrow> a mod ?p < b mod ?p"
    using Suc.IH [of "a mod ?p" "b mod ?p"] low [of a] low [of b] by simp
  have split: "a < b \<longleftrightarrow> a div ?p < b div ?p \<or> a div ?p = b div ?p \<and> a mod ?p < b mod ?p"
  proof -
    have ab: "a = a div ?p * ?p + a mod ?p" "b = b div ?p * ?p + b mod ?p"
      by (simp_all only: div_mult_mod_eq)
    show ?thesis
    proof (cases "a div ?p = b div ?p")
      case True
      then have "a < b \<longleftrightarrow> a mod ?p < b mod ?p"
        by (metis ab add_less_cancel_left)
      with True show ?thesis by simp
    next
      case False
      then show ?thesis
        by (metis div_le_mono less_le_not_le linorder_le_cases order_le_less)
    qed
  qed
  show ?case using hi w lt split by simp
qed

lemma be64_less: "be64 x < be64 y \<longleftrightarrow> x < y"
  unfolding be64_def using unsigned_less [of x] unsigned_less [of y]
  by (subst be_bytes_less) (simp_all add: word_less_nat_alt)

lemma u64_max_max: "(a :: u64) \<le> u64_max"
  using unat_lt64 [of a] by (simp add: word_le_nat_alt del: unat_lt64)

lemma u8_le_max: "(b :: u8) \<le> 0xFF"
proof -
  have "unat b < 256" using unsigned_less [of b] by simp
  then show ?thesis by (simp add: word_le_nat_alt)
qed

text \<open>Byte strings are compared lexicographically.\<close>

lemma append_less:
  "length a = length b \<Longrightarrow> a @ x < b @ y \<longleftrightarrow> a < b \<or> a = b \<and> x < (y :: 'a :: linorder list)"
  by (induction a b rule: list_induct2) auto

lemma append_le:
  "length a = length b \<Longrightarrow> a @ x \<le> b @ y \<longleftrightarrow> a < b \<or> a = b \<and> x \<le> (y :: 'a :: linorder list)"
  by (induction a b rule: list_induct2) auto

lemma ff_le: "length x = n \<Longrightarrow> (x :: bytes) \<le> replicate n 0xFF"
proof (induction n arbitrary: x)
  case (Suc n)
  then obtain b y where "x = b # y" "length y = n" by (cases x) auto
  moreover have "b \<le> 0xFF" by (rule u8_le_max)
  ultimately show ?case using Suc.IH [of y] by auto
qed simp

lemma zeros_le: "length x = n \<Longrightarrow> replicate n 0 \<le> (x :: bytes)"
proof (induction n arbitrary: x)
  case (Suc n)
  then obtain b y where "x = b # y" "length y = n" by (cases x) auto
  then show ?case using Suc.IH [of y] by (auto simp: word_gt_0)
qed simp

lemma list_less_snoc: "length x = length y \<Longrightarrow> x < y @ [z] \<longleftrightarrow> x \<le> (y :: 'a :: linorder list)"
  by (induction x y rule: list_induct2) auto

section \<open>Hash sets\<close>

text \<open>
  A \<open>HashSet\<close> collected from an iterator is represented by the list its iteration yields. The
  order is unspecified, so it is a parameter \<open>hs\<close> of every definition that iterates over one;
  \<open>hash_order hs\<close> says that iteration yields each element once.
\<close>

definition hash_order :: "('a list \<Rightarrow> 'a list) \<Rightarrow> bool" where
  "hash_order hs \<longleftrightarrow> (\<forall>xs. distinct (hs xs) \<and> set (hs xs) = set xs)"

lemma hash_order_remdups: "hash_order remdups"
  by (simp add: hash_order_def)

lemma hash_orderD:
  assumes "hash_order hs"
  shows "distinct (hs xs)" and "set (hs xs) = set xs"
  using assms by (simp_all add: hash_order_def)

lemma in_map_filter: "y \<in> set (List.map_filter f xs) \<longleftrightarrow> (\<exists>x \<in> set xs. f x = Some y)"
  by (induction xs) (auto simp: map_filter_simps split: option.splits)

section \<open>Orderings and sorting\<close>

text \<open>\<open>std::cmp::Ordering\<close> and \<open>Ord::cmp\<close>; pairs and byte strings are ordered lexicographically.\<close>

datatype ordering = Less | Equal | Greater

definition cmp :: "'a :: linorder \<Rightarrow> 'a \<Rightarrow> ordering" where
  "cmp a b = (if a < b then Less else if a = b then Equal else Greater)"

text \<open>\<open>slice::sort_by\<close>: a stable sort by a comparison, written as an insertion sort.\<close>

primrec insert_by :: "('a \<Rightarrow> 'a \<Rightarrow> ordering) \<Rightarrow> 'a \<Rightarrow> 'a list \<Rightarrow> 'a list" where
  "insert_by c x [] = [x]"
| "insert_by c x (y # ys) = (if c x y = Greater then y # insert_by c x ys else x # y # ys)"

definition sort_by :: "('a \<Rightarrow> 'a \<Rightarrow> ordering) \<Rightarrow> 'a list \<Rightarrow> 'a list" where
  "sort_by c xs = foldr (insert_by c) xs []"

lemma cmp_simps [simp]:
  "cmp a b = Less \<longleftrightarrow> a < b" "cmp a b = Equal \<longleftrightarrow> a = b" "cmp a b = Greater \<longleftrightarrow> b < a"
  by (auto simp: cmp_def)

lemma set_insert_by [simp]: "set (insert_by c x ys) = insert x (set ys)"
  by (induction ys) auto

lemma length_insert_by [simp]: "length (insert_by c x ys) = Suc (length ys)"
  by (induction ys) auto

lemma distinct_insert_by [simp]: "distinct (insert_by c x ys) \<longleftrightarrow> x \<notin> set ys \<and> distinct ys"
  by (induction ys) auto

lemma sort_by_simps [simp]: "sort_by c [] = []" "sort_by c (x # xs) = insert_by c x (sort_by c xs)"
  by (simp_all add: sort_by_def)

lemma set_sort_by [simp]: "set (sort_by c xs) = set xs"
  by (induction xs) auto

lemma length_sort_by [simp]: "length (sort_by c xs) = length xs"
  by (induction xs) auto

lemma distinct_sort_by [simp]: "distinct (sort_by c xs) = distinct xs"
  by (induction xs) auto

text \<open>A comparison that is total and transitive sorts.\<close>

lemma sorted_sort_by:
  assumes total: "\<And>a b. c a b = Greater \<Longrightarrow> c b a \<noteq> Greater"
    and trans: "\<And>a b d. c a b \<noteq> Greater \<Longrightarrow> c b d \<noteq> Greater \<Longrightarrow> c a d \<noteq> Greater"
  shows "sorted_wrt (\<lambda>a b. c a b \<noteq> Greater) (sort_by c xs)"
proof -
  have "sorted_wrt (\<lambda>a b. c a b \<noteq> Greater) (insert_by c x ys)" if "sorted_wrt (\<lambda>a b. c a b \<noteq> Greater) ys" for x ys
    using that
  proof (induction ys)
    case (Cons a ys)
    then show ?case
    proof (cases "c x a = Greater")
      case False
      then have "\<forall>z \<in> set ys. c x z \<noteq> Greater" using Cons.prems trans [of x a] by simp
      then show ?thesis using False Cons.prems by simp
    qed (use Cons total in simp)
  qed simp
  then show ?thesis by (induction xs) auto
qed

section \<open>The hex codec\<close>

text \<open>
  The \<open>hex\<close> crate, which is not part of the repository, as an interface: \<open>encode\<close> writes two
  lowercase digits per byte, \<open>decode\<close> accepts both cases and fails on anything that is not an
  even number of hexadecimal digits.
\<close>

locale hex_codec =
  fixes enc :: "bytes \<Rightarrow> string" and dec :: "string \<Rightarrow> bytes option"
  assumes dec_enc: "dec (enc b) = Some b"
    and enc_lower: "to_ascii_lowercase (enc b) = enc b"
    and dec_eq: "dec s = Some b \<Longrightarrow> to_ascii_lowercase s = enc b"
    and dec_case: "eq_ignore_ascii_case s t \<Longrightarrow> dec s = dec t"
    and length_enc: "length (enc b) = 2 * length b"
    and enc_append: "enc (a @ b) = enc a @ enc b"
begin

text \<open>An even-length prefix of an encoding, in any case, decodes to a prefix of the bytes.\<close>

lemma dec_prefix:
  assumes "dec s = Some b" and "length p = 2 * n" and "length p \<le> length s"
    and "eq_ignore_ascii_case (take (length p) s) p"
  shows "dec p = Some (take n b)"
proof -
  have "length s = 2 * length b" by (metis assms(1) dec_eq length_enc length_to_ascii_lowercase)
  then have n: "n \<le> length b" using assms(2,3) by simp
  have "to_ascii_lowercase p = take (length p) (to_ascii_lowercase s)"
    using assms(4) by (simp add: eq_ignore_ascii_case_def to_ascii_lowercase_def take_map)
  also have "\<dots> = take (2 * n) (enc (take n b) @ enc (drop n b))"
    by (simp add: dec_eq [OF assms(1)] assms(2) flip: enc_append)
  also have "\<dots> = enc (take n b)" using n by (simp add: length_enc)
  finally show ?thesis by (metis dec_case dec_enc enc_lower eq_ignore_ascii_case_def)
qed

lemma dec_length: "dec s = Some b \<Longrightarrow> length s = 2 * length b"
  by (metis dec_eq length_enc length_to_ascii_lowercase)

lemma dec_Some_iff: "dec s = Some b \<longleftrightarrow> to_ascii_lowercase s = enc b"
  by (metis dec_enc dec_eq dec_case enc_lower eq_ignore_ascii_case_def)

lemma enc_inj: "enc a = enc b \<longleftrightarrow> a = b"
  by (metis dec_enc option.inject)

lemma dec_same: "dec s = Some b \<Longrightarrow> dec t = Some b \<Longrightarrow> eq_ignore_ascii_case s t"
  by (simp add: eq_ignore_ascii_case_def dec_Some_iff)

end

text \<open>A codec with the documented behaviour, used to instantiate the interface.\<close>

definition hex_digit :: "nat \<Rightarrow> char" where
  "hex_digit n = char_of (if n < 10 then 48 + n else 87 + n)"

definition hex_value :: "char \<Rightarrow> nat option" where
  "hex_value c =
     (if is_ascii_digit c then Some (code c - 48)
      else if 97 \<le> code c \<and> code c \<le> 102 then Some (code c - 87)
      else if 65 \<le> code c \<and> code c \<le> 70 then Some (code c - 55) else None)"

fun hexe :: "bytes \<Rightarrow> string" where
  "hexe [] = []"
| "hexe (b # bs) = hex_digit (unat b div 16) # hex_digit (unat b mod 16) # hexe bs"

fun hexd :: "string \<Rightarrow> bytes option" where
  "hexd [] = Some []"
| "hexd [c] = None"
| "hexd (c # d # r) =
     (case (hex_value c, hex_value d, hexd r) of
        (Some h, Some l, Some bs) \<Rightarrow> Some (of_nat (16 * h + l) # bs)
      | _ \<Rightarrow> None)"

lemma hex_value_digit [simp]: "n < 16 \<Longrightarrow> hex_value (hex_digit n) = Some n"
  by (auto simp: hex_value_def hex_digit_def is_ascii_digit_def)

lemma hex_value_less: "hex_value c = Some n \<Longrightarrow> n < 16"
  by (auto simp: hex_value_def is_ascii_digit_def split: if_splits)

lemma hex_digit_value: "hex_value c = Some n \<Longrightarrow> hex_digit n = ascii_lower c"
  by (auto simp: hex_value_def hex_digit_def is_ascii_digit_def ascii_lower_def split: if_splits)

lemma hex_value_lower [simp]: "hex_value (ascii_lower c) = hex_value c"
  by (auto simp: hex_value_def is_ascii_digit_def code_ascii_lower)

lemma lower_hex_digit [simp]: "n < 16 \<Longrightarrow> ascii_lower (hex_digit n) = hex_digit n"
  by (auto simp: hex_digit_def ascii_lower_def)

lemma hexd_lower: "hexd (to_ascii_lowercase s) = hexd s"
  by (induction s rule: hexd.induct) (simp_all add: to_ascii_lowercase_def)

lemma hexd_Some: "hexd s = Some b \<Longrightarrow> to_ascii_lowercase s = hexe b"
proof (induction s arbitrary: b rule: hexd.induct)
  case (3 c d r)
  then obtain h l bs where p: "hex_value c = Some h" "hex_value d = Some l" "hexd r = Some bs"
      and b: "b = of_nat (16 * h + l) # bs"
    by (auto split: option.splits)
  note lt = hex_value_less [OF p(1)] hex_value_less [OF p(2)]
  have "unat (of_nat (16 * h + l) :: u8) = 16 * h + l"
    using lt by (simp add: unat_of_nat del: of_nat_add of_nat_mult)
  then show ?case
    using lt b "3.IH" [OF p(3)] hex_digit_value [OF p(1)] hex_digit_value [OF p(2)]
    by (simp add: to_ascii_lowercase_def del: of_nat_add of_nat_mult)
qed (auto simp: to_ascii_lowercase_def)

lemma nibbles: "unat (b :: u8) div 16 < 16" "unat b mod 16 < 16"
  "(of_nat (16 * (unat b div 16) + unat b mod 16) :: u8) = b"
proof -
  have "unat b < 256" using unsigned_less [of b] by simp
  then show "unat b div 16 < 16" by simp
  have "16 * (unat b div 16) + unat b mod 16 = unat b" by simp
  then show "(of_nat (16 * (unat b div 16) + unat b mod 16) :: u8) = b" by (simp del: mult_div_mod_eq)
qed simp

lemma hexd_hexe: "hexd (hexe b) = Some b"
  by (induction b) (simp_all add: nibbles del: of_nat_add of_nat_mult)

lemma hexe_lower: "to_ascii_lowercase (hexe b) = hexe b"
  by (induction b) (simp_all add: to_ascii_lowercase_def nibbles)

lemma length_hexe: "length (hexe b) = 2 * length b"
  by (induction b) simp_all

lemma hexe_append: "hexe (a @ b) = hexe a @ hexe b"
  by (induction a) simp_all

interpretation ref_hex: hex_codec hexe hexd
proof unfold_locales
  show "eq_ignore_ascii_case s t \<Longrightarrow> hexd s = hexd t" for s t
    unfolding eq_ignore_ascii_case_def by (metis hexd_lower)
qed (simp_all add: hexd_hexe hexe_lower hexd_Some length_hexe hexe_append)

lemma ref_hex_codec: "hex_codec hexe hexd"
  by unfold_locales

end
