(* ===== verification/Event.thy ===== *)
theory Event
  imports Prelude
begin

text \<open>
  The wire event (\<open>src/src/event.rs\<close>) and the small per-NIP predicates on it: NIP-01 identity and
  signature verification, NIP-13 proof of work, NIP-33 addressable kinds, NIP-40 expiration,
  NIP-70 protected events and NIP-78 application data. The cryptographic and serialization crates
  the code calls (\<open>sha2\<close>, \<open>secp256k1\<close>, \<open>hex\<close>, \<open>serde_json\<close>) are the fields of a record that every
  definition using them takes as its first argument.
\<close>

section \<open>Events and the external functions\<close>

record event =
  ev_id :: string
  pubkey :: string
  created_at :: u64
  kind :: u64
  tags :: "tag list"
  content :: string
  sig :: string

record ext =
  sha256 :: "bytes \<Rightarrow> bytes"
  hex_encode :: "bytes \<Rightarrow> string"
  hex_decode :: "string \<Rightarrow> bytes option"
  xonly_pubkey_ok :: "bytes \<Rightarrow> bool"
  schnorr_verify :: "bytes \<Rightarrow> bytes \<Rightarrow> bytes \<Rightarrow> bool"
  schnorr_sign :: "bytes \<Rightarrow> bytes \<Rightarrow> bytes \<Rightarrow> string"
  json_tuple :: "u8 \<times> string \<times> u64 \<times> u64 \<times> tag list \<times> string \<Rightarrow> bytes"
  json_of_event :: "event \<Rightarrow> bytes"
  event_of_json :: "bytes \<Rightarrow> event option"

definition ID_BYTES :: nat where "ID_BYTES = 32"
definition PK_BYTES :: nat where "PK_BYTES = 32"
definition SIG_BYTES :: nat where "SIG_BYTES = 64"

lemmas nip01_consts [simp] = ID_BYTES_def PK_BYTES_def SIG_BYTES_def

text \<open>\<open>hex::decode(..).ok()?.try_into().ok()\<close>: a fixed-size array or nothing.\<close>

definition decode_array :: "ext \<Rightarrow> nat \<Rightarrow> string \<Rightarrow> bytes option" where
  "decode_array X n s =
     (case hex_decode X s of None \<Rightarrow> None | Some b \<Rightarrow> if length b = n then Some b else None)"

definition id_bytes :: "ext \<Rightarrow> event \<Rightarrow> bytes option" where
  "id_bytes X e = decode_array X ID_BYTES (ev_id e)"

definition pubkey_bytes :: "ext \<Rightarrow> event \<Rightarrow> bytes option" where
  "pubkey_bytes X e = decode_array X PK_BYTES (pubkey e)"

lemma decode_array_Some:
  "decode_array X n s = Some b \<longleftrightarrow> hex_decode X s = Some b \<and> length b = n"
  by (auto simp: decode_array_def split: option.splits if_splits)

section \<open>NIP-01: identity, verification, signing\<close>

definition canonical_payload :: "ext \<Rightarrow> event \<Rightarrow> bytes" where
  "canonical_payload X e = json_tuple X (0, pubkey e, created_at e, kind e, tags e, content e)"

definition compute_id :: "ext \<Rightarrow> event \<Rightarrow> string" where
  "compute_id X e = hex_encode X (sha256 X (canonical_payload X e))"

datatype verify_error =
    Msg string
  | HexError
  | PubkeyError
  | SignatureError

definition verify :: "ext \<Rightarrow> event \<Rightarrow> verify_error + unit" where
  "verify X e =
     (if length (ev_id e) \<noteq> ID_BYTES * 2 \<or> length (pubkey e) \<noteq> PK_BYTES * 2
         \<or> length (sig e) \<noteq> SIG_BYTES * 2
      then Inl (Msg ''invalid id/pubkey/sig length'')
      else if compute_id X e \<noteq> ev_id e then Inl (Msg ''invalid event id'')
      else case id_bytes X e of
        None \<Rightarrow> Inl (Msg ''invalid id hex'')
      | Some idb \<Rightarrow> (case hex_decode X (pubkey e) of
          None \<Rightarrow> Inl HexError
        | Some pk \<Rightarrow>
            if length pk \<noteq> PK_BYTES then Inl (Msg ''invalid pubkey length'')
            else if \<not> xonly_pubkey_ok X pk then Inl PubkeyError
            else (case hex_decode X (sig e) of
              None \<Rightarrow> Inl HexError
            | Some sg \<Rightarrow>
                if length sg \<noteq> SIG_BYTES then Inl (Msg ''invalid signature length'')
                else if schnorr_verify X sg idb pk then Inr () else Inl SignatureError)))"

definition is_ok :: "'e + 'a \<Rightarrow> bool" where
  "is_ok r \<longleftrightarrow> (case r of Inl _ \<Rightarrow> False | Inr _ \<Rightarrow> True)"

lemma is_ok_simps [simp]: "is_ok (Inl x) = False" "is_ok (Inr y) = True"
  by (simp_all add: is_ok_def)

text \<open>Signing; \<open>rng\<close> is the outcome of \<open>getrandom::fill\<close>.\<close>

definition sign :: "ext \<Rightarrow> bytes option \<Rightarrow> bytes \<Rightarrow> event \<Rightarrow> verify_error + event" where
  "sign X rng keypair e =
     (let e' = e\<lparr>ev_id := compute_id X e\<rparr> in
      case id_bytes X e' of
        None \<Rightarrow> Inl (Msg ''invalid id'')
      | Some idb \<Rightarrow> (case rng of
          None \<Rightarrow> Inl (Msg ''rng failure'')
        | Some aux \<Rightarrow> Inr (e'\<lparr>sig := schnorr_sign X idb keypair aux\<rparr>)))"

definition is_replaceable_kind :: "u64 \<Rightarrow> bool" where
  "is_replaceable_kind k \<longleftrightarrow> k = 0 \<or> k = 3 \<or> (10000 \<le> k \<and> k < 20000)"

text \<open>
  A verified event is exactly one whose three hex fields have their sizes, whose id is the hash
  of its canonical serialization and whose signature verifies over the decoded id.
\<close>

lemma verify_ok_iff:
  "is_ok (verify X e) \<longleftrightarrow>
     length (ev_id e) = 64 \<and> length (pubkey e) = 64 \<and> length (sig e) = 128
     \<and> compute_id X e = ev_id e
     \<and> (\<exists>idb pk sg. id_bytes X e = Some idb \<and> pubkey_bytes X e = Some pk
          \<and> decode_array X 64 (sig e) = Some sg
          \<and> xonly_pubkey_ok X pk \<and> schnorr_verify X sg idb pk)"
  unfolding verify_def pubkey_bytes_def
  by (auto simp: decode_array_Some split: option.splits)

lemma compute_id_sig_irrelevant [simp]:
  "compute_id X (e\<lparr>sig := s\<rparr>) = compute_id X e" "compute_id X (e\<lparr>ev_id := i\<rparr>) = compute_id X e"
  by (simp_all add: compute_id_def canonical_payload_def)

section \<open>NIP-13: proof of work\<close>

text \<open>
  The nested loop over bytes and over bits 7 down to 0; the flag says that the outer loop was
  left by \<open>break 'outer\<close>.
\<close>

fun lzb_bits :: "u8 \<Rightarrow> nat list \<Rightarrow> nat \<Rightarrow> nat \<times> bool" where
  "lzb_bits byte [] count = (count, False)"
| "lzb_bits byte (b # bs) count =
     (if byte AND push_bit b 1 = 0 then lzb_bits byte bs (count + 1) else (count, True))"

fun lzb_bytes :: "bytes \<Rightarrow> nat \<Rightarrow> nat" where
  "lzb_bytes [] count = count"
| "lzb_bytes (x # xs) count =
     (case lzb_bits x [7, 6, 5, 4, 3, 2, 1, 0] count of
        (c, True) \<Rightarrow> c
      | (c, False) \<Rightarrow> lzb_bytes xs c)"

definition leading_zero_bits :: "bytes \<Rightarrow> nat" where
  "leading_zero_bits digest = lzb_bytes digest 0"

definition pow_verify :: "ext \<Rightarrow> event \<Rightarrow> u8 \<Rightarrow> bool" where
  "pow_verify X e required =
     (case id_bytes X e of None \<Rightarrow> False | Some idb \<Rightarrow> leading_zero_bits idb \<ge> unat required)"

text \<open>The digest as one bit string, most significant bit first.\<close>

definition digest_bits :: "bytes \<Rightarrow> bool list" where
  "digest_bits ds = concat (map (\<lambda>x. map (bit x) [7, 6, 5, 4, 3, 2, 1, 0]) ds)"

lemma and_push_bit_one: "(x :: u8) AND push_bit b 1 = 0 \<longleftrightarrow> \<not> bit x b"
  by (simp add: and_exp_eq_0_iff_not_bit)

lemma lzb_bits_spec:
  "lzb_bits x bs c = (c + length (takeWhile Not (map (bit x) bs)), \<exists>b \<in> set bs. bit x b)"
  by (induction bs arbitrary: c) (auto simp: and_exp_eq_0_iff_not_bit)

lemma lzb_bytes_spec: "lzb_bytes ds c = c + length (takeWhile Not (digest_bits ds))"
proof (induction ds arbitrary: c)
  case Nil
  show ?case by (simp add: digest_bits_def)
next
  case (Cons x xs)
  let ?bs = "[7, 6, 5, 4, 3, 2, 1, 0 :: nat]"
  have d: "digest_bits (x # xs) = map (bit x) ?bs @ digest_bits xs"
    by (simp add: digest_bits_def)
  show ?case
  proof (cases "\<exists>b \<in> set ?bs. bit x b")
    case True
    then have "\<exists>v \<in> set (map (bit x) ?bs). v" by auto
    then have "takeWhile Not (map (bit x) ?bs @ digest_bits xs) = takeWhile Not (map (bit x) ?bs)"
      by (auto intro: takeWhile_append1)
    then show ?thesis using True d by (simp add: lzb_bits_spec del: list.map)
  next
    case False
    then show ?thesis using d Cons.IH by (simp add: lzb_bits_spec)
  qed
qed

lemma leading_zero_bits_spec: "leading_zero_bits ds = length (takeWhile Not (digest_bits ds))"
  by (simp add: leading_zero_bits_def lzb_bytes_spec)

lemma length_digest_bits [simp]: "length (digest_bits ds) = 8 * length ds"
  by (induction ds) (simp_all add: digest_bits_def)

lemma leading_zero_bits_le: "leading_zero_bits ds \<le> 8 * length ds"
  unfolding leading_zero_bits_spec using length_takeWhile_le [of Not "digest_bits ds"] by simp

section \<open>NIP-33, NIP-40, NIP-70, NIP-78\<close>

definition is_param_replaceable_kind :: "u64 \<Rightarrow> bool" where
  "is_param_replaceable_kind k \<longleftrightarrow> 30000 \<le> k \<and> k \<le> 39999"

definition dtag :: "event \<Rightarrow> string" where
  "dtag e = (case List.find (\<lambda>t. length t \<ge> 2 \<and> t ! 0 = ''d'') (tags e) of
               None \<Rightarrow> [] | Some t \<Rightarrow> t ! 1)"

definition EXPIRATION_TAG :: string where "EXPIRATION_TAG = ''expiration''"

text \<open>\<open>expiry_fields\<close>: the earliest well-formed value of any \<open>expiration\<close> tag.\<close>

definition expiry_fields :: "tag list \<Rightarrow> u64 option" where
  "expiry_fields ts =
     (case List.map_filter (\<lambda>t. parse_u64 (t ! 1))
             (filter (\<lambda>t. length t \<ge> 2 \<and> t ! 0 = EXPIRATION_TAG) ts) of
        [] \<Rightarrow> None | v # vs \<Rightarrow> Some (foldl min v vs))"

definition expiry :: "event \<Rightarrow> u64 option" where
  "expiry e = expiry_fields (tags e)"

definition first_is :: "string \<Rightarrow> tag \<Rightarrow> bool" where
  \<comment> \<open>\<open>t.first().is_some_and(|n| n == name)\<close>\<close>
  "first_is name t \<longleftrightarrow> (case t of [] \<Rightarrow> False | n # _ \<Rightarrow> n = name)"

definition has_malformed_expiration :: "event \<Rightarrow> bool" where
  "has_malformed_expiration e \<longleftrightarrow>
     (\<exists>t \<in> set (filter (first_is EXPIRATION_TAG) (tags e)).
        length t < 2 \<or> parse_u64 (t ! 1) = None)"

definition tags_protected :: "tag list \<Rightarrow> bool" where
  "tags_protected ts \<longleftrightarrow> (\<exists>t \<in> set ts. first_is ''-'' t)"

definition is_protected :: "event \<Rightarrow> bool" where
  "is_protected e = tags_protected (tags e)"

definition relay_authored :: "string \<Rightarrow> string option \<Rightarrow> bool" where
  "relay_authored pk relay_pubkey \<longleftrightarrow>
     (case relay_pubkey of None \<Rightarrow> False | Some r \<Rightarrow> eq_ignore_ascii_case pk r)"

definition hidden_from_anonymous :: "event \<Rightarrow> string option \<Rightarrow> bool" where
  "hidden_from_anonymous e relay_pubkey \<longleftrightarrow>
     is_protected e \<and> \<not> relay_authored (pubkey e) relay_pubkey"

definition is_app_specific_kind :: "u64 \<Rightarrow> bool" where
  "is_app_specific_kind k \<longleftrightarrow> k = 78 \<or> k = 30078"

definition is_app_specific :: "event \<Rightarrow> bool" where
  "is_app_specific e = is_app_specific_kind (kind e)"

lemma first_is_iff: "first_is n t \<longleftrightarrow> t \<noteq> [] \<and> t ! 0 = n"
  by (cases t) (auto simp: first_is_def)

lemma foldl_min_le: "foldl min v vs \<le> (w :: u64) \<longleftrightarrow> (\<exists>x \<in> set (v # vs). x \<le> w)"
  by (induction vs arbitrary: v) (auto simp: min_le_iff_disj)

lemma foldl_min_in: "foldl min v vs \<in> set ((v :: u64) # vs)"
proof (induction vs arbitrary: v)
  case (Cons w ws)
  have "foldl min (min v w) ws \<in> set (min v w # ws)" by (rule Cons.IH)
  then show ?case by (auto simp: min_def [of v w] split: if_splits)
qed simp

text \<open>The values an event's expiration tags carry.\<close>

definition expirations :: "tag list \<Rightarrow> u64 set" where
  "expirations ts = {v. \<exists>t \<in> set ts. 2 \<le> length t \<and> t ! 0 = EXPIRATION_TAG \<and> parse_u64 (t ! 1) = Some v}"

lemma set_expirations:
  "set (List.map_filter (\<lambda>t. parse_u64 (t ! 1))
     (filter (\<lambda>t. length t \<ge> 2 \<and> t ! 0 = EXPIRATION_TAG) ts)) = expirations ts"
  by (force simp: expirations_def map_filter_def)

lemma expiry_fields_eq:
  "expiry_fields ts = (if expirations ts = {} then None else Some (Min (expirations ts)))"
proof (cases "List.map_filter (\<lambda>t. parse_u64 (t ! 1))
     (filter (\<lambda>t. length t \<ge> 2 \<and> t ! 0 = EXPIRATION_TAG) ts)")
  case Nil
  then show ?thesis using set_expirations [of ts] by (simp add: expiry_fields_def)
next
  case (Cons v vs)
  then have s: "expirations ts = set (v # vs)" using set_expirations [of ts] by simp
  have "foldl min v vs = Min (set (v # vs))"
  proof (rule Min_eqI [symmetric])
    show "y \<in> set (v # vs) \<Longrightarrow> foldl min v vs \<le> y" for y
      unfolding foldl_min_le by blast
  qed (simp, rule foldl_min_in)
  with Cons s show ?thesis by (simp add: expiry_fields_def)
qed

end
