(* ===== verification/Search.thy ===== *)
theory Search
  imports Event
begin

text \<open>
  NIP-50 search (\<open>src/src/nips/nip50.rs\<close>): the tokenizer of the word index, the query tokenizer
  and the streaming whole-word match. A Rust \<open>char\<close> is the byte string of its UTF-8 encoding; the
  Unicode tables behind \<open>char::is_alphanumeric\<close> and \<open>char::to_lowercase\<close> are the fields of a
  record, so every result holds for all of them.
\<close>

record unicode =
  alnum :: "string \<Rightarrow> bool"
  lower :: "string \<Rightarrow> string"

definition SEARCH_MAX_TERMS :: nat where "SEARCH_MAX_TERMS = 32"
definition MAX_SEARCH_BYTES :: nat where "MAX_SEARCH_BYTES = 8192"

text \<open>\<open>str::chars\<close>: a leading byte with the continuation bytes that follow it.\<close>

function chars :: "string \<Rightarrow> string list" where
  "chars [] = []"
| "chars (c # cs) = (c # takeWhile is_continuation cs) # chars (dropWhile is_continuation cs)"
  by pat_completeness auto
termination
  by (relation "measure length") (auto simp: less_Suc_eq_le length_dropWhile_le)

definition digit_char1 :: "string \<Rightarrow> bool" where
  \<comment> \<open>\<open>char::is_ascii_digit\<close>\<close>
  "digit_char1 ch \<longleftrightarrow> (case ch of [c] \<Rightarrow> is_ascii_digit c | _ \<Rightarrow> False)"

section \<open>Tokenizing content\<close>

fun tokenize_loop :: "unicode \<Rightarrow> string list \<Rightarrow> string list \<Rightarrow> string \<Rightarrow> bool \<Rightarrow> string list" where
  "tokenize_loop U [] words current numeric =
     (if length current \<ge> 2 \<and> \<not> numeric then words @ [current] else words)"
| "tokenize_loop U (ch # rest) words current numeric =
     (if alnum U ch then
        tokenize_loop U rest words (current @ lower U ch) (numeric \<and> digit_char1 ch)
      else if current \<noteq> [] then
        (if length current \<ge> 2 \<and> \<not> numeric then tokenize_loop U rest (words @ [current]) [] True
         else tokenize_loop U rest words [] True)
      else tokenize_loop U rest words current numeric)"

definition tokenize :: "unicode \<Rightarrow> string \<Rightarrow> string list" where
  "tokenize U text = tokenize_loop U (chars text) [] [] True"

fun matches_terms_loop :: "unicode \<Rightarrow> string list \<Rightarrow> string list \<Rightarrow> string \<Rightarrow> bool \<Rightarrow> bool" where
  "matches_terms_loop U terms [] current numeric =
     (length current \<ge> 2 \<and> \<not> numeric \<and> current \<in> set terms)"
| "matches_terms_loop U terms (ch # rest) current numeric =
     (if alnum U ch then
        matches_terms_loop U terms rest (current @ lower U ch) (numeric \<and> digit_char1 ch)
      else if current \<noteq> [] then
        (if length current \<ge> 2 \<and> \<not> numeric \<and> current \<in> set terms then True
         else matches_terms_loop U terms rest [] True)
      else matches_terms_loop U terms rest current numeric)"

definition matches_terms :: "unicode \<Rightarrow> string \<Rightarrow> string list \<Rightarrow> bool" where
  "matches_terms U text terms =
     (if terms = [] then True else matches_terms_loop U terms (chars text) [] True)"

lemma tokenize_loop_words:
  "tokenize_loop U cs words cur num = words @ tokenize_loop U cs [] cur num"
proof (induction cs arbitrary: words cur num)
  case (Cons ch rest)
  have step: "tokenize_loop U rest (w @ [cur]) [] True = w @ cur # tokenize_loop U rest [] [] True" for w
    using Cons.IH [of "w @ [cur]" "[]" True] by simp
  show ?case
    using Cons.IH [of words] step [of words] step [of "[]"] by simp
qed simp

lemma matches_terms_loop_iff:
  "matches_terms_loop U terms cs cur num \<longleftrightarrow> (\<exists>w \<in> set (tokenize_loop U cs [] cur num). w \<in> set terms)"
proof (induction cs arbitrary: cur num)
  case (Cons ch rest)
  have "tokenize_loop U rest [cur] [] True = cur # tokenize_loop U rest [] [] True"
    using tokenize_loop_words [of U rest "[cur]"] by simp
  then show ?case using Cons.IH by simp
qed simp

lemma tokenize_loop_long:
  "w \<in> set (tokenize_loop U cs words cur num) \<Longrightarrow> w \<in> set words \<or> 2 \<le> length w"
  by (induction U cs words cur num rule: tokenize_loop.induct) (auto split: if_splits)

section \<open>Query terms\<close>

definition floor_char_boundary :: "string \<Rightarrow> nat \<Rightarrow> string" where
  "floor_char_boundary text max_bytes =
     (if length text \<le> max_bytes then text else take (boundary_below text max_bytes) text)"

fun query_loop :: "unicode \<Rightarrow> nat \<Rightarrow> string list \<Rightarrow> string list \<Rightarrow> string \<Rightarrow> string list" where
  "query_loop U limit [] out current =
     (if length current \<ge> 2 \<and> length out < limit then out @ [current] else out)"
| "query_loop U limit (ch # rest) out current =
     (if alnum U ch then query_loop U limit rest out (current @ lower U ch)
      else if current \<noteq> [] then
        (if length current \<ge> 2 then
           (let out' = out @ [current] in
            if length out' \<ge> limit then out' else query_loop U limit rest out' [])
         else query_loop U limit rest out [])
      else query_loop U limit rest out current)"

definition query_tokenize_capped :: "unicode \<Rightarrow> string \<Rightarrow> string list \<Rightarrow> nat \<Rightarrow> string list" where
  "query_tokenize_capped U text out limit =
     (if length out \<ge> limit then out else query_loop U limit (chars text) out [])"

fun terms_loop :: "unicode \<Rightarrow> string list \<Rightarrow> string list \<Rightarrow> string list" where
  "terms_loop U [] out = out"
| "terms_loop U (token # rest) out =
     (if length out \<ge> SEARCH_MAX_TERMS then out
      else if CHR '':'' \<in> set token then terms_loop U rest out
      else terms_loop U rest (query_tokenize_capped U token out SEARCH_MAX_TERMS))"

definition terms :: "unicode \<Rightarrow> string \<Rightarrow> string list" where
  "terms U search =
     terms_loop U (split_whitespace (floor_char_boundary search MAX_SEARCH_BYTES)) []"

text \<open>The query tokenizer without the cap, the reference of the capped loop.\<close>

fun query_words :: "unicode \<Rightarrow> string list \<Rightarrow> string \<Rightarrow> string list" where
  "query_words U [] current = (if length current \<ge> 2 then [current] else [])"
| "query_words U (ch # rest) current =
     (if alnum U ch then query_words U rest (current @ lower U ch)
      else if length current \<ge> 2 then current # query_words U rest []
      else query_words U rest [])"

lemma query_loop_take:
  "length out < limit \<Longrightarrow>
   query_loop U limit cs out cur = out @ take (limit - length out) (query_words U cs cur)"
proof (induction U limit cs out cur rule: query_loop.induct)
  case (1 U limit out cur)
  then show ?case by auto
next
  case (2 U limit ch rest out cur)
  show ?case
  proof (cases "\<not> alnum U ch \<and> length cur \<ge> 2")
    case False
    with 2 show ?thesis by auto
  next
    case True
    then have cur: "cur \<noteq> []" by auto
    show ?thesis
    proof (cases "Suc (length out) \<ge> limit")
      case full: True
      with "2.prems" have "limit - length out = 1" by simp
      with True cur full show ?thesis by simp
    next
      case room: False
      then have "limit - length out = Suc (limit - Suc (length out))" by simp
      with True cur room "2.IH"(2) [of "out @ [cur]"] show ?thesis by simp
    qed
  qed
qed

lemma query_tokenize_capped_take:
  "length out \<le> limit \<Longrightarrow>
   query_tokenize_capped U text out limit = take limit (out @ query_words U (chars text) [])"
  by (cases "length out = limit") (auto simp: query_tokenize_capped_def query_loop_take)

lemma take_take_append: "take n (take n xs @ ys) = take n (xs @ ys)"
  by (cases "n \<le> length xs") simp_all

lemma terms_loop_take:
  "length out \<le> SEARCH_MAX_TERMS \<Longrightarrow>
   terms_loop U toks out = take SEARCH_MAX_TERMS
     (out @ concat (map (\<lambda>t. query_words U (chars t) []) (filter (\<lambda>t. CHR '':'' \<notin> set t) toks)))"
proof (induction U toks out rule: terms_loop.induct)
  case (1 U out)
  then show ?case by simp
next
  case (2 U token rest out)
  show ?case
  proof (cases "length out = SEARCH_MAX_TERMS")
    case True
    then show ?thesis by simp
  next
    case False
    then have lt: "\<not> SEARCH_MAX_TERMS \<le> length out" using "2.prems" by simp
    show ?thesis
    proof (cases "CHR '':'' \<in> set token")
      case True
      with 2 lt show ?thesis by simp
    next
      case no: False
      let ?o = "query_tokenize_capped U token out SEARCH_MAX_TERMS"
      have o: "?o = take SEARCH_MAX_TERMS (out @ query_words U (chars token) [])"
        using "2.prems" by (rule query_tokenize_capped_take)
      then have "length ?o \<le> SEARCH_MAX_TERMS" by simp
      from "2.IH"(2) [OF lt no this] lt no show ?thesis
        unfolding o take_take_append append_assoc by (simp add: o)
    qed
  qed
qed

lemma terms_eq:
  "terms U search = take SEARCH_MAX_TERMS (concat (map (\<lambda>t. query_words U (chars t) [])
     (filter (\<lambda>t. CHR '':'' \<notin> set t)
        (split_whitespace (floor_char_boundary search MAX_SEARCH_BYTES)))))"
  by (simp add: terms_def terms_loop_take)

lemma length_terms: "length (terms U search) \<le> SEARCH_MAX_TERMS"
  by (simp add: terms_eq)

lemma query_words_long: "w \<in> set (query_words U cs cur) \<Longrightarrow> 2 \<le> length w"
  by (induction U cs cur rule: query_words.induct) (auto split: if_splits)

end
