(* ===== verification/ReqFilter.thy ===== *)
theory ReqFilter
  imports Search
begin

text \<open>
  NIP-01 subscription filters (\<open>src/src/filter.rs\<close>): the member bounds, the precomputed tag plan
  with its satisfaction bitmap, and the in-memory match. The plan is shown equal to the reference
  semantics of the tag constraints for every JSON object with distinct keys and every hash-set
  iteration order.
\<close>

section \<open>JSON values and filters\<close>

datatype json =
    JNull
  | JBool bool
  | JNum int
  | JStr string
  | JArr "json list"
  | JObj "(string \<times> json) list"

type_synonym json_map = "(string \<times> json) list"

fun as_str :: "json \<Rightarrow> string option" where
  "as_str (JStr s) = Some s"
| "as_str _ = None"

fun as_array :: "json \<Rightarrow> json list option" where
  "as_array (JArr xs) = Some xs"
| "as_array _ = None"

definition MAX_FILTER_MEMBERS :: nat where "MAX_FILTER_MEMBERS = 512"
definition MAX_FILTER_TAG_VALUES :: nat where "MAX_FILTER_TAG_VALUES = MAX_FILTER_MEMBERS"

definition is_tag_constraint :: "string \<Rightarrow> bool" where
  "is_tag_constraint name \<longleftrightarrow> starts_with ''#'' name \<or> starts_with ''&'' name"

definition tag_values :: "json \<Rightarrow> string list" where
  "tag_values v =
     (case as_str v of None \<Rightarrow> [] | Some s \<Rightarrow> [s]) @
     (case as_array v of None \<Rightarrow> [] | Some xs \<Rightarrow> List.map_filter as_str xs)"

record filter_req =
  ids :: "string list option"
  authors :: "string list option"
  kinds :: "u64 list option"
  since :: "u64 option"
  until :: "u64 option"
  limit :: "nat option"
  search :: "string option"
  ftags :: json_map

definition too_many_members :: "filter_req \<Rightarrow> bool" where
  "too_many_members f \<longleftrightarrow>
     (case ids f of None \<Rightarrow> False | Some v \<Rightarrow> length v > MAX_FILTER_MEMBERS)
   \<or> (case authors f of None \<Rightarrow> False | Some v \<Rightarrow> length v > MAX_FILTER_MEMBERS)
   \<or> (case kinds f of None \<Rightarrow> False | Some v \<Rightarrow> length v > MAX_FILTER_MEMBERS)
   \<or> foldl (\<lambda>acc (_, v). min (acc + length (take (MAX_FILTER_TAG_VALUES + 1) (tag_values v))) (2 ^ 64 - 1))
       0 (filter (\<lambda>(name, _). is_tag_constraint name) (ftags f)) > MAX_FILTER_TAG_VALUES"

definition has_search :: "filter_req \<Rightarrow> bool" where
  "has_search f \<longleftrightarrow> (case search f of None \<Rightarrow> False | Some s \<Rightarrow> trim s \<noteq> [])"

definition invalid_tag_values :: "filter_req \<Rightarrow> bool" where
  "invalid_tag_values f \<longleftrightarrow>
     (\<exists>(name, v) \<in> set (ftags f). is_tag_constraint name \<and> as_str v = None
        \<and> \<not> (case as_array v of None \<Rightarrow> False | Some a \<Rightarrow> \<forall>x \<in> set a. as_str x \<noteq> None))"

definition disable_and_tags :: "filter_req \<Rightarrow> filter_req" where
  "disable_and_tags f = f\<lparr>ftags := filter (\<lambda>(name, _). \<not> starts_with ''&'' name) (ftags f)\<rparr>"

section \<open>The tag plan\<close>

record tag_plan =
  constraints :: "(string \<times> string list) list"
  by_name :: "string \<rightharpoonup> (string \<rightharpoonup> nat)"
  impossible :: bool

definition empty_plan :: tag_plan where
  "empty_plan = \<lparr>constraints = [], by_name = Map.empty, impossible = False\<rparr>"

definition add_constraint :: "tag_plan \<Rightarrow> string \<Rightarrow> string list \<Rightarrow> tag_plan" where
  "add_constraint p name values =
     (let index = length (constraints p);
          by_value = (case by_name p name of None \<Rightarrow> Map.empty | Some m \<Rightarrow> m);
          by_value' = foldl (\<lambda>m v. m(v \<mapsto> index)) by_value values
      in p\<lparr>by_name := (by_name p)(name \<mapsto> by_value'),
           constraints := constraints p @ [(name, values)]\<rparr>)"

definition constraint_name :: "string \<Rightarrow> string option" where
  "constraint_name name =
     (case strip_prefix ''&'' name of Some t \<Rightarrow> Some t | None \<Rightarrow> strip_prefix ''#'' name)"

fun plan_loop :: "(string list \<Rightarrow> string list) \<Rightarrow> json_map \<Rightarrow> json_map \<Rightarrow> tag_plan \<Rightarrow> tag_plan" where
  "plan_loop hs all [] p = p"
| "plan_loop hs all ((name, raw) # rest) p =
     (case constraint_name name of
        None \<Rightarrow> plan_loop hs all rest p
      | Some tag_name \<Rightarrow>
          (let values = hs (tag_values raw) in
           if tag_name = [] \<or> values = [] then p\<lparr>impossible := True\<rparr>
           else if starts_with ''#'' name then
             (case map_of all (''&'' @ tag_name) of
                Some andv \<Rightarrow>
                  (let values' = filter (\<lambda>v. v \<notin> set (tag_values andv)) values in
                   if values' = [] then plan_loop hs all rest p
                   else plan_loop hs all rest (add_constraint p tag_name values'))
              | None \<Rightarrow> plan_loop hs all rest (add_constraint p tag_name values))
           else plan_loop hs all rest (foldl (\<lambda>q v. add_constraint q tag_name [v]) p values)))"

definition plan_new :: "(string list \<Rightarrow> string list) \<Rightarrow> json_map \<Rightarrow> tag_plan" where
  "plan_new hs ts = plan_loop hs ts ts empty_plan"

definition is_impossible :: "tag_plan \<Rightarrow> bool" where
  "is_impossible p = impossible p"

text \<open>
  \<open>scan_constraint\<close>: the constraint with the fewest values; ties by name, then by least value.
  \<open>min_by\<close> keeps the first of equal elements.
\<close>

definition scan_key :: "string \<times> string list \<Rightarrow> nat \<times> string \<times> string list" where
  "scan_key c = (length (snd c), fst c, (case snd c of [] \<Rightarrow> [] | v # vs \<Rightarrow> [foldl min v vs]))"

definition scan_constraint :: "tag_plan \<Rightarrow> (string \<times> string list) option" where
  "scan_constraint p =
     (case constraints p of [] \<Rightarrow> None
      | c # cs \<Rightarrow> Some (foldl (\<lambda>best x. if scan_key x < scan_key best then x else best) c cs))"

definition matches_linear :: "tag_plan \<Rightarrow> tag list \<Rightarrow> bool" where
  "matches_linear p ts \<longleftrightarrow>
     \<not> impossible p \<and>
     (\<forall>(name, values) \<in> set (constraints p).
        \<exists>t \<in> set ts. length t \<ge> 2 \<and> t ! 0 = name \<and> t ! 1 \<in> set values)"

fun match_loop :: "tag_plan \<Rightarrow> tag list \<Rightarrow> u64 list \<Rightarrow> nat \<Rightarrow> bool" where
  "match_loop p [] satisfied remaining = False"
| "match_loop p (t # ts) satisfied remaining =
     (if length t < 2 then match_loop p ts satisfied remaining
      else case Option.bind (by_name p (t ! 0)) (\<lambda>m. m (t ! 1)) of
        None \<Rightarrow> match_loop p ts satisfied remaining
      | Some index \<Rightarrow>
          (if satisfied ! (index div 64) AND push_bit (index mod 64) 1 = 0 then
             (let satisfied' = satisfied[index div 64 :=
                    satisfied ! (index div 64) OR push_bit (index mod 64) 1];
                  remaining' = remaining - 1
              in if remaining' = 0 then True else match_loop p ts satisfied' remaining')
           else match_loop p ts satisfied remaining))"

definition plan_matches :: "tag_plan \<Rightarrow> tag list \<Rightarrow> bool" where
  "plan_matches p ts =
     (if impossible p then False
      else if constraints p = [] then True
      else if length (constraints p) > MAX_FILTER_TAG_VALUES then matches_linear p ts
      else match_loop p ts (replicate ((MAX_FILTER_TAG_VALUES + 63) div 64) 0) (length (constraints p)))"

section \<open>The in-memory match\<close>

definition hex_eq :: "string \<Rightarrow> string \<Rightarrow> bool" where
  "hex_eq a b \<longleftrightarrow> length a = length b
     \<and> list_all (\<lambda>(x, y). ascii_lower x = ascii_lower y) (zip a b)"

definition hex_starts_with :: "string \<Rightarrow> string \<Rightarrow> bool" where
  "hex_starts_with haystack needle \<longleftrightarrow> length haystack \<ge> length needle
     \<and> list_all (\<lambda>(x, y). ascii_lower x = ascii_lower y) (zip haystack needle)"

definition id_matches :: "string \<Rightarrow> string \<Rightarrow> bool" where
  "id_matches i id_str \<longleftrightarrow> i \<noteq> [] \<and> length i mod 2 = 0
     \<and> (hex_eq i id_str \<or> (length i < length id_str \<and> hex_starts_with id_str i))"

definition delegator_tag :: "tag list \<Rightarrow> tag option" where
  "delegator_tag ts = List.find (\<lambda>t. length t = 4 \<and> t ! 0 = ''delegation'') ts"

definition author_matches :: "string list \<Rightarrow> event \<Rightarrow> bool" where
  "author_matches as e \<longleftrightarrow>
     (\<exists>a \<in> set as. hex_eq a (pubkey e))
   \<or> (case delegator_tag (tags e) of
        None \<Rightarrow> False
      | Some t \<Rightarrow> \<exists>a \<in> set as. hex_eq a (t ! 1))"

definition search_matches :: "unicode \<Rightarrow> string \<Rightarrow> string \<Rightarrow> bool" where
  "search_matches U s text = matches_terms U text (take SEARCH_MAX_TERMS (terms U s))"

definition matches_with :: "unicode \<Rightarrow> filter_req \<Rightarrow> event \<Rightarrow> tag_plan \<Rightarrow> bool" where
  "matches_with U f e plan =
     (if (case ids f of None \<Rightarrow> False | Some is \<Rightarrow> \<not> (\<exists>i \<in> set is. id_matches i (ev_id e))) then False
      else if (case authors f of None \<Rightarrow> False | Some as \<Rightarrow> \<not> author_matches as e) then False
      else if (case kinds f of None \<Rightarrow> False | Some ks \<Rightarrow> kind e \<notin> set ks) then False
      else if (case since f of None \<Rightarrow> False | Some s \<Rightarrow> created_at e < s) then False
      else if (case until f of None \<Rightarrow> False | Some u \<Rightarrow> created_at e > u) then False
      else if (case search f of None \<Rightarrow> False
               | Some s \<Rightarrow> trim s \<noteq> [] \<and> \<not> search_matches U s (content e)) then False
      else plan_matches plan (tags e))"

definition filter_matches :: "unicode \<Rightarrow> (string list \<Rightarrow> string list) \<Rightarrow> filter_req \<Rightarrow> event \<Rightarrow> bool" where
  "filter_matches U hs f e = matches_with U f e (plan_new hs (ftags f))"

section \<open>The bitmap agrees with the linear match\<close>

text \<open>
  The index of a plan: \<open>by_name\<close> finds exactly the constraint that lists a name and value, and
  no two constraints share one.
\<close>

definition plan_wf :: "tag_plan \<Rightarrow> bool" where
  "plan_wf p \<longleftrightarrow>
     (\<forall>n v i. Option.bind (by_name p n) (\<lambda>m. m v) = Some i \<longleftrightarrow>
        i < length (constraints p) \<and> fst (constraints p ! i) = n \<and> v \<in> set (snd (constraints p ! i)))"

lemma plan_wf_empty: "plan_wf empty_plan"
  by (simp add: plan_wf_def empty_plan_def)

lemma foldl_upd: "foldl (\<lambda>m v. m(v \<mapsto> i)) m vs v = (if v \<in> set vs then Some i else m v)"
  by (induction vs arbitrary: m) auto

lemma plan_wf_add:
  assumes wf: "plan_wf p"
    and fresh: "\<forall>c \<in> set (constraints p). fst c = name \<longrightarrow> set (snd c) \<inter> set values = {}"
  shows "plan_wf (add_constraint p name values)"
  unfolding plan_wf_def
proof (intro allI)
  fix n v i
  let ?q = "add_constraint p name values"
  have cs: "constraints ?q = constraints p @ [(name, values)]"
    by (simp add: add_constraint_def Let_def)
  have look: "Option.bind (by_name ?q n) (\<lambda>m. m v) =
      (if n = name \<and> v \<in> set values then Some (length (constraints p))
       else Option.bind (by_name p n) (\<lambda>m. m v))"
    by (auto simp: add_constraint_def Let_def foldl_upd split: option.splits)
  have old: "Option.bind (by_name p n) (\<lambda>m. m v) = Some i \<longleftrightarrow>
      i < length (constraints p) \<and> fst (constraints p ! i) = n \<and> v \<in> set (snd (constraints p ! i))" for i
    using wf unfolding plan_wf_def by blast
  have "\<not> (i < length (constraints p) \<and> fst (constraints p ! i) = n \<and> v \<in> set (snd (constraints p ! i)))"
    if "n = name" "v \<in> set values"
    using fresh that nth_mem [of i "constraints p"] by fastforce
  then show "Option.bind (by_name ?q n) (\<lambda>m. m v) = Some i \<longleftrightarrow>
      i < length (constraints ?q) \<and> fst (constraints ?q ! i) = n \<and> v \<in> set (snd (constraints ?q ! i))"
    unfolding cs look using old [of i] by (auto simp: nth_append less_Suc_eq)
qed

text \<open>The set of constraint indices a bitmap of 64-bit limbs records.\<close>

definition bit_at :: "u64 list \<Rightarrow> nat \<Rightarrow> bool" where
  "bit_at limbs i \<longleftrightarrow> bit (limbs ! (i div 64)) (i mod 64)"

lemma limb_clear: "(limb :: u64) AND push_bit (i mod 64) 1 = 0 \<longleftrightarrow> \<not> bit limb (i mod 64)"
  by (simp add: and_exp_eq_0_iff_not_bit)

lemma bit_at_set:
  assumes "i div 64 < length limbs"
  shows "bit_at (limbs[i div 64 := limbs ! (i div 64) OR push_bit (i mod 64) 1]) j
    \<longleftrightarrow> bit_at limbs j \<or> j = i"
proof (cases "j div 64 = i div 64")
  case True
  have "j = i \<longleftrightarrow> j mod 64 = i mod 64"
    using True by (metis div_mult_mod_eq)
  moreover have "bit (limbs ! (i div 64) OR push_bit (i mod 64) 1) (j mod 64)
      \<longleftrightarrow> bit (limbs ! (i div 64)) (j mod 64) \<or> j mod 64 = i mod 64"
    by (simp add: bit_or_iff bit_exp_iff)
  ultimately show ?thesis using True assms by (simp add: bit_at_def)
next
  case False
  then show ?thesis using assms by (auto simp: bit_at_def)
qed

text \<open>What one event tag satisfies.\<close>

definition hits :: "tag_plan \<Rightarrow> tag list \<Rightarrow> nat set" where
  "hits p ts = {i. i < length (constraints p) \<and>
     (\<exists>t \<in> set ts. length t \<ge> 2 \<and> t ! 0 = fst (constraints p ! i) \<and> t ! 1 \<in> set (snd (constraints p ! i)))}"

lemma hits_finite [simp]: "finite (hits p ts)"
  by (simp add: hits_def)

lemma hits_Cons:
  assumes wf: "plan_wf p"
  shows "hits p (t # ts) =
    (if length t < 2 then {} else set_option (Option.bind (by_name p (t ! 0)) (\<lambda>m. m (t ! 1)))) \<union> hits p ts"
proof -
  have "Option.bind (by_name p (t ! 0)) (\<lambda>m. m (t ! 1)) = Some i \<longleftrightarrow>
     i < length (constraints p) \<and> fst (constraints p ! i) = t ! 0 \<and> t ! 1 \<in> set (snd (constraints p ! i))" for i
    using wf unfolding plan_wf_def by blast
  then have "{i. Option.bind (by_name p (t ! 0)) (\<lambda>m. m (t ! 1)) = Some i} =
     {i. i < length (constraints p) \<and> fst (constraints p ! i) = t ! 0 \<and> t ! 1 \<in> set (snd (constraints p ! i))}"
    by simp
  moreover have "set_option r = {i. r = Some i}" for r :: "nat option" by (cases r) auto
  ultimately show ?thesis by (auto simp: hits_def not_less)
qed

text \<open>
  The loop invariant: the bitmap records the set \<open>S\<close> of constraints met so far and \<open>remaining\<close>
  counts the others. The loop then answers whether the tags still to come meet all the others.
\<close>

lemma match_loop_spec:
  assumes wf: "plan_wf p"
    and "length limbs * 64 \<ge> length (constraints p)"
    and "S \<subseteq> {..<length (constraints p)}"
    and "\<forall>i < length (constraints p). bit_at limbs i \<longleftrightarrow> i \<in> S"
    and "remaining = card ({..<length (constraints p)} - S)" and "remaining \<noteq> 0"
  shows "match_loop p ts limbs remaining \<longleftrightarrow> {..<length (constraints p)} - S \<subseteq> hits p ts"
  using assms(2-)
proof (induction ts arbitrary: limbs remaining S)
  case Nil
  then show ?case by (auto simp: hits_def)
next
  case (Cons t ts)
  let ?n = "length (constraints p)"
  note hC = hits_Cons [OF wf, of t ts]
  show ?case
  proof (cases "length t < 2 \<or> Option.bind (by_name p (t ! 0)) (\<lambda>m. m (t ! 1)) = None")
    case True
    then have "match_loop p (t # ts) limbs remaining = match_loop p ts limbs remaining" by auto
    moreover have "hits p (t # ts) = hits p ts" using True hC by auto
    ultimately show ?thesis using Cons.IH [OF Cons.prems] by simp
  next
    case False
    then obtain i where i: "Option.bind (by_name p (t ! 0)) (\<lambda>m. m (t ! 1)) = Some i" by auto
    then have il: "i < ?n" using wf unfolding plan_wf_def by blast
    have hit: "hits p (t # ts) = insert i (hits p ts)" using hC False i by auto
    have idx: "i div 64 < length limbs" using il Cons.prems(1) by linarith
    show ?thesis
    proof (cases "i \<in> S")
      case True
      then have "match_loop p (t # ts) limbs remaining = match_loop p ts limbs remaining"
        using False i il Cons.prems(3) by (auto simp: limb_clear bit_at_def and_exp_eq_0_iff_not_bit)
      then show ?thesis using Cons.IH [OF Cons.prems] hit True by auto
    next
      case new: False
      let ?limbs = "limbs[i div 64 := limbs ! (i div 64) OR push_bit (i mod 64) 1]"
      have card: "card ({..<?n} - insert i S) = remaining - 1"
        using new il Cons.prems(2,4) by (simp add: card_Diff_insert)
      have step: "match_loop p (t # ts) limbs remaining =
          (if remaining - 1 = 0 then True else match_loop p ts ?limbs (remaining - 1))"
        using False i il new Cons.prems(3)
        by (auto simp: Let_def bit_at_def and_exp_eq_0_iff_not_bit)
      show ?thesis
      proof (cases "remaining - 1 = 0")
        case True
        then have "{..<?n} - insert i S = {}" using card by simp
        then show ?thesis unfolding step using True hit by auto
      next
        case more: False
        have "match_loop p ts ?limbs (remaining - 1) \<longleftrightarrow> {..<?n} - insert i S \<subseteq> hits p ts"
        proof (rule Cons.IH)
          show "?n \<le> length ?limbs * 64" using Cons.prems(1) by simp
          show "insert i S \<subseteq> {..<?n}" using Cons.prems(2) il by simp
          show "\<forall>j < ?n. bit_at ?limbs j \<longleftrightarrow> j \<in> insert i S"
            using Cons.prems(3) bit_at_set [OF idx] by auto
        qed (use card more in simp_all)
        then show ?thesis unfolding step using more hit new by auto
      qed
    qed
  qed
qed

lemma matches_linear_hits:
  "matches_linear p ts \<longleftrightarrow> \<not> impossible p \<and> {..<length (constraints p)} \<subseteq> hits p ts"
  unfolding matches_linear_def hits_def
  by (auto simp: all_set_conv_all_nth split_beta)

lemma plan_matches_linear: "plan_wf p \<Longrightarrow> plan_matches p ts = matches_linear p ts"
proof -
  assume wf: "plan_wf p"
  let ?n = "length (constraints p)"
  show ?thesis
  proof (cases "impossible p \<or> constraints p = [] \<or> ?n > MAX_FILTER_TAG_VALUES")
    case True
    then show ?thesis by (auto simp: plan_matches_def matches_linear_def)
  next
    case False
    have "match_loop p ts (replicate ((MAX_FILTER_TAG_VALUES + 63) div 64) 0) ?n
        \<longleftrightarrow> {..<?n} - {} \<subseteq> hits p ts"
      using False
      by (intro match_loop_spec [OF wf])
        (auto simp: MAX_FILTER_TAG_VALUES_def MAX_FILTER_MEMBERS_def bit_at_def)
    with False show ?thesis by (auto simp: plan_matches_def matches_linear_hits)
  qed
qed

section \<open>The plan implements the tag constraints\<close>

text \<open>
  The reference semantics of one filter attribute. A \<open>&\<close> attribute requires every value; a \<open>#\<close>
  attribute requires one of the values that the \<open>&\<close> attribute of the same name does not already
  require; an empty name or an empty value list matches nothing; other keys are ignored.
\<close>

definition and_values :: "json_map \<Rightarrow> string \<Rightarrow> string set" where
  "and_values all n = (case map_of all (''&'' @ n) of None \<Rightarrow> {} | Some v \<Rightarrow> set (tag_values v))"

definition tag_present :: "tag list \<Rightarrow> string \<Rightarrow> string \<Rightarrow> bool" where
  "tag_present ts n v \<longleftrightarrow> (\<exists>t \<in> set ts. length t \<ge> 2 \<and> t ! 0 = n \<and> t ! 1 = v)"

definition attribute_holds :: "json_map \<Rightarrow> tag list \<Rightarrow> string \<times> json \<Rightarrow> bool" where
  "attribute_holds all ts kv \<longleftrightarrow>
     (case constraint_name (fst kv) of
        None \<Rightarrow> True
      | Some n \<Rightarrow> n \<noteq> [] \<and> tag_values (snd kv) \<noteq> [] \<and>
          (if starts_with ''#'' (fst kv) then
             (let vs = set (tag_values (snd kv)) - and_values all n
              in vs = {} \<or> (\<exists>v \<in> vs. tag_present ts n v))
           else \<forall>v \<in> set (tag_values (snd kv)). tag_present ts n v))"

definition tag_constraints_hold :: "json_map \<Rightarrow> tag list \<Rightarrow> bool" where
  "tag_constraints_hold all ts \<longleftrightarrow> (\<forall>kv \<in> set all. attribute_holds all ts kv)"

lemma starts_with_char [simp]: "starts_with [c] (d # s) \<longleftrightarrow> d = c" "\<not> starts_with [c] []"
  by (auto simp: starts_with_def)

lemma constraint_name_Some:
  "constraint_name name = Some n \<Longrightarrow>
     (name = ''&'' @ n \<and> \<not> starts_with ''#'' name) \<or> (name = ''#'' @ n \<and> starts_with ''#'' name)"
  by (auto simp: constraint_name_def strip_prefix_Some starts_with_def split: option.splits)

lemma constraints_add [simp]:
  "constraints (add_constraint p n vs) = constraints p @ [(n, vs)]"
  "impossible (add_constraint p n vs) = impossible p"
  by (simp_all add: add_constraint_def Let_def)

lemma matches_linear_add:
  "matches_linear (add_constraint p n vs) ts \<longleftrightarrow>
     matches_linear p ts \<and> (\<exists>v \<in> set vs. tag_present ts n v)"
  by (auto simp: matches_linear_def tag_present_def)

lemma matches_linear_adds:
  "matches_linear (foldl (\<lambda>q v. add_constraint q n [v]) p vs) ts \<longleftrightarrow>
     matches_linear p ts \<and> (\<forall>v \<in> set vs. tag_present ts n v)"
  by (induction vs arbitrary: p) (auto simp: matches_linear_add)

lemma plan_loop_linear:
  assumes hs: "hash_order hs"
  shows "matches_linear (plan_loop hs all kvs p) ts \<longleftrightarrow>
    matches_linear p ts \<and> (\<forall>kv \<in> set kvs. attribute_holds all ts kv)"
proof (induction kvs arbitrary: p)
  case Nil
  show ?case by simp
next
  case (Cons kv rest)
  obtain name raw where kv: "kv = (name, raw)" by (cases kv)
  note set_hs [simp] = hash_orderD(2) [OF hs]
  have nil [simp]: "hs xs = [] \<longleftrightarrow> xs = []" for xs
    using set_hs [of xs] by (metis set_empty)
  have imp: "\<not> matches_linear (p\<lparr>impossible := True\<rparr>) ts" by (simp add: matches_linear_def)
  show ?case
  proof (cases "constraint_name name")
    case None
    then show ?thesis using Cons.IH kv by (simp add: attribute_holds_def)
  next
    case (Some n)
    show ?thesis
    proof (cases "map_of all (''&'' @ n)")
      case N: None
      then show ?thesis using Cons.IH kv Some imp
        by (auto simp: attribute_holds_def and_values_def Let_def matches_linear_add matches_linear_adds)
    next
      case A: (Some andv)
      have "filter (\<lambda>v. v \<notin> set (tag_values andv)) (hs (tag_values raw)) = []
          \<longleftrightarrow> set (tag_values raw) - set (tag_values andv) = {}"
        by (auto simp: filter_empty_conv)
      then show ?thesis using Cons.IH kv Some A imp
        by (auto simp: attribute_holds_def and_values_def Let_def matches_linear_add matches_linear_adds)
    qed
  qed
qed

text \<open>
  Every constraint stems from a processed attribute: a \<open>#\<close> constraint avoids the values of the \<open>&\<close>
  attribute of its name, a \<open>&\<close> constraint is made of them. Hence no two constraints overlap.
\<close>

definition plan_from :: "json_map \<Rightarrow> string set \<Rightarrow> tag_plan \<Rightarrow> bool" where
  "plan_from all seen p \<longleftrightarrow> plan_wf p \<and>
     (\<forall>c \<in> set (constraints p).
        (''#'' @ fst c \<in> seen \<and> set (snd c) \<inter> and_values all (fst c) = {})
      \<or> (''&'' @ fst c \<in> seen \<and> set (snd c) \<subseteq> and_values all (fst c)))"

lemma plan_wf_adds:
  "plan_wf p \<Longrightarrow> distinct vs \<Longrightarrow>
   (\<forall>c \<in> set (constraints p). fst c = n \<longrightarrow> set (snd c) \<inter> set vs = {}) \<Longrightarrow>
   plan_wf (foldl (\<lambda>q v. add_constraint q n [v]) p vs) \<and>
   constraints (foldl (\<lambda>q v. add_constraint q n [v]) p vs) = constraints p @ map (\<lambda>v. (n, [v])) vs"
proof (induction vs arbitrary: p)
  case (Cons v vs)
  have "plan_wf (add_constraint p n [v])"
    by (rule plan_wf_add [OF Cons.prems(1)]) (use Cons.prems(3) in auto)
  then show ?case using Cons.IH [of "add_constraint p n [v]"] Cons.prems by auto
qed simp

lemma plan_from_or:
  assumes "plan_from all seen p" and "''#'' @ n \<notin> seen" and "set vs \<inter> and_values all n = {}"
  shows "plan_from all (insert (''#'' @ n) seen) (add_constraint p n vs)"
proof -
  have "plan_wf (add_constraint p n vs)"
    by (rule plan_wf_add) (use assms in \<open>auto simp: plan_from_def\<close>)
  with assms show ?thesis by (auto simp: plan_from_def)
qed

lemma plan_from_and:
  assumes "plan_from all seen p" and "''&'' @ n \<notin> seen" and "distinct vs"
    and "set vs \<subseteq> and_values all n"
  shows "plan_from all (insert (''&'' @ n) seen) (foldl (\<lambda>q v. add_constraint q n [v]) p vs)"
proof -
  have "plan_wf (foldl (\<lambda>q v. add_constraint q n [v]) p vs) \<and>
      constraints (foldl (\<lambda>q v. add_constraint q n [v]) p vs) = constraints p @ map (\<lambda>v. (n, [v])) vs"
    by (rule plan_wf_adds) (use assms in \<open>auto simp: plan_from_def\<close>)
  with assms show ?thesis by (auto simp: plan_from_def)
qed

lemma plan_from_mono: "plan_from all seen p \<Longrightarrow> seen \<subseteq> seen' \<Longrightarrow> plan_from all seen' p"
  by (auto simp: plan_from_def)

lemma plan_from_impossible: "plan_from all seen p \<Longrightarrow> plan_wf (p\<lparr>impossible := True\<rparr>)"
  by (simp add: plan_from_def plan_wf_def)

lemma plan_loop_wf:
  assumes hs: "hash_order hs"
  shows "plan_from all seen p \<Longrightarrow> distinct (map fst all) \<Longrightarrow> set kvs \<subseteq> set all \<Longrightarrow>
    distinct (map fst kvs) \<Longrightarrow> seen \<inter> fst ` set kvs = {} \<Longrightarrow> plan_wf (plan_loop hs all kvs p)"
proof (induction kvs arbitrary: p seen)
  case Nil
  then show ?case by (simp add: plan_from_def)
next
  case (Cons kv rest)
  obtain name raw where kv: "kv = (name, raw)" by (cases kv)
  let ?seen = "insert name seen"
  have new: "name \<notin> seen" using Cons.prems(5) kv by auto
  have IH: "plan_wf (plan_loop hs all rest q)" if "plan_from all ?seen q" for q
    using Cons.IH [OF that Cons.prems(2)] Cons.prems(3-5) kv by auto
  have keep: "plan_from all ?seen p" using Cons.prems(1) by (rule plan_from_mono) auto
  have raw: "map_of all name = Some raw"
    using Cons.prems(2,3) kv by (auto intro: map_of_is_SomeI)
  show ?case
  proof (cases "constraint_name name")
    case None
    then show ?thesis using IH [OF keep] kv by simp
  next
    case (Some n)
    let ?vs = "hs (tag_values raw)"
    show ?thesis
    proof (cases "n = [] \<or> ?vs = []")
      case True
      then show ?thesis using plan_from_impossible [OF Cons.prems(1)] Some kv by simp
    next
      case ok: False
      from constraint_name_Some [OF Some] show ?thesis
      proof
        assume h: "name = ''#'' @ n \<and> starts_with ''#'' name"
        let ?vs' = "filter (\<lambda>v. v \<notin> and_values all n) ?vs"
        have "plan_from all ?seen (add_constraint p n ?vs')"
          using plan_from_or [OF Cons.prems(1), of n ?vs'] new h by fastforce
        then have add: "plan_wf (plan_loop hs all rest (add_constraint p n ?vs'))" by (rule IH)
        show ?thesis
        proof (cases "map_of all (''&'' @ n)")
          case N: None
          then have "?vs' = ?vs" by (simp add: and_values_def)
          with N add Some kv ok h show ?thesis by (simp add: Let_def)
        next
          case A: (Some andv)
          then have "?vs' = filter (\<lambda>v. v \<notin> set (tag_values andv)) ?vs" by (simp add: and_values_def)
          with A add IH [OF keep] Some kv ok h show ?thesis by (simp add: Let_def)
        qed
      next
        assume a: "name = ''&'' @ n \<and> \<not> starts_with ''#'' name"
        have "set ?vs \<subseteq> and_values all n"
          using raw a hash_orderD(2) [OF hs] by (simp add: and_values_def)
        then have "plan_from all ?seen (foldl (\<lambda>q v. add_constraint q n [v]) p ?vs)"
          using plan_from_and [OF Cons.prems(1)] new a hash_orderD(1) [OF hs] by auto
        then show ?thesis using IH Some kv ok a by (simp add: Let_def)
      qed
    qed
  qed
qed

lemma plan_new_wf: "hash_order hs \<Longrightarrow> distinct (map fst ts) \<Longrightarrow> plan_wf (plan_new hs ts)"
  unfolding plan_new_def
  by (rule plan_loop_wf [where seen = "{}"]) (auto simp: plan_from_def plan_wf_empty, simp add: empty_plan_def)

lemma plan_new_matches:
  assumes "hash_order hs" and "distinct (map fst all)"
  shows "plan_matches (plan_new hs all) ts \<longleftrightarrow> tag_constraints_hold all ts"
proof -
  have "matches_linear empty_plan ts" by (simp add: matches_linear_def empty_plan_def)
  then show ?thesis
    using plan_matches_linear [OF plan_new_wf [OF assms]] plan_loop_linear [OF assms(1)]
    by (simp add: plan_new_def tag_constraints_hold_def)
qed

section \<open>Case-insensitive comparison\<close>

lemma hex_eq_iff: "hex_eq a b \<longleftrightarrow> eq_ignore_ascii_case a b"
proof -
  have "list_all (\<lambda>(x, y). ascii_lower x = ascii_lower y) (zip a b) \<longleftrightarrow> map ascii_lower a = map ascii_lower b"
    if "length a = length b"
    using that by (induction a b rule: list_induct2) auto
  then show ?thesis
    unfolding hex_eq_def eq_ignore_ascii_case_def to_ascii_lowercase_def
    by (metis length_map)
qed

lemma hex_starts_with_iff:
  "hex_starts_with h n \<longleftrightarrow> length n \<le> length h \<and> eq_ignore_ascii_case (take (length n) h) n"
proof -
  have "zip h n = zip (take (length n) h) n"
    using zip_append1 [of "take (length n) h" "drop (length n) h" n]
    by (cases "length n \<le> length h") simp_all
  then have "hex_starts_with h n \<longleftrightarrow> length n \<le> length h \<and> hex_eq (take (length n) h) n"
    by (auto simp: hex_starts_with_def hex_eq_def)
  then show ?thesis by (simp add: hex_eq_iff)
qed

lemma search_matches_iff:
  "search_matches U s text \<longleftrightarrow> terms U s = [] \<or> (\<exists>w \<in> set (tokenize U text). w \<in> set (terms U s))"
  by (simp add: search_matches_def matches_terms_def length_terms matches_terms_loop_iff tokenize_def)

lemma id_matches_iff:
  "id_matches i s \<longleftrightarrow> i \<noteq> [] \<and> even (length i) \<and> length i \<le> length s \<and> eq_ignore_ascii_case (take (length i) s) i"
proof (cases "length i = length s")
  case True
  have "eq_ignore_ascii_case i s \<longleftrightarrow> eq_ignore_ascii_case s i" by (auto simp: eq_ignore_ascii_case_def)
  then show ?thesis using True by (simp add: id_matches_def hex_eq_iff even_iff_mod_2_eq_zero)
next
  case False
  then show ?thesis by (auto simp: id_matches_def hex_eq_def hex_starts_with_iff even_iff_mod_2_eq_zero)
qed

end
