(* ===== verification/Requests.thy ===== *)
theory Requests
  imports ReqFilter
begin

text \<open>
  Requests carried by event tags: NIP-09 deletion targets (\<open>src/src/nips/nip09.rs\<close>) with the
  distinct-address cap, NIP-26 delegations (\<open>src/src/nips/nip26.rs\<close>) with the grouped evaluation
  of conditions, and the NIP-IA owner attestations (\<open>src/src/nips/nip_ia.rs\<close>).
\<close>

section \<open>NIP-09 deletion requests\<close>

definition DELETION_KIND :: u64 where "DELETION_KIND = 5"
definition MAX_DELETION_ADDRESSES :: nat where "MAX_DELETION_ADDRESSES = 512"

record address =
  addr_kind :: u64
  addr_pubkey :: string
  addr_d :: string

definition parse_address :: "string \<Rightarrow> address option" where
  "parse_address v =
     (case split_once CHR '':'' v of
        None \<Rightarrow> None
      | Some (k, rest) \<Rightarrow> (case parse_u64 k of
          None \<Rightarrow> None
        | Some kd \<Rightarrow> (case split_once CHR '':'' rest of
            None \<Rightarrow> None
          | Some (pk, d) \<Rightarrow> Some \<lparr>addr_kind = kd, addr_pubkey = pk, addr_d = d\<rparr>)))"

definition deletion_targets :: "event \<Rightarrow> string list" where
  "deletion_targets e = map (\<lambda>t. t ! 1) (filter (\<lambda>t. first_is ''e'' t \<and> length t \<ge> 2) (tags e))"

text \<open>The \<open>a\<close> tag of the loop header: \<open>None\<close> continues with the next tag.\<close>

definition tag_address :: "tag \<Rightarrow> address option" where
  "tag_address t = (if \<not> first_is ''a'' t \<or> length t < 2 then None else parse_address (t ! 1))"

fun deletion_addresses_loop :: "tag list \<Rightarrow> address set \<Rightarrow> address list \<Rightarrow> address list" where
  "deletion_addresses_loop [] seen out = out"
| "deletion_addresses_loop (t # ts) seen out =
     (case tag_address t of
        None \<Rightarrow> deletion_addresses_loop ts seen out
      | Some a \<Rightarrow>
          if length out \<ge> MAX_DELETION_ADDRESSES then out
          else if a \<notin> seen then deletion_addresses_loop ts (insert a seen) (out @ [a])
          else deletion_addresses_loop ts seen out)"

definition deletion_addresses :: "event \<Rightarrow> address list" where
  "deletion_addresses e = deletion_addresses_loop (tags e) {} []"

fun deletion_addresses_all_loop :: "tag list \<Rightarrow> address set \<Rightarrow> address list \<Rightarrow> address list" where
  "deletion_addresses_all_loop [] seen out = out"
| "deletion_addresses_all_loop (t # ts) seen out =
     (case tag_address t of
        None \<Rightarrow> deletion_addresses_all_loop ts seen out
      | Some a \<Rightarrow>
          if a \<notin> seen then deletion_addresses_all_loop ts (insert a seen) (out @ [a])
          else deletion_addresses_all_loop ts seen out)"

definition deletion_addresses_all :: "event \<Rightarrow> address list" where
  "deletion_addresses_all e = deletion_addresses_all_loop (tags e) {} []"

fun exceed_cap_loop :: "tag list \<Rightarrow> address set \<Rightarrow> bool" where
  "exceed_cap_loop [] seen = False"
| "exceed_cap_loop (t # ts) seen =
     (case tag_address t of
        None \<Rightarrow> exceed_cap_loop ts seen
      | Some a \<Rightarrow>
          if a \<notin> seen \<and> card (insert a seen) > MAX_DELETION_ADDRESSES then True
          else exceed_cap_loop ts (insert a seen))"

definition deletion_addresses_exceed_cap :: "event \<Rightarrow> bool" where
  "deletion_addresses_exceed_cap e = exceed_cap_loop (tags e) {}"

text \<open>The distinct addresses of the tags, in order of first occurrence, beyond those seen.\<close>

lemma all_loop_out: "deletion_addresses_all_loop ts seen out = out @ deletion_addresses_all_loop ts seen []"
proof (induction ts arbitrary: seen out)
  case (Cons t ts)
  have "deletion_addresses_all_loop ts (insert a seen) [a] = a # deletion_addresses_all_loop ts (insert a seen) []" for a
    using Cons.IH [of "insert a seen" "[a]"] by simp
  then show ?case
    using Cons.IH [of seen out] Cons.IH [of _ "out @ [_]"]
    by (auto split: option.splits)
qed simp

lemma all_loop_props:
  "distinct (deletion_addresses_all_loop ts seen [])
   \<and> set (deletion_addresses_all_loop ts seen []) = {a. \<exists>t \<in> set ts. tag_address t = Some a} - seen"
proof (induction ts arbitrary: seen)
  case (Cons t ts)
  show ?case
  proof (cases "tag_address t")
    case None
    then show ?thesis using Cons.IH [of seen] by auto
  next
    case (Some a)
    then show ?thesis
      using Cons.IH [of seen] Cons.IH [of "insert a seen"]
        all_loop_out [of ts "insert a seen" "[a]"]
      by auto
  qed
qed simp

lemma capped_loop_take:
  assumes "length out \<le> MAX_DELETION_ADDRESSES"
  shows "deletion_addresses_loop ts seen out =
    take MAX_DELETION_ADDRESSES (deletion_addresses_all_loop ts seen out)"
  using assms
proof (induction ts arbitrary: seen out)
  case (Cons t ts)
  show ?case
  proof (cases "tag_address t")
    case None
    then show ?thesis using Cons by simp
  next
    case (Some a)
    show ?thesis
    proof (cases "length out = MAX_DELETION_ADDRESSES")
      case True
      have "take MAX_DELETION_ADDRESSES (deletion_addresses_all_loop ts s o') = out"
        if "o' = out \<or> o' = out @ [a]" for s o'
        using True that all_loop_out [of ts s o'] by auto
      then show ?thesis using Some True by simp
    next
      case False
      then show ?thesis using Cons Some by simp
    qed
  qed
qed simp

lemma exceed_loop_iff:
  assumes "finite seen" and "card seen \<le> MAX_DELETION_ADDRESSES"
  shows "exceed_cap_loop ts seen \<longleftrightarrow>
    card seen + length (deletion_addresses_all_loop ts seen []) > MAX_DELETION_ADDRESSES"
  using assms
proof (induction ts arbitrary: seen)
  case (Cons t ts)
  show ?case
  proof (cases "tag_address t")
    case None
    then show ?thesis using Cons by simp
  next
    case (Some a)
    show ?thesis
    proof (cases "a \<in> seen")
      case True
      then show ?thesis using Cons Some by (simp add: insert_absorb)
    next
      case False
      have "deletion_addresses_all_loop ts (insert a seen) [a] = a # deletion_addresses_all_loop ts (insert a seen) []"
        using all_loop_out [of ts "insert a seen" "[a]"] by simp
      then show ?thesis
        using Cons.IH [of "insert a seen"] Cons.prems Some False by auto
    qed
  qed
qed simp

lemma deletion_addresses_take:
  "deletion_addresses e = take MAX_DELETION_ADDRESSES (deletion_addresses_all e)"
  by (simp add: deletion_addresses_def deletion_addresses_all_def capped_loop_take)

lemma exceed_cap_iff:
  "deletion_addresses_exceed_cap e \<longleftrightarrow> length (deletion_addresses_all e) > MAX_DELETION_ADDRESSES"
  by (simp add: deletion_addresses_exceed_cap_def deletion_addresses_all_def exceed_loop_iff)

lemma deletion_addresses_all_set:
  "distinct (deletion_addresses_all e)"
  "set (deletion_addresses_all e) = {a. \<exists>t \<in> set (tags e). tag_address t = Some a}"
  using all_loop_props [of "tags e" "{}"] by (simp_all add: deletion_addresses_all_def)

section \<open>NIP-26 delegation\<close>

definition delegation :: "event \<Rightarrow> (string \<times> string \<times> string) option" where
  "delegation e =
     (case List.find (\<lambda>t. length t = 4 \<and> t ! 0 = ''delegation'') (tags e) of
        None \<Rightarrow> None
      | Some t \<Rightarrow> Some (t ! 1, t ! 2, t ! 3))"

type_synonym cond_key = "string \<times> string"

definition eval_condition :: "u64 \<Rightarrow> u64 \<Rightarrow> string \<Rightarrow> cond_key \<times> bool" where
  "eval_condition k created cond =
     (case strip_prefix ''kind='' cond of
        Some v \<Rightarrow> ((''kind'', ''=''),
          (case parse_u64 v of None \<Rightarrow> False | Some n \<Rightarrow> n = k))
      | None \<Rightarrow> (case strip_prefix ''created_at>'' cond of
          Some v \<Rightarrow> ((''created_at'', ''>''),
            (case parse_u64 v of None \<Rightarrow> False | Some n \<Rightarrow> created > n))
        | None \<Rightarrow> (case strip_prefix ''created_at<'' cond of
            Some v \<Rightarrow> ((''created_at'', ''<''),
              (case parse_u64 v of None \<Rightarrow> False | Some n \<Rightarrow> created < n))
          | None \<Rightarrow> (([], []), False))))"

definition condition_results :: "string \<Rightarrow> u64 \<Rightarrow> u64 \<Rightarrow> (cond_key \<times> bool) list" where
  "condition_results conditions k created =
     map (eval_condition k created) (filter (\<lambda>c. c \<noteq> []) (map trim (split_on CHR ''&'' conditions)))"

text \<open>One pass over the results: \<open>entry.1 |= result\<close> for a known group, a new group otherwise.\<close>

fun merge_group :: "('k \<times> bool) list \<Rightarrow> 'k \<Rightarrow> bool \<Rightarrow> ('k \<times> bool) list" where
  "merge_group [] key r = [(key, r)]"
| "merge_group ((k, v) # gs) key r =
     (if k = key then (k, v \<or> r) # gs else (k, v) # merge_group gs key r)"

definition condition_groups :: "('k \<times> bool) list \<Rightarrow> ('k \<times> bool) list" where
  "condition_groups results = foldl (\<lambda>gs (key, r). merge_group gs key r) [] results"

definition conditions_allow :: "string \<Rightarrow> u64 \<Rightarrow> u64 \<Rightarrow> bool" where
  "conditions_allow conditions k created =
     (let results = condition_results conditions k created in
      if results = [] then True
      else if \<exists>r \<in> set results. fst (fst r) = [] \<and> snd (fst r) = [] then False
      else \<forall>g \<in> set (condition_groups results). snd g)"

definition delegation_verify :: "ext \<Rightarrow> event \<Rightarrow> bool" where
  "delegation_verify X e =
     (case delegation e of
        None \<Rightarrow> True
      | Some (delegator, conditions, sg) \<Rightarrow>
          (case hex_decode X delegator of
             None \<Rightarrow> False
           | Some delegator_pk \<Rightarrow> (case hex_decode X sg of
               None \<Rightarrow> False
             | Some sg_bytes \<Rightarrow>
                 if length delegator_pk \<noteq> 32 \<or> length sg_bytes \<noteq> 64 then False
                 else
                   let payload = ''nostr:delegation:'' @ pubkey e @ '':'' @ conditions;
                       message = sha256 X (as_bytes payload)
                   in if \<not> xonly_pubkey_ok X delegator_pk then False
                      else schnorr_verify X sg_bytes message delegator_pk
                        \<and> conditions_allow conditions (kind e) (created_at e))))"

text \<open>A group passes when one of its results does; groups are the keys that occur.\<close>

lemma merge_group_props:
  assumes "distinct (map fst gs)"
  shows "distinct (map fst (merge_group gs key r))"
    and "fst ` set (merge_group gs key r) = insert key (fst ` set gs)"
    and "map_of (merge_group gs key r) k =
      (if k = key then Some ((case map_of gs key of None \<Rightarrow> False | Some b \<Rightarrow> b) \<or> r) else map_of gs k)"
  using assms by (induction gs key r rule: merge_group.induct) (auto simp: image_iff)

lemma condition_groups_map:
  assumes "distinct (map fst gs)"
  shows "distinct (map fst (foldl (\<lambda>gs (key, r). merge_group gs key r) gs rs))
    \<and> (\<forall>k. map_of (foldl (\<lambda>gs (key, r). merge_group gs key r) gs rs) k =
        (if k \<in> fst ` set rs \<or> k \<in> fst ` set gs
         then Some ((k, True) \<in> set rs \<or> map_of gs k = Some True) else None))"
  using assms
proof (induction rs arbitrary: gs)
  case Nil
  have "map_of gs k = (if k \<in> fst ` set gs then Some (map_of gs k = Some True) else None)" for k
  proof (cases "map_of gs k")
    case None
    then show ?thesis by (simp add: map_of_eq_None_iff)
  next
    case (Some v)
    then have "k \<in> fst ` set gs" by (auto simp: dom_map_of_conv_image_fst [symmetric])
    with Some show ?thesis by simp
  qed
  then show ?case using Nil.prems
    by (intro conjI allI) (simp, simp only: foldl_Nil list.set image_empty empty_iff simp_thms)
next
  case (Cons kr rs)
  obtain key r where kr: "kr = (key, r)" by (cases kr)
  note P = merge_group_props [OF Cons.prems, of key r]
  show ?case
    using Cons.IH [OF P(1)] kr P(2,3)
    by (auto simp: image_iff split: option.splits)
qed

lemma condition_groups_all:
  "(\<forall>g \<in> set (condition_groups results). snd g) \<longleftrightarrow>
     (\<forall>k \<in> fst ` set results. (k, True) \<in> set results)"
proof -
  let ?G = "condition_groups results"
  note props = condition_groups_map [of "[]" results, simplified list.map distinct.simps, OF TrueI,
      folded condition_groups_def]
  have d: "distinct (map fst ?G)" using props by blast
  have m: "map_of ?G k = (if k \<in> fst ` set results then Some ((k, True) \<in> set results) else None)" for k
    using props [THEN conjunct2, rule_format, of k] by simp
  have "(k, v) \<in> set ?G \<longleftrightarrow> map_of ?G k = Some v" for k v
    using d by (auto dest: map_of_SomeD)
  then have "(\<forall>g \<in> set ?G. snd g) \<longleftrightarrow> (\<forall>k v. map_of ?G k = Some v \<longrightarrow> v)"
    by (metis prod.collapse snd_conv)
  then show ?thesis unfolding m by auto
qed

lemma conditions_allow_iff:
  "conditions_allow conditions k created \<longleftrightarrow>
     (let R = set (condition_results conditions k created)
      in \<forall>key \<in> fst ` R. key \<noteq> ([], []) \<and> (key, True) \<in> R)"
proof -
  let ?rs = "condition_results conditions k created"
  show ?thesis
    unfolding conditions_allow_def Let_def condition_groups_all
    by (cases "?rs = []") (auto simp: prod_eq_iff)
qed

lemma delegation_verify_delegator:
  assumes "delegation_verify X e" and "delegator_tag (tags e) = Some t"
  shows "decode_array X 32 (t ! 1) \<noteq> None"
  using assms
  by (auto simp: delegation_verify_def delegation_def delegator_tag_def decode_array_def Let_def
      split: option.splits if_splits)

end
