(* ===== verification/Identity.thy ===== *)
theory Identity
  imports Requests
begin

text \<open>
  The relay's own URL identity and the requests bound to it: NIP-62 vanish requests
  (\<open>src/src/nips/nip62.rs\<close>), NIP-42 authentication (\<open>src/src/nips/nip42.rs\<close>), and the NIP-IA
  archived-identity events and owner attestations (\<open>src/src/nips/nip_ia.rs\<close>).
\<close>

section \<open>URLs and authorities\<close>

record relay_identity =
  host :: string
  port :: u16
  public_url :: string

definition is_known_scheme :: "string \<Rightarrow> bool" where
  "is_known_scheme scheme \<longleftrightarrow> to_ascii_lowercase scheme \<in> {''wss'', ''ws'', ''https'', ''http''}"

definition scheme_authority :: "string \<Rightarrow> string" where
  "scheme_authority url =
     (case split_once_str ''://'' url of
        Some (scheme, rest) \<Rightarrow>
          if is_known_scheme scheme
          then takeWhile (\<lambda>c. c \<notin> {CHR ''/'', CHR ''?'', CHR ''#''}) rest
          else url
      | None \<Rightarrow> url)"

definition authority_of :: "relay_identity \<Rightarrow> string" where
  "authority_of r =
     (let fallback =
            (if CHR '':'' \<in> set (host r)
             then ''['' @ host r @ '']:'' @ show_nat (unat (port r))
             else host r @ '':'' @ show_nat (unat (port r)))
      in if public_url r \<noteq> [] then
           (let authority = scheme_authority (public_url r) in
            if authority \<noteq> public_url r then authority else fallback)
         else fallback)"

definition split_host_port :: "string \<Rightarrow> string \<times> u16 option" where
  "split_host_port authority =
     (case strip_prefix ''['' authority of
        Some rest \<Rightarrow>
          (case split_once CHR '']'' rest of
             Some (h, tail) \<Rightarrow>
               if tail = [] then (h, None)
               else (case Option.bind (strip_prefix '':'' tail) parse_u16 of
                       Some p \<Rightarrow> (h, Some p)
                     | None \<Rightarrow> (authority, None))
           | None \<Rightarrow> (rest, None))
      | None \<Rightarrow>
          (case rsplit_once CHR '':'' authority of
             Some (h, p) \<Rightarrow> (case parse_u16 p of Some n \<Rightarrow> (h, Some n) | None \<Rightarrow> (authority, None))
           | None \<Rightarrow> (authority, None)))"

definition scheme_default_port :: "string option \<Rightarrow> u16 option" where
  "scheme_default_port scheme =
     (case scheme of
        Some s \<Rightarrow> if s = ''wss'' \<or> s = ''https'' then Some 443
                  else if s = ''ws'' \<or> s = ''http'' then Some 80 else None
      | None \<Rightarrow> None)"

definition http_origin :: "relay_identity \<Rightarrow> string" where
  "http_origin r =
     (if trim (public_url r) = [] then ''http://'' @ authority_of r
      else
        let scheme = map_option (\<lambda>(s, _). let l = to_ascii_lowercase s in
              (case strip_prefix ''nostr+'' l of Some t \<Rightarrow> t | None \<Rightarrow> l))
              (split_once_str ''://'' (public_url r));
            http = (if scheme = Some ''ws'' \<or> scheme = Some ''http'' then ''http'' else ''https'')
        in http @ ''://'' @ authority_of r)"

definition ALL_RELAYS :: string where "ALL_RELAYS = ''ALL_RELAYS''"
definition RELAY_TAG :: string where "RELAY_TAG = ''relay''"
definition VANISH_KIND :: u64 where "VANISH_KIND = 62"
definition GIFT_WRAP_KIND :: u64 where "GIFT_WRAP_KIND = 1059"
definition EPHEMERAL_GIFT_WRAP_KIND :: u64 where "EPHEMERAL_GIFT_WRAP_KIND = 21059"

definition is_none_or :: "'a option \<Rightarrow> ('a \<Rightarrow> bool) \<Rightarrow> bool" where
  "is_none_or v P \<longleftrightarrow> (case v of None \<Rightarrow> True | Some x \<Rightarrow> P x)"

definition tag_matches :: "string \<Rightarrow> relay_identity \<Rightarrow> bool" where
  "tag_matches t r =
     (if t = ALL_RELAYS then True
      else
        let tag_scheme = map_option (\<lambda>(s, _). to_ascii_lowercase s) (split_once_str ''://'' t);
            (tag_host, tag_port) = split_host_port (scheme_authority t);
            (our_host, our_port) = split_host_port (authority_of r)
        in if \<not> eq_ignore_ascii_case tag_host our_host then False
           else case (tag_port, our_port) of
             (Some tp, Some op) \<Rightarrow> tp = op
           | (None, Some op) \<Rightarrow> is_none_or (scheme_default_port tag_scheme) (\<lambda>dp. dp = op)
           | (Some tp, None) \<Rightarrow> is_none_or (scheme_default_port tag_scheme) (\<lambda>dp. dp = tp)
           | (None, None) \<Rightarrow> True)"

definition is_vanish :: "event \<Rightarrow> bool" where
  "is_vanish e \<longleftrightarrow> kind e = VANISH_KIND \<and> (\<exists>t \<in> set (tags e). first_is RELAY_TAG t)"

definition targets_us :: "event \<Rightarrow> relay_identity \<Rightarrow> bool" where
  "targets_us e r \<longleftrightarrow>
     (\<exists>t \<in> set (filter (\<lambda>t. length t \<ge> 2 \<and> t ! 0 = RELAY_TAG) (tags e)). tag_matches (t ! 1) r)"

text \<open>
  The authority the relay prints for itself splits back into its own host and port, for a DNS
  name or IPv4 literal and for a bracketed IPv6 literal.
\<close>

lemma parse_show_u16: "parse_u16 (show_nat (unat (p :: u16))) = Some p"
proof -
  have "unat p < 2 ^ 16" using unsigned_less [of p] by simp
  then show ?thesis by (simp add: parse_u16_def parse_uint_show_nat)
qed

lemma split_host_port_plain:
  assumes "CHR ''['' \<notin> set h"
  shows "split_host_port (h @ '':'' @ show_nat (unat p)) = (h, Some p)"
proof -
  have nobr: "strip_prefix ''['' (h @ '':'' @ show_nat (unat p)) = None"
    using assms by (cases h) (auto simp: strip_prefix_def)
  have "CHR '':'' \<notin> set (show_nat (unat p))"
    using show_nat_digits [of "CHR '':''" "unat p"] by (auto simp: is_ascii_digit_def code_def)
  then have "rsplit_once CHR '':'' (h @ '':'' @ show_nat (unat p)) = Some (h, show_nat (unat p))"
    by (simp add: rsplit_once_Some)
  with nobr show ?thesis by (simp add: split_host_port_def parse_show_u16)
qed

lemma split_host_port_bracketed:
  assumes "CHR '']'' \<notin> set h"
  shows "split_host_port (''['' @ h @ '']:'' @ show_nat (unat p)) = (h, Some p)"
proof -
  have "split_once CHR '']'' (h @ CHR '']'' # '':'' @ show_nat (unat p)) = Some (h, '':'' @ show_nat (unat p))"
    using assms by (simp add: split_once_Some)
  moreover have "strip_prefix ''['' (''['' @ h @ '']:'' @ show_nat (unat p))
      = Some (h @ CHR '']'' # '':'' @ show_nat (unat p))"
    by (simp add: strip_prefix_Some)
  moreover have "strip_prefix '':'' ('':'' @ show_nat (unat p)) = Some (show_nat (unat p))"
    by (simp add: strip_prefix_Some)
  ultimately show ?thesis by (simp add: split_host_port_def parse_show_u16)
qed

lemma authority_roundtrip:
  assumes "public_url r = []" and "set (host r) \<inter> {CHR ''['', CHR '']''} = {}"
  shows "split_host_port (authority_of r) = (host r, Some (port r))"
proof (cases "CHR '':'' \<in> set (host r)")
  case True
  then show ?thesis
    using assms split_host_port_bracketed [of "host r" "port r"] by (simp add: authority_of_def)
next
  case False
  then show ?thesis
    using assms split_host_port_plain [of "host r" "port r"] by (simp add: authority_of_def)
qed

section \<open>NIP-42 authentication\<close>

definition AUTH_KIND :: u64 where "AUTH_KIND = 22242"

definition auth_message :: "string \<Rightarrow> json" where
  "auth_message challenge = JArr [JStr ''AUTH'', JStr challenge]"

text \<open>\<open>rng\<close> is the outcome of filling the 16 bytes.\<close>

definition generate_challenge :: "ext \<Rightarrow> bytes option \<Rightarrow> string option" where
  "generate_challenge X rng =
     (case rng of
        None \<Rightarrow> None
      | Some b \<Rightarrow> if b = replicate 16 0 then None else Some (hex_encode X b))"

definition auth_verify :: "ext \<Rightarrow> event \<Rightarrow> string \<Rightarrow> u64 \<Rightarrow> relay_identity \<Rightarrow> bool" where
  "auth_verify X e challenge now r =
     (if kind e \<noteq> AUTH_KIND then False
      else if \<not> is_ok (verify X e) then False
      else if abs_diff (created_at e) now > 600 then False
      else (\<exists>t \<in> set (tags e). length t \<ge> 2 \<and> t ! 0 = ''challenge'' \<and> t ! 1 = challenge)
         \<and> (\<exists>t \<in> set (tags e). length t \<ge> 2 \<and> t ! 0 = RELAY_TAG \<and> t ! 1 \<noteq> ALL_RELAYS
              \<and> tag_matches (t ! 1) r))"

definition auth_ok :: "string \<Rightarrow> bool \<Rightarrow> json" where
  "auth_ok i accepted =
     (if accepted then JArr [JStr ''OK'', JStr i, JBool True, JStr []]
      else JArr [JStr ''OK'', JStr i, JBool False, JStr ''error: invalid auth event''])"

section \<open>NIP-IA archived identities\<close>

definition ARCHIVED_IDENTITIES :: u64 where "ARCHIVED_IDENTITIES = 13535"
definition ARCHIVED_DELTA :: u64 where "ARCHIVED_DELTA = 8002"
definition UNARCHIVED_DELTA :: u64 where "UNARCHIVED_DELTA = 8003"
definition MAX_ARCHIVED_IDENTITIES :: nat where "MAX_ARCHIVED_IDENTITIES = 10000"

definition ia_base :: "u64 \<Rightarrow> string \<Rightarrow> u64 \<Rightarrow> tag list \<Rightarrow> string \<Rightarrow> event" where
  "ia_base k relay_pubkey now ts text =
     \<lparr>ev_id = [], pubkey = relay_pubkey, created_at = now, kind = k, tags = ts,
      content = text, sig = []\<rparr>"

text \<open>A \<open>BTreeSet\<close> iterates in ascending order.\<close>

definition snapshot :: "string \<Rightarrow> u64 \<Rightarrow> string set \<Rightarrow> event" where
  "snapshot relay_pubkey now archived =
     ia_base ARCHIVED_IDENTITIES relay_pubkey now
       ([''-''] # map (\<lambda>pk. [''p'', pk]) (take MAX_ARCHIVED_IDENTITIES (sorted_list_of_set archived))) []"

definition nonempty_opt :: "string option \<Rightarrow> string option" where
  "nonempty_opt v = (case v of Some s \<Rightarrow> if s \<noteq> [] then Some s else None | None \<Rightarrow> None)"

definition delta :: "string \<Rightarrow> u64 \<Rightarrow> string \<Rightarrow> bool \<Rightarrow> string \<Rightarrow> string option \<Rightarrow> string \<Rightarrow>
    string option \<Rightarrow> string option \<Rightarrow> string \<Rightarrow> event" where
  "delta relay_pubkey now target archived consent consent_pubkey request_id reason replaced_by text =
     ia_base (if archived then ARCHIVED_DELTA else UNARCHIVED_DELTA) relay_pubkey now
       ([[''-''], [''p'', target],
         [''consent'', consent] @ (case consent_pubkey of None \<Rightarrow> [] | Some pk \<Rightarrow> [pk]),
         [''e'', request_id]]
        @ (case nonempty_opt reason of None \<Rightarrow> [] | Some r \<Rightarrow> [[''reason'', r]])
        @ (case nonempty_opt replaced_by of None \<Rightarrow> [] | Some r \<Rightarrow> [[''replaced-by'', r]]))
       text"

definition auth_tag :: "event \<Rightarrow> (string \<times> string \<times> string) option" where
  "auth_tag e =
     (case filter (\<lambda>t. length t = 4 \<and> t ! 0 = ''auth'') (tags e) of
        [t] \<Rightarrow> (let owner = to_ascii_lowercase (t ! 1) in
                if length owner \<noteq> 64 \<or> \<not> list_all is_ascii_hexdigit owner then None
                else Some (owner, t ! 2, t ! 3))
      | _ \<Rightarrow> None)"

definition verify_owner_signature :: "ext \<Rightarrow> string \<Rightarrow> string \<Rightarrow> string \<Rightarrow> string \<Rightarrow> bool" where
  "verify_owner_signature X owner target conditions signature =
     (case decode_array X 32 owner of
        None \<Rightarrow> False
      | Some pk \<Rightarrow> (case decode_array X 64 signature of
          None \<Rightarrow> False
        | Some sg \<Rightarrow>
            if \<not> xonly_pubkey_ok X pk then False
            else schnorr_verify X sg
              (sha256 X (as_bytes (''nostr:agent-auth:'' @ target @ '':'' @ conditions))) pk))"

definition clauses :: "string \<Rightarrow> string list" where
  "clauses conditions = filter (\<lambda>c. c \<noteq> []) (split_on CHR ''&'' conditions)"

definition clause_syntax :: "string \<Rightarrow> bool" where
  "clause_syntax c =
     (case strip_prefix ''kind='' c of
        Some k \<Rightarrow> k \<noteq> [] \<and> list_all is_ascii_digit k
      | None \<Rightarrow> (case strip_prefix ''created_at<'' c of
          Some v \<Rightarrow> parse_u64 v \<noteq> None
        | None \<Rightarrow> (case strip_prefix ''created_at>'' c of
            Some v \<Rightarrow> parse_u64 v \<noteq> None
          | None \<Rightarrow> False)))"

definition owner_conditions_syntax :: "string \<Rightarrow> bool" where
  "owner_conditions_syntax conditions = list_all clause_syntax (clauses conditions)"

definition clause_allows :: "u64 \<Rightarrow> string \<Rightarrow> bool" where
  "clause_allows created c =
     (case strip_prefix ''created_at<'' c of
        Some v \<Rightarrow> (case parse_u64 v of None \<Rightarrow> False | Some n \<Rightarrow> \<not> created \<ge> n)
      | None \<Rightarrow> (case strip_prefix ''created_at>'' c of
          Some v \<Rightarrow> (case parse_u64 v of None \<Rightarrow> False | Some n \<Rightarrow> \<not> created \<le> n)
        | None \<Rightarrow> True))"

definition owner_conditions_allow :: "string \<Rightarrow> u64 \<Rightarrow> bool" where
  "owner_conditions_allow conditions created =
     (if \<not> owner_conditions_syntax conditions then False
      else list_all (clause_allows created) (clauses conditions))"

definition verify_owner_agent_request :: "ext \<Rightarrow> event \<Rightarrow> string \<Rightarrow> string option" where
  "verify_owner_agent_request X e target =
     (case auth_tag e of
        None \<Rightarrow> None
      | Some (owner, conditions, signature) \<Rightarrow>
          if \<not> eq_ignore_ascii_case owner (pubkey e) \<or> eq_ignore_ascii_case target owner
             \<or> \<not> owner_conditions_allow conditions (created_at e) then None
          else if verify_owner_signature X owner target conditions signature then Some owner else None)"

definition verify_owner_agent_profile :: "ext \<Rightarrow> event \<Rightarrow> string \<Rightarrow> string \<Rightarrow> string option" where
  "verify_owner_agent_profile X profile target expected_owner =
     (if kind profile \<noteq> 0 \<or> \<not> eq_ignore_ascii_case (pubkey profile) target
         \<or> \<not> is_ok (verify X profile) then None
      else case auth_tag profile of
        None \<Rightarrow> None
      | Some (owner, conditions, signature) \<Rightarrow>
          if \<not> eq_ignore_ascii_case owner expected_owner \<or> eq_ignore_ascii_case target owner
             \<or> \<not> owner_conditions_syntax conditions then None
          else if verify_owner_signature X owner target conditions signature then Some owner else None)"

lemma auth_tag_lower:
  "auth_tag e = Some (owner, c, s) \<Longrightarrow> length owner = 64 \<and> to_ascii_lowercase owner = owner"
  by (auto simp: auth_tag_def Let_def split: list.splits if_splits)

lemma owner_conditions_allow_syntax:
  "owner_conditions_allow c t \<Longrightarrow> owner_conditions_syntax c"
  by (simp add: owner_conditions_allow_def split: if_splits)

end
