(* ===== verification/Keys.thy ===== *)
theory Keys
  imports Identity
begin

text \<open>
  Keys and record layouts of the LMDB tables (\<open>src/src/db/store.rs\<close>): the fixed-width and
  length-prefixed index keys, the key form of an over-long \<open>d\<close> tag, the metadata header, and the
  encodings of purge markers and of the resumable purge and deletion records. LMDB orders keys
  bytewise; the order and size of the keys are what range scans and the key-size limit rest on.
\<close>

section \<open>Constants\<close>

definition CREATED_LEN :: nat where "CREATED_LEN = 8"
definition ID_LEN :: nat where "ID_LEN = 32"
definition TAG_VALUE_MAX :: nat where "TAG_VALUE_MAX = 1024"
definition MAX_INDEX_KEY :: nat where "MAX_INDEX_KEY = 511"
definition TAG_INDEX_VALUE_MAX :: nat where
  "TAG_INDEX_VALUE_MAX = MAX_INDEX_KEY - 1 - 1 - 4 - CREATED_LEN - ID_LEN"
definition WORD_INDEX_MAX :: nat where "WORD_INDEX_MAX = MAX_INDEX_KEY - 1 - CREATED_LEN - ID_LEN"
definition META_LEN :: nat where "META_LEN = 56"
definition GIFT_WRAP_INDEX :: u8 where "GIFT_WRAP_INDEX = 0x01"
definition WORD_OVERFLOW :: string where "WORD_OVERFLOW = CHR 0x00 # ''overflow''"

lemmas len_defs = CREATED_LEN_def ID_LEN_def TAG_VALUE_MAX_def MAX_INDEX_KEY_def
  TAG_INDEX_VALUE_MAX_def WORD_INDEX_MAX_def META_LEN_def

section \<open>The metadata header\<close>

definition encode_meta :: "u64 \<Rightarrow> u64 \<Rightarrow> bytes \<Rightarrow> u64 \<Rightarrow> bytes" where
  "encode_meta knd created pk expiry_ts = be64 knd @ be64 created @ take 32 pk @ be64 expiry_ts"

definition decode_meta :: "bytes \<Rightarrow> (u64 \<times> u64 \<times> bytes \<times> u64) option" where
  "decode_meta raw =
     (if length raw < META_LEN then None
      else Some (from_be64 (take 8 raw), from_be64 (take 8 (drop 8 raw)),
                 take 32 (drop 16 raw), from_be64 (take 8 (drop 48 raw))))"

section \<open>Index keys\<close>

definition created_key :: "u64 \<Rightarrow> bytes \<Rightarrow> bytes" where
  "created_key created i = be64 created @ i"

definition pubkey_key :: "bytes \<Rightarrow> u64 \<Rightarrow> bytes \<Rightarrow> bytes" where
  "pubkey_key pk created i = pk @ be64 created @ i"

definition kind_key :: "u64 \<Rightarrow> u64 \<Rightarrow> bytes \<Rightarrow> bytes" where
  "kind_key knd created i = be64 knd @ be64 created @ i"

definition tag_key :: "u8 \<Rightarrow> bytes \<Rightarrow> u64 \<Rightarrow> bytes \<Rightarrow> bytes" where
  "tag_key name v created i = [name, 0x00] @ be32 (length v) @ v @ be64 created @ i"

definition tag_range :: "u8 \<Rightarrow> bytes \<Rightarrow> u64 \<Rightarrow> u64 \<Rightarrow> bytes \<times> bytes" where
  "tag_range name v from_ts until_ts =
     (let prefix = [name, 0x00] @ be32 (length v) @ v;
          start = prefix @ be64 from_ts @ replicate ID_LEN 0;
          stop = (if until_ts = u64_max then prefix @ be64 until_ts @ replicate ID_LEN 0xFF @ [0]
                  else prefix @ be64 (saturating_add until_ts 1) @ replicate ID_LEN 0)
      in (start, stop))"

definition range_end :: "bytes \<Rightarrow> u64 \<Rightarrow> bytes" where
  "range_end key until_ts =
     (if until_ts = u64_max then
        (if ID_LEN \<le> length key then take (length key - ID_LEN) key @ replicate ID_LEN 0xFF
         else replicate (length key) 0xFF) @ [0]
      else key)"

definition word_key :: "string \<Rightarrow> u64 \<Rightarrow> bytes \<Rightarrow> bytes" where
  "word_key word created i = as_bytes word @ [0x00] @ be64 created @ i"

definition replaceable_key :: "u64 \<Rightarrow> bytes \<Rightarrow> string \<Rightarrow> bytes" where
  "replaceable_key knd pk d = be64 knd @ pk @ be32 (length d) @ as_bytes d"

section \<open>Over-long \<open>d\<close> tags\<close>

definition dtag_fingerprint :: "ext \<Rightarrow> string \<Rightarrow> string" where
  "dtag_fingerprint X v = hex_encode X (take 4 (sha256 X (as_bytes v)))"

definition dtag_key_safe_max :: "ext \<Rightarrow> string \<Rightarrow> nat \<Rightarrow> string" where
  "dtag_key_safe_max X d limit_len =
     (if length d \<le> limit_len then d
      else take (boundary_below d (limit_len - 8)) d @ dtag_fingerprint X d)"

definition dtag_key_safe :: "ext \<Rightarrow> string \<Rightarrow> string" where
  "dtag_key_safe X d = dtag_key_safe_max X d (MAX_INDEX_KEY - (CREATED_LEN + ID_LEN + 4))"

definition deleted_address_key :: "ext \<Rightarrow> u64 \<Rightarrow> bytes \<Rightarrow> string \<Rightarrow> bytes" where
  "deleted_address_key X knd pk d =
     0x61 # replaceable_key knd pk
       (dtag_key_safe_max X d (MAX_INDEX_KEY - (1 + CREATED_LEN + ID_LEN + 4)))"

section \<open>Purge markers and pending purges\<close>

definition purged_group_key :: "ext \<Rightarrow> string \<Rightarrow> bytes" where
  "purged_group_key X gid = sha256 X (as_bytes gid)"

definition zero_id :: bytes where "zero_id = replicate 32 0"

definition encode_purged_group_marker :: "u64 \<Rightarrow> u64 \<Rightarrow> bytes option \<Rightarrow> bytes" where
  "encode_purged_group_marker purge_now cut_ts create_id =
     be64 purge_now @ be64 cut_ts @ (case create_id of None \<Rightarrow> zero_id | Some i \<Rightarrow> i)"

definition decode_purged_group_marker :: "bytes \<Rightarrow> u64 \<times> u64 \<times> bytes option" where
  "decode_purged_group_marker raw =
     (if 48 \<le> length raw then
        (let i = take 32 (drop 16 raw) in
         (from_be64 (take 8 raw), from_be64 (take 8 (drop 8 raw)), if i \<noteq> zero_id then Some i else None))
      else if 16 \<le> length raw then (from_be64 (take 8 raw), from_be64 (take 8 (drop 8 raw)), None)
      else if 8 \<le> length raw then (let c = from_be64 (take 8 raw) in (c, c, None))
      else (0, 0, None))"

definition encode_pending_purge :: "string \<Rightarrow> u64 \<Rightarrow> u64 \<Rightarrow> u64 \<Rightarrow> bytes option \<Rightarrow> bytes" where
  "encode_pending_purge gid purge_now cut_ts until_ts create_id =
     be32 (length gid) @ as_bytes gid @ be64 purge_now @ be64 cut_ts @ be64 until_ts
       @ (case create_id of None \<Rightarrow> zero_id | Some i \<Rightarrow> i)"

definition decode_pending_purge :: "bytes \<Rightarrow> (string \<times> u64 \<times> u64 \<times> u64 \<times> bytes option) option" where
  "decode_pending_purge raw =
     Option.bind (get_slice raw 0 4) (\<lambda>l. let n = be_nat l in
     Option.bind (get_slice raw 4 (4 + n)) (\<lambda>gid.
     Option.bind (get_slice raw (4 + n) (4 + n + 8)) (\<lambda>now.
     Option.bind (get_slice raw (4 + n + 8) (4 + n + 16)) (\<lambda>c.
     Option.bind
       (if length raw = 4 + n + 16 then Some (u64_max, None)
        else if length raw = 4 + n + 24 then
          map_option (\<lambda>u. (from_be64 u, None)) (get_slice raw (4 + n + 16) (4 + n + 24))
        else if length raw = 4 + n + 56 then
          Option.bind (get_slice raw (4 + n + 16) (4 + n + 24)) (\<lambda>u.
          map_option (\<lambda>i. (from_be64 u, if i \<noteq> zero_id then Some i else None))
            (get_slice raw (4 + n + 24) (4 + n + 56)))
        else None)
       (\<lambda>(until_ts, create_id).
     map_option (\<lambda>g. (g, from_be64 now, from_be64 c, until_ts, create_id)) (from_utf8 gid))))))"


section \<open>Pending deletions\<close>

record pending_deletion =
  pd_targets :: "string list"
  pd_addresses :: "address list"
  pd_request_pubkey :: "string option"
  pd_request_created :: u64
  pd_group :: "string option"
  pd_purge_wraps :: bool

definition put_str :: "string \<Rightarrow> bytes" where
  "put_str v = be32 (length v) @ as_bytes v"

definition put_opt_str :: "string option \<Rightarrow> bytes" where
  "put_opt_str v = (case v of Some s \<Rightarrow> 1 # put_str s | None \<Rightarrow> [0])"

definition put_address :: "address \<Rightarrow> bytes" where
  "put_address a = be64 (addr_kind a) @ put_str (addr_pubkey a) @ put_str (addr_d a)"

definition encode_pending_deletion ::
  "string list \<Rightarrow> address list \<Rightarrow> string option \<Rightarrow> u64 \<Rightarrow> string option \<Rightarrow> bool \<Rightarrow> bytes" where
  "encode_pending_deletion targets addresses request_pubkey request_created grp purge_wraps =
     be64 request_created @ put_opt_str request_pubkey @ put_opt_str grp
       @ be32 (length targets) @ concat (map put_str targets)
       @ be32 (length addresses) @ concat (map put_address addresses)
       @ [if purge_wraps then 1 else 0]"

text \<open>The bounds-checked \<open>Reader\<close>: its state is the unread rest of the record.\<close>

definition rd_take :: "nat \<Rightarrow> bytes \<Rightarrow> (bytes \<times> bytes) option" where
  "rd_take n r = (if n \<le> length r then Some (take n r, drop n r) else None)"

definition rd_u8 :: "bytes \<Rightarrow> (u8 \<times> bytes) option" where
  "rd_u8 r = map_option (\<lambda>(b, r). (b ! 0, r)) (rd_take 1 r)"

definition rd_u32 :: "bytes \<Rightarrow> (nat \<times> bytes) option" where
  "rd_u32 r = map_option (\<lambda>(b, r). (be_nat b, r)) (rd_take 4 r)"

definition rd_u64 :: "bytes \<Rightarrow> (u64 \<times> bytes) option" where
  "rd_u64 r = map_option (\<lambda>(b, r). (from_be64 b, r)) (rd_take 8 r)"

definition rd_string :: "bytes \<Rightarrow> (string \<times> bytes) option" where
  "rd_string r =
     Option.bind (rd_u32 r) (\<lambda>(n, r).
     Option.bind (rd_take n r) (\<lambda>(b, r). map_option (\<lambda>s. (s, r)) (from_utf8 b)))"

definition rd_opt_string :: "bytes \<Rightarrow> (string option \<times> bytes) option" where
  "rd_opt_string r =
     Option.bind (rd_u8 r) (\<lambda>(b, r).
       if b = 0 then Some (None, r)
       else if b = 1 then map_option (\<lambda>(s, r). (Some s, r)) (rd_string r)
       else None)"

definition rd_address :: "bytes \<Rightarrow> (address \<times> bytes) option" where
  "rd_address r =
     Option.bind (rd_u64 r) (\<lambda>(k, r).
     Option.bind (rd_string r) (\<lambda>(p, r).
     map_option (\<lambda>(d, r). (\<lparr>addr_kind = k, addr_pubkey = p, addr_d = d\<rparr>, r)) (rd_string r)))"

text \<open>The counted loops.\<close>

fun rd_many :: "(bytes \<Rightarrow> ('a \<times> bytes) option) \<Rightarrow> nat \<Rightarrow> bytes \<Rightarrow> ('a list \<times> bytes) option" where
  "rd_many f 0 r = Some ([], r)"
| "rd_many f (Suc n) r =
     Option.bind (f r) (\<lambda>(x, r). map_option (\<lambda>(xs, r). (x # xs, r)) (rd_many f n r))"

definition decode_pending_deletion :: "bytes \<Rightarrow> pending_deletion option" where
  "decode_pending_deletion raw =
     Option.bind (rd_u64 raw) (\<lambda>(request_created, r).
     Option.bind (rd_opt_string r) (\<lambda>(request_pubkey, r).
     Option.bind (rd_opt_string r) (\<lambda>(grp, r).
     Option.bind (rd_u32 r) (\<lambda>(target_count, r).
     Option.bind (rd_many rd_string target_count r) (\<lambda>(targets, r).
     Option.bind (rd_u32 r) (\<lambda>(address_count, r).
     map_option (\<lambda>(addresses, r).
         \<lparr>pd_targets = targets, pd_addresses = addresses, pd_request_pubkey = request_pubkey,
          pd_request_created = request_created, pd_group = grp,
          pd_purge_wraps = (case rd_u8 r of Some (b, _) \<Rightarrow> b \<noteq> 0 | None \<Rightarrow> False)\<rparr>)
       (rd_many rd_address address_count r)))))))"

definition pending_deletion_key :: "ext \<Rightarrow> bytes \<Rightarrow> bytes" where
  "pending_deletion_key X encoded = sha256 X encoded"

section \<open>Deletion markers\<close>

text \<open>\<open>chunks\<close> of a slice.\<close>

function chunks :: "nat \<Rightarrow> 'a list \<Rightarrow> 'a list list" where
  "chunks n xs = (if xs = [] \<or> n = 0 then [] else take n xs # chunks n (drop n xs))"
  by pat_completeness auto
termination by (relation "measure (\<lambda>(n, xs). length xs)") auto

declare chunks.simps [simp del]

definition deletion_marker_blocks :: "ext \<Rightarrow> bytes \<Rightarrow> event \<Rightarrow> bool" where
  "deletion_marker_blocks X marker e =
     (if marker = [] \<or> length marker mod ID_LEN \<noteq> 0 then True
      else
        (let matches_pubkey = (\<lambda>c. c \<in> set (chunks ID_LEN marker)) in
         if (case hex_decode X (pubkey e) of None \<Rightarrow> False | Some p \<Rightarrow> matches_pubkey p) then True
         else if kind e = GIFT_WRAP_KIND \<or> kind e = EPHEMERAL_GIFT_WRAP_KIND then
           (\<exists>t \<in> set (tags e). 2 \<le> length t \<and> t ! 0 = ''p'' \<and>
              (case hex_decode X (t ! 1) of None \<Rightarrow> False | Some r \<Rightarrow> matches_pubkey r))
         else False))"

section \<open>Round trips\<close>

lemma decode_encode_meta:
  assumes "length pk = 32"
  shows "decode_meta (encode_meta k c pk x) = Some (k, c, pk, x)"
proof -
  let ?r = "encode_meta k c pk x"
  have "take 8 ?r = be64 k" "take 8 (drop 8 ?r) = be64 c" "take 32 (drop 16 ?r) = pk" "take 8 (drop 48 ?r) = be64 x"
    using assms by (simp_all add: encode_meta_def)
  then show ?thesis using assms by (simp add: decode_meta_def encode_meta_def len_defs)
qed

lemma decode_encode_purged_group_marker:
  assumes "\<forall>i. create_id = Some i \<longrightarrow> length i = 32 \<and> i \<noteq> zero_id"
  shows "decode_purged_group_marker (encode_purged_group_marker now c create_id) = (now, c, create_id)"
  using assms by (auto simp: decode_purged_group_marker_def encode_purged_group_marker_def zero_id_def Let_def
      split: option.splits)

lemma be_nat_be32: "n < 2 ^ 32 \<Longrightarrow> be_nat (be32 n) = n"
  by (simp add: be32_def be_nat_be_bytes)

lemma decode_encode_pending_purge:
  assumes "length gid < 2 ^ 32" and "utf8_ok (as_bytes gid)"
    and "\<forall>i. create_id = Some i \<longrightarrow> length i = 32 \<and> i \<noteq> zero_id"
  shows "decode_pending_purge (encode_pending_purge gid now c u create_id) = Some (gid, now, c, u, create_id)"
proof -
  let ?i = "case create_id of None \<Rightarrow> zero_id | Some i \<Rightarrow> i"
  let ?r = "encode_pending_purge gid now c u create_id" and ?n = "length gid"
  have i: "length ?i = 32" "(if ?i \<noteq> zero_id then Some ?i else None) = create_id"
    using assms(3) by (auto simp: zero_id_def split: option.splits)
  have r: "?r = be32 ?n @ as_bytes gid @ be64 now @ be64 c @ be64 u @ ?i" by (simp add: encode_pending_purge_def)
  have len: "length ?r = 4 + ?n + 56" using i(1) by (simp add: r)
  have "get_slice ?r 0 4 = Some (be32 ?n)" "get_slice ?r 4 (4 + ?n) = Some (as_bytes gid)"
    "get_slice ?r (4 + ?n) (4 + ?n + 8) = Some (be64 now)" "get_slice ?r (4 + ?n + 8) (4 + ?n + 16) = Some (be64 c)"
    "get_slice ?r (4 + ?n + 16) (4 + ?n + 24) = Some (be64 u)" "get_slice ?r (4 + ?n + 24) (4 + ?n + 56) = Some ?i"
    using i(1) len by (simp_all add: get_slice_def r)
  then show ?thesis using len i(2) assms(2) be_nat_be32 [OF assms(1)]
    by (simp add: decode_pending_purge_def Let_def)
qed


definition string_ok :: "string \<Rightarrow> bool" where
  "string_ok s \<longleftrightarrow> length s < 2 ^ 32 \<and> utf8_ok (as_bytes s)"

lemma rd_take_append: "length xs = n \<Longrightarrow> rd_take n (xs @ r) = Some (xs, r)"
  by (simp add: rd_take_def)

lemma rd_u8_Cons: "rd_u8 (b # r) = Some (b, r)"
  by (simp add: rd_u8_def rd_take_def)

lemma rd_u32_be32: "n < 2 ^ 32 \<Longrightarrow> rd_u32 (be32 n @ r) = Some (n, r)"
  by (simp add: rd_u32_def rd_take_append be_nat_be32)

lemma rd_u64_be64: "rd_u64 (be64 x @ r) = Some (x, r)"
  by (simp add: rd_u64_def rd_take_append)

lemma rd_string_put: "string_ok s \<Longrightarrow> rd_string (put_str s @ r) = Some (s, r)"
  by (simp add: rd_string_def put_str_def string_ok_def rd_u32_be32 rd_take_append)

lemma rd_opt_string_put: "\<forall>v. s = Some v \<longrightarrow> string_ok v \<Longrightarrow> rd_opt_string (put_opt_str s @ r) = Some (s, r)"
  by (cases s) (simp_all add: rd_opt_string_def put_opt_str_def rd_u8_Cons rd_string_put)

definition address_ok :: "address \<Rightarrow> bool" where
  "address_ok a \<longleftrightarrow> string_ok (addr_pubkey a) \<and> string_ok (addr_d a)"

lemma rd_address_put: "address_ok a \<Longrightarrow> rd_address (put_address a @ r) = Some (a, r)"
  by (simp add: rd_address_def put_address_def address_ok_def rd_u64_be64 rd_string_put)

lemma rd_many_put:
  "(\<And>x r. x \<in> set xs \<Longrightarrow> f (enc x @ r) = Some (x, r)) \<Longrightarrow>
   rd_many f (length xs) (concat (map enc xs) @ r) = Some (xs, r)"
  by (induction xs arbitrary: r) auto

lemma decode_encode_pending_deletion:
  assumes "\<forall>t \<in> set targets. string_ok t" and "\<forall>a \<in> set addresses. address_ok a"
    and "\<forall>v. rp = Some v \<longrightarrow> string_ok v" and "\<forall>v. g = Some v \<longrightarrow> string_ok v"
    and "length targets < 2 ^ 32" and "length addresses < 2 ^ 32"
  shows "decode_pending_deletion (encode_pending_deletion targets addresses rp rc g w) =
    Some \<lparr>pd_targets = targets, pd_addresses = addresses, pd_request_pubkey = rp,
      pd_request_created = rc, pd_group = g, pd_purge_wraps = w\<rparr>"
proof -
  have "rd_many rd_string (length targets) (concat (map put_str targets) @ r) = Some (targets, r)" for r
    by (rule rd_many_put) (use assms(1) rd_string_put in blast)
  moreover have "rd_many rd_address (length addresses) (concat (map put_address addresses) @ r) = Some (addresses, r)" for r
    by (rule rd_many_put) (use assms(2) rd_address_put in blast)
  ultimately show ?thesis
    by (simp add: decode_pending_deletion_def encode_pending_deletion_def rd_u64_be64 rd_opt_string_put [OF assms(3)]
        rd_opt_string_put [OF assms(4)] rd_u32_be32 [OF assms(5)] rd_u32_be32 [OF assms(6)] rd_u8_Cons)
qed

section \<open>Key sizes\<close>

text \<open>What the keys rely on of the external hashes: hex doubles the length and SHA-256 gives 32 bytes.\<close>

definition digest_ok :: "ext \<Rightarrow> bool" where
  "digest_ok X \<longleftrightarrow> (\<forall>m. length (sha256 X m) = 32) \<and> (\<forall>b. length (hex_encode X b) = 2 * length b)"

lemma length_dtag_key_safe_max: "digest_ok X \<Longrightarrow> 8 \<le> n \<Longrightarrow> length (dtag_key_safe_max X d n) \<le> n"
  using boundary_below_le [of d "n - 8"]
  by (auto simp: dtag_key_safe_max_def dtag_fingerprint_def digest_ok_def)

lemma replaceable_key_size:
  "digest_ok X \<Longrightarrow> length pk = 32 \<Longrightarrow> length (replaceable_key k pk (dtag_key_safe X d)) \<le> MAX_INDEX_KEY"
  using length_dtag_key_safe_max [of X "MAX_INDEX_KEY - (CREATED_LEN + ID_LEN + 4)" d]
  by (simp add: replaceable_key_def dtag_key_safe_def len_defs)

lemma deleted_address_key_size:
  "digest_ok X \<Longrightarrow> length pk = 32 \<Longrightarrow> length (deleted_address_key X k pk d) \<le> MAX_INDEX_KEY"
  using length_dtag_key_safe_max [of X "MAX_INDEX_KEY - (1 + CREATED_LEN + ID_LEN + 4)" d]
  by (simp add: replaceable_key_def deleted_address_key_def len_defs)

section \<open>Key order\<close>

lemma created_key_less: "created_key c i < created_key c' i' \<longleftrightarrow> (c, i) < (c', i')"
  by (auto simp: created_key_def append_less be64_less less_prod_def)

lemma between_prefix:
  assumes "length p = length p'"
  shows "p @ x \<le> p' @ y \<and> p' @ y < p @ z \<longleftrightarrow> p' = p \<and> x \<le> y \<and> y < (z :: 'a :: linorder list)"
  using assms by (auto simp: append_le append_less)

lemma saturating_succ:
  assumes "u \<noteq> u64_max"
  shows "c < saturating_add u 1 \<longleftrightarrow> c \<le> u"
proof -
  have "u < u64_max" using assms u64_max_max [of u] by simp
  then have "unat (saturating_add u 1) = unat u + 1"
    by (simp add: unat_saturating_add word_less_nat_alt)
  then show ?thesis by (auto simp: word_less_nat_alt word_le_nat_alt)
qed

lemma saturating_succ_max: "saturating_add u64_max 1 = u64_max"
  by (simp add: saturating_add_def)

text \<open>The \<open>(created_at, id)\<close> tail of every index key against a half-open time range.\<close>

lemma tail_range:
  assumes "length i = 32"
  shows "be64 lo @ replicate 32 0 \<le> be64 c @ i \<longleftrightarrow> lo \<le> c"
    and "be64 c @ i < (if hi = u64_max then be64 hi @ replicate 32 0xFF @ [0] else be64 (saturating_add hi 1) @ replicate 32 0)
      \<longleftrightarrow> c \<le> hi"
proof -
  show "be64 lo @ replicate 32 0 \<le> be64 c @ i \<longleftrightarrow> lo \<le> c"
    using zeros_le [OF assms] by (auto simp: append_le be64_less)
  have "i < replicate 32 0xFF @ [0]" using ff_le [OF assms] assms by (subst list_less_snoc) simp_all
  moreover have "\<not> i < replicate 32 0" using zeros_le [OF assms] by (simp add: not_less)
  ultimately show "be64 c @ i < (if hi = u64_max then be64 hi @ replicate 32 0xFF @ [0]
        else be64 (saturating_add hi 1) @ replicate 32 0) \<longleftrightarrow> c \<le> hi"
    using u64_max_max [of c] saturating_succ [of hi c]
    by (auto simp: append_less be64_less le_less)
qed

lemma range_end_tail:
  "range_end (p @ be64 (saturating_add hi 1) @ replicate 32 0) hi =
   p @ (if hi = u64_max then be64 hi @ replicate 32 0xFF @ [0] else be64 (saturating_add hi 1) @ replicate 32 0)"
  by (simp add: range_end_def ID_LEN_def saturating_succ_max)

text \<open>A scan of one index prefix sees exactly the keys of that prefix inside the time range.\<close>

lemma prefix_scan:
  assumes "length i = 32" and "length p' = length p"
  shows "p @ be64 lo @ replicate 32 0 \<le> p' @ be64 c @ i \<and>
      p' @ be64 c @ i < range_end (p @ be64 (saturating_add hi 1) @ replicate 32 0) hi
    \<longleftrightarrow> p' = p \<and> lo \<le> c \<and> c \<le> hi"
  unfolding range_end_tail
  by (subst between_prefix) (use assms(2) tail_range [OF assms(1)] in auto)

lemma tag_range_exact:
  assumes "length i = 32" and "length v < 2 ^ 32" and "length v' < 2 ^ 32"
  shows "fst (tag_range n v lo hi) \<le> tag_key n' v' c i \<and> tag_key n' v' c i < snd (tag_range n v lo hi)
    \<longleftrightarrow> n' = n \<and> v' = v \<and> lo \<le> c \<and> c \<le> hi"
proof -
  let ?stop = "if hi = u64_max then be64 hi @ replicate 32 0xFF @ [0] else be64 (saturating_add hi 1) @ replicate 32 0"
  let ?p = "[n, 0x00] @ be32 (length v)" and ?p' = "[n', 0x00] @ be32 (length v')"
  have r: "fst (tag_range n v lo hi) = ?p @ v @ be64 lo @ replicate 32 0"
    "snd (tag_range n v lo hi) = ?p @ v @ ?stop" "tag_key n' v' c i = ?p' @ v' @ be64 c @ i"
    by (simp_all add: tag_range_def tag_key_def Let_def ID_LEN_def)
  have pe: "?p' = ?p \<longleftrightarrow> n' = n \<and> length v' = length v" using be32_inj [OF assms(3,2)] by auto
  have "v @ be64 lo @ replicate 32 0 \<le> v' @ be64 c @ i \<and> v' @ be64 c @ i < v @ ?stop
      \<longleftrightarrow> v' = v \<and> lo \<le> c \<and> c \<le> hi" if "length v' = length v"
    by (subst between_prefix) (use that tail_range [OF assms(1)] in auto)
  then show ?thesis unfolding r by (subst between_prefix) (use pe in auto)
qed

lemma replaceable_key_inj:
  assumes "length pk = 32" and "length pk' = 32" and "length d < 2 ^ 32" and "length d' < 2 ^ 32"
  shows "replaceable_key k pk d = replaceable_key k' pk' d' \<longleftrightarrow> k = k' \<and> pk = pk' \<and> d = d'"
  using assms be32_inj [of "length d" "length d'"] by (auto simp: replaceable_key_def)

end
