(* ===== verification/Lmdb.thy ===== *)
theory Lmdb
  imports Prelude
begin

text \<open>
  An LMDB table as the store sees it: byte keys in bytewise order, each with a byte value. The
  operations are the ones \<open>heed\<close> offers inside one write transaction (\<open>get\<close>, \<open>put\<close>, \<open>delete\<close>,
  \<open>is_empty\<close> and iteration in key order); transport and I/O errors are not modelled. What the
  store relies on of a table is the locale \<open>kv_table\<close>.
\<close>

type_synonym table = "(bytes \<times> bytes) list"

definition tget :: "table \<Rightarrow> bytes \<Rightarrow> bytes option" where
  "tget t k = map_of t k"

fun tput :: "bytes \<Rightarrow> bytes \<Rightarrow> table \<Rightarrow> table" where
  "tput k v [] = [(k, v)]"
| "tput k v ((k', v') # t) =
     (if k < k' then (k, v) # (k', v') # t
      else if k = k' then (k, v) # t
      else (k', v') # tput k v t)"

definition tdel :: "bytes \<Rightarrow> table \<Rightarrow> table" where
  "tdel k t = filter (\<lambda>e. fst e \<noteq> k) t"

locale kv_table =
  fixes get :: "'t \<Rightarrow> 'k \<Rightarrow> 'v option"
    and put :: "'k \<Rightarrow> 'v \<Rightarrow> 't \<Rightarrow> 't"
    and del :: "'k \<Rightarrow> 't \<Rightarrow> 't"
  assumes get_put: "get (put k v t) k' = (if k' = k then Some v else get t k')"
    and get_del: "get (del k t) k' = (if k' = k then None else get t k')"
begin

text \<open>Batches of index writes: all with one value, or deletions.\<close>

lemma get_puts: "get (fold (\<lambda>k. put k v) ks t) k' = (if k' \<in> set ks then Some v else get t k')"
  by (induction ks arbitrary: t) (auto simp: get_put)

lemma get_dels: "get (fold del ks t) k' = (if k' \<in> set ks then None else get t k')"
  by (induction ks arbitrary: t) (auto simp: get_del)

lemma put_then_del: "get t k = None \<Longrightarrow> get (del k (put k v t)) k' = get t k'"
  by (auto simp: get_put get_del)

lemma puts_then_dels:
  assumes "\<And>k. k \<in> set ks \<Longrightarrow> get t k = None"
  shows "get (fold del ks (fold (\<lambda>k. put k v) ks t)) k' = get t k'"
  using assms by (auto simp: get_puts get_dels)

end

interpretation lmdb: kv_table tget tput tdel
proof
  fix k k' v and t :: table
  show "tget (tput k v t) k' = (if k' = k then Some v else tget t k')"
    by (induction t) (auto simp: tget_def)
  show "tget (tdel k t) k' = (if k' = k then None else tget t k')"
    by (induction t) (auto simp: tget_def tdel_def)
qed

text \<open>Tables stay in strict key order, the order iteration uses.\<close>

definition table_ok :: "table \<Rightarrow> bool" where
  "table_ok t \<longleftrightarrow> sorted_wrt (<) (map fst t)"

lemma fst_tput: "fst ` set (tput k v t) = insert k (fst ` set t)"
  by (induction k v t rule: tput.induct) (simp_all add: insert_commute)

lemma table_ok_tput: "table_ok t \<Longrightarrow> table_ok (tput k v t)"
proof (induction t)
  case (Cons e t)
  obtain k' v' where e: "e = (k', v')" by (cases e)
  have t: "table_ok t" using Cons.prems by (simp add: table_ok_def)
  show ?case
  proof (cases "k < k' \<or> k = k'")
    case True
    then show ?thesis using Cons.prems by (auto simp: table_ok_def e)
  next
    case False
    then have lt: "k' < k" by auto
    have "k' < x" if "x \<in> fst ` set (tput k v t)" for x
      using that Cons.prems lt by (auto simp: fst_tput table_ok_def e)
    then show ?thesis using False Cons.IH [OF t] by (auto simp: table_ok_def e)
  qed
qed (simp add: table_ok_def)

lemma table_ok_tdel: "table_ok t \<Longrightarrow> table_ok (tdel k t)"
proof -
  have "sorted_wrt (<) (map fst t) \<Longrightarrow> sorted_wrt (<) (map fst (filter P t))" for P
    by (induction t) auto
  then show "table_ok t \<Longrightarrow> table_ok (tdel k t)" by (simp add: table_ok_def tdel_def)
qed

lemma tget_nil [simp]: "tget [] k = None"
  by (simp add: tget_def)

lemma tget_mem: "table_ok t \<Longrightarrow> tget t k = Some v \<longleftrightarrow> (k, v) \<in> set t"
proof -
  assume "table_ok t"
  then have "distinct (map fst t)" using strict_sorted_iff by (auto simp: table_ok_def)
  then show ?thesis by (simp add: tget_def)
qed

end
