(* ===== verification/Store.thy ===== *)
theory Store
  imports Keys Lmdb
begin

text \<open>
  The write path of the event store (\<open>src/src/db/store.rs\<close>): \<open>put_event_in\<close> with its admission
  checks (NIP-62 vanish, NIP-86 bans, NIP-09 tombstones, NIP-29 purge markers, ephemeral kinds,
  NIP-40 expiry), the replaceable slot, the secondary indexes, and \<open>remove_event\<close>. One call runs
  inside one write transaction, so the model is a function on the tables; LMDB faults, which abort
  the whole batch, are not modelled.
\<close>

section \<open>State\<close>

text \<open>
  The tables of \<open>Store\<close>. The shutdown flag \<open>cancel\<close> is raised by another thread: \<open>cancel_in\<close> says after
  how many further reads it is seen raised (\<open>None\<close>: never), so every interruption point is covered.
  \<open>low_space\<close> is what \<open>disk_full\<close> answers.
\<close>

record store =
  events :: table
  by_created :: table
  by_pubkey :: table
  by_kind :: table
  by_tag :: table
  by_word :: "table option"
  event_meta :: "table option"
  meta_index :: bool
  deleted :: table
  expiry_t :: table
  replaceable :: table
  vanish :: table
  banned :: table
  allowed :: table
  first_seen :: table
  purged_groups :: table
  purge_pending :: table
  vanish_pending :: table
  delete_pending :: table
  index_meta :: table
  expiry_enabled :: bool
  cancel_in :: "nat option"
  indexed_words :: nat
  low_space :: bool

datatype put_outcome =
    Stored
  | Duplicate string
  | Replaced
  | Expired
  | PreviouslyDeleted
  | Ephemeral
  | Invalid string
  | Failed string

definition CORRUPT_CLEANUP_SCAN_CAP :: nat where "CORRUPT_CLEANUP_SCAN_CAP = 50000"

definition group_epoch_key :: "bytes \<Rightarrow> bytes" where "group_epoch_key i = as_bytes ''group_epoch:'' @ i"
definition arrival_key :: "bytes \<Rightarrow> bytes" where "arrival_key i = as_bytes ''arrival:'' @ i"
definition thread_root_key :: "bytes \<Rightarrow> bytes" where "thread_root_key i = as_bytes ''thread_root:'' @ i"

section \<open>Derived-state counters\<close>

datatype state_family = Group | Role

definition state_kind_family :: "u64 \<Rightarrow> state_family option" where
  "state_kind_family k =
     (if 9000 \<le> k \<and> k \<le> 9020 \<or> k = 9021 \<or> k = 9022 then Some Group
      else if k \<in> {33534, 13534, 8000, 8001, 28934, 28936} then Some Role
      else None)"

definition STATE_SEQ_KEY :: bytes where "STATE_SEQ_KEY = as_bytes ''state_seq''"
definition STATE_SEQ_GROUP_KEY :: bytes where "STATE_SEQ_GROUP_KEY = as_bytes ''state_seq_group''"
definition STATE_SEQ_ROLE_KEY :: bytes where "STATE_SEQ_ROLE_KEY = as_bytes ''state_seq_role''"

definition meta_counter :: "table \<Rightarrow> bytes \<Rightarrow> u64" where
  "meta_counter t key =
     (case Option.bind (tget t key) (\<lambda>raw. get_slice raw 0 8) of None \<Rightarrow> 0 | Some b \<Rightarrow> from_be64 b)"

definition bump_meta_counter :: "store \<Rightarrow> bytes \<Rightarrow> store" where
  "bump_meta_counter s key =
     s\<lparr>index_meta := tput key (be64 (saturating_add (meta_counter (index_meta s) key) 1)) (index_meta s)\<rparr>"

definition bump_state_seq :: "store \<Rightarrow> state_family \<Rightarrow> store" where
  "bump_state_seq s family =
     bump_meta_counter
       (bump_meta_counter s (case family of Group \<Rightarrow> STATE_SEQ_GROUP_KEY | Role \<Rightarrow> STATE_SEQ_ROLE_KEY))
       STATE_SEQ_KEY"

section \<open>Index entries of one event\<close>

definition indexable_tag :: "tag \<Rightarrow> bool" where
  "indexable_tag t \<longleftrightarrow>
     2 \<le> length t \<and> length (t ! 0) = 1 \<and> is_ascii_alphanumeric (t ! 0 ! 0) \<and> length (t ! 1) \<le> TAG_VALUE_MAX"

definition gift_wrap_recipients :: "ext \<Rightarrow> event \<Rightarrow> bytes list" where
  "gift_wrap_recipients X e =
     (if kind e \<noteq> GIFT_WRAP_KIND then []
      else List.map_filter (\<lambda>t. decode_array X ID_LEN (t ! 1))
             (filter (\<lambda>t. 2 \<le> length t \<and> t ! 0 = ''p'') (tags e)))"

definition is_replaceable :: "event \<Rightarrow> bool" where
  "is_replaceable e \<longleftrightarrow> is_replaceable_kind (kind e) \<or> is_param_replaceable_kind (kind e)"

definition delegated_by :: "ext \<Rightarrow> event \<Rightarrow> string \<Rightarrow> bool" where
  "delegated_by X e delegator \<longleftrightarrow>
     (case List.find (\<lambda>t. length t = 4 \<and> t ! 0 = ''delegation'') (tags e) of
        None \<Rightarrow> False
      | Some t \<Rightarrow> eq_ignore_ascii_case (t ! 1) delegator) \<and> delegation_verify X e"

text \<open>The delegator whose bytes the author index and the vanish check use.\<close>

definition delegator_bytes :: "ext \<Rightarrow> event \<Rightarrow> bytes option" where
  "delegator_bytes X e =
     (case delegation e of None \<Rightarrow> None | Some (delegator, _, _) \<Rightarrow> decode_array X ID_LEN delegator)"

definition author_keys :: "ext \<Rightarrow> event \<Rightarrow> bytes \<Rightarrow> bytes \<Rightarrow> bytes list" where
  "author_keys X e i pk =
     pubkey_key pk (created_at e) i #
     (case delegator_bytes X e of None \<Rightarrow> [] | Some d \<Rightarrow> [pubkey_key d (created_at e) i])"

definition tag_keys :: "ext \<Rightarrow> event \<Rightarrow> bytes \<Rightarrow> bytes list" where
  "tag_keys X e i =
     filter (\<lambda>k. length k \<le> MAX_INDEX_KEY)
       (map (\<lambda>t. tag_key (of_nat (code (t ! 0 ! 0))) (as_bytes (t ! 1)) (created_at e) i)
          (filter indexable_tag (tags e)))
     @ map (\<lambda>r. tag_key GIFT_WRAP_INDEX r (created_at e) i) (gift_wrap_recipients X e)"

definition expiry_keys :: "event \<Rightarrow> bytes \<Rightarrow> bytes list" where
  "expiry_keys e i = (case expiry e of None \<Rightarrow> [] | Some x \<Rightarrow> [created_key x i])"

text \<open>\<open>index_event_words\<close>, and its mirror in \<open>remove_event\<close>: the keys of the first \<open>limit\<close> words, and the overflow marker.\<close>

definition word_keys :: "unicode \<Rightarrow> event \<Rightarrow> bytes \<Rightarrow> nat \<Rightarrow> bytes list" where
  "word_keys U e i limit_words =
     (let words = tokenize U (content e);
          keys = map (\<lambda>w. word_key w (created_at e) i) (take limit_words words);
          overflow = (length words > limit_words \<or> (\<exists>k \<in> set keys. length k > MAX_INDEX_KEY));
          marker = word_key WORD_OVERFLOW (created_at e) i
      in filter (\<lambda>k. length k \<le> MAX_INDEX_KEY) keys
         @ (if overflow \<and> length marker \<le> MAX_INDEX_KEY then [marker] else []))"

definition puts :: "bytes list \<Rightarrow> table \<Rightarrow> table" where
  "puts ks t = fold (\<lambda>k. tput k []) ks t"

definition dels :: "bytes list \<Rightarrow> table \<Rightarrow> table" where
  "dels ks t = fold tdel ks t"

definition put_indexes :: "ext \<Rightarrow> unicode \<Rightarrow> store \<Rightarrow> event \<Rightarrow> bytes \<Rightarrow> bytes \<Rightarrow> store" where
  "put_indexes X U s e i pk =
     s\<lparr>by_created := puts [created_key (created_at e) i] (by_created s),
       by_pubkey := puts (author_keys X e i pk) (by_pubkey s),
       by_kind := puts [kind_key (kind e) (created_at e) i] (by_kind s),
       event_meta :=
         (if meta_index s then
            map_option (tput i (encode_meta (kind e) (created_at e) pk
              (case expiry e of None \<Rightarrow> 0 | Some x \<Rightarrow> x))) (event_meta s)
          else event_meta s),
       by_tag := puts (tag_keys X e i) (by_tag s),
       expiry_t := puts (expiry_keys e i) (expiry_t s),
       by_word := map_option (puts (word_keys U e i (indexed_words s))) (by_word s)\<rparr>"

section \<open>Removing an event\<close>

definition slot_dtag :: "event \<Rightarrow> string" where
  "slot_dtag e = (if is_param_replaceable_kind (kind e) then dtag e else [])"

definition slot_key :: "ext \<Rightarrow> event \<Rightarrow> bytes \<Rightarrow> bytes" where
  "slot_key X e pk = replaceable_key (kind e) pk (dtag_key_safe X (slot_dtag e))"

definition remember_thread_root_tombstone :: "store \<Rightarrow> event \<Rightarrow> bytes \<Rightarrow> store" where
  "remember_thread_root_tombstone s e i =
     (if kind e \<notin> {9, 40002, 45001, 45003} then s
      else case List.find (\<lambda>t. 2 \<le> length t \<and> t ! 0 = ''h'') (tags e) of
        None \<Rightarrow> s
      | Some t \<Rightarrow>
          if t ! 1 = [] then s
          else s\<lparr>index_meta := tput (thread_root_key i)
                   (be64 (kind e) @ be32 (length (t ! 1)) @ as_bytes (t ! 1)) (index_meta s)\<rparr>)"

text \<open>The scan for a corrupt record: at most \<open>CORRUPT_CLEANUP_SCAN_CAP\<close> entries in key order.\<close>

definition ends_with :: "bytes \<Rightarrow> bytes \<Rightarrow> bool" where
  "ends_with suffix xs \<longleftrightarrow> length suffix \<le> length xs \<and> drop (length xs - length suffix) xs = suffix"

definition delete_corrupt_index_entries :: "bytes \<Rightarrow> table \<Rightarrow> table" where
  "delete_corrupt_index_entries i t =
     dels (map fst (filter (\<lambda>(k, v). ends_with i k \<or> ends_with i v) (take CORRUPT_CLEANUP_SCAN_CAP t))) t"

definition remove_corrupt_event :: "store \<Rightarrow> bytes \<Rightarrow> store" where
  "remove_corrupt_event s i =
     s\<lparr>by_created := delete_corrupt_index_entries i (by_created s),
       by_pubkey := delete_corrupt_index_entries i (by_pubkey s),
       by_kind := delete_corrupt_index_entries i (by_kind s),
       by_tag := delete_corrupt_index_entries i (by_tag s),
       replaceable := delete_corrupt_index_entries i (replaceable s),
       expiry_t := delete_corrupt_index_entries i (expiry_t s),
       event_meta := map_option (tdel i) (event_meta s),
       by_word := map_option (delete_corrupt_index_entries i) (by_word s),
       index_meta := tdel (arrival_key i) (tdel (group_epoch_key i) (index_meta s)),
       events := tdel i (events s)\<rparr>"

definition clear_slot :: "ext \<Rightarrow> event \<Rightarrow> bytes \<Rightarrow> bytes \<Rightarrow> table \<Rightarrow> table" where
  "clear_slot X e pk i t =
     (if \<not> is_replaceable e then t
      else case tget t (slot_key X e pk) of
        None \<Rightarrow> t
      | Some v \<Rightarrow>
          if ID_LEN \<le> length v \<and> drop (length v - ID_LEN) v = i then tdel (slot_key X e pk) t else t)"

definition remove_event :: "ext \<Rightarrow> unicode \<Rightarrow> store \<Rightarrow> bytes \<Rightarrow> store" where
  "remove_event X U s i =
     (case tget (events s) i of
        None \<Rightarrow> s
      | Some raw \<Rightarrow>
          (case event_of_json X raw of
             None \<Rightarrow> remove_corrupt_event s i
           | Some e \<Rightarrow>
               (case pubkey_bytes X e of
                  None \<Rightarrow> remove_corrupt_event s i
                | Some pk \<Rightarrow>
                    (let s1 = remember_thread_root_tombstone
                                (s\<lparr>index_meta := tdel (arrival_key i) (tdel (group_epoch_key i) (index_meta s))\<rparr>) e i
                     in s1\<lparr>events := tdel i (events s1),
                           by_created := dels [created_key (created_at e) i] (by_created s1),
                           replaceable := clear_slot X e pk i (replaceable s1),
                           by_pubkey := dels (author_keys X e i pk) (by_pubkey s1),
                           by_kind := dels [kind_key (kind e) (created_at e) i] (by_kind s1),
                           event_meta := map_option (tdel i) (event_meta s1),
                           by_tag := dels (tag_keys X e i) (by_tag s1),
                           expiry_t := dels (expiry_keys e i) (expiry_t s1),
                           by_word := map_option (dels (word_keys U e i (indexed_words s1))) (by_word s1)\<rparr>))))"

section \<open>Admission checks\<close>

definition vanished_or_pending :: "store \<Rightarrow> bytes \<Rightarrow> bool" where
  "vanished_or_pending s pk =
     (if tget (vanish s) pk \<noteq> None then True
      else if vanish_pending s = [] then False
      else tget (vanish_pending s) pk \<noteq> None)"

text \<open>The tag loop of \<open>purged_groups_blocks\<close>.\<close>

fun purged_tags_block :: "ext \<Rightarrow> store \<Rightarrow> event \<Rightarrow> bool \<Rightarrow> tag list \<Rightarrow> bool" where
  "purged_tags_block X s e is_meta [] = False"
| "purged_tags_block X s e is_meta (t # ts) =
     (if length t < 2 then purged_tags_block X s e is_meta ts
      else if t ! 0 \<noteq> ''h'' \<and> \<not> (is_meta \<and> t ! 0 = ''d'') then purged_tags_block X s e is_meta ts
      else case tget (purged_groups s) (purged_group_key X (t ! 1)) of
        None \<Rightarrow> purged_tags_block X s e is_meta ts
      | Some raw \<Rightarrow>
          (case decode_purged_group_marker raw of (purge_now, cut_ts, purged_create) \<Rightarrow>
             (let blocked =
                (if kind e = 9007 then
                   created_at e < purge_now \<or> (purged_create \<noteq> None \<and> purged_create = id_bytes X e)
                 else if is_meta then created_at e < purge_now
                 else created_at e \<le> cut_ts)
              in if blocked then True else purged_tags_block X s e is_meta ts)))"

definition purged_groups_blocks :: "ext \<Rightarrow> store \<Rightarrow> event \<Rightarrow> bool" where
  "purged_groups_blocks X s e =
     (let is_meta = (39000 \<le> kind e \<and> kind e \<le> 39005) in
      if \<not> is_meta \<and> \<not> (\<exists>t \<in> set (tags e). 2 \<le> length t \<and> t ! 0 = ''h'') then False
      else if purged_groups s = [] then False
      else purged_tags_block X s e is_meta (tags e))"

text \<open>The checks of \<open>put_event_in\<close> in their order; \<open>Some\<close> is an early return.\<close>

definition put_refusal :: "ext \<Rightarrow> store \<Rightarrow> event \<Rightarrow> u64 \<Rightarrow> bytes \<Rightarrow> bytes \<Rightarrow> put_outcome option" where
  "put_refusal X s e now i pk =
     (if vanished_or_pending s pk then
        Some (Invalid ''blocked: this pubkey has requested to vanish'')
      else if (case delegator_bytes X e of None \<Rightarrow> False | Some d \<Rightarrow> vanished_or_pending s d) then
        Some (Invalid ''blocked: the delegator has requested to vanish'')
      else if (kind e = GIFT_WRAP_KIND \<or> kind e = EPHEMERAL_GIFT_WRAP_KIND) \<and>
          (\<exists>t \<in> set (tags e). 2 \<le> length t \<and> t ! 0 = ''p'' \<and>
             (case decode_array X ID_LEN (t ! 1) of None \<Rightarrow> False | Some r \<Rightarrow> vanished_or_pending s r)) then
        Some (Invalid ''blocked: the recipient has requested to vanish'')
      else if tget (banned s) i \<noteq> None then Some (Invalid ''blocked: event has been banned'')
      else if kind e \<noteq> DELETION_KIND \<and>
          (case tget (deleted s) i of None \<Rightarrow> False | Some m \<Rightarrow> deletion_marker_blocks X m e) then
        Some PreviouslyDeleted
      else if purged_groups_blocks X s e then Some PreviouslyDeleted
      else if 20000 \<le> kind e \<and> kind e < 30000 then Some Ephemeral
      else if expiry_enabled s \<and> (case expiry e of None \<Rightarrow> False | Some x \<Rightarrow> x \<le> now) then Some Expired
      else None)"

section \<open>Storing an event\<close>

text \<open>The slot decision of a replaceable event: \<open>Inl\<close> is an early return.\<close>

definition claim_slot :: "ext \<Rightarrow> unicode \<Rightarrow> store \<Rightarrow> event \<Rightarrow> bytes \<Rightarrow> bytes \<Rightarrow> put_outcome + (store \<times> put_outcome)" where
  "claim_slot X U s e i pk =
     (let rkey = slot_key X e pk in
      if (case tget (deleted s) (deleted_address_key X (kind e) pk (slot_dtag e)) of
            None \<Rightarrow> False
          | Some tomb \<Rightarrow> length tomb < CREATED_LEN \<or> created_at e \<le> from_be64 (take CREATED_LEN tomb))
      then Inl PreviouslyDeleted
      else
        (case tget (replaceable s) rkey of
           None \<Rightarrow> Inr (s\<lparr>replaceable := tput rkey (be64 (created_at e) @ i) (replaceable s)\<rparr>, Stored)
         | Some old \<Rightarrow>
             if length old < CREATED_LEN + ID_LEN then
               Inr (s\<lparr>replaceable := tput rkey (be64 (created_at e) @ i) (replaceable s)\<rparr>, Stored)
             else
               (let old_created = from_be64 (take CREATED_LEN old);
                    old_id = take ID_LEN (drop CREATED_LEN old)
                in if created_at e > old_created \<or> (created_at e = old_created \<and> i < old_id) then
                     (let s1 = remove_event X U s old_id
                      in Inr (s1\<lparr>replaceable := tput rkey (be64 (created_at e) @ i) (replaceable s1)\<rparr>, Replaced))
                   else Inl (Duplicate ''duplicate: event already stored''))))"

definition write_event :: "ext \<Rightarrow> unicode \<Rightarrow> store \<Rightarrow> event \<Rightarrow> bytes \<Rightarrow> bytes \<Rightarrow> store" where
  "write_event X U s e i pk =
     (let s1 = s\<lparr>events := tput i (json_of_event X e) (events s),
                 index_meta := tdel (thread_root_key i) (index_meta s)\<rparr>;
          s2 = put_indexes X U s1 e i pk
      in case state_kind_family (kind e) of None \<Rightarrow> s2 | Some family \<Rightarrow> bump_state_seq s2 family)"

definition put_event_in :: "ext \<Rightarrow> unicode \<Rightarrow> store \<Rightarrow> event \<Rightarrow> u64 \<Rightarrow> store \<times> put_outcome" where
  "put_event_in X U s e now =
     (case id_bytes X e of
        None \<Rightarrow> (s, Invalid ''invalid id'')
      | Some i \<Rightarrow>
          (case pubkey_bytes X e of
             None \<Rightarrow> (s, Invalid ''invalid pubkey'')
           | Some pk \<Rightarrow>
               (case put_refusal X s e now i pk of
                  Some outcome \<Rightarrow> (s, outcome)
                | None \<Rightarrow>
                    if is_replaceable e then
                      (case claim_slot X U s e i pk of
                         Inl outcome \<Rightarrow> (s, outcome)
                       | Inr (s1, outcome) \<Rightarrow> (write_event X U s1 e i pk, outcome))
                    else if tget (events s) i \<noteq> None then
                      (s, Duplicate ''duplicate: event already stored'')
                    else (write_event X U s e i pk, Stored))))"

end
