(* ===== verification/Scan.thy ===== *)
theory Scan
  imports Store
begin

text \<open>
  The query engine (\<open>src/src/db/scan.rs\<close>): the collector of matched events with its per-filter
  quotas, the check of one candidate, the index walks (a single time range and the k-way merge of
  several ranges), the planner that picks the walk of a filter, and the scan over all filters of a
  request.

  The code is generic over its collector (\<open>trait ScanCollector\<close>); the model passes the trait's
  operations as a record. \<open>usize\<close> values saturate at \<open>2^64 - 1\<close> where the code saturates. A scan runs
  in one read transaction, so it reads a fixed store. The relevance score is a sum of \<open>f64\<close>
  weights; the comparison of two scores is the parameter \<open>fc\<close>. The document frequencies come from a
  time-bounded cache (\<open>term_dfs\<close>) and are an argument: every theorem holds for all values of them.
\<close>

section \<open>Constants and size estimates\<close>

definition SEARCH_BUDGET_MULTIPLIER :: nat where "SEARCH_BUDGET_MULTIPLIER = 8"
definition SEARCH_BUDGET_MAX :: nat where "SEARCH_BUDGET_MAX = 100000"
definition COLLECT_BYTE_CAP :: nat where "COLLECT_BYTE_CAP = 64 * 1024 * 1024"
definition DF_SAMPLE :: u64 where "DF_SAMPLE = 4096"

definition usize_add :: "nat \<Rightarrow> nat \<Rightarrow> nat" where "usize_add a b = min (a + b) (2 ^ 64 - 1)"
definition usize_mul :: "nat \<Rightarrow> nat \<Rightarrow> nat" where "usize_mul a b = min (a * b) (2 ^ 64 - 1)"

definition event_size_estimate :: "event \<Rightarrow> nat" where
  "event_size_estimate e =
     length (content e) + length (pubkey e) + length (sig e)
     + sum_list (map (\<lambda>t. sum_list (map length t) + 8) (tags e)) + 64"

section \<open>Collectors\<close>

record 'c collector_ops =
  op_full :: "'c \<Rightarrow> bool"
  op_cap :: "'c \<Rightarrow> nat"
  op_begin_filter :: "nat \<Rightarrow> 'c \<Rightarrow> 'c"
  op_skipped :: "'c \<Rightarrow> bool"
  op_push :: "event \<Rightarrow> bytes \<Rightarrow> nat \<Rightarrow> 'c \<Rightarrow> 'c \<times> bool"
  op_push_light :: "event \<Rightarrow> bytes \<Rightarrow> nat \<Rightarrow> 'c \<Rightarrow> 'c \<times> bool"
  op_sort_key :: "'c \<Rightarrow> 'c"
  op_sort_asc :: "'c \<Rightarrow> 'c"
  op_sort_relevance :: "string list \<Rightarrow> u64 list \<Rightarrow> 'c \<Rightarrow> 'c"
  op_apply_search_limits :: "filter_req list \<Rightarrow> nat \<Rightarrow> nat \<Rightarrow> 'c \<Rightarrow> 'c \<times> bool"

record event_collector =
  ec_events :: "event list"
  ec_cap :: nat
  boundary_ok :: bool
  boundary :: "u64 option"
  reserve_boundary :: "u64 option"
  tie_cap :: nat
  reserve_cap :: nat
  collect_reserve :: bool
  ec_counts :: "nat list"
  reserves :: "nat list"
  ec_skipped :: bool
  ec_bytes :: nat
  ec_filter :: nat

definition ec_new :: "nat \<Rightarrow> bool \<Rightarrow> nat \<Rightarrow> bool \<Rightarrow> event_collector" where
  "ec_new cap bok nfilters reserve =
     \<lparr>ec_events = [], ec_cap = cap, boundary_ok = bok, boundary = None, reserve_boundary = None,
      tie_cap = usize_mul cap 2, reserve_cap = usize_mul cap 2, collect_reserve = reserve,
      ec_counts = replicate nfilters 0, reserves = replicate nfilters 0, ec_skipped = False,
      ec_bytes = 0, ec_filter = 0\<rparr>"

definition filter_collect_cap :: "filter_req \<Rightarrow> nat \<Rightarrow> nat \<Rightarrow> nat" where
  "filter_collect_cap f max_limit hidden_slack =
     min (usize_mul (min (case limit f of None \<Rightarrow> max_limit | Some n \<Rightarrow> n) max_limit) (usize_add hidden_slack 1)) max_limit"

definition ec_full :: "event_collector \<Rightarrow> bool" where
  "ec_full c =
     (if COLLECT_BYTE_CAP \<le> ec_bytes c then True
      else if \<not> boundary_ok c then ec_cap c \<le> length (ec_events c)
      else (let total_cap = (if collect_reserve c then usize_add (tie_cap c) (reserve_cap c) else tie_cap c)
            in total_cap \<le> length (ec_events c)))"

definition ec_begin_filter :: "nat \<Rightarrow> event_collector \<Rightarrow> event_collector" where
  "ec_begin_filter index c = c\<lparr>ec_filter := index, boundary := None, reserve_boundary := None\<rparr>"

text \<open>The common tail of \<open>push\<close>: count the event and append it.\<close>

definition ec_append :: "event \<Rightarrow> event_collector \<Rightarrow> event_collector" where
  "ec_append e c =
     c\<lparr>ec_counts := (ec_counts c)[ec_filter c := ec_counts c ! ec_filter c + 1],
       ec_bytes := usize_add (ec_bytes c) (event_size_estimate e),
       ec_events := ec_events c @ [e]\<rparr>"

definition ec_push :: "event \<Rightarrow> bytes \<Rightarrow> nat \<Rightarrow> event_collector \<Rightarrow> event_collector \<times> bool" where
  "ec_push e i lim c =
     (let count = ec_counts c ! ec_filter c in
      if lim \<le> count then
        (if \<not> boundary_ok c then (c, False)
         else case boundary c of
           None \<Rightarrow> (c, False)
         | Some b \<Rightarrow>
             if b = created_at e then
               (if tie_cap c \<le> length (ec_events c) then (c\<lparr>ec_skipped := True\<rparr>, True)
                else (ec_append e c, True))
             else if created_at e < b then
               (if \<not> collect_reserve c then (c, False)
                else
                  (let reserve = reserves c ! ec_filter c;
                       add = (\<lambda>c. ec_append e (c\<lparr>reserves := (reserves c)[ec_filter c := reserve + 1]\<rparr>))
                   in if lim \<le> reserve then
                        (if reserve_boundary c = Some (created_at e) then (add c, True) else (c, False))
                      else if reserve + 1 = lim then
                        (add (c\<lparr>reserve_boundary := Some (created_at e)\<rparr>), True)
                      else (add c, True)))
             else (c, False))
      else if count + 1 = lim then (ec_append e (c\<lparr>boundary := Some (created_at e)\<rparr>), True)
      else (ec_append e c, True))"

definition newest_first :: "event \<Rightarrow> event \<Rightarrow> ordering" where
  "newest_first a b = (case cmp (created_at b) (created_at a) of Equal \<Rightarrow> cmp (ev_id a) (ev_id b) | r \<Rightarrow> r)"

definition oldest_first :: "event \<Rightarrow> event \<Rightarrow> ordering" where
  "oldest_first a b = (case cmp (created_at a) (created_at b) of Equal \<Rightarrow> cmp (ev_id a) (ev_id b) | r \<Rightarrow> r)"

type_synonym score_cmp = "string list \<Rightarrow> u64 list \<Rightarrow> event \<Rightarrow> event \<Rightarrow> ordering"

definition ec_sort_relevance :: "score_cmp \<Rightarrow> string list \<Rightarrow> u64 list \<Rightarrow> event_collector \<Rightarrow> event_collector" where
  "ec_sort_relevance fc ts dfs c =
     c\<lparr>ec_events := sort_by (\<lambda>a b. case fc ts dfs b a of Equal \<Rightarrow> newest_first a b | r \<Rightarrow> r) (ec_events c)\<rparr>"

text \<open>The first filter with quota left that matches the event gives up one slot.\<close>

fun place :: "unicode \<Rightarrow> (string list \<Rightarrow> string list) \<Rightarrow> event \<Rightarrow> (filter_req \<times> nat) list \<Rightarrow> (filter_req \<times> nat) list option" where
  "place U hs e [] = None"
| "place U hs e ((f, take_n) # qs) =
     (if take_n = 0 then map_option (\<lambda>r. (f, take_n) # r) (place U hs e qs)
      else if filter_matches U hs f e then Some ((f, take_n - 1) # qs)
      else map_option (\<lambda>r. (f, take_n) # r) (place U hs e qs))"

fun place_all :: "unicode \<Rightarrow> (string list \<Rightarrow> string list) \<Rightarrow> event list \<Rightarrow> (filter_req \<times> nat) list \<Rightarrow> event list \<Rightarrow> bool \<Rightarrow> event list \<times> bool" where
  "place_all U hs [] qs kept dropped = (kept, dropped)"
| "place_all U hs (e # es) qs kept dropped =
     (case place U hs e qs of
        Some qs' \<Rightarrow> place_all U hs es qs' (kept @ [e]) dropped
      | None \<Rightarrow> place_all U hs es qs kept True)"

definition ec_apply_search_limits ::
  "unicode \<Rightarrow> (string list \<Rightarrow> string list) \<Rightarrow> filter_req list \<Rightarrow> nat \<Rightarrow> nat \<Rightarrow> event_collector \<Rightarrow> event_collector \<times> bool" where
  "ec_apply_search_limits U hs fs max_limit hidden_slack c =
     (let (kept, dropped) = place_all U hs (ec_events c)
            (map (\<lambda>f. (f, filter_collect_cap f max_limit hidden_slack)) fs) [] False
      in (c\<lparr>ec_events := kept\<rparr>, dropped))"

text \<open>
  \<open>impl ScanCollector for EventCollector\<close>. Its \<open>push_light\<close> is the trait's default, which is
  unreachable: the light path is only taken with the negentropy collector.
\<close>

definition event_ops :: "unicode \<Rightarrow> (string list \<Rightarrow> string list) \<Rightarrow> score_cmp \<Rightarrow> event_collector collector_ops" where
  "event_ops U hs fc =
     \<lparr>op_full = ec_full, op_cap = ec_cap, op_begin_filter = ec_begin_filter, op_skipped = ec_skipped,
      op_push = ec_push, op_push_light = (\<lambda>e i n c. (c, False)),
      op_sort_key = (\<lambda>c. c\<lparr>ec_events := sort_by newest_first (ec_events c)\<rparr>),
      op_sort_asc = (\<lambda>c. c\<lparr>ec_events := sort_by oldest_first (ec_events c)\<rparr>),
      op_sort_relevance = ec_sort_relevance fc,
      op_apply_search_limits = ec_apply_search_limits U hs\<rparr>"

section \<open>One candidate\<close>

text \<open>\<open>ScanContext\<close> with what is outside the store, and the mutable state of one scan.\<close>

record scan_env =
  sx :: ext
  su :: unicode
  shs :: "string list \<Rightarrow> string list"
  neg_light :: "bytes \<Rightarrow> event option"

record 'c scan_state =
  sc_seen :: "bytes set"
  sc_out :: 'c
  sc_examined :: nat
  sc_more :: bool

record filter_scan =
  fs_filter :: filter_req
  fs_terms :: "string list"
  fs_now :: u64
  fs_limit :: nat
  fs_ascending :: bool

definition candidate_created_at :: "scan_env \<Rightarrow> store \<Rightarrow> bytes \<Rightarrow> bytes \<Rightarrow> u64 option" where
  "candidate_created_at V s i raw =
     (case Option.bind (event_meta s) (\<lambda>t. Option.bind (tget t i) decode_meta) of
        Some (_, created, _, _) \<Rightarrow> Some created
      | None \<Rightarrow> map_option created_at (event_of_json (sx V) raw))"

definition is_deliverable :: "scan_env \<Rightarrow> store \<Rightarrow> event \<Rightarrow> bytes \<Rightarrow> filter_req \<Rightarrow> string list \<Rightarrow> u64 \<Rightarrow> bool" where
  "is_deliverable V s e i f ts now =
     (if length i \<noteq> 32 then False
      else if kind e \<noteq> DELETION_KIND \<and>
        (case tget (deleted s) i of None \<Rightarrow> False | Some m \<Rightarrow> deletion_marker_blocks (sx V) m e) then False
      else if tget (banned s) i \<noteq> None then False
      else if expiry_enabled s \<and> (case expiry_fields (tags e) of None \<Rightarrow> False | Some x \<Rightarrow> x \<le> now) then False
      else if ts \<noteq> [] \<and> \<not> matches_terms (su V) (content e) ts then False
      else filter_matches (su V) (shs V) f e)"

text \<open>The header-first rejection: \<open>True\<close> when the metadata header already rules the candidate out.\<close>

definition header_rejects :: "store \<Rightarrow> bytes \<Rightarrow> filter_req \<Rightarrow> u64 \<Rightarrow> bool" where
  "header_rejects s i f now =
     (case Option.bind (event_meta s) (\<lambda>t. Option.bind (tget t i) decode_meta) of
        None \<Rightarrow> False
      | Some (knd, created, _, x) \<Rightarrow>
          (case kinds f of None \<Rightarrow> False | Some ks \<Rightarrow> knd \<notin> set ks)
          \<or> (case since f of None \<Rightarrow> False | Some t \<Rightarrow> created < t)
          \<or> (case until f of None \<Rightarrow> False | Some t \<Rightarrow> created > t)
          \<or> expiry_enabled s \<and> x \<noteq> 0 \<and> x \<le> now)"

definition consider_event ::
  "'c collector_ops \<Rightarrow> scan_env \<Rightarrow> store \<Rightarrow> filter_scan \<Rightarrow> nat \<Rightarrow> bool \<Rightarrow> bytes \<Rightarrow> 'c scan_state \<Rightarrow> 'c scan_state \<times> bool" where
  "consider_event ops V s fs budget light i0 st =
     (if op_full ops (sc_out st) then (st, False)
      else
        (let st = st\<lparr>sc_examined := sc_examined st + 1\<rparr> in
         if budget < sc_examined st then (st, False)
         else if i0 \<in> sc_seen st then (st, True)
         else case tget (events s) i0 of
           None \<Rightarrow> (st, True)
         | Some raw \<Rightarrow>
             (let i = (if length i0 = 32 then i0 else replicate 32 0) in
              if header_rejects s i (fs_filter fs) (fs_now fs) then (st, True)
              else
                case (if light then neg_light V raw else event_of_json (sx V) raw) of
                  None \<Rightarrow> (st, True)
                | Some e \<Rightarrow>
                    if \<not> is_deliverable V s e i (fs_filter fs) (fs_terms fs) (fs_now fs) then (st, True)
                    else
                      (let (c, ok) = (if light then op_push_light ops e i (fs_limit fs) (sc_out st)
                                      else op_push ops e i (fs_limit fs) (sc_out st))
                       in if ok then (st\<lparr>sc_out := c, sc_seen := insert i (sc_seen st)\<rparr>, True)
                          else (st\<lparr>sc_out := c\<rparr>, False)))))"

section \<open>Index walks\<close>

text \<open>Iterating a range of a table: \<open>range\<close> in key order, \<open>rev_range\<close> backwards.\<close>

definition range_keys :: "table \<Rightarrow> bytes \<times> bytes \<Rightarrow> bool \<Rightarrow> bytes list" where
  "range_keys t r ascending =
     (let ks = filter (\<lambda>k. fst r \<le> k \<and> k < snd r) (map fst t) in if ascending then ks else rev ks)"

definition corrupt_key :: "bytes \<Rightarrow> string" where
  "corrupt_key key = ''corrupt index key ('' @ show_nat (length key) @ '' bytes)''"

definition index_tail :: "bytes \<Rightarrow> string + bytes \<times> bytes" where
  "index_tail key =
     (if length key < 40 then Inl (corrupt_key key)
      else Inr (take 8 (drop (length key - 40) key), drop (length key - 32) key))"

definition stop_more :: "'c scan_state \<Rightarrow> 'c scan_state" where
  "stop_more st = st\<lparr>sc_more := True\<rparr>"

fun walk_created_range ::
  "(bytes \<Rightarrow> 'c scan_state \<Rightarrow> 'c scan_state \<times> bool) \<Rightarrow> bytes list \<Rightarrow> 'c scan_state \<Rightarrow> string + 'c scan_state \<times> bool" where
  "walk_created_range consider [] st = Inr (st, True)"
| "walk_created_range consider (key # keys) st =
     (if length key < ID_LEN then Inl (corrupt_key key)
      else (case consider (drop (length key - ID_LEN) key) st of
              (st', ok) \<Rightarrow> if ok then walk_created_range consider keys st' else Inr (stop_more st', False)))"

text \<open>
  One range of a merged walk: the parsed tail of its next entry, and the keys not read yet. The
  binary heap holds one entry for every head with a next key, so popping it picks the head whose
  tail is largest (smallest when ascending); entries with equal tails are interchangeable.
\<close>

record head =
  next_key :: "(bytes \<times> bytes) option"
  rest_keys :: "bytes list"

definition refill :: "head \<Rightarrow> string + head" where
  "refill h =
     (case rest_keys h of
        [] \<Rightarrow> Inr (h\<lparr>next_key := None\<rparr>)
      | key # keys \<Rightarrow>
          (case index_tail key of
             Inl err \<Rightarrow> Inl err
           | Inr t \<Rightarrow> Inr \<lparr>next_key = Some t, rest_keys = keys\<rparr>))"

fun refill_all :: "head list \<Rightarrow> string + head list" where
  "refill_all [] = Inr []"
| "refill_all (h # hs) =
     (case refill h of
        Inl err \<Rightarrow> Inl err
      | Inr h' \<Rightarrow> (case refill_all hs of Inl err \<Rightarrow> Inl err | Inr hs' \<Rightarrow> Inr (h' # hs')))"

definition pops_before :: "bool \<Rightarrow> bytes \<times> bytes \<Rightarrow> bytes \<times> bytes \<Rightarrow> bool" where
  "pops_before ascending a b = (if ascending then a < b else b < a)"

fun heap_top :: "bool \<Rightarrow> head list \<Rightarrow> (nat \<times> bytes \<times> bytes) option" where
  "heap_top ascending [] = None"
| "heap_top ascending (h # hs) =
     (case next_key h of
        None \<Rightarrow> map_option (\<lambda>(j, k). (Suc j, k)) (heap_top ascending hs)
      | Some k \<Rightarrow>
          (case heap_top ascending hs of
             None \<Rightarrow> Some (0, k)
           | Some (j, k') \<Rightarrow> if pops_before ascending k' k then Some (Suc j, k') else Some (0, k)))"

definition head_size :: "head \<Rightarrow> nat" where
  "head_size h = length (rest_keys h) + (if next_key h = None then 0 else 1)"

lemma heap_top_Some: "heap_top asc hs = Some (i, k) \<Longrightarrow> i < length hs \<and> next_key (hs ! i) = Some k"
  by (induction hs arbitrary: i k) (auto split: option.splits if_splits)

lemma refill_size: "refill h = Inr h' \<Longrightarrow> next_key h \<noteq> None \<Longrightarrow> head_size h' < head_size h"
  by (auto simp: refill_def head_size_def split: list.splits sum.splits)

lemma sum_list_update_less:
  "i < length xs \<Longrightarrow> f y < (f (xs ! i) :: nat) \<Longrightarrow> sum_list (map f (xs[i := y])) < sum_list (map f xs)"
  by (induction xs arbitrary: i) (auto split: nat.splits)

function merge_loop ::
  "(bytes \<Rightarrow> 'c scan_state \<Rightarrow> 'c scan_state \<times> bool) \<Rightarrow> bool \<Rightarrow> head list \<Rightarrow> (bytes \<times> bytes) option \<Rightarrow>
   'c scan_state \<Rightarrow> string + 'c scan_state \<times> bool" where
  "merge_loop consider ascending heads last_emitted st =
     (case heap_top ascending heads of
        None \<Rightarrow> Inr (st, True)
      | Some (i, k) \<Rightarrow>
          if last_emitted = Some k then
            (case refill (heads ! i) of
               Inl err \<Rightarrow> Inl err
             | Inr h \<Rightarrow> merge_loop consider ascending (heads[i := h]) last_emitted st)
          else
            (case consider (snd k) st of
               (st', ok) \<Rightarrow>
                 if \<not> ok then Inr (stop_more st', False)
                 else (case refill (heads ! i) of
                         Inl err \<Rightarrow> Inl err
                       | Inr h \<Rightarrow> merge_loop consider ascending (heads[i := h]) (Some k) st')))"
  by pat_completeness auto
termination
  by (relation "measure (\<lambda>(consider, ascending, heads, last_emitted, st). sum_list (map head_size heads))")
    (auto dest!: heap_top_Some intro!: sum_list_update_less refill_size)

declare merge_loop.simps [simp del]

definition walk_merged ::
  "(bytes \<Rightarrow> 'c scan_state \<Rightarrow> 'c scan_state \<times> bool) \<Rightarrow> table \<Rightarrow> (bytes \<times> bytes) list \<Rightarrow> bool \<Rightarrow>
   'c scan_state \<Rightarrow> string + 'c scan_state \<times> bool" where
  "walk_merged consider t ranges ascending st =
     (case refill_all (map (\<lambda>r. \<lparr>next_key = None, rest_keys = range_keys t r ascending\<rparr>) ranges) of
        Inl err \<Rightarrow> Inl err
      | Inr heads \<Rightarrow> merge_loop consider ascending heads None st)"

section \<open>Planning the walk of one filter\<close>

definition prefix_start :: "bytes \<Rightarrow> bytes" where
  "prefix_start p = take ID_LEN p @ replicate (ID_LEN - length p) 0"

definition prefix_end :: "bytes \<Rightarrow> bytes" where
  "prefix_end p = take ID_LEN p @ replicate (ID_LEN - length p) 0xFF"

text \<open>Gathering the candidates of an id prefix: \<open>False\<close> in the result ends the whole gather.\<close>

fun gather_prefix ::
  "scan_env \<Rightarrow> store \<Rightarrow> nat \<Rightarrow> (bytes \<times> bytes) list \<Rightarrow> (u64 \<times> bytes) list \<Rightarrow> 'c scan_state \<Rightarrow>
   string + (u64 \<times> bytes) list \<times> 'c scan_state \<times> bool" where
  "gather_prefix V s budget [] cands st = Inr (cands, st, True)"
| "gather_prefix V s budget ((key, raw) # items) cands st =
     (if length key \<noteq> ID_LEN then Inl (''corrupt event key ('' @ show_nat (length key) @ '' bytes)'')
      else
        (let st = st\<lparr>sc_examined := sc_examined st + 1\<rparr> in
         if budget < sc_examined st then Inr (cands, stop_more st, False)
         else gather_prefix V s budget items
           (case candidate_created_at V s key raw of None \<Rightarrow> cands | Some c \<Rightarrow> cands @ [(c, key)]) st))"

fun gather_ids ::
  "scan_env \<Rightarrow> store \<Rightarrow> nat \<Rightarrow> string list \<Rightarrow> (u64 \<times> bytes) list \<Rightarrow> 'c scan_state \<Rightarrow>
   string + (u64 \<times> bytes) list \<times> 'c scan_state" where
  "gather_ids V s budget [] cands st = Inr (cands, st)"
| "gather_ids V s budget (i # is) cands st =
     (case hex_decode (sx V) i of
        None \<Rightarrow> gather_ids V s budget is cands st
      | Some decoded \<Rightarrow>
          if ID_LEN < length decoded then gather_ids V s budget is cands st
          else if length decoded = ID_LEN then
            (if budget \<le> length cands then Inr (cands, stop_more st)
             else case tget (events s) decoded of
               None \<Rightarrow> gather_ids V s budget is cands st
             | Some raw \<Rightarrow> gather_ids V s budget is
                 (case candidate_created_at V s decoded raw of None \<Rightarrow> cands | Some c \<Rightarrow> cands @ [(c, decoded)]) st)
          else if decoded \<noteq> [] then
            (case gather_prefix V s budget
                (filter (\<lambda>(k, _). prefix_start decoded \<le> k \<and> k \<le> prefix_end decoded) (events s)) cands st of
               Inl err \<Rightarrow> Inl err
             | Inr (cands', st', True) \<Rightarrow> gather_ids V s budget is cands' st'
             | Inr (cands', st', False) \<Rightarrow> Inr (cands', st'))
          else gather_ids V s budget is cands st)"

definition candidate_order :: "bool \<Rightarrow> u64 \<times> bytes \<Rightarrow> u64 \<times> bytes \<Rightarrow> ordering" where
  "candidate_order ascending a b =
     (case (if ascending then cmp (fst a) (fst b) else cmp (fst b) (fst a)) of
        Equal \<Rightarrow> cmp (snd a) (snd b) | r \<Rightarrow> r)"

fun replay :: "(bytes \<Rightarrow> 'c scan_state \<Rightarrow> 'c scan_state \<times> bool) \<Rightarrow> bytes list \<Rightarrow> 'c scan_state \<Rightarrow> 'c scan_state \<times> bool" where
  "replay consider [] st = (st, False)"
| "replay consider (i # is) st =
     (case consider i st of (st', ok) \<Rightarrow> if ok then replay consider is st' else (stop_more st', True))"

definition scan_ids_filter ::
  "(bytes \<Rightarrow> 'c scan_state \<Rightarrow> 'c scan_state \<times> bool) \<Rightarrow> scan_env \<Rightarrow> store \<Rightarrow> nat \<Rightarrow> bool \<Rightarrow> string list \<Rightarrow>
   'c scan_state \<Rightarrow> string + 'c scan_state \<times> bool" where
  "scan_ids_filter consider V s budget ascending is st =
     (case gather_ids V s budget is [] st of
        Inl err \<Rightarrow> Inl err
      | Inr (cands, st') \<Rightarrow> Inr (replay consider (map snd (sort_by (candidate_order ascending) cands)) st'))"

definition time_range :: "(u64 \<Rightarrow> bytes \<Rightarrow> bytes) \<Rightarrow> u64 \<Rightarrow> u64 \<Rightarrow> bytes \<times> bytes" where
  "time_range key lo hi = (key lo (replicate ID_LEN 0), range_end (key (saturating_add hi 1) (replicate ID_LEN 0)) hi)"

definition term_df :: "string list \<Rightarrow> u64 list \<Rightarrow> string \<Rightarrow> u64" where
  "term_df all_terms all_dfs t = (case map_of (zip all_terms all_dfs) t of None \<Rightarrow> 0 | Some d \<Rightarrow> d)"

text \<open>The ranges of the terms the word index is walked for, and whether a common term was dropped.\<close>

definition walked_terms :: "string list \<Rightarrow> u64 list \<Rightarrow> string list \<Rightarrow> string list" where
  "walked_terms all_terms all_dfs ts =
     filter (\<lambda>w. \<not> (DF_SAMPLE \<le> term_df all_terms all_dfs w \<or> WORD_INDEX_MAX < length w)) ts"

definition common_dropped :: "string list \<Rightarrow> u64 list \<Rightarrow> string list \<Rightarrow> bool" where
  "common_dropped all_terms all_dfs ts \<longleftrightarrow> (\<exists>w \<in> set ts. DF_SAMPLE \<le> term_df all_terms all_dfs w)"

definition author_ranges :: "scan_env \<Rightarrow> string list \<Rightarrow> u64 \<Rightarrow> u64 \<Rightarrow> (bytes \<times> bytes) list" where
  "author_ranges V as lo hi =
     map (\<lambda>pk. time_range (pubkey_key pk) lo hi) (List.map_filter (decode_array (sx V) ID_LEN) as)"

text \<open>Whether the tag index can answer the constraint, and its ranges.\<close>

definition tag_fully_indexed :: "string \<Rightarrow> string list \<Rightarrow> bool" where
  "tag_fully_indexed name vs \<longleftrightarrow>
     is_ascii_alphanumeric (name ! 0) \<and> list_all (\<lambda>v. length v \<le> TAG_INDEX_VALUE_MAX) vs"

definition tag_ranges :: "string \<Rightarrow> string list \<Rightarrow> u64 \<Rightarrow> u64 \<Rightarrow> (bytes \<times> bytes) list" where
  "tag_ranges name vs lo hi =
     map (\<lambda>v. tag_range (of_nat (code (name ! 0))) (as_bytes v) lo hi)
       (filter (\<lambda>v. length v \<le> TAG_INDEX_VALUE_MAX) vs)"

text \<open>A walk that ran to its end is complete; one that stopped is reported as \<open>True\<close>.\<close>

definition walked :: "string + 'c scan_state \<times> bool \<Rightarrow> string + 'c scan_state \<times> bool" where
  "walked r = (case r of Inl err \<Rightarrow> Inl err | Inr (st, ok) \<Rightarrow> Inr (st, \<not> ok))"

definition scan_time ::
  "(bytes \<Rightarrow> 'c scan_state \<Rightarrow> 'c scan_state \<times> bool) \<Rightarrow> store \<Rightarrow> filter_req \<Rightarrow> bool \<Rightarrow> u64 \<Rightarrow> u64 \<Rightarrow>
   'c scan_state \<Rightarrow> string + 'c scan_state \<times> bool" where
  "scan_time consider s f ascending lo hi st =
     (case kinds f of
        Some ks \<Rightarrow> walked (walk_merged consider (by_kind s) (map (\<lambda>k. time_range (kind_key k) lo hi) ks) ascending st)
      | None \<Rightarrow> walked (walk_created_range consider (range_keys (by_created s) (time_range created_key lo hi) ascending) st))"

definition scan_indexed ::
  "(bytes \<Rightarrow> 'c scan_state \<Rightarrow> 'c scan_state \<times> bool) \<Rightarrow> scan_env \<Rightarrow> store \<Rightarrow> filter_req \<Rightarrow> bool \<Rightarrow> u64 \<Rightarrow> u64 \<Rightarrow>
   'c scan_state \<Rightarrow> string + 'c scan_state \<times> bool" where
  "scan_indexed consider V s f ascending lo hi st =
     (case authors f of
        Some as \<Rightarrow> walked (walk_merged consider (by_pubkey s) (author_ranges V as lo hi) ascending st)
      | None \<Rightarrow>
          (case scan_constraint (plan_new (shs V) (ftags f)) of
             None \<Rightarrow> scan_time consider s f ascending lo hi st
           | Some (name, vs) \<Rightarrow>
               if length name = 1 \<and> tag_fully_indexed name vs then
                 (if vs = [] then Inr (st, False)
                  else walked (walk_merged consider (by_tag s) (tag_ranges name vs lo hi) ascending st))
               else scan_time consider s f ascending lo hi st))"

definition scan_filter ::
  "'c collector_ops \<Rightarrow> scan_env \<Rightarrow> store \<Rightarrow> filter_scan \<Rightarrow> nat \<Rightarrow> bool \<Rightarrow> u64 list \<Rightarrow> string list \<Rightarrow>
   'c scan_state \<Rightarrow> string + 'c scan_state \<times> bool" where
  "scan_filter ops V s fs budget light all_dfs all_terms st =
     (let f = fs_filter fs; consider = consider_event ops V s fs budget light; asc = fs_ascending fs in
      if is_impossible (plan_new (shs V) (ftags f)) then Inr (st, False)
      else case ids f of
        Some is \<Rightarrow> scan_ids_filter consider V s budget asc is st
      | None \<Rightarrow>
          (let lo = (case since f of None \<Rightarrow> 0 | Some t \<Rightarrow> t);
               hi = (case until f of None \<Rightarrow> u64_max | Some t \<Rightarrow> t);
               ws = walked_terms all_terms all_dfs (fs_terms fs)
           in case by_word s of
                Some t \<Rightarrow>
                  if has_search f \<and> fs_terms fs \<noteq> [] \<and> tget (index_meta s) (as_bytes ''word_index'') \<noteq> None \<and> ws \<noteq> [] then
                    walked (walk_merged consider t
                      (map (\<lambda>w. time_range (word_key w) lo hi) (ws @ [WORD_OVERFLOW])) asc
                      (if common_dropped all_terms all_dfs (fs_terms fs) then stop_more st else st))
                  else scan_indexed consider V s f asc lo hi st
              | None \<Rightarrow> scan_indexed consider V s f asc lo hi st))"

section \<open>All filters of a request\<close>

datatype scan_kind = Query | Count | Negentropy_scan

text \<open>The union of the search terms, in query order, capped.\<close>

definition add_terms :: "string list \<Rightarrow> string list \<Rightarrow> string list" where
  "add_terms ts new = foldl (\<lambda>acc t. if SEARCH_MAX_TERMS \<le> length acc \<or> t \<in> set acc then acc else acc @ [t]) ts new"

definition search_of :: "filter_req \<Rightarrow> string" where
  "search_of f = (case search f of None \<Rightarrow> [] | Some q \<Rightarrow> q)"

definition all_search_terms :: "scan_env \<Rightarrow> filter_req list \<Rightarrow> string list" where
  "all_search_terms V fs =
     foldl (\<lambda>acc f. if trim (search_of f) \<noteq> [] then add_terms acc (terms (su V) (search_of f)) else acc) [] fs"

definition can_contribute :: "bool \<Rightarrow> filter_req list \<Rightarrow> bool" where
  "can_contribute count_mode fs \<longleftrightarrow> (\<exists>f \<in> set fs. count_mode \<or> limit f \<noteq> Some 0)"

definition scan_limit :: "'c collector_ops \<Rightarrow> bool \<Rightarrow> bool \<Rightarrow> nat \<Rightarrow> nat \<Rightarrow> filter_req \<Rightarrow> 'c \<Rightarrow> nat" where
  "scan_limit ops count_mode sort_search max_limit hidden_slack f out =
     (if count_mode then max_limit
      else if has_search f \<and> sort_search then op_cap ops out
      else filter_collect_cap f max_limit hidden_slack)"

fun scan_filters ::
  "'c collector_ops \<Rightarrow> scan_env \<Rightarrow> store \<Rightarrow> u64 \<Rightarrow> nat \<Rightarrow> bool \<Rightarrow> bool \<Rightarrow> bool \<Rightarrow> nat \<Rightarrow> nat \<Rightarrow> bool \<Rightarrow>
   u64 list \<Rightarrow> string list \<Rightarrow> nat \<Rightarrow> filter_req list \<Rightarrow> 'c scan_state \<Rightarrow> string + 'c scan_state" where
  "scan_filters ops V s now max_limit count_mode sort_search ascending budget hidden_slack light dfs ts index [] st = Inr st"
| "scan_filters ops V s now max_limit count_mode sort_search ascending budget hidden_slack light dfs ts index (f # fs) st =
     (if \<not> count_mode \<and> limit f = Some 0 then
        scan_filters ops V s now max_limit count_mode sort_search ascending budget hidden_slack light dfs ts (index + 1) fs st
      else
        (let st = st\<lparr>sc_out := op_begin_filter ops index (sc_out st)\<rparr> in
         if op_full ops (sc_out st) then Inr (if can_contribute count_mode (f # fs) then stop_more st else st)
         else
           case scan_filter ops V s
               \<lparr>fs_filter = f, fs_terms = (if has_search f then take SEARCH_MAX_TERMS (terms (su V) (search_of f)) else []),
                fs_now = now, fs_limit = scan_limit ops count_mode sort_search max_limit hidden_slack f (sc_out st),
                fs_ascending = ascending\<rparr> budget light dfs ts st of
             Inl err \<Rightarrow> Inl err
           | Inr (st', stop) \<Rightarrow>
               (let st' = (if stop then stop_more st' else st') in
                if op_full ops (sc_out st') then Inr (if can_contribute count_mode fs then stop_more st' else st')
                else scan_filters ops V s now max_limit count_mode sort_search ascending budget hidden_slack light dfs ts
                       (index + 1) fs st')))"

text \<open>The document frequencies of the query's terms are the argument \<open>dfs\<close>.\<close>

definition scan_collect ::
  "'c collector_ops \<Rightarrow> scan_env \<Rightarrow> store \<Rightarrow> (string list \<Rightarrow> u64 list) \<Rightarrow> filter_req list \<Rightarrow> u64 \<Rightarrow> nat \<Rightarrow> scan_kind \<Rightarrow>
   bool \<Rightarrow> nat \<Rightarrow> nat \<Rightarrow> 'c \<Rightarrow> bool \<Rightarrow> string + 'c \<times> bool" where
  "scan_collect ops V s dfs fs now max_limit knd ascending budget hidden_slack out0 light =
     (let count_mode = (knd = Count);
          has_plain = (\<exists>f \<in> set fs. \<not> has_search f);
          sort_search = (knd = Query \<and> \<not> has_plain)
      in if max_limit = 0 then Inr (out0, False)
         else
           (let all_terms = all_search_terms V fs;
                all_dfs = (if all_terms = [] then [] else dfs all_terms)
            in case scan_filters ops V s now max_limit count_mode sort_search ascending budget hidden_slack light
                    all_dfs all_terms 0 fs \<lparr>sc_seen = {}, sc_out = out0, sc_examined = 0, sc_more = False\<rparr> of
                 Inl err \<Rightarrow> Inl err
               | Inr st \<Rightarrow>
                   (let out = sc_out st; cut_short = (sc_more st \<or> op_skipped ops out) in
                    if count_mode then Inr (out, cut_short)
                    else if sort_search \<and> all_terms \<noteq> [] then
                      (case op_apply_search_limits ops fs max_limit hidden_slack (op_sort_relevance ops all_terms all_dfs out) of
                         (out', dropped) \<Rightarrow> Inr (out', cut_short \<or> dropped))
                    else if ascending then Inr (op_sort_asc ops out, cut_short)
                    else Inr (op_sort_key ops out, cut_short))))"

definition scan_collect_cap :: "bool \<Rightarrow> filter_req list \<Rightarrow> nat \<Rightarrow> nat \<Rightarrow> nat" where
  "scan_collect_cap count_mode fs max_limit hidden_slack =
     (if count_mode then max_limit
      else if \<exists>f \<in> set fs. has_search f then min (usize_mul max_limit SEARCH_BUDGET_MULTIPLIER) SEARCH_BUDGET_MAX
      else
        (let caps = foldl (\<lambda>acc f. usize_add acc (filter_collect_cap f max_limit hidden_slack)) 0 fs
         in if length fs = 1 then caps
            else min caps (min (usize_mul max_limit SEARCH_BUDGET_MULTIPLIER) SEARCH_BUDGET_MAX)))"

definition scan ::
  "scan_env \<Rightarrow> score_cmp \<Rightarrow> store \<Rightarrow> (string list \<Rightarrow> u64 list) \<Rightarrow> filter_req list \<Rightarrow> u64 \<Rightarrow> nat \<Rightarrow> bool \<Rightarrow> bool \<Rightarrow>
   nat \<Rightarrow> nat \<Rightarrow> string + event list \<times> bool" where
  "scan V fc s dfs fs now max_limit count_mode ascending budget hidden_slack =
     (case scan_collect (event_ops (su V) (shs V) fc) V s dfs fs now max_limit (if count_mode then Count else Query)
         ascending budget hidden_slack
         (ec_new (scan_collect_cap count_mode fs max_limit hidden_slack) (\<not> count_mode) (length fs) (0 < hidden_slack)) False of
        Inl err \<Rightarrow> Inl err
      | Inr (out, cut_short) \<Rightarrow> Inr (ec_events out, cut_short))"

end
