(* ===== verification/ScanWalk.thy ===== *)
theory ScanWalk
  imports Scan
begin

text \<open>
  The index walks over an arbitrary \<open>visit\<close> callback. The locale \<open>index_walk\<close> states what a walk
  relies on of the callback (an invariant it keeps, a preorder on scan states it moves up in, and that
  a candidate it accepted is settled for good); the lemmas show that a walk that runs to its end has
  settled every id of its ranges, and that a walk fails only on a key too short for an index entry.
\<close>

section \<open>Keys and ids\<close>

definition key_id :: "bytes \<Rightarrow> bytes" where
  "key_id key = drop (length key - 32) key"

lemma key_id_append: "length i = 32 \<Longrightarrow> key_id (p @ i) = i"
  by (simp add: key_id_def)

lemma index_tail_Inr: "index_tail key = Inr t \<Longrightarrow> snd t = key_id key"
  by (auto simp: index_tail_def key_id_def split: if_splits)

lemma index_tail_total: "40 \<le> length key \<Longrightarrow> \<exists>t. index_tail key = Inr t"
  by (simp add: index_tail_def)

lemma set_range_keys: "k \<in> set (range_keys t r asc) \<longleftrightarrow> tget t k \<noteq> None \<and> fst r \<le> k \<and> k < snd r"
  by (auto simp: range_keys_def Let_def tget_def map_of_eq_None_iff)

text \<open>The ids a head has still to hand out.\<close>

definition pending_ids :: "head \<Rightarrow> bytes set" where
  "pending_ids h = (case next_key h of None \<Rightarrow> {} | Some k \<Rightarrow> {snd k}) \<union> key_id ` set (rest_keys h)"

definition head_ok :: "head \<Rightarrow> bool" where
  "head_ok h \<longleftrightarrow> next_key h = None \<longrightarrow> rest_keys h = []"

definition keys_long :: "head \<Rightarrow> bool" where
  "keys_long h \<longleftrightarrow> (\<forall>k \<in> set (rest_keys h). 40 \<le> length k)"

lemma refill_pending:
  assumes "refill h = Inr h'"
  shows "pending_ids h' = key_id ` set (rest_keys h)" and "head_ok h'" and "keys_long h \<Longrightarrow> keys_long h'"
  using assms index_tail_Inr
  by (fastforce simp: refill_def pending_ids_def head_ok_def keys_long_def split: list.splits sum.splits)+

lemma refill_total: "keys_long h \<Longrightarrow> \<exists>h'. refill h = Inr h'"
  using index_tail_total by (fastforce simp: refill_def keys_long_def split: list.splits sum.splits)

lemma refill_all_pending:
  "refill_all hs = Inr hs' \<Longrightarrow> length hs' = length hs \<and> (\<forall>h \<in> set hs'. head_ok h)
     \<and> (\<Union>h \<in> set hs'. pending_ids h) = (\<Union>h \<in> set hs. key_id ` set (rest_keys h))
     \<and> ((\<forall>h \<in> set hs. keys_long h) \<longrightarrow> (\<forall>h \<in> set hs'. keys_long h))"
proof (induction hs arbitrary: hs')
  case (Cons h hs)
  from Cons.prems obtain h1 hs1 where r: "refill h = Inr h1" "refill_all hs = Inr hs1" "hs' = h1 # hs1"
    by (auto split: sum.splits)
  show ?case using Cons.IH [OF r(2)] refill_pending [OF r(1)] r(3) by simp
qed simp

lemma refill_all_total: "\<forall>h \<in> set hs. keys_long h \<Longrightarrow> \<exists>hs'. refill_all hs = Inr hs'"
proof (induction hs)
  case (Cons h hs)
  then show ?case using refill_total [of h] by auto
qed simp

lemma heap_top_None: "heap_top asc hs = None \<Longrightarrow> h \<in> set hs \<Longrightarrow> next_key h = None"
  by (induction hs) (auto split: option.splits if_splits prod.splits)

section \<open>Walks over a callback\<close>

locale index_walk =
  fixes visit :: "bytes \<Rightarrow> 'c scan_state \<Rightarrow> 'c scan_state \<times> bool"
    and inv :: "'c scan_state \<Rightarrow> bool"
    and le :: "'c scan_state \<Rightarrow> 'c scan_state \<Rightarrow> bool"
    and settled :: "'c scan_state \<Rightarrow> bytes \<Rightarrow> bool"
  assumes refl: "le st st" and trans: "le st st' \<Longrightarrow> le st' st'' \<Longrightarrow> le st st''"
    and settled_le: "le st st' \<Longrightarrow> settled st i \<Longrightarrow> settled st' i"
    and visit: "inv st \<Longrightarrow> visit i st = (st', ok) \<Longrightarrow> inv st' \<and> le st st' \<and> (ok \<longrightarrow> settled st' i)"
    and stop: "inv st \<Longrightarrow> inv (stop_more st) \<and> le st (stop_more st)"
begin

text \<open>What a finished or stopped walk over a set of ids has done.\<close>

definition walked_to :: "'c scan_state \<Rightarrow> bytes set \<Rightarrow> 'c scan_state \<Rightarrow> bool \<Rightarrow> bool" where
  "walked_to st is st' ok \<longleftrightarrow> inv st' \<and> le st st' \<and> (if ok then \<forall>i \<in> is. settled st' i else sc_more st')"

lemma walked_to_stop:
  assumes "inv st" and "visit i st = (st', False)"
  shows "walked_to st is (stop_more st') False"
  using visit [OF assms] stop trans by (auto simp: walked_to_def stop_more_def)

lemma walked_to_step:
  assumes "inv st" and "visit i st = (st', True)" and "walked_to st' is st'' ok"
  shows "walked_to st (insert i is) st'' ok"
  using visit [OF assms(1,2)] assms(3) trans settled_le
  by (auto simp: walked_to_def split: if_splits)

lemma walk_created_range_walked:
  "inv st \<Longrightarrow> walk_created_range visit keys st = Inr (st', ok) \<Longrightarrow> walked_to st (key_id ` set keys) st' ok"
proof (induction keys arbitrary: st)
  case Nil
  then show ?case using refl by (simp add: walked_to_def)
next
  case (Cons key keys)
  obtain st1 ok1 where c: "visit (key_id key) st = (st1, ok1)" by fastforce
  from Cons.prems c have "length key \<ge> 32" and r: "(if ok1 then walk_created_range visit keys st1 else Inr (stop_more st1, False)) = Inr (st', ok)"
    by (auto simp: key_id_def ID_LEN_def split: if_splits)
  show ?case
  proof (cases ok1)
    case True
    then have "walk_created_range visit keys st1 = Inr (st', ok)" using r by simp
    from Cons.IH [OF _ this] have "walked_to st1 (key_id ` set keys) st' ok"
      using visit [OF Cons.prems(1) c] by blast
    then show ?thesis using walked_to_step [OF Cons.prems(1)] c True by simp
  next
    case False
    then show ?thesis using walked_to_stop [OF Cons.prems(1)] c r by auto
  qed
qed

lemma walk_created_range_total:
  "\<forall>k \<in> set keys. 32 \<le> length k \<Longrightarrow> walk_created_range visit keys st \<noteq> Inl err"
proof (induction keys arbitrary: st)
  case (Cons key keys)
  obtain st1 ok1 where "visit (drop (length key - ID_LEN) key) st = (st1, ok1)" by fastforce
  then show ?case using Cons by (auto simp: ID_LEN_def)
qed simp

lemma replay_walked:
  "inv st \<Longrightarrow> replay visit is st = (st', stopped) \<Longrightarrow> walked_to st (set is) st' (\<not> stopped)"
proof (induction "is" arbitrary: st)
  case Nil
  then show ?case using refl by (simp add: walked_to_def)
next
  case (Cons i "is")
  obtain st1 ok1 where c: "visit i st = (st1, ok1)" by fastforce
  show ?case
  proof (cases ok1)
    case True
    then have "walked_to st1 (set is) st' (\<not> stopped)"
      using Cons c visit [OF Cons.prems(1) c] by simp
    then show ?thesis using walked_to_step [OF Cons.prems(1)] c True by simp
  next
    case False
    then show ?thesis using walked_to_stop [OF Cons.prems(1)] c Cons.prems(2) by auto
  qed
qed

text \<open>Popping a head and refilling it keeps the ids that are still to come.\<close>

lemma pending_pop:
  assumes "heap_top asc heads = Some (i, k)" and "refill (heads ! i) = Inr h"
  shows "(\<Union>h \<in> set heads. pending_ids h) = insert (snd k) (\<Union>h \<in> set (heads[i := h]). pending_ids h)"
proof -
  have i: "i < length heads" "next_key (heads ! i) = Some k" using heap_top_Some [OF assms(1)] by auto
  have p: "pending_ids (heads ! i) = insert (snd k) (pending_ids h)"
    using refill_pending(1) [OF assms(2)] i(2) by (simp add: pending_ids_def)
  have "set (heads[i := h]) = insert h (set (take i heads @ drop (Suc i) heads))"
    "set heads = insert (heads ! i) (set (take i heads @ drop (Suc i) heads))"
    using i(1) by (simp_all add: set_append upd_conv_take_nth_drop) (metis id_take_nth_drop insert_commute list.simps(15) set_append Un_insert_right)
  then show ?thesis using p by auto
qed

lemma heads_shrink:
  assumes "heap_top asc heads = Some (i, k)" and "refill (heads ! i) = Inr h"
  shows "sum_list (map head_size (heads[i := h])) < sum_list (map head_size heads)"
  using heap_top_Some [OF assms(1)] refill_size [OF assms(2)] by (auto intro: sum_list_update_less)

lemma heads_kept:
  assumes "\<forall>h \<in> set heads. P h" and "P h"
  shows "\<forall>h \<in> set (heads[i := h]). P h"
  using assms set_update_subset_insert [of heads i h] by auto

lemma merge_loop_walked:
  "inv st \<Longrightarrow> \<forall>h \<in> set heads. head_ok h \<Longrightarrow> (\<forall>k. last_emitted = Some k \<longrightarrow> settled st (snd k)) \<Longrightarrow>
   merge_loop visit asc heads last_emitted st = Inr (st', ok) \<Longrightarrow>
   walked_to st (\<Union>h \<in> set heads. pending_ids h) st' ok"
proof (induction "sum_list (map head_size heads)" arbitrary: heads last_emitted st rule: less_induct)
  case less
  show ?case
  proof (cases "heap_top asc heads")
    case None
    then have "pending_ids h = {}" if "h \<in> set heads" for h
      using heap_top_None [OF None that] less.prems(2) that by (auto simp: pending_ids_def head_ok_def)
    then show ?thesis using less.prems None refl by (simp add: merge_loop.simps walked_to_def)
  next
    case (Some p)
    obtain i k where p: "p = (i, k)" by (cases p)
    note top = Some [unfolded p]
    note step = less.prems(4) [unfolded merge_loop.simps [of visit asc heads]]
    have rec: "walked_to st1 (\<Union>h \<in> set (heads[i := h]). pending_ids h) st' ok"
      if "refill (heads ! i) = Inr h" "inv st1" "\<forall>k. l = Some k \<longrightarrow> settled st1 (snd k)"
        "merge_loop visit asc (heads[i := h]) l st1 = Inr (st', ok)" for h l st1
      using less.hyps [OF heads_shrink [OF top that(1)] that(2) _ that(3,4)]
        heads_kept [OF less.prems(2) refill_pending(2) [OF that(1)]] by blast
    show ?thesis
    proof (cases "last_emitted = Some k")
      case True
      then obtain h where h: "refill (heads ! i) = Inr h" "merge_loop visit asc (heads[i := h]) last_emitted st = Inr (st', ok)"
        using step top by (auto split: sum.splits)
      have "walked_to st (\<Union>h \<in> set (heads[i := h]). pending_ids h) st' ok"
        by (rule rec [OF h(1) less.prems(1,3) h(2)])
      then show ?thesis unfolding pending_pop [OF top h(1)]
        using less.prems(3) True settled_le by (auto simp: walked_to_def split: if_splits)
    next
      case False
      obtain st1 ok1 where c: "visit (snd k) st = (st1, ok1)" by fastforce
      show ?thesis
      proof (cases ok1)
        case True
        then obtain h where h: "refill (heads ! i) = Inr h" "merge_loop visit asc (heads[i := h]) (Some k) st1 = Inr (st', ok)"
          using step top False c by (auto split: sum.splits)
        have v: "inv st1 \<and> settled st1 (snd k)" using visit [OF less.prems(1) c] True by blast
        then have "walked_to st1 (\<Union>h \<in> set (heads[i := h]). pending_ids h) st' ok"
          by (intro rec [OF h(1) _ _ h(2)]) auto
        then show ?thesis unfolding pending_pop [OF top h(1)]
          by (rule walked_to_step [OF less.prems(1) c [unfolded eqTrueI [OF True]]])
      next
        case stopped: False
        then have "st' = stop_more st1" "ok = False" using step top False c by auto
        then show ?thesis using walked_to_stop [OF less.prems(1)] c stopped by simp
      qed
    qed
  qed
qed

lemma merge_loop_total:
  "\<forall>h \<in> set heads. keys_long h \<Longrightarrow> merge_loop visit asc heads last_emitted st \<noteq> Inl err"
proof (induction "sum_list (map head_size heads)" arbitrary: heads last_emitted st rule: less_induct)
  case less
  show ?case
  proof (cases "heap_top asc heads")
    case (Some p)
    obtain i k where p: "p = (i, k)" by (cases p)
    note top = Some [unfolded p]
    have "keys_long (heads ! i)" using less.prems heap_top_Some [OF top] by auto
    then obtain h where h: "refill (heads ! i) = Inr h" "keys_long h"
      using refill_total refill_pending(3) by blast
    have "merge_loop visit asc (heads[i := h]) l st1 \<noteq> Inl err" for l st1
      by (rule less.hyps [OF heads_shrink [OF top h(1)] heads_kept [OF less.prems h(2)]])
    then show ?thesis using top h(1) by (subst merge_loop.simps) (auto split: prod.splits)
  qed (simp add: merge_loop.simps)
qed

lemma walk_merged_walked:
  assumes "inv st" and "walk_merged visit t ranges asc st = Inr (st', ok)"
  shows "walked_to st {i. \<exists>r \<in> set ranges. \<exists>k \<in> set (range_keys t r asc). i = key_id k} st' ok"
proof -
  obtain heads where h: "refill_all (map (\<lambda>r. \<lparr>next_key = None, rest_keys = range_keys t r asc\<rparr>) ranges) = Inr heads"
    "merge_loop visit asc heads None st = Inr (st', ok)"
    using assms(2) by (auto simp: walk_merged_def split: sum.splits)
  note p = refill_all_pending [OF h(1)]
  have "walked_to st (\<Union>h \<in> set heads. pending_ids h) st' ok"
    by (rule merge_loop_walked [OF assms(1) _ _ h(2)]) (use p in auto)
  moreover have "(\<Union>h \<in> set heads. pending_ids h) = {i. \<exists>r \<in> set ranges. \<exists>k \<in> set (range_keys t r asc). i = key_id k}"
    using p by auto
  ultimately show ?thesis by simp
qed

lemma walk_merged_total:
  assumes "\<forall>k. tget t k \<noteq> None \<longrightarrow> 40 \<le> length k"
  shows "walk_merged visit t ranges asc st \<noteq> Inl err"
proof -
  have l: "\<forall>h \<in> set (map (\<lambda>r. \<lparr>next_key = None, rest_keys = range_keys t r asc\<rparr>) ranges). keys_long h"
    using assms by (auto simp: keys_long_def set_range_keys)
  obtain heads where h: "refill_all (map (\<lambda>r. \<lparr>next_key = None, rest_keys = range_keys t r asc\<rparr>) ranges) = Inr heads"
    using refill_all_total [OF l] by blast
  then show ?thesis using merge_loop_total [of heads] refill_all_pending [OF h] l by (simp add: walk_merged_def)
qed

end

section \<open>The collector after one candidate\<close>

lemma consider_out:
  assumes "consider_event ops V s fs budget False i st = (st', ok)"
  shows "sc_out st' = sc_out st \<or> \<not> op_full ops (sc_out st) \<and> (\<exists>e j n b. op_push ops e j n (sc_out st) = (sc_out st', b))"
proof (cases "sc_out st' = sc_out st")
  case False
  let ?st = "st\<lparr>sc_examined := sc_examined st + 1\<rparr>"
  let ?j = "if length i = 32 then i else replicate 32 0"
  have nf: "\<not> op_full ops (sc_out st)" using assms False by (auto simp: consider_event_def)
  have ns: "\<not> (budget < sc_examined ?st \<or> i \<in> sc_seen ?st)" using assms False nf by (auto simp: consider_event_def Let_def split: if_splits)
  obtain raw where raw: "tget (events s) i = Some raw" using assms False nf ns by (cases "tget (events s) i") (auto simp: consider_event_def Let_def split: if_splits)
  have nh: "\<not> header_rejects s ?j (fs_filter fs) (fs_now fs)" using assms False nf ns raw by (auto simp: consider_event_def Let_def split: if_splits)
  obtain e where e: "event_of_json (sx V) raw = Some e" using assms False nf ns raw nh by (cases "event_of_json (sx V) raw") (auto simp: consider_event_def Let_def split: if_splits)
  obtain c b where p: "op_push ops e ?j (fs_limit fs) (sc_out st) = (c, b)" by fastforce
  have "sc_out st' = c" using assms False nf ns raw nh e p by (auto simp: consider_event_def Let_def split: if_splits)
  then show ?thesis using nf p by blast
qed simp

section \<open>What every candidate keeps, the scan of a filter keeps\<close>

lemma gather_prefix_keeps:
  assumes "\<forall>st. P st \<longrightarrow> P (stop_more st)" and "\<forall>st n. P st \<longrightarrow> P (st\<lparr>sc_examined := n\<rparr>)"
  shows "P st \<Longrightarrow> gather_prefix V s budget items cands st = Inr (cands', st', go) \<Longrightarrow> P st'"
proof (induction items arbitrary: cands st)
  case (Cons item items)
  then show ?case using assms by (cases item) (force simp: Let_def split: if_splits)
qed simp

lemma gather_ids_keeps:
  assumes "\<forall>st. P st \<longrightarrow> P (stop_more st)" and "\<forall>st n. P st \<longrightarrow> P (st\<lparr>sc_examined := n\<rparr>)"
  shows "P st \<Longrightarrow> gather_ids V s budget is cands st = Inr (cands', st') \<Longrightarrow> P st'"
proof (induction "is" arbitrary: cands st)
  case (Cons idstr "is")
  note g = gather_prefix_keeps [OF assms]
  show ?case
  proof (cases "hex_decode (sx V) idstr")
    case (Some d)
    let ?items = "filter (\<lambda>(k, _). prefix_start d \<le> k \<and> k \<le> prefix_end d) (events s)"
    show ?thesis
    proof (cases "length d < ID_LEN \<and> d \<noteq> []")
      case True
      then obtain cands1 st1 go where r: "gather_prefix V s budget ?items cands st = Inr (cands1, st1, go)"
        using Cons.prems(2) Some by (auto split: sum.splits)
      have "P st1" by (rule g [OF Cons.prems(1) r])
      then show ?thesis using Cons.IH Cons.prems(2) Some True r by (cases go) auto
    next
      case False
      then show ?thesis using Cons.IH Cons.prems Some assms(1)
        by (auto split: if_splits option.splits simp: ID_LEN_def)
    qed
  qed (use Cons in auto)
qed simp

lemma scan_filter_keeps:
  assumes c: "\<forall>i st st' ok. P st \<longrightarrow> consider_event ops V s fs budget light i st = (st', ok) \<longrightarrow> P st'"
    and m: "\<forall>st. P st \<longrightarrow> P (stop_more st)" and x: "\<forall>st n. P st \<longrightarrow> P (st\<lparr>sc_examined := n\<rparr>)"
    and start: "P st" and res: "scan_filter ops V s fs budget light dfs ts st = Inr (st', stop)"
  shows "P st'"
proof -
  let ?v = "consider_event ops V s fs budget light"
  have iw: "index_walk ?v P (\<lambda>_ _. True) (\<lambda>_ _. True)" by unfold_locales (use c m in auto)
  have to: "index_walk.walked_to P (\<lambda>_ _. True) (\<lambda>_ _. True) st1 is st2 b \<Longrightarrow> P st2" for st1 "is" st2 b
    by (simp add: index_walk.walked_to_def [OF iw])
  have wk: "walked r = Inr (st2, b) \<Longrightarrow> r = Inr (st2, \<not> b)" for r and st2 :: "'a scan_state" and b
    by (auto simp: walked_def split: sum.splits prod.splits)
  have merged: "P st1 \<Longrightarrow> walked (walk_merged ?v t rs asc st1) = Inr (st2, b) \<Longrightarrow> P st2" for t rs asc st1 st2 b
    by (rule to [OF index_walk.walk_merged_walked [OF iw _ wk]])
  have created: "P st1 \<Longrightarrow> walked (walk_created_range ?v ks st1) = Inr (st2, b) \<Longrightarrow> P st2" for ks st1 st2 b
    by (rule to [OF index_walk.walk_created_range_walked [OF iw _ wk]])
  have idsk: "P st2" if i: "scan_ids_filter ?v V s budget asc is st = Inr (st2, b)" for asc "is" st2 b
  proof -
    obtain cands st1 where g: "gather_ids V s budget is [] st = Inr (cands, st1)"
      and r: "replay ?v (map snd (sort_by (candidate_order asc) cands)) st1 = (st2, b)"
      using i by (auto simp: scan_ids_filter_def split: sum.splits)
    have "P st1" by (rule gather_ids_keeps [OF m x start g])
    then show ?thesis by (rule to [OF index_walk.replay_walked [OF iw _ r]])
  qed
  have time: "scan_time ?v s g asc lo hi st = Inr (st2, b) \<Longrightarrow> P st2" for g asc lo hi st2 b
    using merged [OF start] created [OF start] by (auto simp: scan_time_def split: option.splits)
  have indexed: "scan_indexed ?v V s g asc lo hi st = Inr (st2, b) \<Longrightarrow> P st2" for g asc lo hi st2 b
    using merged [OF start] time start by (auto simp: scan_indexed_def split: option.splits if_splits)
  show ?thesis
  proof (cases "is_impossible (plan_new (shs V) (ftags (fs_filter fs)))")
    case True
    then show ?thesis using res start by (simp add: scan_filter_def Let_def)
  next
    case poss: False
    show ?thesis
    proof (cases "ids (fs_filter fs)")
      case None
      then show ?thesis using res poss indexed merged [OF mp [OF m [THEN spec] start]] merged [OF start]
        by (auto simp: scan_filter_def Let_def split: option.splits if_splits)
    qed (use res poss idsk in \<open>simp add: scan_filter_def Let_def\<close>)
  qed
qed

lemma scan_filters_keeps:
  assumes c: "\<forall>fs i st st' ok. P st \<longrightarrow> consider_event ops V s fs budget light i st = (st', ok) \<longrightarrow> P st'"
    and m: "\<forall>st. P st \<longrightarrow> P (stop_more st)" and x: "\<forall>st n. P st \<longrightarrow> P (st\<lparr>sc_examined := n\<rparr>)"
    and b: "\<forall>st j. P st \<longrightarrow> P (st\<lparr>sc_out := op_begin_filter ops j (sc_out st)\<rparr>)"
  shows "P st \<Longrightarrow> scan_filters ops V s now ml cm ss asc budget slack light dfs ts index fs st = Inr st' \<Longrightarrow> P st'"
proof (induction fs arbitrary: st index)
  case (Cons f fs)
  note k = scan_filter_keeps [OF c [THEN spec] m x]
  show ?case
  proof (cases "\<not> cm \<and> limit f = Some 0")
    case True
    then show ?thesis using Cons by auto
  next
    case False
    define st1 where "st1 = st\<lparr>sc_out := op_begin_filter ops index (sc_out st)\<rparr>"
    have P1: "P st1" using b Cons.prems(1) by (simp add: st1_def)
    let ?F = "\<lparr>fs_filter = f, fs_terms = (if has_search f then take SEARCH_MAX_TERMS (terms (su V) (search_of f)) else []),
        fs_now = now, fs_limit = scan_limit ops cm ss ml slack f (sc_out st1), fs_ascending = asc\<rparr>"
    show ?thesis
    proof (cases "op_full ops (sc_out st1)")
      case True
      then show ?thesis using Cons.prems(2) False P1 m by (auto simp: st1_def Let_def split: if_splits)
    next
      case nf: False
      then obtain st2 stop where r: "scan_filter ops V s ?F budget light dfs ts st1 = Inr (st2, stop)"
        using Cons.prems(2) False by (auto simp: st1_def Let_def split: sum.splits)
      have P2: "P (if stop then stop_more st2 else st2)" using k [OF P1 r] m by simp
      show ?thesis
      proof (cases "op_full ops (sc_out (if stop then stop_more st2 else st2))")
        case True
        then show ?thesis using Cons.prems(2) False nf r P2 m by (auto simp: st1_def [symmetric] Let_def split: if_splits)
      next
        case False': False
        have "scan_filters ops V s now ml cm ss asc budget slack light dfs ts (index + 1) fs (if stop then stop_more st2 else st2) = Inr st'"
          using Cons.prems(2) False False' nf r by (simp add: st1_def [symmetric] Let_def)
        then show ?thesis by (rule Cons.IH [OF P2])
      qed
    qed
  qed
qed simp

end
