(* ===== verification/Reference.thy ===== *)
theory Reference
  imports Search "HOL-Library.Countable"
begin

text \<open>
  A concrete instance of the external interface, used to show that the hypotheses stated about
  it can hold together: the reference hex codec, a constant 32-byte digest, a signature scheme
  that accepts everything, and an event serialization that numbers the events.
\<close>

type_synonym event_fields = "string \<times> string \<times> u64 \<times> u64 \<times> tag list \<times> string \<times> string"

definition event_fields :: "event \<Rightarrow> event_fields" where
  "event_fields e = (ev_id e, pubkey e, created_at e, kind e, tags e, content e, sig e)"

definition fields_event :: "event_fields \<Rightarrow> event" where
  "fields_event f = (case f of (i, p, c, k, t, n, s) \<Rightarrow>
     \<lparr>ev_id = i, pubkey = p, created_at = c, kind = k, tags = t, content = n, sig = s\<rparr>)"

definition ref_ext :: ext where
  "ref_ext = \<lparr>sha256 = (\<lambda>_. replicate 32 0), hex_encode = hexe, hex_decode = hexd,
     xonly_pubkey_ok = (\<lambda>_. True), schnorr_verify = (\<lambda>_ _ _. True), schnorr_sign = (\<lambda>_ _ _. replicate 128 CHR ''0''),
     json_tuple = (\<lambda>_. []),
     json_of_event = (\<lambda>e. replicate (to_nat (event_fields e)) 0),
     event_of_json = (\<lambda>b. Some (fields_event (from_nat (length b))))\<rparr>"

lemma ref_json: "event_of_json ref_ext (json_of_event ref_ext e) = Some e"
  by (simp add: ref_ext_def fields_event_def event_fields_def)

lemma ref_sha: "length (sha256 ref_ext m) = 32"
  by (simp add: ref_ext_def)

lemma ref_codec: "hex_codec (hex_encode ref_ext) (hex_decode ref_ext)"
  using ref_hex_codec by (simp add: ref_ext_def)

lemma ref_fields [simp]: "hex_decode ref_ext = hexd" "hex_encode ref_ext = hexe"
  "sha256 ref_ext = (\<lambda>_. replicate 32 0)" "schnorr_verify ref_ext = (\<lambda>_ _ _. True)" "xonly_pubkey_ok ref_ext = (\<lambda>_. True)"
  by (simp_all add: ref_ext_def)


text \<open>ASCII character classes as an instance of the Unicode tables.\<close>

definition ref_unicode :: unicode where
  "ref_unicode = \<lparr>alnum = (\<lambda>c. list_all is_ascii_alphanumeric c), lower = map ascii_lower\<rparr>"

text \<open>Two events of the all-zero author: a note and a (replaceable) profile.\<close>

definition zeros :: "nat \<Rightarrow> string" where "zeros n = replicate n CHR ''0''"

definition ex_note :: event where
  "ex_note = \<lparr>ev_id = zeros 64, pubkey = zeros 64, created_at = 5, kind = 1,
     tags = [[''t'', ''nostr'']], content = ''hello'', sig = zeros 128\<rparr>"

definition ex_profile :: event where
  "ex_profile = \<lparr>ev_id = zeros 64, pubkey = zeros 64, created_at = 5, kind = 0,
     tags = [], content = [], sig = zeros 128\<rparr>"

lemma hexd_zeros: "hexd (replicate 64 CHR ''0'') = Some (replicate 32 0)" "hexd (replicate 128 CHR ''0'') = Some (replicate 64 0)"
  by (simp_all add: numeral_eq_Suc hex_value_def code_def is_ascii_digit_def)

lemma ex_bytes: "id_bytes ref_ext ex_note = Some (replicate 32 0)" "pubkey_bytes ref_ext ex_note = Some (replicate 32 0)"
  "id_bytes ref_ext ex_profile = Some (replicate 32 0)" "pubkey_bytes ref_ext ex_profile = Some (replicate 32 0)"
  by (simp_all add: id_bytes_def pubkey_bytes_def decode_array_def ID_BYTES_def PK_BYTES_def ex_note_def ex_profile_def
      zeros_def hexd_zeros)


lemma ex_fields [simp]:
  "kind ex_note = 1" "tags ex_note = [[''t'', ''nostr'']]" "created_at ex_note = 5" "content ex_note = ''hello''"
  "kind ex_profile = 0" "tags ex_profile = []" "created_at ex_profile = 5" "content ex_profile = []"
  by (simp_all add: ex_note_def ex_profile_def)

lemma hexe_zeros: "hexe (replicate n 0) = replicate (n + n) CHR ''0''"
  by (induction n) (simp_all add: hex_digit_def char_of_def bit_iff_odd)

end
