(* ===== verification/StoreInv.thy ===== *)
theory StoreInv
  imports Store Reference
begin

text \<open>
  Correctness of the store's write path. The abstract state is the set of stored events; every
  index table, the metadata table and the replaceable slots are exactly determined by it, and
  \<open>put_event_in\<close> and \<open>remove_event\<close> implement insertion and removal on that set.
\<close>

section \<open>The abstract state\<close>

definition abs_events :: "ext \<Rightarrow> store \<Rightarrow> (bytes \<times> event) set" where
  "abs_events X s = {(i, e). Option.bind (tget (events s) i) (event_of_json X) = Some e}"

definition author_of :: "ext \<Rightarrow> event \<Rightarrow> bytes" where
  "author_of X e = the (pubkey_bytes X e)"

definition events_ok :: "ext \<Rightarrow> store \<Rightarrow> bool" where
  "events_ok X s \<longleftrightarrow> (\<forall>i raw. tget (events s) i = Some raw \<longrightarrow>
     (\<exists>e pk. event_of_json X raw = Some e \<and> id_bytes X e = Some i \<and> pubkey_bytes X e = Some pk))"

text \<open>A key-only table holds exactly the keys of the stored events.\<close>

definition exact :: "(bytes \<Rightarrow> event \<Rightarrow> bytes list) \<Rightarrow> (bytes \<times> event) set \<Rightarrow> table \<Rightarrow> bool" where
  "exact f S t \<longleftrightarrow> (\<forall>k. tget t k = (if \<exists>(i, e) \<in> S. k \<in> set (f i e) then Some [] else None))"

definition meta_of :: "ext \<Rightarrow> bytes \<Rightarrow> event \<Rightarrow> bytes" where
  "meta_of X i e = encode_meta (kind e) (created_at e) (author_of X e) (case expiry e of None \<Rightarrow> 0 | Some x \<Rightarrow> x)"

definition meta_exact :: "ext \<Rightarrow> (bytes \<times> event) set \<Rightarrow> table \<Rightarrow> bool" where
  "meta_exact X S t \<longleftrightarrow> (\<forall>i v. tget t i = Some v \<longleftrightarrow> (\<exists>e. (i, e) \<in> S \<and> v = meta_of X i e))"

definition indexes_exact :: "ext \<Rightarrow> unicode \<Rightarrow> store \<Rightarrow> (bytes \<times> event) set \<Rightarrow> bool" where
  "indexes_exact X U s S \<longleftrightarrow>
     exact (\<lambda>i e. [created_key (created_at e) i]) S (by_created s)
   \<and> exact (\<lambda>i e. author_keys X e i (author_of X e)) S (by_pubkey s)
   \<and> exact (\<lambda>i e. [kind_key (kind e) (created_at e) i]) S (by_kind s)
   \<and> exact (\<lambda>i e. tag_keys X e i) S (by_tag s)
   \<and> exact (\<lambda>i e. expiry_keys e i) S (expiry_t s)
   \<and> (\<forall>t. by_word s = Some t \<longrightarrow> exact (\<lambda>i e. word_keys U e i (indexed_words s)) S t)
   \<and> (\<forall>t. event_meta s = Some t \<longrightarrow> meta_index s \<longrightarrow> meta_exact X S t)"

definition in_slot :: "ext \<Rightarrow> (bytes \<times> event) set \<Rightarrow> bytes \<Rightarrow> bytes \<Rightarrow> bool" where
  "in_slot X S k v \<longleftrightarrow>
     (\<exists>i e. (i, e) \<in> S \<and> is_replaceable e \<and> k = slot_key X e (author_of X e) \<and> v = be64 (created_at e) @ i)"

definition slots_exact :: "ext \<Rightarrow> (bytes \<times> event) set \<Rightarrow> table \<Rightarrow> bool" where
  "slots_exact X S t \<longleftrightarrow> (\<forall>k v. tget t k = Some v \<longleftrightarrow> in_slot X S k v)"

definition store_inv :: "ext \<Rightarrow> unicode \<Rightarrow> store \<Rightarrow> bool" where
  "store_inv X U s \<longleftrightarrow> events_ok X s \<and> indexes_exact X U s (abs_events X s)
     \<and> slots_exact X (abs_events X s) (replaceable s)"

text \<open>What is used of \<open>serde_json\<close>: a written event reads back.\<close>

definition json_ok :: "ext \<Rightarrow> bool" where
  "json_ok X \<longleftrightarrow> (\<forall>e. event_of_json X (json_of_event X e) = Some e)"

section \<open>Tables and abstract events\<close>

lemma id_bytes_length: "id_bytes X e = Some i \<Longrightarrow> length i = 32"
  by (simp add: id_bytes_def decode_array_Some ID_BYTES_def)

lemma pubkey_bytes_length: "pubkey_bytes X e = Some i \<Longrightarrow> length i = 32"
  by (simp add: pubkey_bytes_def decode_array_Some PK_BYTES_def)

lemma abs_fun: "(i, e) \<in> abs_events X s \<Longrightarrow> (i, e') \<in> abs_events X s \<Longrightarrow> e = e'"
  by (simp add: abs_events_def)

lemma abs_ok:
  assumes "events_ok X s" and "(i, e) \<in> abs_events X s"
  shows "id_bytes X e = Some i" and "pubkey_bytes X e = Some (author_of X e)"
  using assms by (fastforce simp: abs_events_def events_ok_def author_of_def bind_eq_Some_conv)+

lemma abs_mem: "events_ok X s \<Longrightarrow> tget (events s) i \<noteq> None \<longleftrightarrow> (\<exists>e. (i, e) \<in> abs_events X s)"
  by (fastforce simp: abs_events_def events_ok_def bind_eq_Some_conv)

text \<open>Every index key ends with the id of its event.\<close>

definition owned :: "(bytes \<Rightarrow> event \<Rightarrow> bytes list) \<Rightarrow> bool" where
  "owned f \<longleftrightarrow> (\<forall>i e. \<forall>k \<in> set (f i e). \<exists>p. k = p @ i)"

lemma ownedI: "(\<And>i e k. k \<in> set (f i e) \<Longrightarrow> \<exists>p. k = p @ i) \<Longrightarrow> owned f"
  by (auto simp: owned_def)

lemma word_key_owned: "\<exists>p. word_key w c i = p @ i"
  by (rule exI [of _ "as_bytes w @ [0] @ be64 c"]) (simp add: word_key_def)

lemma tag_key_owned: "\<exists>p. tag_key n v c i = p @ i"
  by (rule exI [of _ "[n, 0] @ be32 (length v) @ v @ be64 c"]) (simp add: tag_key_def)

lemma pubkey_key_owned: "\<exists>p. pubkey_key pk c i = p @ i"
  by (rule exI [of _ "pk @ be64 c"]) (simp add: pubkey_key_def)

lemma kind_key_owned: "\<exists>p. kind_key k c i = p @ i"
  by (rule exI [of _ "be64 k @ be64 c"]) (simp add: kind_key_def)

lemma created_key_owned: "\<exists>p. created_key c i = p @ i"
  by (simp add: created_key_def)

lemmas key_owned = word_key_owned tag_key_owned pubkey_key_owned kind_key_owned created_key_owned

lemma owned_indexes:
  "owned (\<lambda>i e. [created_key (created_at e) i])" "owned (\<lambda>i e. author_keys X e i (author_of X e))"
  "owned (\<lambda>i e. [kind_key (kind e) (created_at e) i])" "owned (\<lambda>i e. tag_keys X e i)"
  "owned (\<lambda>i e. expiry_keys e i)" "owned (\<lambda>i e. word_keys U e i n)"
  by (rule ownedI; auto simp: author_keys_def tag_keys_def expiry_keys_def word_keys_def Let_def
      split: option.splits if_splits intro: key_owned)+

lemma owned_disjoint:
  assumes "owned f" and "length i = 32" and "length i' = 32" and "k \<in> set (f i e)" and "k \<in> set (f i' e')"
  shows "i = i'"
proof -
  obtain p p' where "k = p @ i" "k = p' @ i'" using assms(1,4,5) by (meson owned_def)
  then show ?thesis using assms(2,3) by (metis append_eq_append_conv)
qed

lemma exact_puts: "exact f S t \<Longrightarrow> exact f (insert (i, e) S) (puts (f i e) t)"
  by (auto simp: exact_def puts_def lmdb.get_puts)

lemma exact_dels:
  assumes "exact f S t" and "owned f" and "\<And>i' e'. (i', e') \<in> S \<Longrightarrow> length i' = 32"
    and "(i, e) \<in> S" and "\<And>e'. (i, e') \<in> S \<Longrightarrow> e' = e"
  shows "exact f (S - {(i, e)}) (dels (f i e) t)"
proof -
  have "k \<notin> set (f i e)" if "(i', e') \<in> S - {(i, e)}" "k \<in> set (f i' e')" for i' e' k
  proof
    assume k: "k \<in> set (f i e)"
    have "i = i'" by (rule owned_disjoint [OF assms(2) _ _ k that(2)]) (use assms(3,4) that(1) in blast)+
    then show False using that(1) assms(5) by blast
  qed
  then show ?thesis using assms(1,4) by (fastforce simp: exact_def dels_def lmdb.get_dels)
qed

lemma meta_exact_put:
  "meta_exact X S t \<Longrightarrow> i \<notin> fst ` S \<Longrightarrow> meta_exact X (insert (i, e) S) (tput i (meta_of X i e) t)"
  unfolding meta_exact_def lmdb.get_put by (force simp: image_iff)

lemma meta_exact_del:
  "meta_exact X S t \<Longrightarrow> (\<And>e'. (i, e') \<in> S \<Longrightarrow> e' = e) \<Longrightarrow> meta_exact X (S - {(i, e)}) (tdel i t)"
  unfolding meta_exact_def lmdb.get_del by (auto 4 3)

lemma indexes_exact_put:
  assumes "indexes_exact X U s S" and "pubkey_bytes X e = Some pk" and "i \<notin> fst ` S"
  shows "indexes_exact X U (put_indexes X U s e i pk) (insert (i, e) S)"
proof -
  have pk: "pk = author_of X e" using assms(2) by (simp add: author_of_def)
  note E = exact_puts [where i = i and e = e and S = S]
  have m: "encode_meta (kind e) (created_at e) pk (case expiry e of None \<Rightarrow> 0 | Some x \<Rightarrow> x) = meta_of X i e"
    by (simp add: meta_of_def pk)
  show ?thesis using assms(1) meta_exact_put [OF _ assms(3)] unfolding indexes_exact_def put_indexes_def m
    by (auto simp: pk intro!: E [where f = "\<lambda>i e. [created_key (created_at e) i]"]
          E [where f = "\<lambda>i e. author_keys X e i (author_of X e)"]
          E [where f = "\<lambda>i e. [kind_key (kind e) (created_at e) i]"]
          E [where f = "\<lambda>i e. tag_keys X e i"] E [where f = "\<lambda>i e. expiry_keys e i"]
          E [where f = "\<lambda>i e. word_keys U e i (indexed_words s)"])
qed

section \<open>Removal\<close>

lemma remember_unchanged:
  "events (remember_thread_root_tombstone s e i) = events s" "by_created (remember_thread_root_tombstone s e i) = by_created s"
  "by_pubkey (remember_thread_root_tombstone s e i) = by_pubkey s" "by_kind (remember_thread_root_tombstone s e i) = by_kind s"
  "by_tag (remember_thread_root_tombstone s e i) = by_tag s" "by_word (remember_thread_root_tombstone s e i) = by_word s"
  "event_meta (remember_thread_root_tombstone s e i) = event_meta s" "expiry_t (remember_thread_root_tombstone s e i) = expiry_t s"
  "replaceable (remember_thread_root_tombstone s e i) = replaceable s" "meta_index (remember_thread_root_tombstone s e i) = meta_index s"
  "indexed_words (remember_thread_root_tombstone s e i) = indexed_words s"
  by (simp_all add: remember_thread_root_tombstone_def split: option.split)

lemma slots_exact_clear:
  assumes "slots_exact X S t" and "(i, e) \<in> S" and "\<And>e'. (i, e') \<in> S \<Longrightarrow> e' = e" and "length i = 32"
  shows "slots_exact X (S - {(i, e)}) (clear_slot X e (author_of X e) i t)"
proof (cases "is_replaceable e")
  case False
  then have "in_slot X (S - {(i, e)}) k v \<longleftrightarrow> in_slot X S k v" for k v unfolding in_slot_def by blast
  then show ?thesis using assms(1) False by (simp add: slots_exact_def clear_slot_def)
next
  case True
  let ?k = "slot_key X e (author_of X e)" and ?v = "be64 (created_at e) @ i"
  have get: "tget t k = Some v \<longleftrightarrow> in_slot X S k v" for k v using assms(1) by (simp add: slots_exact_def)
  have g: "tget t ?k = Some ?v" unfolding get in_slot_def using assms(2) True by blast
  have c: "clear_slot X e (author_of X e) i t = tdel ?k t" using True g assms(4) by (simp add: clear_slot_def ID_LEN_def)
  have other: "(i', e') = (i, e)" if "(i', e') \<in> S" "is_replaceable e'" "slot_key X e' (author_of X e') = ?k" for i' e'
  proof -
    have "tget t ?k = Some (be64 (created_at e') @ i')" unfolding get in_slot_def using that by metis
    then have "i' = i" using g by simp
    then show ?thesis using that(1) assms(3) by blast
  qed
  have "in_slot X (S - {(i, e)}) k v \<longleftrightarrow> k \<noteq> ?k \<and> in_slot X S k v" for k v
  proof
    assume "in_slot X (S - {(i, e)}) k v"
    then show "k \<noteq> ?k \<and> in_slot X S k v" unfolding in_slot_def using other by fastforce
  next
    assume "k \<noteq> ?k \<and> in_slot X S k v"
    then show "in_slot X (S - {(i, e)}) k v" unfolding in_slot_def by fastforce
  qed
  then show ?thesis by (auto simp: slots_exact_def c lmdb.get_del get)
qed

lemma abs_tdel: "events s' = tdel i (events s) \<Longrightarrow> abs_events X s' = {(j, e) \<in> abs_events X s. j \<noteq> i}"
  by (auto simp: abs_events_def lmdb.get_del split: if_splits)

lemma remove_event_abs:
  "events_ok X s \<Longrightarrow> abs_events X (remove_event X U s i) = {(j, e) \<in> abs_events X s. j \<noteq> i}"
proof (cases "tget (events s) i")
  case None
  then show ?thesis by (auto simp: remove_event_def abs_events_def)
next
  case (Some raw)
  assume "events_ok X s"
  then obtain e pk where "event_of_json X raw = Some e" "pubkey_bytes X e = Some pk"
    using Some unfolding events_ok_def by blast
  then show ?thesis using Some by (intro abs_tdel) (simp add: remove_event_def Let_def remember_unchanged)
qed

lemma remove_event_inv:
  assumes inv: "store_inv X U s"
  shows "store_inv X U (remove_event X U s i)"
proof (cases "tget (events s) i")
  case None
  then show ?thesis using inv by (simp add: remove_event_def)
next
  case (Some raw)
  let ?S = "abs_events X s"
  have ok: "events_ok X s" and ix: "indexes_exact X U s ?S" and sl: "slots_exact X ?S (replaceable s)"
    using inv by (auto simp: store_inv_def)
  obtain e where e: "(i, e) \<in> ?S" using ok Some abs_mem by fastforce
  have js: "event_of_json X raw = Some e" using e Some by (simp add: abs_events_def)
  have pk: "pubkey_bytes X e = Some (author_of X e)" and idb: "id_bytes X e = Some i" using abs_ok [OF ok e] by auto
  let ?s = "remove_event X U s i"
  have abs: "abs_events X ?s = ?S - {(i, e)}" using remove_event_abs [OF ok] e abs_fun by fastforce
  have len: "\<And>i' e'. (i', e') \<in> ?S \<Longrightarrow> length i' = 32" using abs_ok(1) [OF ok] id_bytes_length by blast
  have un: "\<And>e'. (i, e') \<in> ?S \<Longrightarrow> e' = e" using e abs_fun by blast
  have "events ?s = tdel i (events s)" using Some js pk by (simp add: remove_event_def Let_def remember_unchanged)
  then have ok': "events_ok X ?s" using ok by (auto simp: events_ok_def lmdb.get_del split: if_splits)
  note D = exact_dels [OF _ _ len e un]
  have "indexes_exact X U ?s (?S - {(i, e)})"
    using ix meta_exact_del [OF _ un] Some js pk unfolding indexes_exact_def
    by (auto simp: remove_event_def Let_def remember_unchanged
        intro!: D [OF _ owned_indexes(1)] D [OF _ owned_indexes(2)] D [OF _ owned_indexes(3)]
          D [OF _ owned_indexes(4)] D [OF _ owned_indexes(5)] D [OF _ owned_indexes(6)])
  moreover have "slots_exact X (?S - {(i, e)}) (replaceable ?s)"
    using slots_exact_clear [OF sl e un len [OF e]] Some js pk by (simp add: remove_event_def Let_def remember_unchanged)
  ultimately show ?thesis using ok' by (simp add: store_inv_def abs)
qed


section \<open>Insertion\<close>

lemma bump_unchanged:
  "events (bump_state_seq s f) = events s" "by_created (bump_state_seq s f) = by_created s"
  "by_pubkey (bump_state_seq s f) = by_pubkey s" "by_kind (bump_state_seq s f) = by_kind s"
  "by_tag (bump_state_seq s f) = by_tag s" "by_word (bump_state_seq s f) = by_word s"
  "event_meta (bump_state_seq s f) = event_meta s" "expiry_t (bump_state_seq s f) = expiry_t s"
  "replaceable (bump_state_seq s f) = replaceable s" "meta_index (bump_state_seq s f) = meta_index s"
  "indexed_words (bump_state_seq s f) = indexed_words s"
  by (simp_all add: bump_state_seq_def bump_meta_counter_def)

text \<open>The tables \<open>write_event\<close> leaves are those of \<open>put_indexes\<close>, with the event added.\<close>

lemma write_event_tables:
  fixes X U s e i pk
  defines "w \<equiv> write_event X U s e i pk" and "p \<equiv> put_indexes X U s e i pk"
  shows "events w = tput i (json_of_event X e) (events s)" "replaceable w = replaceable s"
    "indexes_exact X U w S \<longleftrightarrow> indexes_exact X U p S"
  unfolding w_def p_def
  by (simp_all add: write_event_def Let_def put_indexes_def indexes_exact_def bump_unchanged split: option.split)

lemma abs_tput:
  "json_ok X \<Longrightarrow> events s' = tput i (json_of_event X e) (events s) \<Longrightarrow> i \<notin> fst ` abs_events X s \<Longrightarrow>
   abs_events X s' = insert (i, e) (abs_events X s)"
  by (auto simp: abs_events_def lmdb.get_put json_ok_def image_iff split: if_splits)

lemma slots_exact_claim:
  assumes "slots_exact X S t" and "is_replaceable e" and "tget t (slot_key X e (author_of X e)) = None"
  shows "slots_exact X (insert (i, e) S) (tput (slot_key X e (author_of X e)) (be64 (created_at e) @ i) t)"
proof -
  let ?k = "slot_key X e (author_of X e)"
  have get: "tget t k = Some v \<longleftrightarrow> in_slot X S k v" for k v using assms(1) by (simp add: slots_exact_def)
  have none: "\<not> in_slot X S ?k v" for v using get assms(3) by (metis option.distinct(1))
  have "in_slot X (insert (i, e) S) k v \<longleftrightarrow> in_slot X S k v \<or> k = ?k \<and> v = be64 (created_at e) @ i" for k v
    using assms(2) unfolding in_slot_def by auto
  then show ?thesis using none by (auto simp: slots_exact_def lmdb.get_put get)
qed

lemma slots_exact_skip:
  assumes "slots_exact X S t" and "\<not> is_replaceable e"
  shows "slots_exact X (insert (i, e) S) t"
proof -
  have "in_slot X (insert (i, e) S) k v \<longleftrightarrow> in_slot X S k v" for k v using assms(2) unfolding in_slot_def by auto
  then show ?thesis using assms(1) by (simp add: slots_exact_def)
qed

text \<open>Writing an event whose slot is already claimed.\<close>

lemma write_event_inv:
  assumes "json_ok X" and "events_ok X s" and "indexes_exact X U s (abs_events X s)"
    and "id_bytes X e = Some i" and "pubkey_bytes X e = Some pk" and "i \<notin> fst ` abs_events X s"
    and "slots_exact X (insert (i, e) (abs_events X s)) (replaceable s)"
  shows "store_inv X U (write_event X U s e i pk)"
    and "abs_events X (write_event X U s e i pk) = insert (i, e) (abs_events X s)"
proof -
  note t = write_event_tables [of X U s e i pk]
  show abs: "abs_events X (write_event X U s e i pk) = insert (i, e) (abs_events X s)"
    by (rule abs_tput [OF assms(1) t(1) assms(6)])
  have "events_ok X (write_event X U s e i pk)"
    using assms(1,2,4,5) unfolding events_ok_def t(1) by (auto simp: lmdb.get_put json_ok_def)
  then show "store_inv X U (write_event X U s e i pk)"
    using indexes_exact_put [OF assms(3,5,6)] assms(7) by (simp add: store_inv_def abs t(2,3))
qed

text \<open>An id commits to the event's payload: what a stored event with the same id must agree on.\<close>

definition same_payload :: "event \<Rightarrow> event \<Rightarrow> bool" where
  "same_payload e e' \<longleftrightarrow> pubkey e = pubkey e' \<and> created_at e = created_at e' \<and> kind e = kind e'
     \<and> tags e = tags e' \<and> content e = content e'"

definition ids_commit :: "ext \<Rightarrow> store \<Rightarrow> event \<Rightarrow> bool" where
  "ids_commit X s e \<longleftrightarrow> (\<forall>i e'. (i, e') \<in> abs_events X s \<longrightarrow> id_bytes X e = Some i \<longrightarrow> same_payload e e')"

lemma same_payload_slot:
  assumes "same_payload e e'"
  shows "is_replaceable e' = is_replaceable e" "slot_key X e' pk = slot_key X e pk" "author_of X e' = author_of X e"
  using assms by (simp_all add: same_payload_def is_replaceable_def slot_key_def slot_dtag_def dtag_def
      author_of_def pubkey_bytes_def)

text \<open>The occupant of an event's slot.\<close>

definition occupant :: "ext \<Rightarrow> store \<Rightarrow> event \<Rightarrow> (bytes \<times> event) set" where
  "occupant X s e = {(j, f) \<in> abs_events X s. is_replaceable f \<and> slot_key X f (author_of X f) = slot_key X e (author_of X e)}"

text \<open>The order NIP-01 replaces by: later timestamp first, then the lower id.\<close>

definition newer :: "bytes \<times> event \<Rightarrow> bytes \<times> event \<Rightarrow> bool" where
  "newer a b \<longleftrightarrow> created_at (snd a) > created_at (snd b)
     \<or> created_at (snd a) = created_at (snd b) \<and> fst a < fst b"

lemma newer_irrefl: "\<not> newer a a"
  by (simp add: newer_def)

lemma slot_lookup:
  assumes "store_inv X U s" and "tget (replaceable s) (slot_key X e (author_of X e)) = Some old"
  obtains j f where "(j, f) \<in> occupant X s e" and "old = be64 (created_at f) @ j" and "length j = 32"
proof -
  have "in_slot X (abs_events X s) (slot_key X e (author_of X e)) old"
    using assms by (auto simp: store_inv_def slots_exact_def)
  then obtain j f where jf: "(j, f) \<in> abs_events X s" "is_replaceable f"
    "slot_key X e (author_of X e) = slot_key X f (author_of X f)" "old = be64 (created_at f) @ j"
    unfolding in_slot_def by blast
  moreover have "length j = 32" using jf(1) assms(1) abs_ok(1) id_bytes_length by (metis store_inv_def)
  ultimately show ?thesis by (intro that [of j f]) (simp_all add: occupant_def)
qed

lemma occupant_slot:
  assumes "store_inv X U s" and "(j, f) \<in> occupant X s e"
  shows "tget (replaceable s) (slot_key X e (author_of X e)) = Some (be64 (created_at f) @ j)"
  using assms unfolding store_inv_def slots_exact_def in_slot_def occupant_def by (auto 4 4)

lemma occupant_unique:
  assumes "store_inv X U s" and "(j, f) \<in> occupant X s e" and "(j', f') \<in> occupant X s e"
  shows "(j', f') = (j, f)"
proof -
  have "j' = j" using occupant_slot [OF assms(1,2)] occupant_slot [OF assms(1,3)] by simp
  then show ?thesis using assms(2,3) abs_fun unfolding occupant_def by blast
qed


lemma occupant_single:
  assumes "store_inv X U s" and "(j, f) \<in> occupant X s e"
  shows "occupant X s e = {(j, f)}"
proof -
  have "x = (j, f)" if "x \<in> occupant X s e" for x
    using that occupant_unique [OF assms] by (cases x) blast
  then show ?thesis using assms(2) by blast
qed

lemma own_occupant:
  assumes "ids_commit X s e" and "id_bytes X e = Some i" and "is_replaceable e" and "(i, e') \<in> abs_events X s"
  shows "(i, e') \<in> occupant X s e" and "created_at e' = created_at e"
proof -
  have sp: "same_payload e e'" using assms by (auto simp: ids_commit_def)
  then show "(i, e') \<in> occupant X s e" using same_payload_slot [OF sp] assms(3,4) by (simp add: occupant_def)
  show "created_at e' = created_at e" using sp by (simp add: same_payload_def)
qed

lemma replaceable_upd_inv:
  "events_ok X (s\<lparr>replaceable := t\<rparr>) = events_ok X s" "abs_events X (s\<lparr>replaceable := t\<rparr>) = abs_events X s"
  "indexes_exact X U (s\<lparr>replaceable := t\<rparr>) S = indexes_exact X U s S"
  by (simp_all add: events_ok_def abs_events_def indexes_exact_def)

text \<open>What \<open>claim_slot\<close> hands to \<open>write_event\<close>.\<close>

definition claimed :: "ext \<Rightarrow> unicode \<Rightarrow> store \<Rightarrow> event \<Rightarrow> bytes \<Rightarrow> bool" where
  "claimed X U s e i \<longleftrightarrow> events_ok X s \<and> indexes_exact X U s (abs_events X s) \<and> i \<notin> fst ` abs_events X s
     \<and> slots_exact X (insert (i, e) (abs_events X s)) (replaceable s)"

lemma claim_empty:
  assumes "store_inv X U s" and "is_replaceable e" and "ids_commit X s e" and "id_bytes X e = Some i"
    and "tget (replaceable s) (slot_key X e (author_of X e)) = None"
  shows "claimed X U (s\<lparr>replaceable := tput (slot_key X e (author_of X e)) (be64 (created_at e) @ i) (replaceable s)\<rparr>) e i"
    and "occupant X s e = {}"
proof -
  show occ: "occupant X s e = {}"
  proof (rule ccontr)
    assume "occupant X s e \<noteq> {}"
    then obtain j f where "(j, f) \<in> occupant X s e" by fastforce
    then show False using occupant_slot [OF assms(1)] assms(5) by fastforce
  qed
  have "i \<notin> fst ` abs_events X s" using own_occupant(1) [OF assms(3,4,2)] occ by fastforce
  moreover have "slots_exact X (abs_events X s) (replaceable s)" using assms(1) by (simp add: store_inv_def)
  ultimately show "claimed X U (s\<lparr>replaceable := tput (slot_key X e (author_of X e)) (be64 (created_at e) @ i) (replaceable s)\<rparr>) e i"
    using assms(1) slots_exact_claim [OF _ assms(2,5)] by (simp add: claimed_def replaceable_upd_inv store_inv_def)
qed

lemma claim_replace:
  assumes inv: "store_inv X U s" and "is_replaceable e" and "ids_commit X s e" and "id_bytes X e = Some i"
    and occ: "(j, f) \<in> occupant X s e" and new: "newer (i, e) (j, f)"
  defines "s1 \<equiv> remove_event X U s j"
  shows "claimed X U (s1\<lparr>replaceable := tput (slot_key X e (author_of X e)) (be64 (created_at e) @ i) (replaceable s1)\<rparr>) e i"
    and "abs_events X s1 = abs_events X s - {(j, f)}"
proof -
  have ok: "events_ok X s" using inv by (simp add: store_inv_def)
  have jf: "(j, f) \<in> abs_events X s" using occ by (simp add: occupant_def)
  show abs: "abs_events X s1 = abs_events X s - {(j, f)}"
    unfolding s1_def using remove_event_abs [OF ok] jf abs_fun by fastforce
  have inv1: "store_inv X U s1" unfolding s1_def using inv by (rule remove_event_inv)
  have none: "tget (replaceable s1) (slot_key X e (author_of X e)) = None"
  proof (rule ccontr)
    assume "\<not> ?thesis"
    then obtain old where "tget (replaceable s1) (slot_key X e (author_of X e)) = Some old" by auto
    then obtain j' f' where "(j', f') \<in> occupant X s1 e" using slot_lookup [OF inv1] by metis
    then have "(j', f') \<in> occupant X s e \<and> (j', f') \<noteq> (j, f)" by (simp add: occupant_def abs)
    then show False using occupant_unique [OF inv occ] by blast
  qed
  have "ids_commit X s1 e" using assms(3) by (auto simp: ids_commit_def abs)
  from claim_empty(1) [OF inv1 assms(2) this assms(4) none]
  show "claimed X U (s1\<lparr>replaceable := tput (slot_key X e (author_of X e)) (be64 (created_at e) @ i) (replaceable s1)\<rparr>) e i" .
qed

lemma claim_slot_ok:
  assumes inv: "store_inv X U s" and rep: "is_replaceable e" and com: "ids_commit X s e"
    and i: "id_bytes X e = Some i" and pk: "pubkey_bytes X e = Some pk"
    and res: "claim_slot X U s e i pk = Inr (s1, out)"
  shows "claimed X U s1 e i \<and>
    (out = Stored \<and> occupant X s e = {} \<and> abs_events X s1 = abs_events X s \<or>
     out = Replaced \<and> (\<exists>j f. occupant X s e = {(j, f)} \<and> newer (i, e) (j, f) \<and> abs_events X s1 = abs_events X s - {(j, f)}))"
proof -
  have a: "author_of X e = pk" using pk by (simp add: author_of_def)
  let ?k = "slot_key X e (author_of X e)"
  show ?thesis
  proof (cases "tget (replaceable s) ?k")
    case None
    then show ?thesis using res claim_empty [OF inv rep com i None]
      by (auto simp: claim_slot_def Let_def a replaceable_upd_inv split: if_splits)
  next
    case (Some old)
    then obtain j f where jf: "(j, f) \<in> occupant X s e" "old = be64 (created_at f) @ j" "length j = 32"
      using slot_lookup [OF inv] by metis
    then have sing: "occupant X s e = {(j, f)}" using occupant_unique [OF inv] by auto
    have "newer (i, e) (j, f)" and s1: "out = Replaced"
      "s1 = (let r = remove_event X U s j in r\<lparr>replaceable := tput ?k (be64 (created_at e) @ i) (replaceable r)\<rparr>)"
      using res Some jf(2,3) by (auto simp: claim_slot_def Let_def a newer_def len_defs split: if_splits)
    then show ?thesis using claim_replace [OF inv rep com i jf(1)] sing by (auto simp: Let_def replaceable_upd_inv)
  qed
qed

lemma vanish_refusal:
  assumes "vanished_or_pending s pk \<or> (\<exists>d. delegator_bytes X e = Some d \<and> vanished_or_pending s d)
      \<or> (kind e = GIFT_WRAP_KIND \<or> kind e = EPHEMERAL_GIFT_WRAP_KIND) \<and>
        (\<exists>t \<in> set (tags e). 2 \<le> length t \<and> t ! 0 = ''p'' \<and>
           (\<exists>r. decode_array X ID_LEN (t ! 1) = Some r \<and> vanished_or_pending s r))"
  shows "\<exists>reason. put_refusal X s e now i pk = Some (Invalid reason)"
proof -
  have opt: "(case x of None \<Rightarrow> False | Some r \<Rightarrow> P r) \<longleftrightarrow> (\<exists>r. x = Some r \<and> P r)" for x :: "bytes option" and P
    by (cases x) auto
  show ?thesis using assms by (simp only: put_refusal_def opt) auto
qed

lemma put_refusal_outcome:
  "put_refusal X s e now i pk = Some out \<Longrightarrow> out \<noteq> Stored \<and> out \<noteq> Replaced \<and> out \<noteq> Duplicate m"
  by (auto simp: put_refusal_def split: if_splits)

lemma claim_slot_outcome:
  "claim_slot X U s e i pk = Inl out \<Longrightarrow> out \<noteq> Stored \<and> out \<noteq> Replaced"
  by (auto simp: claim_slot_def Let_def split: if_splits option.splits)

text \<open>The ways a put ends.\<close>

lemma put_event_in_cases:
  assumes "put_event_in X U s e now = (s', out)"
  obtains (same) "s' = s" "out \<noteq> Stored" "out \<noteq> Replaced" "is_replaceable e \<Longrightarrow> out \<noteq> Duplicate ''duplicate: event already stored''"
    | (kept) i pk where "s' = s" "out \<noteq> Stored" "out \<noteq> Replaced" "id_bytes X e = Some i" "pubkey_bytes X e = Some pk"
        "claim_slot X U s e i pk = Inl out"
    | (slot) i pk s1 where "id_bytes X e = Some i" "pubkey_bytes X e = Some pk" "put_refusal X s e now i pk = None"
        "is_replaceable e" "claim_slot X U s e i pk = Inr (s1, out)" "s' = write_event X U s1 e i pk"
    | (plain) i pk where "id_bytes X e = Some i" "pubkey_bytes X e = Some pk" "put_refusal X s e now i pk = None"
        "\<not> is_replaceable e" "tget (events s) i = None" "s' = write_event X U s e i pk" "out = Stored"
proof (cases "id_bytes X e")
  case None
  then show ?thesis using assms by (intro same) (auto simp: put_event_in_def)
next
  case i: (Some i)
  show ?thesis
  proof (cases "pubkey_bytes X e")
    case None
    then show ?thesis using assms i by (intro same) (auto simp: put_event_in_def)
  next
    case pk: (Some pk)
    show ?thesis
    proof (cases "put_refusal X s e now i pk")
      case (Some o')
      then show ?thesis using assms i pk put_refusal_outcome [OF Some] by (intro same) (auto simp: put_event_in_def)
    next
      case ref: None
      show ?thesis
      proof (cases "is_replaceable e")
        case rep: True
        show ?thesis
        proof (cases "claim_slot X U s e i pk")
          case (Inl o')
          then show ?thesis using assms i pk ref rep claim_slot_outcome [OF Inl]
            by (intro kept [of i pk]) (auto simp: put_event_in_def)
        next
          case (Inr r)
          obtain s1 o' where "r = (s1, o')" by fastforce
          then show ?thesis using assms i pk ref rep Inr
            by (intro slot [of i pk s1]) (auto simp: put_event_in_def)
        qed
      next
        case rep: False
        show ?thesis
        proof (cases "tget (events s) i = None")
          case True
          then show ?thesis using assms i pk ref rep by (intro plain [of i pk]) (auto simp: put_event_in_def)
        next
          case False
          then show ?thesis using assms i pk ref rep by (intro same) (auto simp: put_event_in_def)
        qed
      qed
    qed
  qed
qed

lemma put_event_in_refines:
  assumes js: "json_ok X" and inv: "store_inv X U s" and com: "ids_commit X s e"
    and res: "put_event_in X U s e now = (s', out)"
  shows "store_inv X U s' \<and>
    (out = Stored \<and> (\<exists>i. id_bytes X e = Some i \<and> i \<notin> fst ` abs_events X s \<and> (is_replaceable e \<longrightarrow> occupant X s e = {})
        \<and> abs_events X s' = insert (i, e) (abs_events X s))
     \<or> out = Replaced \<and> (\<exists>i j f. id_bytes X e = Some i \<and> is_replaceable e \<and> occupant X s e = {(j, f)}
        \<and> newer (i, e) (j, f) \<and> abs_events X s' = insert (i, e) (abs_events X s - {(j, f)}))
     \<or> out \<noteq> Stored \<and> out \<noteq> Replaced \<and> s' = s)"
  using res
proof (cases rule: put_event_in_cases)
  case same
  then show ?thesis using inv by blast
next
  case (kept i pk)
  then show ?thesis using inv by blast
next
  case (slot i pk s1)
  note c = claim_slot_ok [OF inv slot(4) com slot(1,2,5)]
  then have "events_ok X s1" "indexes_exact X U s1 (abs_events X s1)" "i \<notin> fst ` abs_events X s1"
    "slots_exact X (insert (i, e) (abs_events X s1)) (replaceable s1)" by (simp_all add: claimed_def)
  note w = write_event_inv [OF js this(1,2) slot(1,2) this(3,4)]
  show ?thesis using w c slot(1,4,6) \<open>i \<notin> fst ` abs_events X s1\<close> by auto
next
  case (plain i pk)
  have ok: "events_ok X s" "indexes_exact X U s (abs_events X s)" "slots_exact X (abs_events X s) (replaceable s)"
    using inv by (auto simp: store_inv_def)
  have ni: "i \<notin> fst ` abs_events X s" using plain(5) by (auto simp: abs_events_def)
  note w = write_event_inv [OF js ok(1,2) plain(1,2) ni slots_exact_skip [OF ok(3) plain(4)]]
  show ?thesis using w plain ni by auto
qed


section \<open>Reachable stores\<close>

definition empty_store :: "bool \<Rightarrow> bool \<Rightarrow> bool \<Rightarrow> bool \<Rightarrow> nat \<Rightarrow> store" where
  "empty_store words meta meta_on expiry_on n =
     \<lparr>events = [], by_created = [], by_pubkey = [], by_kind = [], by_tag = [],
      by_word = (if words then Some [] else None), event_meta = (if meta then Some [] else None), meta_index = meta_on,
      deleted = [], expiry_t = [], replaceable = [], vanish = [], banned = [], allowed = [], first_seen = [],
      purged_groups = [], purge_pending = [], vanish_pending = [], delete_pending = [], index_meta = [],
      expiry_enabled = expiry_on, cancel_in = None, indexed_words = n, low_space = False\<rparr>"

text \<open>
  The writer thread's steps: puts, removals, and the marker writes of the other operations (vanish,
  ban, deletion and purge markers), which touch neither events nor indexes.
\<close>

inductive reachable :: "ext \<Rightarrow> unicode \<Rightarrow> store \<Rightarrow> bool" for X U where
  start: "reachable X U (empty_store words meta meta_on expiry_on n)"
| put: "reachable X U s \<Longrightarrow> ids_commit X s e \<Longrightarrow> reachable X U (fst (put_event_in X U s e now))"
| remove: "reachable X U s \<Longrightarrow> reachable X U (remove_event X U s i)"
| mark: "reachable X U s \<Longrightarrow>
    reachable X U (s\<lparr>deleted := d, vanish := v, banned := b, purged_groups := g, vanish_pending := p,
      index_meta := m, expiry_enabled := x\<rparr>)"

inductive_cases reachable_cases: "reachable X U s"

lemma store_inv_empty: "store_inv X U (empty_store words meta meta_on expiry_on n)"
  by (auto simp: store_inv_def empty_store_def events_ok_def abs_events_def indexes_exact_def exact_def
      meta_exact_def slots_exact_def in_slot_def)

lemma store_inv_mark:
  "store_inv X U (s\<lparr>deleted := d, vanish := v, banned := b, purged_groups := g, vanish_pending := p,
      index_meta := m, expiry_enabled := x\<rparr>) = store_inv X U s"
  by (simp add: store_inv_def events_ok_def abs_events_def indexes_exact_def)

lemma reachable_inv:
  assumes "reachable X U s" and "json_ok X"
  shows "store_inv X U s"
  using assms(1)
proof induction
  case (put s e now)
  obtain s' out where r: "put_event_in X U s e now = (s', out)" by fastforce
  then show ?case using put_event_in_refines [OF assms(2) put.IH put.hyps(2) r] by simp
qed (simp_all add: store_inv_empty store_inv_mark remove_event_inv)

section \<open>Newest wins\<close>

lemma claim_slot_duplicate:
  assumes inv: "store_inv X U s" and pk: "pubkey_bytes X e = Some pk"
    and res: "claim_slot X U s e i pk = Inl (Duplicate m)"
  shows "\<exists>j f. occupant X s e = {(j, f)} \<and> \<not> newer (i, e) (j, f)"
proof -
  have a: "author_of X e = pk" using pk by (simp add: author_of_def)
  have "\<exists>old. tget (replaceable s) (slot_key X e pk) = Some old"
    using res by (auto simp: claim_slot_def Let_def split: if_splits option.splits)
  then obtain old where old: "tget (replaceable s) (slot_key X e (author_of X e)) = Some old" by (auto simp: a)
  then obtain j f where jf: "(j, f) \<in> occupant X s e" "old = be64 (created_at f) @ j" "length j = 32"
    using slot_lookup [OF inv] by metis
  then have "\<not> newer (i, e) (j, f)"
    using res old by (auto simp: claim_slot_def Let_def a newer_def len_defs split: if_splits)
  moreover have "occupant X s e = {(j, f)}" by (rule occupant_single [OF inv jf(1)])
  ultimately show ?thesis by blast
qed

lemma newest_wins:
  assumes js: "json_ok X" and inv: "store_inv X U s" and com: "ids_commit X s e" and rep: "is_replaceable e"
    and res: "put_event_in X U s e now = (s', out)"
    and out: "out \<in> {Stored, Replaced, Duplicate ''duplicate: event already stored''}"
  shows "\<exists>i j f. id_bytes X e = Some i \<and> occupant X s' e = {(j, f)} \<and> \<not> newer (i, e) (j, f)"
proof -
  note ref = put_event_in_refines [OF js inv com res]
  have inserted: ?thesis if new: "out \<in> {Stored, Replaced}"
  proof -
    obtain i where "id_bytes X e = Some i" "(i, e) \<in> occupant X s' e"
      using ref new rep by (auto simp: occupant_def)
    moreover have "store_inv X U s'" using ref by blast
    ultimately show ?thesis using occupant_single newer_irrefl by metis
  qed
  show ?thesis using res
  proof (cases rule: put_event_in_cases)
    case same
    then show ?thesis using out rep by auto
  next
    case (kept i pk)
    then obtain m where "out = Duplicate m" using out by auto
    then show ?thesis using kept claim_slot_duplicate [OF inv kept(5)] by auto
  next
    case slot
    then show ?thesis using inserted claim_slot_ok [OF inv slot(4) com slot(1,2,5)] by blast
  next
    case plain
    then show ?thesis using rep by blast
  qed
qed

end
