(* ===== verification/IndexScan.thy ===== *)
theory IndexScan
  imports StoreInv Scan
begin

text \<open>
  Reading the indexes back. Every index key fits LMDB's key limit, and the byte range the scan
  planner (\<open>src/src/db/scan.rs\<close>) builds for a filter constraint selects, in a consistent store,
  exactly the stored events that satisfy the constraint inside the time window.
\<close>

section \<open>Index keys fit, and the tag index answers exactly\<close>

lemma recipient_length: "r \<in> set (gift_wrap_recipients X e) \<Longrightarrow> length r = 32"
  by (auto simp: gift_wrap_recipients_def map_filter_def decode_array_def ID_LEN_def split: if_splits option.splits)

lemma ownedD: "owned f \<Longrightarrow> k \<in> set (f i e) \<Longrightarrow> \<exists>p. k = p @ i"
  by (simp add: owned_def)

lemma index_keys_fit:
  assumes "length i = 32" and "length pk = 32"
  shows "k \<in> set (author_keys X e i pk) \<Longrightarrow> length k \<le> MAX_INDEX_KEY"
    and "k \<in> set (tag_keys X e i) \<Longrightarrow> length k \<le> MAX_INDEX_KEY"
    and "k \<in> set (expiry_keys e i) \<Longrightarrow> length k \<le> MAX_INDEX_KEY"
    and "k \<in> set (word_keys U e i n) \<Longrightarrow> length k \<le> MAX_INDEX_KEY"
proof -
  have d: "delegator_bytes X e = Some d \<Longrightarrow> length d = 32" for d
    by (auto simp: delegator_bytes_def decode_array_Some ID_LEN_def split: option.splits)
  note g = recipient_length
  show "k \<in> set (author_keys X e i pk) \<Longrightarrow> length k \<le> MAX_INDEX_KEY"
    using assms d by (auto simp: author_keys_def pubkey_key_def len_defs split: option.splits)
  show "k \<in> set (tag_keys X e i) \<Longrightarrow> length k \<le> MAX_INDEX_KEY"
    using assms g by (auto simp: tag_keys_def tag_key_def len_defs)
  show "k \<in> set (expiry_keys e i) \<Longrightarrow> length k \<le> MAX_INDEX_KEY"
    using assms by (auto simp: expiry_keys_def created_key_def len_defs split: option.splits)
  show "k \<in> set (word_keys U e i n) \<Longrightarrow> length k \<le> MAX_INDEX_KEY"
    by (auto simp: word_keys_def Let_def split: if_splits)
qed

text \<open>The ids a range scan of an index yields: the last 32 bytes of the keys in the range.\<close>

definition scan_ids :: "table \<Rightarrow> bytes \<times> bytes \<Rightarrow> bytes set" where
  "scan_ids t r = {i. length i = 32 \<and> (\<exists>p. tget t (p @ i) \<noteq> None \<and> fst r \<le> p @ i \<and> p @ i < snd r)}"

lemma code_byte_inj: "(of_nat (code c) :: u8) = of_nat (code d) \<longleftrightarrow> c = d"
  by (rule of_nat_code_inj)

lemma alnum_not_gift: "is_ascii_alphanumeric c \<Longrightarrow> (of_nat (code c) :: u8) \<noteq> GIFT_WRAP_INDEX"
proof
  assume a: "is_ascii_alphanumeric c" and "(of_nat (code c) :: u8) = GIFT_WRAP_INDEX"
  then have "(of_nat (code c) :: u8) = of_nat (code (char_of (1 :: nat)))"
    by (simp add: GIFT_WRAP_INDEX_def)
  then have "c = char_of (1 :: nat)" by (simp only: of_nat_code_inj)
  then show False using a by (simp add: char_class_defs)
qed

lemma tag_keys_in_range:
  fixes lo hi :: u64
  assumes len: "length i = 32" and al: "is_ascii_alphanumeric c" and v: "length v \<le> TAG_INDEX_VALUE_MAX"
  defines "r \<equiv> tag_range (of_nat (code c)) (as_bytes v) lo hi"
  shows "(\<exists>k \<in> set (tag_keys X e i). fst r \<le> k \<and> k < snd r) \<longleftrightarrow>
    (\<exists>t \<in> set (tags e). 2 \<le> length t \<and> t ! 0 = [c] \<and> t ! 1 = v) \<and> lo \<le> created_at e \<and> created_at e \<le> hi"
proof -
  have vl: "length (as_bytes v) < 2 ^ 32" using v by (simp add: len_defs)
  have rng: "fst r \<le> tag_key n w (created_at e) i \<and> tag_key n w (created_at e) i < snd r \<longleftrightarrow>
      n = of_nat (code c) \<and> w = as_bytes v \<and> lo \<le> created_at e \<and> created_at e \<le> hi" if "length w < 2 ^ 32" for n w
    unfolding r_def by (rule tag_range_exact [OF len vl that])
  note g = recipient_length
  have one: "length x = 1 \<Longrightarrow> x = [x ! 0]" for x :: string by (cases x) auto
  show ?thesis
  proof
    assume "\<exists>k \<in> set (tag_keys X e i). fst r \<le> k \<and> k < snd r"
    then obtain k where k: "k \<in> set (tag_keys X e i)" "fst r \<le> k" "k < snd r" by blast
    from k(1) consider t where "t \<in> set (tags e)" "indexable_tag t"
        "k = tag_key (of_nat (code (t ! 0 ! 0))) (as_bytes (t ! 1)) (created_at e) i"
      | w where "w \<in> set (gift_wrap_recipients X e)" "k = tag_key GIFT_WRAP_INDEX w (created_at e) i"
      by (auto simp: tag_keys_def)
    then show "(\<exists>t \<in> set (tags e). 2 \<le> length t \<and> t ! 0 = [c] \<and> t ! 1 = v) \<and> lo \<le> created_at e \<and> created_at e \<le> hi"
    proof cases
      case 1
      have "length (as_bytes (t ! 1)) < 2 ^ 32" using 1(2) by (simp add: indexable_tag_def TAG_VALUE_MAX_def)
      from rng [OF this, of "of_nat (code (t ! 0 ! 0))"] k(2,3) 1(3)
      have b: "(of_nat (code (t ! 0 ! 0)) :: u8) = of_nat (code c)" "as_bytes (t ! 1) = as_bytes v"
        "lo \<le> created_at e \<and> created_at e \<le> hi" by blast+
      have "t ! 0 ! 0 = c" "t ! 1 = v" "lo \<le> created_at e \<and> created_at e \<le> hi"
        using b(1) [unfolded of_nat_code_inj] b(2) [unfolded as_bytes_inj] b(3) by blast+
      moreover have "t ! 0 = [t ! 0 ! 0]" using 1(2) by (intro one) (simp add: indexable_tag_def)
      ultimately show ?thesis using 1(1,2) by (auto simp: indexable_tag_def)
    next
      case 2
      have "length w < 2 ^ 32" using g [OF 2(1)] by simp
      from rng [OF this, of GIFT_WRAP_INDEX] k(2,3) 2(2) alnum_not_gift [OF al] show ?thesis by metis
    qed
  next
    assume a: "(\<exists>t \<in> set (tags e). 2 \<le> length t \<and> t ! 0 = [c] \<and> t ! 1 = v) \<and> lo \<le> created_at e \<and> created_at e \<le> hi"
    then obtain t where t: "t \<in> set (tags e)" "2 \<le> length t" "t ! 0 = [c]" "t ! 1 = v" by blast
    let ?k = "tag_key (of_nat (code c)) (as_bytes v) (created_at e) i"
    have "indexable_tag t" using t al v by (simp add: indexable_tag_def len_defs)
    moreover have "length ?k \<le> MAX_INDEX_KEY" using v len by (simp add: tag_key_def len_defs)
    ultimately have "?k \<in> set (tag_keys X e i)" using t by (auto simp: tag_keys_def intro!: image_eqI [of _ _ t])
    then show "\<exists>k \<in> set (tag_keys X e i). fst r \<le> k \<and> k < snd r" using rng [OF vl] a by blast
  qed
qed

text \<open>
  One lemma for every index: when the keys of an event that fall into a range are characterised by a
  predicate on the event, the scan yields the stored events that satisfy it.
\<close>

lemma index_scan_exact:
  assumes ok: "events_ok X s" and ex: "exact f (abs_events X s) t" and ow: "owned f"
    and keys: "\<And>i e. (i, e) \<in> abs_events X s \<Longrightarrow> length i = 32 \<Longrightarrow>
      (\<exists>k \<in> set (f i e). fst r \<le> k \<and> k < snd r) \<longleftrightarrow> P e"
  shows "scan_ids t r = {i. \<exists>e. (i, e) \<in> abs_events X s \<and> P e}"
proof -
  have len: "length i = 32" if "(i, e) \<in> abs_events X s" for i e using abs_ok(1) [OF ok that] id_bytes_length by blast
  have own: "i' = i" if pk: "p @ i \<in> set (f i' e)" "length i = 32" "length i' = 32" for p i i' e
  proof -
    obtain q where "p @ i = q @ i'" using ownedD [OF ow pk(1)] by blast
    then show ?thesis using pk(2,3) by simp
  qed
  have "i \<in> scan_ids t r \<longleftrightarrow>
      (\<exists>e. (i, e) \<in> abs_events X s \<and> (\<exists>k \<in> set (f i e). fst r \<le> k \<and> k < snd r))" for i
  proof
    assume "i \<in> scan_ids t r"
    then obtain p where p: "length i = 32" "tget t (p @ i) \<noteq> None" "fst r \<le> p @ i" "p @ i < snd r"
      by (auto simp: scan_ids_def)
    then obtain i' e where e: "(i', e) \<in> abs_events X s" "p @ i \<in> set (f i' e)"
      using ex by (auto simp: exact_def split: if_splits)
    then have "i' = i" using own len p(1) by blast
    then show "\<exists>e. (i, e) \<in> abs_events X s \<and> (\<exists>k \<in> set (f i e). fst r \<le> k \<and> k < snd r)"
      using e p by blast
  next
    assume "\<exists>e. (i, e) \<in> abs_events X s \<and> (\<exists>k \<in> set (f i e). fst r \<le> k \<and> k < snd r)"
    then obtain e k where e: "(i, e) \<in> abs_events X s" "k \<in> set (f i e)" "fst r \<le> k" "k < snd r" by blast
    then obtain p where "k = p @ i" using ownedD [OF ow e(2)] by blast
    moreover have "tget t k = Some []" using ex e(1,2) unfolding exact_def by auto
    ultimately show "i \<in> scan_ids t r" using e len by (auto simp: scan_ids_def)
  qed
  then show ?thesis using keys len by blast
qed

lemma tag_scan_exact:
  assumes inv: "store_inv X U s" and al: "is_ascii_alphanumeric c" and v: "length v \<le> TAG_INDEX_VALUE_MAX"
  shows "scan_ids (by_tag s) (tag_range (of_nat (code c)) (as_bytes v) lo hi) =
    {i. \<exists>e. (i, e) \<in> abs_events X s \<and> (\<exists>t \<in> set (tags e). 2 \<le> length t \<and> t ! 0 = [c] \<and> t ! 1 = v)
       \<and> lo \<le> created_at e \<and> created_at e \<le> hi}"
  by (rule index_scan_exact [OF _ _ owned_indexes(4) [of X] tag_keys_in_range [OF _ al v]])
    (use inv in \<open>simp_all add: store_inv_def indexes_exact_def\<close>)

text \<open>
  The other ranges the scan planner builds: from the key at \<open>since\<close> with the zero id up to
  \<open>range_end\<close> of the key one second after \<open>until\<close>.
\<close>

lemma time_range_exact:
  assumes "length i = 32"
  shows "fst (time_range created_key lo hi) \<le> created_key c i \<and> created_key c i < snd (time_range created_key lo hi)
      \<longleftrightarrow> lo \<le> c \<and> c \<le> hi"
    and "length pk' = length pk \<Longrightarrow>
      fst (time_range (pubkey_key pk) lo hi) \<le> pubkey_key pk' c i \<and> pubkey_key pk' c i < snd (time_range (pubkey_key pk) lo hi)
      \<longleftrightarrow> pk' = pk \<and> lo \<le> c \<and> c \<le> hi"
    and "fst (time_range (kind_key k) lo hi) \<le> kind_key k' c i \<and> kind_key k' c i < snd (time_range (kind_key k) lo hi)
      \<longleftrightarrow> k' = k \<and> lo \<le> c \<and> c \<le> hi"
  using prefix_scan [OF assms, of "[]" "[]" lo c hi] prefix_scan [OF assms, of pk' pk lo c hi]
    prefix_scan [OF assms, of "be64 k'" "be64 k" lo c hi]
  by (simp_all add: time_range_def created_key_def pubkey_key_def kind_key_def ID_LEN_def)

lemma created_scan_exact:
  assumes "store_inv X U s"
  shows "scan_ids (by_created s) (time_range created_key lo hi) =
    {i. \<exists>e. (i, e) \<in> abs_events X s \<and> lo \<le> created_at e \<and> created_at e \<le> hi}"
  by (rule index_scan_exact [OF _ _ owned_indexes(1)])
    (use assms time_range_exact(1) in \<open>simp_all add: store_inv_def indexes_exact_def\<close>)

lemma kind_scan_exact:
  assumes "store_inv X U s"
  shows "scan_ids (by_kind s) (time_range (kind_key k) lo hi) =
    {i. \<exists>e. (i, e) \<in> abs_events X s \<and> kind e = k \<and> lo \<le> created_at e \<and> created_at e \<le> hi}"
  by (rule index_scan_exact [OF _ _ owned_indexes(3)])
    (use assms time_range_exact(3) in \<open>simp_all add: store_inv_def indexes_exact_def\<close>)

lemma author_keys_in_range:
  assumes "length i = 32" and "length pk = 32" and "pubkey_bytes X e = Some a"
  shows "(\<exists>k \<in> set (author_keys X e i a). fst (time_range (pubkey_key pk) lo hi) \<le> k \<and> k < snd (time_range (pubkey_key pk) lo hi))
    \<longleftrightarrow> (a = pk \<or> delegator_bytes X e = Some pk) \<and> lo \<le> created_at e \<and> created_at e \<le> hi"
proof -
  have a: "length a = length pk" using assms by (auto simp: pubkey_bytes_def decode_array_Some PK_BYTES_def)
  have d: "delegator_bytes X e = Some d \<Longrightarrow> length d = length pk" for d
    using assms(2) by (auto simp: delegator_bytes_def decode_array_Some ID_LEN_def split: option.splits)
  show ?thesis using time_range_exact(2) [OF assms(1) a] time_range_exact(2) [OF assms(1) d]
    by (cases "delegator_bytes X e") (auto simp: author_keys_def)
qed

lemma author_scan_exact:
  assumes "store_inv X U s" and "length pk = 32"
  shows "scan_ids (by_pubkey s) (time_range (pubkey_key pk) lo hi) =
    {i. \<exists>e. (i, e) \<in> abs_events X s \<and> (pubkey_bytes X e = Some pk \<or> delegator_bytes X e = Some pk)
       \<and> lo \<le> created_at e \<and> created_at e \<le> hi}"
proof (rule index_scan_exact [OF _ _ owned_indexes(2) [of X]])
  show ok: "events_ok X s" and "exact (\<lambda>i e. author_keys X e i (author_of X e)) (abs_events X s) (by_pubkey s)"
    using assms(1) by (simp_all add: store_inv_def indexes_exact_def)
  fix i e
  assume e: "(i, e) \<in> abs_events X s" and len: "length i = 32"
  then have a: "pubkey_bytes X e = Some (author_of X e)" using abs_ok(2) [OF ok e] by (auto simp: author_of_def)
  show "(\<exists>k \<in> set (author_keys X e i (author_of X e)).
      fst (time_range (pubkey_key pk) lo hi) \<le> k \<and> k < snd (time_range (pubkey_key pk) lo hi)) \<longleftrightarrow>
    (pubkey_bytes X e = Some pk \<or> delegator_bytes X e = Some pk) \<and> lo \<le> created_at e \<and> created_at e \<le> hi"
    unfolding author_keys_in_range [OF len assms(2) a] using a by auto
qed

end
