(* ===== verification/SubIndex.thy ===== *)
theory SubIndex
  imports ReqFilter
begin

text \<open>
  The live-delivery subscription index (\<open>src/src/relay/index.rs\<close>): posting lists from filter
  components to connection ids, kept beside the components each connection registered. The three
  posting tables share one interface, the locale \<open>posting\<close>; the invariant says that the tables
  are determined by the registrations, and the main result is that a connection with a matching
  filter is always among the candidates.
\<close>

section \<open>Posting lists\<close>

text \<open>
  The interface the index uses for each of its tables: the connections under a key, adding one
  connection to a key and removing one.
\<close>

locale posting =
  fixes look :: "'m \<Rightarrow> 'k \<Rightarrow> u64 set"
    and ins :: "u64 \<Rightarrow> 'm \<Rightarrow> 'k \<Rightarrow> 'm"
    and del :: "u64 \<Rightarrow> 'm \<Rightarrow> 'k \<Rightarrow> 'm"
  assumes look_ins: "look (ins c m k) k' = (if k' = k then insert c (look m k') else look m k')"
    and look_del: "look (del c m k) k' = (if k' = k then look m k' - {c} else look m k')"
begin

lemma look_inserts: "look (foldl (ins c) m ks) k = (if k \<in> set ks then insert c (look m k) else look m k)"
  by (induction ks arbitrary: m) (auto simp: look_ins)

lemma look_deletes: "look (foldl (del c) m ks) k = (if k \<in> set ks then look m k - {c} else look m k)"
  by (induction ks arbitrary: m) (auto simp: look_del)

end

text \<open>\<open>entry(k).or_default().insert(conn)\<close>, and the removal that prunes an emptied set.\<close>

definition entry_look :: "('k \<rightharpoonup> u64 set) \<Rightarrow> 'k \<Rightarrow> u64 set" where
  "entry_look m k = (case m k of None \<Rightarrow> {} | Some s \<Rightarrow> s)"

definition entry_insert :: "u64 \<Rightarrow> ('k \<rightharpoonup> u64 set) \<Rightarrow> 'k \<Rightarrow> ('k \<rightharpoonup> u64 set)" where
  "entry_insert conn m k = m(k \<mapsto> insert conn (case m k of None \<Rightarrow> {} | Some s \<Rightarrow> s))"

definition entry_remove :: "u64 \<Rightarrow> ('k \<rightharpoonup> u64 set) \<Rightarrow> 'k \<Rightarrow> ('k \<rightharpoonup> u64 set)" where
  "entry_remove conn m k =
     (case m k of
        None \<Rightarrow> m
      | Some s \<Rightarrow> (let s' = s - {conn} in if s' = {} then m(k := None) else m(k \<mapsto> s')))"

interpretation flat: posting entry_look entry_insert entry_remove
  by unfold_locales
    (auto simp: entry_look_def entry_insert_def entry_remove_def Let_def split: option.splits)

text \<open>The tag table: a map per tag name, which is dropped when its last value is.\<close>

type_synonym tag_table = "string \<rightharpoonup> (string \<rightharpoonup> u64 set)"

definition tag_look :: "tag_table \<Rightarrow> string \<times> string \<Rightarrow> u64 set" where
  "tag_look m k = (case m (fst k) of None \<Rightarrow> {} | Some vs \<Rightarrow> entry_look vs (snd k))"

definition tag_insert :: "u64 \<Rightarrow> tag_table \<Rightarrow> string \<times> string \<Rightarrow> tag_table" where
  "tag_insert conn m k =
     m(fst k \<mapsto> entry_insert conn (case m (fst k) of None \<Rightarrow> Map.empty | Some vs \<Rightarrow> vs) (snd k))"

definition tag_remove :: "u64 \<Rightarrow> tag_table \<Rightarrow> string \<times> string \<Rightarrow> tag_table" where
  "tag_remove conn m k =
     (case m (fst k) of
        None \<Rightarrow> m
      | Some vs \<Rightarrow> (let vs' = entry_remove conn vs (snd k) in
          if vs' = Map.empty then m(fst k := None) else m(fst k \<mapsto> vs')))"

lemma tag_look_upd:
  "tag_look (m(n \<mapsto> vs)) (n', v) = (if n' = n then entry_look vs v else tag_look m (n', v))"
  "tag_look (m(n := None)) (n', v) = (if n' = n then {} else tag_look m (n', v))"
  by (auto simp: tag_look_def)

interpretation nested: posting tag_look tag_insert tag_remove
proof unfold_locales
  fix c :: u64 and m :: tag_table and k k' :: "string \<times> string"
  obtain n v n' v' where k: "k = (n, v)" "k' = (n', v')" by (cases k, cases k')
  let ?vs = "case m n of None \<Rightarrow> Map.empty | Some vs \<Rightarrow> vs"
  have base: "entry_look ?vs v' = tag_look m (n, v')"
    by (auto simp: tag_look_def entry_look_def split: option.splits)
  show "tag_look (tag_insert c m k) k' = (if k' = k then insert c (tag_look m k') else tag_look m k')"
    using base unfolding k tag_insert_def by (auto simp: tag_look_upd flat.look_ins)
  have dead: "entry_look Map.empty v' = {}" by (simp add: entry_look_def)
  show "tag_look (tag_remove c m k) k' = (if k' = k then tag_look m k' - {c} else tag_look m k')"
  proof (cases "m n")
    case None
    then show ?thesis unfolding k tag_remove_def by (auto simp: tag_look_def)
  next
    case (Some vs)
    have r: "entry_look (entry_remove c vs v) v' = (if v' = v then entry_look vs v' - {c} else entry_look vs v')"
      by (rule flat.look_del)
    have m: "tag_look m (n, v') = entry_look vs v'" using Some by (simp add: tag_look_def)
    show ?thesis
    proof (cases "entry_remove c vs v = Map.empty")
      case True
      then have "(if v' = v then entry_look vs v' - {c} else entry_look vs v') = {}"
        using r dead by simp
      then show ?thesis using Some True m unfolding k tag_remove_def by (auto simp: tag_look_upd)
    next
      case False
      then show ?thesis using Some r m unfolding k tag_remove_def by (auto simp: tag_look_upd Let_def)
    qed
  qed
qed

section \<open>The index\<close>

datatype filter_components =
    All
  | Indexed "u64 list" "bytes list" "(string \<times> string) list"

record subscription_index =
  kinds_ix :: "u64 \<rightharpoonup> u64 set"
  authors_ix :: "bytes \<rightharpoonup> u64 set"
  tags_ix :: tag_table
  all_ix :: "u64 set"
  registered :: "u64 \<rightharpoonup> filter_components list"

definition empty_index :: subscription_index where
  "empty_index = \<lparr>kinds_ix = Map.empty, authors_ix = Map.empty, tags_ix = Map.empty,
     all_ix = {}, registered = Map.empty\<rparr>"

definition component_tags :: "json_map \<Rightarrow> (string \<times> string) list" where
  "component_tags ts = concat (map
     (\<lambda>(name, v).
        (let tag_name = (case strip_prefix ''#'' name of Some t \<Rightarrow> t
              | None \<Rightarrow> (case strip_prefix ''&'' name of Some t \<Rightarrow> t | None \<Rightarrow> name))
         in map (\<lambda>x. (tag_name, x)) (tag_values v)))
     (filter (\<lambda>(name, _). is_tag_constraint name) ts))"

definition components_of :: "ext \<Rightarrow> filter_req \<Rightarrow> filter_components" where
  "components_of X f =
     (if kinds f = None \<and> authors f = None \<and> ftags f = [] \<and> ids f = None \<and> since f = None
         \<and> until f = None \<and> \<not> has_search f then All
      else
        let ks = (case kinds f of None \<Rightarrow> [] | Some v \<Rightarrow> v);
            as = (case authors f of None \<Rightarrow> []
                  | Some v \<Rightarrow> filter (\<lambda>b. length b = 32) (List.map_filter (hex_decode X) v));
            ts = component_tags (ftags f)
        in if ks = [] \<and> as = [] \<and> ts = [] then All else Indexed ks as ts)"

fun insert_component :: "u64 \<Rightarrow> subscription_index \<Rightarrow> filter_components \<Rightarrow> subscription_index" where
  "insert_component conn I All = I\<lparr>all_ix := insert conn (all_ix I)\<rparr>"
| "insert_component conn I (Indexed ks as ts) =
     I\<lparr>kinds_ix := foldl (entry_insert conn) (kinds_ix I) ks,
       authors_ix := foldl (entry_insert conn) (authors_ix I) as,
       tags_ix := foldl (tag_insert conn) (tags_ix I) ts\<rparr>"

fun remove_component :: "u64 \<Rightarrow> subscription_index \<Rightarrow> filter_components \<Rightarrow> subscription_index" where
  "remove_component conn I All = I\<lparr>all_ix := all_ix I - {conn}\<rparr>"
| "remove_component conn I (Indexed ks as ts) =
     I\<lparr>kinds_ix := foldl (entry_remove conn) (kinds_ix I) ks,
       authors_ix := foldl (entry_remove conn) (authors_ix I) as,
       tags_ix := foldl (tag_remove conn) (tags_ix I) ts\<rparr>"

definition remove_components :: "subscription_index \<Rightarrow> u64 \<Rightarrow> filter_components list \<Rightarrow> subscription_index" where
  "remove_components I conn comps = foldl (remove_component conn) I comps"

definition unregister :: "subscription_index \<Rightarrow> u64 \<Rightarrow> subscription_index" where
  "unregister I conn =
     (case registered I conn of
        None \<Rightarrow> I
      | Some comps \<Rightarrow>
          remove_components (I\<lparr>registered := (registered I)(conn := None)\<rparr>) conn comps)"

definition register :: "subscription_index \<Rightarrow> u64 \<Rightarrow> filter_components list \<Rightarrow> subscription_index" where
  "register I conn comps =
     (let I1 = (case registered I conn of
            None \<Rightarrow> I
          | Some previous \<Rightarrow>
              remove_components (I\<lparr>registered := (registered I)(conn := None)\<rparr>) conn previous);
          I2 = foldl (insert_component conn) I1 comps
      in I2\<lparr>registered := (registered I2)(conn \<mapsto> comps)\<rparr>)"

definition extend_candidates :: "ext \<Rightarrow> subscription_index \<Rightarrow> event \<Rightarrow> u64 set \<Rightarrow> u64 set" where
  "extend_candidates X I e out =
     out \<union> all_ix I
     \<union> entry_look (kinds_ix I) (kind e)
     \<union> (case pubkey_bytes X e of None \<Rightarrow> {} | Some pk \<Rightarrow> entry_look (authors_ix I) pk)
     \<union> (case delegator_tag (tags e) of
          None \<Rightarrow> {}
        | Some t \<Rightarrow> (case hex_decode X (t ! 1) of
            None \<Rightarrow> {}
          | Some b \<Rightarrow> if length b = 32 then entry_look (authors_ix I) b else {}))
     \<union> (\<Union>t \<in> set (tags e).
          if length t \<ge> 2 \<and> t ! 0 \<noteq> [] then tag_look (tags_ix I) (t ! 0, t ! 1) else {})"

definition candidates :: "ext \<Rightarrow> subscription_index \<Rightarrow> event \<Rightarrow> u64 set" where
  "candidates X I e = extend_candidates X I e {}"

section \<open>The tables are determined by the registrations\<close>

fun component_kinds :: "filter_components \<Rightarrow> u64 set" where
  "component_kinds All = {}" | "component_kinds (Indexed ks _ _) = set ks"

fun component_authors :: "filter_components \<Rightarrow> bytes set" where
  "component_authors All = {}" | "component_authors (Indexed _ as _) = set as"

fun component_pairs :: "filter_components \<Rightarrow> (string \<times> string) set" where
  "component_pairs All = {}" | "component_pairs (Indexed _ _ ts) = set ts"

text \<open>The connections whose registration has a component with property \<open>P\<close>.\<close>

definition holders :: "(u64 \<rightharpoonup> filter_components list) \<Rightarrow> (filter_components \<Rightarrow> bool) \<Rightarrow> u64 set" where
  "holders R P = {c. \<exists>comps. R c = Some comps \<and> (\<exists>x \<in> set comps. P x)}"

definition index_inv :: "subscription_index \<Rightarrow> bool" where
  "index_inv I \<longleftrightarrow>
     (\<forall>k. entry_look (kinds_ix I) k = holders (registered I) (\<lambda>x. k \<in> component_kinds x))
   \<and> (\<forall>a. entry_look (authors_ix I) a = holders (registered I) (\<lambda>x. a \<in> component_authors x))
   \<and> (\<forall>t. tag_look (tags_ix I) t = holders (registered I) (\<lambda>x. t \<in> component_pairs x))
   \<and> all_ix I = holders (registered I) (\<lambda>x. x = All)"

lemma remove_component_look:
  "entry_look (kinds_ix (remove_component c I x)) k =
     entry_look (kinds_ix I) k - (if k \<in> component_kinds x then {c} else {})"
  "entry_look (authors_ix (remove_component c I x)) a =
     entry_look (authors_ix I) a - (if a \<in> component_authors x then {c} else {})"
  "tag_look (tags_ix (remove_component c I x)) t =
     tag_look (tags_ix I) t - (if t \<in> component_pairs x then {c} else {})"
  "all_ix (remove_component c I x) = all_ix I - (if x = All then {c} else {})"
  "registered (remove_component c I x) = registered I"
  by (cases x; simp add: flat.look_deletes nested.look_deletes)+

lemma insert_component_look:
  "entry_look (kinds_ix (insert_component c I x)) k =
     entry_look (kinds_ix I) k \<union> (if k \<in> component_kinds x then {c} else {})"
  "entry_look (authors_ix (insert_component c I x)) a =
     entry_look (authors_ix I) a \<union> (if a \<in> component_authors x then {c} else {})"
  "tag_look (tags_ix (insert_component c I x)) t =
     tag_look (tags_ix I) t \<union> (if t \<in> component_pairs x then {c} else {})"
  "all_ix (insert_component c I x) = all_ix I \<union> (if x = All then {c} else {})"
  "registered (insert_component c I x) = registered I"
  by (cases x; simp add: flat.look_inserts nested.look_inserts)+

lemma remove_components_look:
  "entry_look (kinds_ix (foldl (remove_component c) I xs)) k =
     entry_look (kinds_ix I) k - (if \<exists>x \<in> set xs. k \<in> component_kinds x then {c} else {})"
  "entry_look (authors_ix (foldl (remove_component c) I xs)) a =
     entry_look (authors_ix I) a - (if \<exists>x \<in> set xs. a \<in> component_authors x then {c} else {})"
  "tag_look (tags_ix (foldl (remove_component c) I xs)) t =
     tag_look (tags_ix I) t - (if \<exists>x \<in> set xs. t \<in> component_pairs x then {c} else {})"
  "all_ix (foldl (remove_component c) I xs) = all_ix I - (if All \<in> set xs then {c} else {})"
  "registered (foldl (remove_component c) I xs) = registered I"
  by (induction xs arbitrary: I) (auto simp: remove_component_look)

lemma insert_components_look:
  "entry_look (kinds_ix (foldl (insert_component c) I xs)) k =
     entry_look (kinds_ix I) k \<union> (if \<exists>x \<in> set xs. k \<in> component_kinds x then {c} else {})"
  "entry_look (authors_ix (foldl (insert_component c) I xs)) a =
     entry_look (authors_ix I) a \<union> (if \<exists>x \<in> set xs. a \<in> component_authors x then {c} else {})"
  "tag_look (tags_ix (foldl (insert_component c) I xs)) t =
     tag_look (tags_ix I) t \<union> (if \<exists>x \<in> set xs. t \<in> component_pairs x then {c} else {})"
  "all_ix (foldl (insert_component c) I xs) = all_ix I \<union> (if All \<in> set xs then {c} else {})"
  "registered (foldl (insert_component c) I xs) = registered I"
  by (induction xs arbitrary: I) (auto simp: insert_component_look)

lemma holders_remove:
  "R c = Some comps \<Longrightarrow> holders (R(c := None)) P = holders R P - (if \<exists>x \<in> set comps. P x then {c} else {})"
  "R c = None \<Longrightarrow> c \<notin> holders R P"
  by (auto simp: holders_def)

lemma holders_add: "R c = None \<Longrightarrow>
  holders (R(c \<mapsto> comps)) P = holders R P \<union> (if \<exists>x \<in> set comps. P x then {c} else {})"
  by (auto simp: holders_def)

lemma unregister_registered: "registered (unregister I c) = (registered I)(c := None)"
  by (auto simp: unregister_def remove_components_def remove_components_look split: option.splits)

lemma index_inv_empty: "index_inv empty_index"
  by (simp add: index_inv_def empty_index_def holders_def entry_look_def tag_look_def)

lemma index_inv_unregister:
  assumes "index_inv I"
  shows "index_inv (unregister I c)"
proof (cases "registered I c")
  case None
  then show ?thesis using assms by (simp add: unregister_def)
next
  case (Some comps)
  have ex: "(\<exists>x \<in> set comps. x = All) = (All \<in> set comps)" by auto
  show ?thesis
    using assms Some holders_remove(1) [where R = "registered I" and c = c, OF Some]
    by (simp add: index_inv_def unregister_def remove_components_def remove_components_look ex)
qed

text \<open>Registering is: unregister what was there, then add the new components.\<close>

lemma register_eq:
  "register I c comps =
     (let I2 = foldl (insert_component c) (unregister I c) comps
      in I2\<lparr>registered := (registered I2)(c \<mapsto> comps)\<rparr>)"
  by (simp add: register_def unregister_def)

lemma register_registered: "registered (register I c comps) = (registered I)(c \<mapsto> comps)"
  by (simp add: register_eq Let_def insert_components_look unregister_registered)

lemma index_inv_register:
  assumes "index_inv I"
  shows "index_inv (register I c comps)"
proof -
  let ?J = "unregister I c"
  have inv: "index_inv ?J" using assms by (rule index_inv_unregister)
  have none: "registered ?J c = None" by (simp add: unregister_registered)
  have ex: "(\<exists>x \<in> set comps. x = All) = (All \<in> set comps)" by auto
  show ?thesis
    using inv holders_add [where R = "registered ?J" and c = c and comps = comps, OF none]
    by (simp add: index_inv_def register_eq Let_def insert_components_look ex)
qed

section \<open>A matching filter wakes its connection\<close>

text \<open>
  The shape intake guarantees of an event's author fields: the pubkey is 32 bytes of hex, and so
  is the delegator of the delegation tag the read paths honour.
\<close>

definition author_fields_ok :: "ext \<Rightarrow> event \<Rightarrow> bool" where
  "author_fields_ok X e \<longleftrightarrow> pubkey_bytes X e \<noteq> None \<and>
     (case delegator_tag (tags e) of None \<Rightarrow> True | Some t \<Rightarrow> decode_array X 32 (t ! 1) \<noteq> None)"

lemma component_tags_iff:
  "(n, v) \<in> set (component_tags ts) \<longleftrightarrow>
     (\<exists>name raw. (name, raw) \<in> set ts \<and> (name = ''#'' @ n \<or> name = ''&'' @ n) \<and> v \<in> set (tag_values raw))"
proof -
  have nm: "(case strip_prefix ''#'' name of Some t \<Rightarrow> t
        | None \<Rightarrow> (case strip_prefix ''&'' name of Some t \<Rightarrow> t | None \<Rightarrow> name)) = n
      \<longleftrightarrow> name = ''#'' @ n \<or> name = ''&'' @ n" if "is_tag_constraint name" for name
    using that by (cases name) (auto simp: is_tag_constraint_def strip_prefix_def)
  have tc: "is_tag_constraint (''#'' @ n)" "is_tag_constraint (''&'' @ n)"
    by (simp_all add: is_tag_constraint_def)
  show ?thesis
    unfolding component_tags_def using nm tc by (fastforce simp: Let_def)
qed

lemma attribute_value_present:
  assumes all: "tag_constraints_hold attrs ts" and mem: "(name, raw) \<in> set attrs"
    and name: "name = ''#'' @ n \<or> name = ''&'' @ n"
  shows "n \<noteq> [] \<and> (\<exists>v \<in> set (tag_values raw). tag_present ts n v)"
proof -
  have cn: "constraint_name name = Some n"
    using name by (auto simp: constraint_name_def strip_prefix_def)
  have holds: "attribute_holds attrs ts (name, raw)"
    using all mem by (auto simp: tag_constraints_hold_def)
  then have ne: "n \<noteq> []" "tag_values raw \<noteq> []" using cn by (auto simp: attribute_holds_def)
  then obtain v where v: "v \<in> set (tag_values raw)" by (cases "tag_values raw") auto
  show ?thesis
  proof (cases "starts_with ''#'' name \<and> set (tag_values raw) - and_values attrs n = {}")
    case True
    then have "v \<in> and_values attrs n" using v by auto
    then obtain andv where a: "map_of attrs (''&'' @ n) = Some andv" "v \<in> set (tag_values andv)"
      by (auto simp: and_values_def split: option.splits)
    then have "attribute_holds attrs ts (''&'' @ n, andv)"
      using all by (auto simp: tag_constraints_hold_def dest: map_of_SomeD)
    then have "tag_present ts n v"
      using a(2) by (simp add: attribute_holds_def constraint_name_def strip_prefix_def)
    with v ne show ?thesis by auto
  next
    case False
    then show ?thesis using holds cn v by (auto simp: attribute_holds_def Let_def split: if_splits)
  qed
qed

lemma author_hit:
  assumes hex: "hex_codec (hex_encode X) (hex_decode X)"
    and ok: "author_fields_ok X e" and m: "author_matches as e"
  shows "\<exists>b \<in> set (filter (\<lambda>b. length b = 32) (List.map_filter (hex_decode X) as)).
    pubkey_bytes X e = Some b
    \<or> (\<exists>t. delegator_tag (tags e) = Some t \<and> hex_decode X (t ! 1) = Some b)"
proof -
  have conv: "b \<in> set (filter (\<lambda>b. length b = 32) (List.map_filter (hex_decode X) as))"
    if "a \<in> set as" "hex_eq a s" "hex_decode X s = Some b" "length b = 32" for a s b
  proof -
    have "hex_decode X a = Some b"
      using that hex_codec.dec_case [OF hex, of a s] by (simp add: hex_eq_iff)
    then show ?thesis using that by (auto simp: map_filter_def intro!: image_eqI [of _ _ a])
  qed
  from m consider (self) a where "a \<in> set as" "hex_eq a (pubkey e)"
    | (del) t a where "delegator_tag (tags e) = Some t" "a \<in> set as" "hex_eq a (t ! 1)"
    by (auto simp: author_matches_def split: option.splits)
  then show ?thesis
  proof cases
    case self
    obtain b where b: "pubkey_bytes X e = Some b" using ok by (auto simp: author_fields_ok_def)
    then show ?thesis using conv [OF self] by (auto simp: pubkey_bytes_def decode_array_Some)
  next
    case del
    obtain b where b: "decode_array X 32 (t ! 1) = Some b"
      using ok del(1) by (auto simp: author_fields_ok_def)
    then show ?thesis using conv [OF del(2,3)] del(1) by (auto simp: decode_array_Some)
  qed
qed

lemma filter_matchesD:
  assumes "filter_matches U hs f e" and "hash_order hs" and "distinct (map fst (ftags f))"
  shows "kinds f = Some ks \<Longrightarrow> kind e \<in> set ks"
    and "authors f = Some as \<Longrightarrow> author_matches as e"
    and "tag_constraints_hold (ftags f) (tags e)"
  using assms plan_new_matches [OF assms(2,3)]
  by (auto simp: filter_matches_def matches_with_def split: if_splits)

lemma component_hit:
  assumes hex: "hex_codec (hex_encode X) (hex_decode X)" and hs: "hash_order hs"
    and keys: "distinct (map fst (ftags f))"
    and ok: "author_fields_ok X e" and m: "filter_matches U hs f e"
    and idx: "components_of X f = Indexed ks as ts"
  shows "kind e \<in> set ks
    \<or> (\<exists>b \<in> set as. pubkey_bytes X e = Some b
         \<or> (\<exists>t. delegator_tag (tags e) = Some t \<and> hex_decode X (t ! 1) = Some b))
    \<or> (\<exists>(n, v) \<in> set ts. n \<noteq> [] \<and> tag_present (tags e) n v)"
proof -
  note D = filter_matchesD [OF m hs keys]
  have parts: "ks = (case kinds f of None \<Rightarrow> [] | Some v \<Rightarrow> v)"
    "as = (case authors f of None \<Rightarrow> []
        | Some v \<Rightarrow> filter (\<lambda>b. length b = 32) (List.map_filter (hex_decode X) v))"
    "ts = component_tags (ftags f)" "ks \<noteq> [] \<or> as \<noteq> [] \<or> ts \<noteq> []"
    using idx by (auto simp: components_of_def Let_def split: if_splits)
  from parts(4) consider (k) "ks \<noteq> []" | (a) "as \<noteq> []" | (t) "ts \<noteq> []" by blast
  then show ?thesis
  proof cases
    case k
    then show ?thesis using parts(1) D(1) by (auto split: option.splits)
  next
    case a
    then obtain aus where aus: "authors f = Some aus" using parts(2) by (auto split: option.splits)
    show ?thesis using author_hit [OF hex ok D(2) [OF aus]] parts(2) aus by simp
  next
    case t
    then obtain n v where nv: "(n, v) \<in> set (component_tags (ftags f))"
      using parts(3) by (metis list.set_sel(1) surj_pair)
    then obtain name raw where at: "(name, raw) \<in> set (ftags f)"
        "name = ''#'' @ n \<or> name = ''&'' @ n"
      unfolding component_tags_iff by blast
    from attribute_value_present [OF D(3) at] obtain w
      where "n \<noteq> []" "w \<in> set (tag_values raw)" "tag_present (tags e) n w" by auto
    moreover have "(n, w) \<in> set (component_tags (ftags f))"
      using at calculation(2) unfolding component_tags_iff by blast
    ultimately show ?thesis using parts(3) by auto
  qed
qed

lemma candidates_complete:
  assumes hex: "hex_codec (hex_encode X) (hex_decode X)" and hs: "hash_order hs"
    and keys: "distinct (map fst (ftags f))"
    and ok: "author_fields_ok X e" and m: "filter_matches U hs f e"
    and inv: "index_inv I"
    and reg: "registered I conn = Some comps" "components_of X f \<in> set comps"
  shows "conn \<in> candidates X I e"
proof (cases "components_of X f")
  case All
  then have "conn \<in> all_ix I"
    using inv reg by (auto simp: index_inv_def holders_def)
  then show ?thesis by (simp add: candidates_def extend_candidates_def)
next
  case (Indexed ks as ts)
  have held: "P (Indexed ks as ts) \<Longrightarrow> conn \<in> holders (registered I) P" for P
    using reg Indexed by (auto simp: holders_def)
  have K: "k \<in> set ks \<Longrightarrow> conn \<in> entry_look (kinds_ix I) k" for k
    using inv held by (auto simp: index_inv_def)
  have A: "b \<in> set as \<Longrightarrow> conn \<in> entry_look (authors_ix I) b" for b
    using inv held by (auto simp: index_inv_def)
  have T: "t \<in> set ts \<Longrightarrow> conn \<in> tag_look (tags_ix I) t" for t
    using inv held by (cases t) (auto simp: index_inv_def)
  from component_hit [OF hex hs keys ok m Indexed] consider
      (k) "kind e \<in> set ks"
    | (p) b where "b \<in> set as" "pubkey_bytes X e = Some b"
    | (d) b t where "b \<in> set as" "delegator_tag (tags e) = Some t" "hex_decode X (t ! 1) = Some b"
    | (t) n v where "(n, v) \<in> set ts" "n \<noteq> []" "tag_present (tags e) n v"
    by blast
  then show ?thesis
  proof cases
    case k
    then show ?thesis using K by (simp add: candidates_def extend_candidates_def)
  next
    case p
    then show ?thesis using A by (simp add: candidates_def extend_candidates_def)
  next
    case d
    then have "length b = 32" using ok by (auto simp: author_fields_ok_def decode_array_def split: if_splits)
    then show ?thesis using A d by (simp add: candidates_def extend_candidates_def)
  next
    case t
    then show ?thesis using T [OF t(1)]
      by (auto simp: candidates_def extend_candidates_def tag_present_def)
  qed
qed

end
