(* ===== verification/ScanPlan.thy ===== *)
theory ScanPlan
  imports ScanWalk IndexScan SubIndex
begin

text \<open>
  The scan planner is complete: whichever index \<open>scan_filter\<close> chooses for a filter, every stored event
  the filter matches has an entry in the ranges that are walked.
\<close>

section \<open>What a scan should return\<close>

text \<open>An event that is stored but withheld: deleted by a marker, banned, or expired.\<close>

definition deliverable :: "ext \<Rightarrow> store \<Rightarrow> u64 \<Rightarrow> bytes \<Rightarrow> event \<Rightarrow> bool" where
  "deliverable X s now i e \<longleftrightarrow>
     (kind e = DELETION_KIND \<or> (\<forall>m. tget (deleted s) i = Some m \<longrightarrow> \<not> deletion_marker_blocks X m e))
   \<and> tget (banned s) i = None
   \<and> (expiry_enabled s \<longrightarrow> (\<forall>x. expiry e = Some x \<longrightarrow> now < x))"

definition wanted :: "scan_env \<Rightarrow> store \<Rightarrow> u64 \<Rightarrow> filter_req \<Rightarrow> (bytes \<times> event) set" where
  "wanted V s now f =
     {(i, e) \<in> abs_events (sx V) s. deliverable (sx V) s now i e \<and> filter_matches (su V) (shs V) f e}"

definition scan_ready :: "scan_env \<Rightarrow> store \<Rightarrow> filter_req \<Rightarrow> bool" where
  "scan_ready V s f \<longleftrightarrow>
     store_inv (sx V) (su V) s \<and> hex_codec (hex_encode (sx V)) (hex_decode (sx V)) \<and> hash_order (shs V)
   \<and> distinct (map fst (ftags f)) \<and> (event_meta s = None \<or> meta_index s)
   \<and> (\<forall>(i, e) \<in> abs_events (sx V) s. author_fields_ok (sx V) e)"

definition filter_terms :: "scan_env \<Rightarrow> filter_req \<Rightarrow> string list" where
  "filter_terms V f = (if has_search f then take SEARCH_MAX_TERMS (terms (su V) (search_of f)) else [])"

lemma scan_readyD:
  assumes "scan_ready V s f"
  shows "store_inv (sx V) (su V) s" and "events_ok (sx V) s" and "hex_codec (hex_encode (sx V)) (hex_decode (sx V))"
    and "hash_order (shs V)" and "distinct (map fst (ftags f))"
    and "(i, e) \<in> abs_events (sx V) s \<Longrightarrow> author_fields_ok (sx V) e"
    and "(i, e) \<in> abs_events (sx V) s \<Longrightarrow> length i = 32"
proof -
  show "(i, e) \<in> abs_events (sx V) s \<Longrightarrow> length i = 32"
    using assms abs_ok(1) id_bytes_length by (fastforce simp: scan_ready_def store_inv_def)
qed (use assms in \<open>auto simp: scan_ready_def store_inv_def\<close>)

lemma filter_matches_terms:
  assumes "filter_matches U hs f e" and "has_search f"
  shows "matches_terms U (content e) (take SEARCH_MAX_TERMS (terms U (search_of f)))"
proof -
  obtain q where "search f = Some q" "trim q \<noteq> []" using assms(2) by (auto simp: has_search_def split: option.splits)
  then show ?thesis using assms(1)
    by (auto simp: filter_matches_def matches_with_def search_matches_def search_of_def split: if_splits)
qed

lemma is_deliverable_iff:
  assumes "length i = 32"
  shows "is_deliverable V s e i f (filter_terms V f) now \<longleftrightarrow>
    deliverable (sx V) s now i e \<and> filter_matches (su V) (shs V) f e"
  using filter_matches_terms [of "su V" "shs V" f e] assms
  by (auto simp: is_deliverable_def deliverable_def filter_terms_def expiry_def not_le split: option.splits)

lemma filter_matches_window:
  assumes "filter_matches U hs f e"
  shows "(case since f of None \<Rightarrow> 0 | Some t \<Rightarrow> t) \<le> created_at e"
    and "created_at e \<le> (case until f of None \<Rightarrow> u64_max | Some t \<Rightarrow> t)"
  using assms u64_max_max [of "created_at e"]
  by (auto simp: filter_matches_def matches_with_def not_less split: if_splits option.splits)

section \<open>The metadata header never hides a match\<close>

lemma meta_header:
  assumes "scan_ready V s f" and "(i, e) \<in> abs_events (sx V) s"
    and "Option.bind (event_meta s) (\<lambda>t. Option.bind (tget t i) decode_meta) = Some (k, c, p, x)"
  shows "k = kind e" and "c = created_at e" and "x = (case expiry e of None \<Rightarrow> 0 | Some y \<Rightarrow> y)"
proof -
  obtain t v where t: "event_meta s = Some t" "tget t i = Some v" "decode_meta v = Some (k, c, p, x)"
    using assms(3) by (auto simp: bind_eq_Some_conv)
  have "meta_exact (sx V) (abs_events (sx V) s) t"
    using assms(1) t(1) by (auto simp: scan_ready_def store_inv_def indexes_exact_def)
  then obtain e' where e': "(i, e') \<in> abs_events (sx V) s" "v = meta_of (sx V) i e'"
    using t(2) by (auto simp: meta_exact_def)
  have "e' = e" using e'(1) assms(2) by (simp add: abs_events_def)
  moreover have "length (author_of (sx V) e) = 32"
    using abs_ok(2) [OF scan_readyD(2) [OF assms(1)] assms(2)] by (auto simp: pubkey_bytes_def decode_array_Some)
  ultimately show "k = kind e" "c = created_at e" "x = (case expiry e of None \<Rightarrow> 0 | Some y \<Rightarrow> y)"
    using t(3) e'(2) by (simp_all add: meta_of_def decode_encode_meta)
qed

lemma header_accepts:
  assumes ready: "scan_ready V s f" and w: "(i, e) \<in> wanted V s now f"
  shows "\<not> header_rejects s i f now"
proof (cases "Option.bind (event_meta s) (\<lambda>t. Option.bind (tget t i) decode_meta)")
  case (Some m)
  obtain k c p x where m: "m = (k, c, p, x)" by (cases m)
  have abs: "(i, e) \<in> abs_events (sx V) s" and del: "deliverable (sx V) s now i e"
    and fm: "filter_matches (su V) (shs V) f e" using w by (auto simp: wanted_def)
  note h = meta_header [OF ready abs Some [unfolded m]]
  have "\<not> (expiry_enabled s \<and> x \<noteq> 0 \<and> x \<le> now)"
    using del h(3) by (auto simp: deliverable_def split: option.splits)
  moreover have "\<not> (case kinds f of None \<Rightarrow> False | Some ks \<Rightarrow> k \<notin> set ks)"
    "\<not> (case since f of None \<Rightarrow> False | Some t \<Rightarrow> c < t)" "\<not> (case until f of None \<Rightarrow> False | Some t \<Rightarrow> c > t)"
    using fm h(1,2) by (auto simp: filter_matches_def matches_with_def split: if_splits option.splits)
  ultimately show ?thesis using Some m by (simp add: header_rejects_def)
qed (simp add: header_rejects_def)

section \<open>Ranges\<close>

text \<open>The ids a walk over the ranges of a table visits.\<close>

definition range_ids :: "table \<Rightarrow> (bytes \<times> bytes) list \<Rightarrow> bool \<Rightarrow> bytes set" where
  "range_ids t rs asc = {i. \<exists>r \<in> set rs. \<exists>k \<in> set (range_keys t r asc). i = key_id k}"

lemma scan_ids_visited:
  assumes "i \<in> scan_ids t r" and "r \<in> set rs"
  shows "i \<in> range_ids t rs asc"
proof -
  obtain p where p: "length i = 32" "tget t (p @ i) \<noteq> None" "fst r \<le> p @ i" "p @ i < snd r"
    using assms(1) by (auto simp: scan_ids_def)
  then have "p @ i \<in> set (range_keys t r asc)" by (simp add: set_range_keys)
  moreover have "i = key_id (p @ i)" using p(1) by (simp add: key_id_append)
  ultimately show ?thesis using assms(2) unfolding range_ids_def by blast
qed

lemma created_covers:
  assumes "scan_ready V s f" and "(i, e) \<in> abs_events (sx V) s" and "lo \<le> created_at e" and "created_at e \<le> hi"
  shows "i \<in> range_ids (by_created s) [time_range created_key lo hi] asc"
  by (rule scan_ids_visited [of _ _ "time_range created_key lo hi"])
    (use created_scan_exact [OF scan_readyD(1) [OF assms(1)], of lo hi] assms in auto)

lemma kinds_cover:
  assumes "scan_ready V s f" and "(i, e) \<in> abs_events (sx V) s" and "lo \<le> created_at e" and "created_at e \<le> hi"
    and "kind e \<in> set ks"
  shows "i \<in> range_ids (by_kind s) (map (\<lambda>k. time_range (kind_key k) lo hi) ks) asc"
  by (rule scan_ids_visited [of _ _ "time_range (kind_key (kind e)) lo hi"])
    (use kind_scan_exact [OF scan_readyD(1) [OF assms(1)], of "kind e" lo hi] assms in auto)

lemma authors_cover:
  assumes ready: "scan_ready V s f" and e: "(i, e) \<in> abs_events (sx V) s" and win: "lo \<le> created_at e" "created_at e \<le> hi"
    and m: "author_matches as e"
  shows "i \<in> range_ids (by_pubkey s) (author_ranges V as lo hi) asc"
proof -
  obtain b where b: "b \<in> set (filter (\<lambda>b. length b = 32) (List.map_filter (hex_decode (sx V)) as))"
    and hit: "pubkey_bytes (sx V) e = Some b \<or> (\<exists>t. delegator_tag (tags e) = Some t \<and> hex_decode (sx V) (t ! 1) = Some b)"
    using author_hit [OF scan_readyD(3) [OF ready] scan_readyD(6) [OF ready e] m] by blast
  have len: "length b = 32" and dec: "b \<in> set (List.map_filter (decode_array (sx V) ID_LEN) as)"
    using b by (auto simp: in_map_filter decode_array_Some ID_LEN_def)
  have "pubkey_bytes (sx V) e = Some b \<or> delegator_bytes (sx V) e = Some b"
    using hit len by (auto simp: delegator_bytes_def delegation_def delegator_tag_def decode_array_Some ID_LEN_def)
  then have "i \<in> scan_ids (by_pubkey s) (time_range (pubkey_key b) lo hi)"
    using author_scan_exact [OF scan_readyD(1) [OF ready] len, of lo hi] e win by auto
  then show ?thesis by (rule scan_ids_visited) (use dec in \<open>auto simp: author_ranges_def\<close>)
qed

lemma foldl_pick_in: "foldl (\<lambda>b x. if P x b then x else b) c cs \<in> set (c # cs)"
proof (induction cs arbitrary: c)
  case (Cons a cs)
  then show ?case using Cons [of "if P a c then a else c"] by (auto split: if_splits)
qed simp

lemma scan_constraint_in: "scan_constraint p = Some c \<Longrightarrow> c \<in> set (constraints p)"
  using foldl_pick_in [of "\<lambda>x b. scan_key x < scan_key b"] by (fastforce simp: scan_constraint_def split: list.splits)

lemma constraint_holds:
  assumes ready: "scan_ready V s f" and fm: "filter_matches (su V) (shs V) f e"
  shows "\<not> is_impossible (plan_new (shs V) (ftags f))"
    and "scan_constraint (plan_new (shs V) (ftags f)) = Some (name, vs) \<Longrightarrow>
      \<exists>t \<in> set (tags e). 2 \<le> length t \<and> t ! 0 = name \<and> t ! 1 \<in> set vs"
proof -
  let ?p = "plan_new (shs V) (ftags f)"
  have "plan_matches ?p (tags e)" using fm by (auto simp: filter_matches_def matches_with_def split: if_splits)
  then have m: "matches_linear ?p (tags e)"
    using plan_matches_linear [OF plan_new_wf [OF scan_readyD(4,5) [OF ready]]] by simp
  then show "\<not> is_impossible ?p" by (simp add: is_impossible_def matches_linear_def)
  assume "scan_constraint ?p = Some (name, vs)"
  then have "(name, vs) \<in> set (constraints ?p)" by (rule scan_constraint_in)
  then show "\<exists>t \<in> set (tags e). 2 \<le> length t \<and> t ! 0 = name \<and> t ! 1 \<in> set vs"
    using m by (auto simp: matches_linear_def)
qed

lemma tags_cover:
  assumes ready: "scan_ready V s f" and e: "(i, e) \<in> abs_events (sx V) s" and win: "lo \<le> created_at e" "created_at e \<le> hi"
    and t: "t \<in> set (tags e)" "2 \<le> length t" "t ! 0 = name" "t ! 1 \<in> set vs"
    and full: "length name = 1" "tag_fully_indexed name vs"
  shows "i \<in> range_ids (by_tag s) (tag_ranges name vs lo hi) asc"
proof -
  have c: "name = [name ! 0]" "is_ascii_alphanumeric (name ! 0)" "length (t ! 1) \<le> TAG_INDEX_VALUE_MAX"
    using full t(4) by (cases name; auto simp: tag_fully_indexed_def list_all_iff)+
  have "i \<in> scan_ids (by_tag s) (tag_range (of_nat (code (name ! 0))) (as_bytes (t ! 1)) lo hi)"
    using tag_scan_exact [OF scan_readyD(1) [OF ready] c(2,3), of lo hi] e win t c(1) by auto
  then show ?thesis by (rule scan_ids_visited) (use t(4) c(3) in \<open>auto simp: tag_ranges_def\<close>)
qed

section \<open>The word index\<close>

lemma word_in_range:
  assumes "length i = 32" and "lo \<le> c" and "c \<le> hi"
  shows "fst (time_range (word_key w) lo hi) \<le> word_key w c i \<and> word_key w c i < snd (time_range (word_key w) lo hi)"
  using prefix_scan [OF assms(1), of "as_bytes w @ [0]" "as_bytes w @ [0]" lo c hi] assms(2,3)
  by (simp add: time_range_def word_key_def ID_LEN_def)

lemma word_keys_cover:
  assumes "w \<in> set (tokenize U (content e))" and "length i = 32"
  shows "(length w \<le> WORD_INDEX_MAX \<and> word_key w (created_at e) i \<in> set (word_keys U e i n))
    \<or> word_key WORD_OVERFLOW (created_at e) i \<in> set (word_keys U e i n)"
proof -
  let ?ws = "tokenize U (content e)" and ?k = "\<lambda>w. word_key w (created_at e) i"
  have marker: "length (?k WORD_OVERFLOW) \<le> MAX_INDEX_KEY"
    using assms(2) by (simp add: word_key_def WORD_OVERFLOW_def len_defs)
  have len: "length (?k w) \<le> MAX_INDEX_KEY \<longleftrightarrow> length w \<le> WORD_INDEX_MAX"
    using assms(2) by (auto simp: word_key_def len_defs)
  show ?thesis
  proof (cases "w \<in> set (take n ?ws) \<and> length w \<le> WORD_INDEX_MAX")
    case True
    then show ?thesis using len by (auto simp: word_keys_def Let_def)
  next
    case False
    have "n < length ?ws \<or> (\<exists>k \<in> set (map ?k (take n ?ws)). MAX_INDEX_KEY < length k)"
    proof (cases "w \<in> set (take n ?ws)")
      case True
      then show ?thesis using False len by (auto simp: not_le)
    next
      case False
      then show ?thesis using assms(1) by (cases "length ?ws \<le> n") auto
    qed
    then show ?thesis using marker by (auto simp: word_keys_def Let_def)
  qed
qed

lemma words_cover:
  assumes ready: "scan_ready V s f" and e: "(i, e) \<in> abs_events (sx V) s" and win: "lo \<le> created_at e" "created_at e \<le> hi"
    and m: "matches_terms (su V) (content e) ts" "ts \<noteq> []" and nc: "\<not> common_dropped all_terms dfs ts"
    and t: "by_word s = Some t"
  shows "i \<in> range_ids t (map (\<lambda>w. time_range (word_key w) lo hi) (walked_terms all_terms dfs ts @ [WORD_OVERFLOW])) asc"
proof -
  have ex: "exact (\<lambda>i e. word_keys (su V) e i (indexed_words s)) (abs_events (sx V) s) t"
    using scan_readyD(1) [OF ready] t by (auto simp: store_inv_def indexes_exact_def)
  have len: "length i = 32" by (rule scan_readyD(7) [OF ready e])
  have hit: "i \<in> range_ids t rs asc"
    if "word_key w (created_at e) i \<in> set (word_keys (su V) e i (indexed_words s))" "time_range (word_key w) lo hi \<in> set rs" for w rs
  proof -
    have k: "tget t (word_key w (created_at e) i) \<noteq> None" using ex that(1) e unfolding exact_def by auto
    have "word_key w (created_at e) i \<in> set (range_keys t (time_range (word_key w) lo hi) asc)"
      unfolding set_range_keys using k word_in_range [OF len win] by blast
    moreover have "key_id (word_key w (created_at e) i) = i"
      using key_id_append [OF len, of "as_bytes w @ [0x00] @ be64 (created_at e)"] by (simp add: word_key_def)
    ultimately show ?thesis using that(2) unfolding range_ids_def by force
  qed
  obtain w where w: "w \<in> set (tokenize (su V) (content e))" "w \<in> set ts"
    using m by (auto simp: matches_terms_def tokenize_def matches_terms_loop_iff)
  from word_keys_cover [OF w(1) len, of "indexed_words s"] show ?thesis
  proof
    assume a: "length w \<le> WORD_INDEX_MAX \<and> word_key w (created_at e) i \<in> set (word_keys (su V) e i (indexed_words s))"
    then have "w \<in> set (walked_terms all_terms dfs ts)"
      using w(2) nc by (auto simp: walked_terms_def common_dropped_def)
    then show ?thesis using a by (intro hit) auto
  next
    assume "word_key WORD_OVERFLOW (created_at e) i \<in> set (word_keys (su V) e i (indexed_words s))"
    then show ?thesis by (intro hit) auto
  qed
qed

section \<open>Index keys are long enough to parse\<close>

lemma index_keys_long:
  assumes "scan_ready V s f"
  shows "\<forall>k. tget (by_created s) k \<noteq> None \<longrightarrow> 40 \<le> length k" and "\<forall>k. tget (by_pubkey s) k \<noteq> None \<longrightarrow> 40 \<le> length k"
    and "\<forall>k. tget (by_kind s) k \<noteq> None \<longrightarrow> 40 \<le> length k" and "\<forall>k. tget (by_tag s) k \<noteq> None \<longrightarrow> 40 \<le> length k"
    and "by_word s = Some t \<Longrightarrow> \<forall>k. tget t k \<noteq> None \<longrightarrow> 40 \<le> length k"
proof -
  have ix: "indexes_exact (sx V) (su V) s (abs_events (sx V) s)" using scan_readyD(1) [OF assms] by (simp add: store_inv_def)
  have long: "\<forall>k. tget u k \<noteq> None \<longrightarrow> 40 \<le> length k"
    if "exact g (abs_events (sx V) s) u" "\<And>i e k. length i = 32 \<Longrightarrow> k \<in> set (g i e) \<Longrightarrow> 40 \<le> length k" for g u
    using that scan_readyD(7) [OF assms] by (fastforce simp: exact_def split: if_splits)
  note ix' = ix [unfolded indexes_exact_def]
  show "\<forall>k. tget (by_created s) k \<noteq> None \<longrightarrow> 40 \<le> length k"
    by (rule long [OF ix' [THEN conjunct1]]) (simp add: created_key_def)
  show "\<forall>k. tget (by_pubkey s) k \<noteq> None \<longrightarrow> 40 \<le> length k"
    by (rule long [OF ix' [THEN conjunct2, THEN conjunct1]]) (auto simp: author_keys_def pubkey_key_def split: option.splits)
  show "\<forall>k. tget (by_kind s) k \<noteq> None \<longrightarrow> 40 \<le> length k"
    by (rule long [OF ix' [THEN conjunct2, THEN conjunct2, THEN conjunct1]]) (simp add: kind_key_def)
  show "\<forall>k. tget (by_tag s) k \<noteq> None \<longrightarrow> 40 \<le> length k"
    by (rule long [OF ix' [THEN conjunct2, THEN conjunct2, THEN conjunct2, THEN conjunct1]]) (auto simp: tag_keys_def tag_key_def)
  show "by_word s = Some t \<Longrightarrow> \<forall>k. tget t k \<noteq> None \<longrightarrow> 40 \<le> length k"
    by (rule long [of "\<lambda>i e. word_keys (su V) e i (indexed_words s)"]) (use ix' in \<open>auto simp: word_keys_def word_key_def Let_def split: if_splits\<close>)
qed

end
