(* ===== verification/ScanGather.thy ===== *)
theory ScanGather
  imports ScanPlan
begin

text \<open>
  The gather phase of an \<open>ids\<close> filter: unless it reports \<open>more\<close>, it collects every stored event that
  an id or an id prefix of the filter names, and it changes nothing but the work counter.
\<close>

section \<open>Gathering ids\<close>

definition same_out :: "'c scan_state \<Rightarrow> 'c scan_state \<Rightarrow> bool" where
  "same_out st st' \<longleftrightarrow> sc_out st' = sc_out st \<and> sc_seen st' = sc_seen st \<and> (sc_more st \<longrightarrow> sc_more st')"

lemma same_out_refl: "same_out st st"
  by (simp add: same_out_def)

lemma same_out_trans: "same_out a b \<Longrightarrow> same_out b c \<Longrightarrow> same_out a c"
  by (simp add: same_out_def)

lemma gather_prefix_done:
  "gather_prefix V s budget items cands st = Inr (cands', st', go) \<Longrightarrow>
   set cands \<subseteq> set cands' \<and> same_out st st' \<and> (\<not> go \<longrightarrow> sc_more st')
   \<and> (go \<longrightarrow> (\<forall>(k, raw) \<in> set items. candidate_created_at V s k raw \<noteq> None \<longrightarrow> k \<in> snd ` set cands'))"
proof (induction V s budget items cands st rule: gather_prefix.induct)
  case (2 V s budget key raw items cands st)
  let ?st = "st\<lparr>sc_examined := sc_examined st + 1\<rparr>"
  let ?c = "case candidate_created_at V s key raw of None \<Rightarrow> cands | Some c \<Rightarrow> cands @ [(c, key)]"
  have len: "length key = ID_LEN" using "2.prems" by (auto split: if_splits)
  show ?case
  proof (cases "budget < sc_examined ?st")
    case True
    then show ?thesis using "2.prems" len by (auto simp: same_out_def stop_more_def Let_def)
  next
    case False
    then have "gather_prefix V s budget items ?c ?st = Inr (cands', st', go)" using "2.prems" len by (simp add: Let_def)
    from "2.IH" [OF _ refl False this] len
    have ih: "set ?c \<subseteq> set cands'" "same_out ?st st'" "\<not> go \<longrightarrow> sc_more st'"
      "go \<longrightarrow> (\<forall>(k, raw) \<in> set items. candidate_created_at V s k raw \<noteq> None \<longrightarrow> k \<in> snd ` set cands')" by auto
    have "candidate_created_at V s key raw \<noteq> None \<longrightarrow> key \<in> snd ` set cands'" "set cands \<subseteq> set cands'"
      using ih(1) by (force split: option.splits)+
    then show ?thesis using ih by (auto simp: same_out_def)
  qed
qed (simp add: same_out_def)

lemma gather_prefix_total:
  "\<forall>(k, raw) \<in> set items. length k = 32 \<Longrightarrow> gather_prefix V s budget items cands st \<noteq> Inl err"
  by (induction V s budget items cands st rule: gather_prefix.induct) (auto simp: Let_def ID_LEN_def)

text \<open>An id of the filter names an event: exactly, or by a prefix.\<close>

definition names :: "scan_env \<Rightarrow> string \<Rightarrow> bytes \<Rightarrow> bool" where
  "names V idstr i \<longleftrightarrow> (\<exists>n. 0 < n \<and> n \<le> 32 \<and> hex_decode (sx V) idstr = Some (take n i))"

lemma prefix_between:
  assumes "length i = 32" and "n \<le> 32"
  shows "prefix_start (take n i) \<le> i" and "i \<le> prefix_end (take n i)"
proof -
  have l: "length (take n i) = n" and d: "length (drop n i) = 32 - n" using assms by simp_all
  have "take n i @ replicate (32 - n) 0 \<le> take n i @ drop n i" using zeros_le [OF d] by (subst append_le) simp_all
  then show "prefix_start (take n i) \<le> i" using assms l by (simp add: prefix_start_def ID_LEN_def)
  have "take n i @ drop n i \<le> take n i @ replicate (32 - n) 0xFF" using ff_le [OF d] by (subst append_le) simp_all
  then show "i \<le> prefix_end (take n i)" using assms l by (simp add: prefix_end_def ID_LEN_def)
qed

lemma gather_ids_done:
  "gather_ids V s budget is cands st = Inr (cands', st') \<Longrightarrow>
   set cands \<subseteq> set cands' \<and> same_out st st'
   \<and> (\<not> sc_more st' \<longrightarrow> (\<forall>idstr \<in> set is. \<forall>i raw. names V idstr i \<and> length i = 32 \<and> tget (events s) i = Some raw
        \<and> candidate_created_at V s i raw \<noteq> None \<longrightarrow> i \<in> snd ` set cands'))"
proof (induction V s budget "is" cands st rule: gather_ids.induct)
  case (2 V s budget idstr "is" cands st)
  show ?case
  proof (cases "hex_decode (sx V) idstr")
    case None
    then have "gather_ids V s budget is cands st = Inr (cands', st')" using "2.prems" by simp
    from "2.IH"(1) [OF None this] show ?thesis using None by (auto simp: names_def)
  next
    case (Some d)
    consider (long) "ID_LEN < length d" | (exact) "length d = ID_LEN" | (short) "length d < ID_LEN" "d \<noteq> []" | (empty) "d = []"
      by fastforce
    then show ?thesis
    proof cases
      case long
      then have "gather_ids V s budget is cands st = Inr (cands', st')" using "2.prems" Some by simp
      from "2.IH"(2) [OF Some long this] show ?thesis using long Some by (auto simp: names_def ID_LEN_def)
    next
      case empty
      then have "gather_ids V s budget is cands st = Inr (cands', st')" using "2.prems" Some by (simp add: ID_LEN_def)
      from "2.IH"(6) [OF Some _ _ _ this] show ?thesis using empty Some by (fastforce simp: names_def ID_LEN_def)
    next
      case exact
      show ?thesis
      proof (cases "budget \<le> length cands")
        case True
        then show ?thesis using "2.prems" Some exact by (auto simp: same_out_def stop_more_def)
      next
        case False
        have i: "names V idstr i \<Longrightarrow> length i = 32 \<Longrightarrow> i = d" for i
          using Some exact by (auto simp: names_def ID_LEN_def)
        show ?thesis
        proof (cases "tget (events s) d")
          case None
          then have "gather_ids V s budget is cands st = Inr (cands', st')" using "2.prems" Some exact False by simp
          from "2.IH"(3) [OF Some _ exact False None this] show ?thesis using exact i None by (auto simp: ID_LEN_def)
        next
          case raw: (Some raw)
          let ?c = "case candidate_created_at V s d raw of None \<Rightarrow> cands | Some c \<Rightarrow> cands @ [(c, d)]"
          have "gather_ids V s budget is ?c st = Inr (cands', st')" using "2.prems" Some exact False raw by simp
          from "2.IH"(4) [OF Some _ exact False raw this] have ih: "set ?c \<subseteq> set cands'" "same_out st st'"
            "\<not> sc_more st' \<longrightarrow> (\<forall>idstr \<in> set is. \<forall>i raw. names V idstr i \<and> length i = 32 \<and> tget (events s) i = Some raw
               \<and> candidate_created_at V s i raw \<noteq> None \<longrightarrow> i \<in> snd ` set cands')" by (auto simp: exact)
          have "candidate_created_at V s d raw \<noteq> None \<longrightarrow> d \<in> snd ` set cands'" "set cands \<subseteq> set cands'"
            using ih(1) by (force split: option.splits)+
          then show ?thesis using ih(2,3) i raw by auto
        qed
      qed
    next
      case short
      let ?items = "filter (\<lambda>(k, _). prefix_start d \<le> k \<and> k \<le> prefix_end d) (events s)"
      obtain cands1 st1 go where g: "gather_prefix V s budget ?items cands st = Inr (cands1, st1, go)"
        using "2.prems" Some short by (auto simp: ID_LEN_def split: sum.splits)
      note gp = gather_prefix_done [OF g]
      show ?thesis
      proof (cases go)
        case True
        then have r: "gather_ids V s budget is cands1 st1 = Inr (cands', st')" using "2.prems" Some short g by simp
        have "\<not> ID_LEN < length d" "length d \<noteq> ID_LEN" using short by auto
        from "2.IH"(5) [OF Some this short(2) g [unfolded eqTrueI [OF True]] refl refl _ r]
        have ih: "set cands1 \<subseteq> set cands'" "same_out st1 st'"
          "\<not> sc_more st' \<longrightarrow> (\<forall>idstr \<in> set is. \<forall>i raw. names V idstr i \<and> length i = 32 \<and> tget (events s) i = Some raw
             \<and> candidate_created_at V s i raw \<noteq> None \<longrightarrow> i \<in> snd ` set cands')" by auto
        have hit: "i \<in> snd ` set cands'" if n: "names V idstr i" "length i = 32" "tget (events s) i = Some raw"
          "candidate_created_at V s i raw \<noteq> None" for i raw
        proof -
          obtain n where n': "0 < n" "n \<le> 32" "d = take n i" using n(1) Some by (auto simp: names_def)
          have "(i, raw) \<in> set ?items"
            using n(3) prefix_between [OF n(2) n'(2)] n'(3) by (auto simp: tget_def dest: map_of_SomeD)
          then have "i \<in> snd ` set cands1" using gp True n(4) by auto
          then show ?thesis using ih(1) by blast
        qed
        have "set cands \<subseteq> set cands'" "same_out st st'"
          using ih(1,2) gp same_out_trans [of st st1 st'] by auto
        then show ?thesis using ih(3) hit by (intro conjI impI ballI allI) (auto elim!: set_ConsD [elim_format])
      next
        case False
        then have "cands' = cands1" "st' = st1" using "2.prems" Some short g by auto
        then show ?thesis using gp False by auto
      qed
    qed
  qed
qed (simp add: same_out_def)

lemma event_keys: "scan_ready V s f \<Longrightarrow> tget (events s) k \<noteq> None \<Longrightarrow> length k = 32"
  using scan_readyD(2) id_bytes_length by (fastforce simp: events_ok_def)

lemma gather_ids_total:
  assumes "scan_ready V s f"
  shows "gather_ids V s budget is cands st \<noteq> Inl err"
proof (induction "is" arbitrary: cands st)
  case (Cons idstr "is")
  have "\<forall>(k, raw) \<in> set (filter (\<lambda>(k, _). prefix_start d \<le> k \<and> k \<le> prefix_end d) (events s)). length k = 32" for d
    using event_keys [OF assms] by (force simp: tget_def map_of_eq_None_iff)
  then have g: "gather_prefix V s budget (filter (\<lambda>(k, _). prefix_start d \<le> k \<and> k \<le> prefix_end d) (events s)) cands st \<noteq> Inl err" for d err
    by (rule gather_prefix_total)
  show ?case
  proof (cases "hex_decode (sx V) idstr")
    case (Some d)
    obtain cands1 st1 go where "gather_prefix V s budget (filter (\<lambda>(k, _). prefix_start d \<le> k \<and> k \<le> prefix_end d) (events s)) cands st
        = Inr (cands1, st1, go)"
      using g [of d] by (cases "gather_prefix V s budget (filter (\<lambda>(k, _). prefix_start d \<le> k \<and> k \<le> prefix_end d) (events s)) cands st") auto
    then show ?thesis using Some Cons.IH by (cases go) (auto split: option.splits)
  qed (use Cons.IH in simp)
qed simp

end
