(* ===== verification/ScanInv.thy ===== *)
theory ScanInv
  imports ScanGather
begin

text \<open>
  The scan over an arbitrary collector. The locale \<open>scan_collector\<close> states what the query engine
  relies on of a \<open>ScanCollector\<close>: a push either records the event, or skips it and remembers that it
  skipped, or refuses and changes nothing; the other operations keep what is recorded. Its lemmas show
  that a scan returns only wanted events, each once, and all of them unless it reports \<open>more\<close>.
\<close>

locale scan_collector =
  fixes ops :: "'c collector_ops" and held :: "'c \<Rightarrow> 'v list" and view :: "event \<Rightarrow> bytes \<Rightarrow> 'v"
  assumes push_held: "op_push ops e i n c = (c', ok) \<Longrightarrow> held c' = held c \<or> ok \<and> held c' = held c @ [view e i]"
    and push_kept: "op_push ops e i n c = (c', True) \<Longrightarrow> op_skipped ops c' \<or> held c' = held c @ [view e i]"
    and push_skipped: "op_push ops e i n c = (c', ok) \<Longrightarrow> op_skipped ops c \<Longrightarrow> op_skipped ops c'"
    and begin_held: "held (op_begin_filter ops j c) = held c"
    and begin_skipped: "op_skipped ops (op_begin_filter ops j c) = op_skipped ops c"
    and sort_held: "set (held (op_sort_key ops c)) = set (held c)" "distinct (held (op_sort_key ops c)) = distinct (held c)"
      "set (held (op_sort_asc ops c)) = set (held c)" "distinct (held (op_sort_asc ops c)) = distinct (held c)"
      "set (held (op_sort_relevance ops ts dfs c)) = set (held c)"
      "distinct (held (op_sort_relevance ops ts dfs c)) = distinct (held c)"
    and limits_held: "op_apply_search_limits ops fs m h c = (c', dropped) \<Longrightarrow>
      set (held c') \<subseteq> set (held c) \<and> (distinct (held c) \<longrightarrow> distinct (held c')) \<and> (\<not> dropped \<longrightarrow> set (held c') = set (held c))"
begin

text \<open>What is recorded (or known to be skipped), and how scan states grow.\<close>

definition covered :: "'c scan_state \<Rightarrow> bytes \<times> event \<Rightarrow> bool" where
  "covered st ie \<longleftrightarrow> op_skipped ops (sc_out st) \<or> view (snd ie) (fst ie) \<in> set (held (sc_out st))"

definition grows :: "'c scan_state \<Rightarrow> 'c scan_state \<Rightarrow> bool" where
  "grows st st' \<longleftrightarrow> set (held (sc_out st)) \<subseteq> set (held (sc_out st'))
     \<and> (op_skipped ops (sc_out st) \<longrightarrow> op_skipped ops (sc_out st')) \<and> (sc_more st \<longrightarrow> sc_more st')"

text \<open>
  The invariant of a scan with target set \<open>D\<close>: what is recorded is in \<open>D\<close>, each event once and marked
  as seen, and every seen event is covered.
\<close>

definition scan_inv :: "ext \<Rightarrow> store \<Rightarrow> (bytes \<times> event) set \<Rightarrow> 'c scan_state \<Rightarrow> bool" where
  "scan_inv X s D st \<longleftrightarrow>
     (\<forall>v \<in> set (held (sc_out st)). \<exists>i e. (i, e) \<in> D \<and> v = view e i \<and> i \<in> sc_seen st)
   \<and> distinct (held (sc_out st))
   \<and> (\<forall>i e. i \<in> sc_seen st \<longrightarrow> (i, e) \<in> abs_events X s \<longrightarrow> covered st (i, e))"

text \<open>The conditions under which one filter is scanned.\<close>

definition filter_ready :: "scan_env \<Rightarrow> store \<Rightarrow> (bytes \<times> event) set \<Rightarrow> filter_scan \<Rightarrow> bool" where
  "filter_ready V s D fs \<longleftrightarrow>
     scan_ready V s (fs_filter fs) \<and> fs_terms fs = filter_terms V (fs_filter fs)
   \<and> wanted V s (fs_now fs) (fs_filter fs) \<subseteq> D \<and> D \<subseteq> abs_events (sx V) s
   \<and> (\<forall>i e j g. (i, e) \<in> abs_events (sx V) s \<longrightarrow> (j, g) \<in> abs_events (sx V) s \<longrightarrow> view e i = view g j \<longrightarrow> i = j)"

definition settled :: "scan_env \<Rightarrow> store \<Rightarrow> filter_scan \<Rightarrow> 'c scan_state \<Rightarrow> bytes \<Rightarrow> bool" where
  "settled V s fs st i \<longleftrightarrow> (\<forall>e. (i, e) \<in> wanted V s (fs_now fs) (fs_filter fs) \<longrightarrow> covered st (i, e))"

lemma grows_refl: "grows st st"
  by (simp add: grows_def)

lemma grows_trans: "grows st st' \<Longrightarrow> grows st' st'' \<Longrightarrow> grows st st''"
  by (auto simp: grows_def)

lemma covered_grows: "grows st st' \<Longrightarrow> covered st ie \<Longrightarrow> covered st' ie"
  by (auto simp: covered_def grows_def)

lemma settled_grows: "grows st st' \<Longrightarrow> settled V s fs st i \<Longrightarrow> settled V s fs st' i"
  using covered_grows by (auto simp: settled_def)

lemma same_out_grows:
  assumes "same_out st st'"
  shows "grows st st'" and "scan_inv X s D st \<Longrightarrow> scan_inv X s D st'"
  using assms by (simp_all add: same_out_def grows_def scan_inv_def covered_def)

lemma stop_more_same: "same_out st (stop_more st)"
  by (simp add: same_out_def stop_more_def)

text \<open>Recording one more event.\<close>

lemma scan_inv_push:
  assumes inv: "scan_inv X s D st" and ie: "(i, e) \<in> D" "D \<subseteq> abs_events X s" "i \<notin> sc_seen st"
    and inj: "\<forall>i e j g. (i, e) \<in> abs_events X s \<longrightarrow> (j, g) \<in> abs_events X s \<longrightarrow> view e i = view g j \<longrightarrow> i = j"
    and push: "op_push ops e i n (sc_out st) = (c, True)"
  defines "st' \<equiv> st\<lparr>sc_out := c, sc_seen := insert i (sc_seen st)\<rparr>"
  shows "scan_inv X s D st' \<and> grows st st' \<and> covered st' (i, e)"
proof -
  have new: "view e i \<notin> set (held (sc_out st))"
  proof
    assume "view e i \<in> set (held (sc_out st))"
    then obtain j g where "(j, g) \<in> D" "view e i = view g j" "j \<in> sc_seen st" using inv by (auto simp: scan_inv_def)
    then show False using ie inj by blast
  qed
  have g: "grows st st'" using push_held [OF push] push_skipped [OF push] by (auto simp: grows_def st'_def)
  have c: "covered st' (i, e)" using push_kept [OF push] by (auto simp: covered_def st'_def)
  have one: "g = e" if "(i, g) \<in> abs_events X s" for g using that ie by (auto simp: abs_events_def)
  have "covered st' (j, g)" if "j \<in> sc_seen st'" "(j, g) \<in> abs_events X s" for j g
  proof (cases "j = i")
    case True
    then show ?thesis using c one that(2) by simp
  next
    case False
    then have "covered st (j, g)" using that inv by (auto simp: scan_inv_def st'_def)
    then show ?thesis by (rule covered_grows [OF g])
  qed
  moreover have "\<exists>i e. (i, e) \<in> D \<and> v = view e i \<and> i \<in> sc_seen st'" if "v \<in> set (held (sc_out st'))" for v
    using that push_held [OF push] inv ie(1) by (fastforce simp: scan_inv_def st'_def)
  moreover have "distinct (held (sc_out st'))"
    using push_held [OF push] inv new by (auto simp: scan_inv_def st'_def)
  ultimately show ?thesis using g c by (auto simp: scan_inv_def)
qed

lemma scan_inv_refuse:
  assumes "scan_inv X s D st" and "op_push ops e i n (sc_out st) = (c, False)"
  shows "scan_inv X s D (st\<lparr>sc_out := c\<rparr>)" and "grows st (st\<lparr>sc_out := c\<rparr>)"
  using push_held [OF assms(2)] push_skipped [OF assms(2)] assms(1)
  by (auto simp: scan_inv_def covered_def grows_def)

section \<open>One candidate\<close>

lemma consider_settles:
  assumes ready: "filter_ready V s D fs" and inv: "scan_inv (sx V) s D st0"
    and res: "consider_event ops V s fs budget False i st0 = (st', ok)"
  shows "scan_inv (sx V) s D st' \<and> grows st0 st' \<and> (ok \<longrightarrow> settled V s fs st' i)"
proof -
  define st where "st = st0\<lparr>sc_examined := sc_examined st0 + 1\<rparr>"
  have so: "same_out st0 st" by (simp add: same_out_def st_def)
  have inv1: "scan_inv (sx V) s D st" and g1: "grows st0 st" using same_out_grows [OF so] inv by blast+
  have rs: "scan_ready V s (fs_filter fs)" using ready by (simp add: filter_ready_def)
  let ?W = "wanted V s (fs_now fs) (fs_filter fs)"
  show ?thesis
  proof (cases "op_full ops (sc_out st0) \<or> budget < sc_examined st")
    case True
    then have "st' = st0 \<or> st' = st" "\<not> ok" using res by (auto simp: consider_event_def st_def Let_def split: if_splits)
    then show ?thesis using inv inv1 g1 grows_refl by auto
  next
    case go: False
    show ?thesis
    proof (cases "i \<in> sc_seen st")
      case True
      then have "st' = st" "ok" using res go by (auto simp: consider_event_def st_def Let_def)
      moreover have "settled V s fs st i" using True inv1 by (auto simp: settled_def scan_inv_def wanted_def)
      ultimately show ?thesis using inv1 g1 by simp
    next
      case fresh: False
      show ?thesis
      proof (cases "Option.bind (tget (events s) i) (event_of_json (sx V))")
        case None
        then have "st' = st" "ok" using res go fresh
          by (auto simp: consider_event_def st_def Let_def bind_eq_None_conv split: option.splits if_splits)
        moreover have "settled V s fs st i" using None by (auto simp: settled_def wanted_def abs_events_def)
        ultimately show ?thesis using inv1 g1 by simp
      next
        case (Some e)
        then have abs: "(i, e) \<in> abs_events (sx V) s" by (simp add: abs_events_def)
        have len: "length i = 32" by (rule scan_readyD(7) [OF rs abs])
        obtain raw where raw: "tget (events s) i = Some raw" "event_of_json (sx V) raw = Some e"
          using Some by (auto simp: bind_eq_Some_conv)
        have deliv: "is_deliverable V s e i (fs_filter fs) (fs_terms fs) (fs_now fs) \<longleftrightarrow> (i, e) \<in> ?W"
          using is_deliverable_iff [OF len] ready abs by (simp add: filter_ready_def wanted_def)
        have only: "(i, g) \<in> ?W \<Longrightarrow> g = e" for g using abs by (auto simp: wanted_def abs_events_def)
        note u = consider_event_def Let_def st_def
        show ?thesis
        proof (cases "(i, e) \<in> ?W")
          case False
          then have "st' = st" "ok" using res go fresh raw len deliv
            by (auto simp: u split: if_splits)
          moreover have "settled V s fs st i" using False only by (auto simp: settled_def)
          ultimately show ?thesis using inv1 g1 by simp
        next
          case w: True
          obtain c ok1 where p: "op_push ops e i (fs_limit fs) (sc_out st) = (c, ok1)" by fastforce
          have hd: "\<not> header_rejects s i (fs_filter fs) (fs_now fs)" by (rule header_accepts [OF rs w])
          have r: "(st', ok) = (if ok1 then (st\<lparr>sc_out := c, sc_seen := insert i (sc_seen st)\<rparr>, True) else (st\<lparr>sc_out := c\<rparr>, False))"
            using res go fresh raw len deliv w hd p by (cases ok1) (simp_all add: u)
          show ?thesis
          proof (cases ok1)
            case True
            have D: "(i, e) \<in> D" "D \<subseteq> abs_events (sx V) s" using w ready by (auto simp: filter_ready_def)
            have inj: "\<forall>i e j g. (i, e) \<in> abs_events (sx V) s \<longrightarrow> (j, g) \<in> abs_events (sx V) s \<longrightarrow> view e i = view g j \<longrightarrow> i = j"
              using ready by (simp add: filter_ready_def)
            show ?thesis
              using scan_inv_push [OF inv1 D fresh inj p [unfolded eqTrueI [OF True]]] r True g1 grows_trans only
              by (auto simp: settled_def)
          next
            case False
            then show ?thesis using scan_inv_refuse [OF inv1, of e i "fs_limit fs" c] p r g1 grows_trans by auto
          qed
        qed
      qed
    qed
  qed
qed

end

sublocale scan_collector \<subseteq> walk: index_walk "consider_event ops V s fs budget False"
  "\<lambda>st. filter_ready V s D fs \<and> scan_inv (sx V) s D st" grows "settled V s fs" for V s fs budget D
proof unfold_locales
  fix st st' st'' :: "'c scan_state" and i ok
  show "grows st st" by (rule grows_refl)
  show "grows st st' \<Longrightarrow> grows st' st'' \<Longrightarrow> grows st st''" by (rule grows_trans)
  show "grows st st' \<Longrightarrow> settled V s fs st i \<Longrightarrow> settled V s fs st' i" by (rule settled_grows)
  show "filter_ready V s D fs \<and> scan_inv (sx V) s D st \<Longrightarrow> consider_event ops V s fs budget False i st = (st', ok) \<Longrightarrow>
      (filter_ready V s D fs \<and> scan_inv (sx V) s D st') \<and> grows st st' \<and> (ok \<longrightarrow> settled V s fs st' i)"
    using consider_settles by blast
  show "filter_ready V s D fs \<and> scan_inv (sx V) s D st \<Longrightarrow>
      (filter_ready V s D fs \<and> scan_inv (sx V) s D (stop_more st)) \<and> grows st (stop_more st)"
    using same_out_grows [OF stop_more_same] by blast
qed

end
