(* ===== verification/ScanAll.thy ===== *)
theory ScanAll
  imports ScanInv
begin

text \<open>
  The scan of one filter and of all filters of a request, over the interface \<open>scan_collector\<close>.
\<close>

context scan_collector begin

section \<open>Walks with the candidate check\<close>

text \<open>What a scan of one filter guarantees of its result.\<close>

definition filter_done :: "scan_env \<Rightarrow> store \<Rightarrow> (bytes \<times> event) set \<Rightarrow> filter_scan \<Rightarrow> 'c scan_state \<Rightarrow> 'c scan_state \<Rightarrow> bool \<Rightarrow> bool" where
  "filter_done V s D fs st st' stop \<longleftrightarrow> scan_inv (sx V) s D st' \<and> grows st st'
     \<and> (\<not> stop \<and> \<not> sc_more st' \<longrightarrow> (\<forall>ie \<in> wanted V s (fs_now fs) (fs_filter fs). covered st' ie))"

lemma walk_done:
  assumes "scan_inv (sx V) s D st'" and "grows st st'" and "\<not> stop \<longrightarrow> (\<forall>i \<in> is. settled V s fs st' i)"
    and "\<not> sc_more st' \<Longrightarrow> fst ` wanted V s (fs_now fs) (fs_filter fs) \<subseteq> is"
  shows "filter_done V s D fs st st' stop"
  unfolding filter_done_def
proof (intro conjI impI ballI)
  fix ie assume a: "\<not> stop \<and> \<not> sc_more st'" and ie: "ie \<in> wanted V s (fs_now fs) (fs_filter fs)"
  then have "settled V s fs st' (fst ie)" using assms(3,4) by blast
  then show "covered st' ie" using ie by (cases ie) (simp add: settled_def)
qed (use assms in auto)

lemma merged_done:
  assumes "filter_ready V s D fs" and "scan_inv (sx V) s D st"
    and "walked (walk_merged (consider_event ops V s fs budget False) t rs asc st) = Inr (st', stop)"
    and "\<not> sc_more st' \<Longrightarrow> fst ` wanted V s (fs_now fs) (fs_filter fs) \<subseteq> range_ids t rs asc"
  shows "filter_done V s D fs st st' stop"
proof -
  have "walk_merged (consider_event ops V s fs budget False) t rs asc st = Inr (st', \<not> stop)"
    using assms(3) by (auto simp: walked_def split: sum.splits prod.splits)
  from walk.walk_merged_walked [OF conjI [OF assms(1,2)] this]
  show ?thesis using walk_done [OF _ _ _ assms(4)] by (simp add: walk.walked_to_def range_ids_def split: if_splits)
qed

lemma created_done:
  assumes "filter_ready V s D fs" and "scan_inv (sx V) s D st"
    and "walked (walk_created_range (consider_event ops V s fs budget False) (range_keys t r asc) st) = Inr (st', stop)"
    and "\<not> sc_more st' \<Longrightarrow> fst ` wanted V s (fs_now fs) (fs_filter fs) \<subseteq> range_ids t [r] asc"
  shows "filter_done V s D fs st st' stop"
proof -
  have "walk_created_range (consider_event ops V s fs budget False) (range_keys t r asc) st = Inr (st', \<not> stop)"
    using assms(3) by (auto simp: walked_def split: sum.splits prod.splits)
  from walk.walk_created_range_walked [OF conjI [OF assms(1,2)] this]
  have w: "scan_inv (sx V) s D st'" "grows st st'" "\<not> stop \<longrightarrow> (\<forall>i \<in> range_ids t [r] asc. settled V s fs st' i)"
    by (auto simp: walk.walked_to_def range_ids_def split: if_splits)
  then show ?thesis using walk_done [OF w assms(4)] by blast
qed

lemma ids_done:
  assumes "filter_ready V s D fs" and "scan_inv (sx V) s D st"
    and "scan_ids_filter (consider_event ops V s fs budget False) V s budget asc is st = Inr (st', stop)"
    and f: "ids (fs_filter fs) = Some is"
  shows "filter_done V s D fs st st' stop"
proof -
  have rs: "scan_ready V s (fs_filter fs)" using assms(1) by (simp add: filter_ready_def)
  obtain cands st1 where g: "gather_ids V s budget is [] st = Inr (cands, st1)"
    and r: "replay (consider_event ops V s fs budget False) (map snd (sort_by (candidate_order asc) cands)) st1 = (st', stop)"
    using assms(3) by (auto simp: scan_ids_filter_def split: sum.splits)
  note gd = gather_ids_done [OF g]
  have inv1: "scan_inv (sx V) s D st1" and g1: "grows st st1" using same_out_grows [of st st1] gd assms(2) by blast+
  from walk.replay_walked [OF conjI [OF assms(1) inv1] r]
  have w: "scan_inv (sx V) s D st'" "grows st1 st'" "\<not> stop \<longrightarrow> (\<forall>i \<in> snd ` set cands. settled V s fs st' i)"
    by (auto simp: walk.walked_to_def split: if_splits)
  show ?thesis
  proof (rule walk_done [OF w(1) grows_trans [OF g1 w(2)] w(3)])
    assume nm: "\<not> sc_more st'"
    then have "\<not> sc_more st1" using w(2) by (auto simp: grows_def)
    then have all: "\<forall>idstr \<in> set is. \<forall>i raw. names V idstr i \<and> length i = 32 \<and> tget (events s) i = Some raw
        \<and> candidate_created_at V s i raw \<noteq> None \<longrightarrow> i \<in> snd ` set cands" using gd by blast
    show "fst ` wanted V s (fs_now fs) (fs_filter fs) \<subseteq> snd ` set cands"
    proof
      fix i assume "i \<in> fst ` wanted V s (fs_now fs) (fs_filter fs)"
      then obtain e where e: "(i, e) \<in> abs_events (sx V) s" "filter_matches (su V) (shs V) (fs_filter fs) e"
        by (auto simp: wanted_def)
      obtain raw where raw: "tget (events s) i = Some raw" "event_of_json (sx V) raw = Some e"
        using e(1) by (auto simp: abs_events_def bind_eq_Some_conv)
      obtain idstr where idstr: "idstr \<in> set is" "id_matches idstr (ev_id e)"
        using e(2) f by (auto simp: filter_matches_def matches_with_def split: if_splits)
      have len: "length i = 32" by (rule scan_readyD(7) [OF rs e(1)])
      have dec: "hex_decode (sx V) (ev_id e) = Some i"
        using abs_ok(1) [OF scan_readyD(2) [OF rs] e(1)] by (simp add: id_bytes_def decode_array_Some)
      have m: "idstr \<noteq> []" "even (length idstr)" "length idstr \<le> length (ev_id e)"
        "eq_ignore_ascii_case (take (length idstr) (ev_id e)) idstr"
        using idstr(2) [unfolded id_matches_iff] by blast+
      have evlen: "length (ev_id e) = 64" using hex_codec.dec_length [OF scan_readyD(3) [OF rs] dec] len by simp
      have "hex_decode (sx V) idstr = Some (take (length idstr div 2) i)"
        by (rule hex_codec.dec_prefix [OF scan_readyD(3) [OF rs] dec _ m(3,4)]) (use m(2) in simp)
      moreover obtain n where n: "length idstr = 2 * n" using m(2) by blast
      moreover have "0 < n" using m(1) n by (cases n) auto
      ultimately have "names V idstr i" unfolding names_def
        using m(3) evlen by (intro exI [of _ n]) simp
      moreover have "candidate_created_at V s i raw \<noteq> None"
        using raw(2) by (auto simp: candidate_created_at_def split: option.splits)
      ultimately show "i \<in> snd ` set cands" using all idstr(1) len raw(1) by blast
    qed
  qed
qed

section \<open>One filter\<close>

lemma scan_time_done:
  assumes "filter_ready V s D fs" and "scan_inv (sx V) s D st"
    and "scan_time (consider_event ops V s fs budget False) s (fs_filter fs) asc
      (case since (fs_filter fs) of None \<Rightarrow> 0 | Some t \<Rightarrow> t) (case until (fs_filter fs) of None \<Rightarrow> u64_max | Some t \<Rightarrow> t) st = Inr (st', stop)"
  shows "filter_done V s D fs st st' stop"
proof -
  have rs: "scan_ready V s (fs_filter fs)" using assms(1) by (simp add: filter_ready_def)
  show ?thesis
  proof (cases "kinds (fs_filter fs)")
    case None
    show ?thesis
      by (rule created_done [OF assms(1,2) assms(3) [unfolded scan_time_def None option.case]])
        (auto simp: wanted_def intro!: created_covers [OF rs] filter_matches_window)
  next
    case (Some ks)
    then have "filter_matches (su V) (shs V) (fs_filter fs) e \<Longrightarrow> kind e \<in> set ks" for e
      by (auto simp: filter_matches_def matches_with_def split: if_splits)
    then show ?thesis
      by (intro merged_done [OF assms(1,2) assms(3) [unfolded scan_time_def Some option.case]])
        (auto simp: wanted_def intro!: kinds_cover [OF rs] filter_matches_window)
  qed
qed

lemma scan_indexed_done:
  assumes "filter_ready V s D fs" and "scan_inv (sx V) s D st"
    and res: "scan_indexed (consider_event ops V s fs budget False) V s (fs_filter fs) asc
      (case since (fs_filter fs) of None \<Rightarrow> 0 | Some t \<Rightarrow> t) (case until (fs_filter fs) of None \<Rightarrow> u64_max | Some t \<Rightarrow> t) st = Inr (st', stop)"
  shows "filter_done V s D fs st st' stop"
proof -
  have rs: "scan_ready V s (fs_filter fs)" using assms(1) by (simp add: filter_ready_def)
  show ?thesis
  proof (cases "authors (fs_filter fs)")
    case (Some as)
    then have "filter_matches (su V) (shs V) (fs_filter fs) e \<Longrightarrow> author_matches as e" for e
      by (auto simp: filter_matches_def matches_with_def split: if_splits)
    then show ?thesis
      by (intro merged_done [OF assms(1,2) res [unfolded scan_indexed_def Some option.case]])
        (auto simp: wanted_def intro!: authors_cover [OF rs] filter_matches_window)
  next
    case None
    note res' = res [unfolded scan_indexed_def None option.case(1)]
    show ?thesis
    proof (cases "scan_constraint (plan_new (shs V) (ftags (fs_filter fs)))")
      case c: None
      show ?thesis by (rule scan_time_done [OF assms(1,2) res' [unfolded c option.case]])
    next
      case c: (Some nv)
      obtain name vs where nv: "nv = (name, vs)" by (cases nv)
      note holds = constraint_holds(2) [OF rs _ c [unfolded nv]]
      show ?thesis
      proof (cases "length name = 1 \<and> tag_fully_indexed name vs")
        case False
        show ?thesis by (rule scan_time_done [OF assms(1,2)]) (use res' c nv False in auto)
      next
        case full: True
        show ?thesis
        proof (cases "vs = []")
          case True
          then have "st' = st" using res' c nv full by simp
          moreover have "wanted V s (fs_now fs) (fs_filter fs) = {}" using holds True by (auto simp: wanted_def)
          ultimately show ?thesis using assms(2) grows_refl by (simp add: filter_done_def)
        next
          case False
          have w: "walked (walk_merged (consider_event ops V s fs budget False) (by_tag s) (tag_ranges name vs
              (case since (fs_filter fs) of None \<Rightarrow> 0 | Some t \<Rightarrow> t) (case until (fs_filter fs) of None \<Rightarrow> u64_max | Some t \<Rightarrow> t)) asc st) = Inr (st', stop)"
            using res' c nv full False by simp
          show ?thesis
          proof (rule merged_done [OF assms(1,2) w], rule)
            fix i assume "i \<in> fst ` wanted V s (fs_now fs) (fs_filter fs)"
            then obtain e where e: "(i, e) \<in> abs_events (sx V) s" "filter_matches (su V) (shs V) (fs_filter fs) e"
              by (auto simp: wanted_def)
            obtain t where t: "t \<in> set (tags e)" "2 \<le> length t" "t ! 0 = name" "t ! 1 \<in> set vs" using holds [OF e(2)] by blast
            show "i \<in> range_ids (by_tag s) (tag_ranges name vs
                (case since (fs_filter fs) of None \<Rightarrow> 0 | Some t \<Rightarrow> t) (case until (fs_filter fs) of None \<Rightarrow> u64_max | Some t \<Rightarrow> t)) asc"
              by (rule tags_cover [OF rs e(1) filter_matches_window [OF e(2)] t]) (use full in auto)
          qed
        qed
      qed
    qed
  qed
qed

lemma scan_filter_done:
  assumes ready: "filter_ready V s D fs" and inv: "scan_inv (sx V) s D st"
    and res: "scan_filter ops V s fs budget False dfs ts st = Inr (st', stop)"
  shows "filter_done V s D fs st st' stop"
proof -
  let ?f = "fs_filter fs"
  have rs: "scan_ready V s ?f" and terms: "fs_terms fs = filter_terms V ?f" using ready by (simp_all add: filter_ready_def)
  show ?thesis
  proof (cases "is_impossible (plan_new (shs V) (ftags ?f))")
    case True
    then have "st' = st" using res by (simp add: scan_filter_def Let_def)
    moreover have "wanted V s (fs_now fs) ?f = {}" using constraint_holds(1) [OF rs] True by (auto simp: wanted_def)
    ultimately show ?thesis using inv grows_refl by (simp add: filter_done_def)
  next
    case poss: False
    show ?thesis
    proof (cases "ids ?f")
      case (Some "is")
      then show ?thesis using ids_done [OF ready inv _ Some] res poss by (simp add: scan_filter_def Let_def)
    next
      case None
      show ?thesis
      proof (cases "\<exists>t. by_word s = Some t \<and> has_search ?f \<and> fs_terms fs \<noteq> []
          \<and> tget (index_meta s) (as_bytes ''word_index'') \<noteq> None \<and> walked_terms ts dfs (fs_terms fs) \<noteq> []")
        case False
        then show ?thesis using scan_indexed_done [OF ready inv] res poss None
          by (auto simp: scan_filter_def Let_def split: option.splits if_splits)
      next
        case True
        then obtain t where t: "by_word s = Some t" "has_search ?f" "fs_terms fs \<noteq> []" by blast
        let ?st = "if common_dropped ts dfs (fs_terms fs) then stop_more st else st"
        let ?lo = "case since ?f of None \<Rightarrow> 0 | Some t \<Rightarrow> t" and ?hi = "case until ?f of None \<Rightarrow> u64_max | Some t \<Rightarrow> t"
        let ?rs = "map (\<lambda>w. time_range (word_key w) ?lo ?hi) (walked_terms ts dfs (fs_terms fs) @ [WORD_OVERFLOW])"
        have w: "walked (walk_merged (consider_event ops V s fs budget False) t ?rs (fs_ascending fs) ?st) = Inr (st', stop)"
          using res poss None True t by (simp add: scan_filter_def Let_def)
        have inv': "scan_inv (sx V) s D ?st" and g: "grows st ?st"
          using same_out_grows [OF stop_more_same] inv grows_refl by auto
        have d: "filter_done V s D fs ?st st' stop"
        proof (cases "common_dropped ts dfs (fs_terms fs)")
          case True
          show ?thesis
          proof (rule merged_done [OF ready inv' w])
            have "walk_merged (consider_event ops V s fs budget False) t ?rs (fs_ascending fs) ?st = Inr (st', \<not> stop)"
              using w by (auto simp: walked_def split: sum.splits prod.splits)
            from walk.walk_merged_walked [OF conjI [OF ready inv'] this]
            have "grows (stop_more st) st'" using True by (simp add: walk.walked_to_def)
            then have "sc_more st'" by (simp add: grows_def stop_more_def)
            then show "\<not> sc_more st' \<Longrightarrow> fst ` wanted V s (fs_now fs) ?f \<subseteq> range_ids t ?rs (fs_ascending fs)" by blast
          qed
        next
          case False
          show ?thesis
          proof (rule merged_done [OF ready inv' w], rule)
            fix i assume "i \<in> fst ` wanted V s (fs_now fs) ?f"
            then obtain e where e: "(i, e) \<in> abs_events (sx V) s" "filter_matches (su V) (shs V) ?f e"
              by (auto simp: wanted_def)
            have "matches_terms (su V) (content e) (fs_terms fs)"
              using filter_matches_terms [OF e(2) t(2)] terms t(2) by (simp add: filter_terms_def)
            then show "i \<in> range_ids t ?rs (fs_ascending fs)"
              by (rule words_cover [OF rs e(1) filter_matches_window [OF e(2)] _ t(3) False t(1)])
          qed
        qed
        have "grows st st'" using d grows_trans [OF g] by (simp add: filter_done_def)
        then show ?thesis using d by (simp add: filter_done_def)
      qed
    qed
  qed
qed

section \<open>All filters\<close>

text \<open>The filters that take part: all of them when counting, otherwise those with a limit other than 0.\<close>

definition contributes :: "bool \<Rightarrow> filter_req \<Rightarrow> bool" where
  "contributes count_mode f \<longleftrightarrow> count_mode \<or> limit f \<noteq> Some 0"

lemma begin_same: 
  "scan_inv X s D st \<Longrightarrow> scan_inv X s D (st\<lparr>sc_out := op_begin_filter ops j (sc_out st)\<rparr>)"
  "grows st (st\<lparr>sc_out := op_begin_filter ops j (sc_out st)\<rparr>)"
  by (simp_all add: scan_inv_def covered_def grows_def begin_held begin_skipped)

lemma scan_filters_done:
  assumes "\<forall>f \<in> set fs. scan_ready V s f" and "\<Union> (wanted V s now ` {f \<in> set fs. contributes cm f}) \<subseteq> D"
    and "D \<subseteq> abs_events (sx V) s"
    and inj: "\<forall>i e j g. (i, e) \<in> abs_events (sx V) s \<longrightarrow> (j, g) \<in> abs_events (sx V) s \<longrightarrow> view e i = view g j \<longrightarrow> i = j"
    and "scan_inv (sx V) s D st"
    and "scan_filters ops V s now ml cm ss asc budget slack False dfs ts index fs st = Inr st'"
  shows "scan_inv (sx V) s D st' \<and> grows st st'
    \<and> (\<not> sc_more st' \<longrightarrow> (\<forall>f \<in> set fs. contributes cm f \<longrightarrow> (\<forall>ie \<in> wanted V s now f. covered st' ie)))"
  using assms(1,2,5,6)
proof (induction fs arbitrary: st index)
  case Nil
  then show ?case using grows_refl by simp
next
  case (Cons f fs)
  show ?case
  proof (cases "contributes cm f")
    case False
    then have "scan_filters ops V s now ml cm ss asc budget slack False dfs ts (index + 1) fs st = Inr st'"
      using Cons.prems(4) by (simp add: contributes_def)
    from Cons.IH [OF _ _ Cons.prems(3) this] Cons.prems(1,2) False show ?thesis by auto
  next
    case True
    define st1 where "st1 = st\<lparr>sc_out := op_begin_filter ops index (sc_out st)\<rparr>"
    have inv1: "scan_inv (sx V) s D st1" and g1: "grows st st1" using begin_same Cons.prems(3) by (auto simp: st1_def)
    show ?thesis
    proof (cases "op_full ops (sc_out st1)")
      case full: True
      have "can_contribute cm (f # fs)" using True by (simp add: contributes_def can_contribute_def)
      then have "st' = stop_more st1"
        using Cons.prems(4) True full by (auto simp: st1_def contributes_def Let_def)
      then show ?thesis using same_out_grows [OF stop_more_same] inv1 g1 grows_trans by (auto simp: stop_more_def)
    next
      case False
      let ?F = "\<lparr>fs_filter = f, fs_terms = (if has_search f then take SEARCH_MAX_TERMS (terms (su V) (search_of f)) else []),
                fs_now = now, fs_limit = scan_limit ops cm ss ml slack f (sc_out st1), fs_ascending = asc\<rparr>"
      have ready: "filter_ready V s D ?F"
        using Cons.prems(1,2) True assms(3) inj by (auto simp: filter_ready_def filter_terms_def)
      obtain st2 stop where r: "scan_filter ops V s ?F budget False dfs ts st1 = Inr (st2, stop)"
        using Cons.prems(4) True False by (auto simp: st1_def contributes_def Let_def split: sum.splits)
      define st3 where "st3 = (if stop then stop_more st2 else st2)"
      have d: "filter_done V s D ?F st1 st2 stop" by (rule scan_filter_done [OF ready inv1 r])
      have inv3: "scan_inv (sx V) s D st3" and g3: "grows st1 st3"
        using d same_out_grows [OF stop_more_same] grows_trans by (auto simp: st3_def filter_done_def)
      have cov: "\<not> sc_more st3 \<Longrightarrow> ie \<in> wanted V s now f \<Longrightarrow> covered st3 ie" for ie
        using d by (auto simp: st3_def filter_done_def stop_more_def split: if_splits)
      have last: "(if op_full ops (sc_out st3) then Inr (if can_contribute cm fs then stop_more st3 else st3)
          else scan_filters ops V s now ml cm ss asc budget slack False dfs ts (index + 1) fs st3) = Inr st'"
        using Cons.prems(4) True False r by (auto simp: st1_def st3_def contributes_def Let_def)
      show ?thesis
      proof (cases "op_full ops (sc_out st3)")
        case full: True
        have g: "grows st st3" by (rule grows_trans [OF g1 g3])
        show ?thesis
        proof (cases "can_contribute cm fs")
          case True
          then have "st' = stop_more st3" using last full by simp
          then show ?thesis using same_out_grows [OF stop_more_same] inv3 g grows_trans by (auto simp: stop_more_def)
        next
          case False
          then have "st' = st3" using last full by simp
          then show ?thesis using inv3 g cov False by (auto simp: can_contribute_def contributes_def)
        qed
      next
        case False
        then have rest: "scan_filters ops V s now ml cm ss asc budget slack False dfs ts (index + 1) fs st3 = Inr st'"
          using last by simp
        from Cons.IH [OF _ _ inv3 rest] Cons.prems(1,2)
        have ih: "scan_inv (sx V) s D st'" "grows st3 st'"
          "\<not> sc_more st' \<longrightarrow> (\<forall>f \<in> set fs. contributes cm f \<longrightarrow> (\<forall>ie \<in> wanted V s now f. covered st' ie))" by auto
        have "covered st' ie" if "\<not> sc_more st'" "ie \<in> wanted V s now f" for ie
          using cov [OF _ that(2)] covered_grows [OF ih(2)] that(1) ih(2) by (auto simp: grows_def)
        then show ?thesis using ih grows_trans [OF grows_trans [OF g1 g3] ih(2)] by auto
      qed
    qed
  qed
qed

text \<open>The whole scan: sound, without duplicates, and complete unless it reports that it was cut short.\<close>

lemma scan_collect_done:
  assumes ready: "\<forall>f \<in> set fs. scan_ready V s f"
    and inj: "\<forall>i e j g. (i, e) \<in> abs_events (sx V) s \<longrightarrow> (j, g) \<in> abs_events (sx V) s \<longrightarrow> view e i = view g j \<longrightarrow> i = j"
    and start: "held out0 = []" and ml: "ml \<noteq> 0"
    and res: "scan_collect ops V s dfs fs now ml knd asc budget slack out0 False = Inr (out, cut_short)"
  defines "D \<equiv> \<Union> (wanted V s now ` {f \<in> set fs. contributes (knd = Count) f})"
  shows "set (held out) \<subseteq> (\<lambda>(i, e). view e i) ` D \<and> distinct (held out)
    \<and> (\<not> cut_short \<longrightarrow> set (held out) = (\<lambda>(i, e). view e i) ` D)"
proof -
  let ?ts = "all_search_terms V fs"
  let ?dfs = "if ?ts = [] then [] else dfs ?ts"
  let ?ss = "knd = Query \<and> \<not> (\<exists>f \<in> set fs. \<not> has_search f)"
  let ?st0 = "\<lparr>sc_seen = {}, sc_out = out0, sc_examined = 0, sc_more = False\<rparr>"
  obtain st where r: "scan_filters ops V s now ml (knd = Count) ?ss asc budget slack False ?dfs ?ts 0 fs ?st0 = Inr st"
    using res ml by (auto simp: scan_collect_def Let_def split: sum.splits)
  have inv0: "scan_inv (sx V) s D ?st0" by (simp add: scan_inv_def start)
  have D: "D \<subseteq> abs_events (sx V) s" by (auto simp: D_def wanted_def)
  have "\<Union> (wanted V s now ` {f \<in> set fs. contributes (knd = Count) f}) \<subseteq> D" by (simp add: D_def)
  note sd = scan_filters_done [OF ready this D inj inv0 r]
  have sound: "set (held (sc_out st)) \<subseteq> (\<lambda>(i, e). view e i) ` D" and dist: "distinct (held (sc_out st))"
    using sd by (force simp: scan_inv_def)+
  have compl: "(\<lambda>(i, e). view e i) ` D \<subseteq> set (held (sc_out st))" if "\<not> sc_more st" "\<not> op_skipped ops (sc_out st)"
    using sd that by (fastforce simp: D_def covered_def)
  have fin: "set (held out) \<subseteq> set (held (sc_out st)) \<and> distinct (held out)
      \<and> (\<not> cut_short \<longrightarrow> \<not> sc_more st \<and> \<not> op_skipped ops (sc_out st) \<and> set (held out) = set (held (sc_out st)))"
  proof (cases "knd \<noteq> Count \<and> ?ss \<and> ?ts \<noteq> []")
    case True
    obtain c dropped where l: "op_apply_search_limits ops fs ml slack (op_sort_relevance ops ?ts ?dfs (sc_out st)) = (c, dropped)"
      by fastforce
    then have "out = c" "cut_short = (sc_more st \<or> op_skipped ops (sc_out st) \<or> dropped)"
      using res ml r True by (auto simp: scan_collect_def Let_def)
    then show ?thesis using limits_held [OF l] sort_held dist by auto
  next
    case False
    then have "cut_short = (sc_more st \<or> op_skipped ops (sc_out st))"
      and "out \<in> {sc_out st, op_sort_asc ops (sc_out st), op_sort_key ops (sc_out st)}"
      using res ml r by (auto simp: scan_collect_def Let_def split: if_splits)
    then show ?thesis using sort_held dist by auto
  qed
  show ?thesis using fin sound compl by blast
qed

section \<open>No failure on a consistent store\<close>

lemma walked_total: "r \<noteq> Inl err \<Longrightarrow> walked r \<noteq> Inl err"
  by (auto simp: walked_def split: sum.splits prod.splits)

lemma scan_time_total:
  assumes "scan_ready V s f"
  shows "scan_time (consider_event ops V s fs budget False) s g asc lo hi st \<noteq> Inl err"
proof -
  have "\<forall>k \<in> set (range_keys (by_created s) (time_range created_key lo hi) asc). 32 \<le> length k"
    using index_keys_long(1) [OF assms] by (fastforce simp: set_range_keys)
  then show ?thesis
    using walked_total [OF walk.walk_created_range_total] walked_total [OF walk.walk_merged_total [OF index_keys_long(3) [OF assms]]]
    by (simp add: scan_time_def split: option.splits)
qed

lemma scan_indexed_total:
  assumes "scan_ready V s f"
  shows "scan_indexed (consider_event ops V s fs budget False) V s g asc lo hi st \<noteq> Inl err"
  using walked_total [OF walk.walk_merged_total [OF index_keys_long(2) [OF assms]]]
    walked_total [OF walk.walk_merged_total [OF index_keys_long(4) [OF assms]]] scan_time_total [OF assms]
  by (simp add: scan_indexed_def split: option.splits prod.splits)

lemma scan_filter_total:
  assumes "scan_ready V s f"
  shows "scan_filter ops V s fs budget False dfs ts st \<noteq> Inl err"
proof -
  have w: "by_word s = Some t \<Longrightarrow> walked (walk_merged (consider_event ops V s fs budget False) t rs asc st) \<noteq> Inl err" for t rs asc st
    by (rule walked_total [OF walk.walk_merged_total [OF index_keys_long(5) [OF assms]]])
  have i: "scan_ids_filter (consider_event ops V s fs budget False) V s budget asc is st \<noteq> Inl err" for asc "is" st
    using gather_ids_total [OF assms, of budget "is" "[]" st] by (auto simp: scan_ids_filter_def split: sum.splits)
  show ?thesis using w i scan_indexed_total [OF assms]
    by (simp add: scan_filter_def Let_def split: option.splits)
qed

lemma scan_filters_total:
  assumes "\<forall>f \<in> set fs. scan_ready V s f"
  shows "scan_filters ops V s now ml cm ss asc budget slack False dfs ts index fs st \<noteq> Inl err"
  using assms
proof (induction fs arbitrary: index st)
  case (Cons f fs)
  then have "scan_ready V s f" by simp
  from scan_filter_total [OF this] Cons show ?case by (auto simp: Let_def split: sum.splits)
qed simp

lemma scan_collect_total:
  assumes "\<forall>f \<in> set fs. scan_ready V s f"
  shows "scan_collect ops V s dfs fs now ml knd asc budget slack out0 False \<noteq> Inl err"
  using scan_filters_total [OF assms] by (auto simp: scan_collect_def Let_def split: sum.splits prod.splits)

end

end
