(* ===== verification/StoreProps.thy ===== *)
theory StoreProps
  imports IndexScan
begin

text \<open>
  The guarantees of the event store, over \<open>Store\<close>, \<open>StoreInv\<close> and \<open>IndexScan\<close>, each with an instance.
\<close>

section \<open>Properties\<close>

definition ex_store :: store where
  "ex_store = empty_store True True True True 10"

lemma ex_store_fields [simp]:
  "events ex_store = []" "deleted ex_store = []" "replaceable ex_store = []" "vanish ex_store = []" "banned ex_store = []"
  "purged_groups ex_store = []" "vanish_pending ex_store = []" "expiry_enabled ex_store"
  by (simp_all add: ex_store_def empty_store_def)

lemma json_ok_ref: "json_ok ref_ext"
  using ref_json by (simp add: json_ok_def)

lemma ids_commit_ex: "ids_commit ref_ext ex_store e"
  by (simp add: ids_commit_def abs_events_def)

lemma ex_puts:
  "snd (put_event_in ref_ext ref_unicode ex_store ex_note 0) = Stored"
  "snd (put_event_in ref_ext ref_unicode ex_store ex_profile 0) = Stored"
  by (simp_all add: put_event_in_def ex_bytes put_refusal_def vanished_or_pending_def delegator_bytes_def delegation_def
      purged_groups_blocks_def claim_slot_def expiry_def expiry_fields_def map_filter_simps
      is_replaceable_def is_replaceable_kind_def is_param_replaceable_kind_def
      GIFT_WRAP_KIND_def EPHEMERAL_GIFT_WRAP_KIND_def DELETION_KIND_def EXPIRATION_TAG_def Let_def word_le_nat_alt)



text \<open>
  C7: \<open>put_event_in\<close> implements insertion on the set of stored events: \<open>Stored\<close> adds the event to
  an empty slot, \<open>Replaced\<close> swaps it for the older event of its slot, and every other outcome
  leaves the store unchanged.
\<close>
theorem put_refines_insert:
  assumes "json_ok X" and "store_inv X U s" and "ids_commit X s e"
    and "put_event_in X U s e now = (s', out)"
  shows "store_inv X U s' \<and>
    (out = Stored \<and> (\<exists>i. id_bytes X e = Some i \<and> i \<notin> fst ` abs_events X s \<and> (is_replaceable e \<longrightarrow> occupant X s e = {})
        \<and> abs_events X s' = insert (i, e) (abs_events X s))
     \<or> out = Replaced \<and> (\<exists>i j f. id_bytes X e = Some i \<and> is_replaceable e \<and> occupant X s e = {(j, f)}
        \<and> newer (i, e) (j, f) \<and> abs_events X s' = insert (i, e) (abs_events X s - {(j, f)}))
     \<or> out \<noteq> Stored \<and> out \<noteq> Replaced \<and> s' = s)"
  by (rule put_event_in_refines [OF assms])

theorem put_refines_insert_witness:
  "\<exists>s'. put_event_in ref_ext ref_unicode ex_store ex_note 0 = (s', Stored) \<and> store_inv ref_ext ref_unicode s'
     \<and> abs_events ref_ext s' = insert (replicate 32 0, ex_note) (abs_events ref_ext ex_store)"
proof -
  obtain s' out where r: "put_event_in ref_ext ref_unicode ex_store ex_note 0 = (s', out)" by fastforce
  have inv: "store_inv ref_ext ref_unicode ex_store" unfolding ex_store_def by (rule store_inv_empty)
  have "out = Stored" using ex_puts(1) r by simp
  then show ?thesis using put_refines_insert [OF json_ok_ref inv ids_commit_ex r] r ex_bytes(1) by auto
qed



text \<open>
  C9: \<open>remove_event\<close> implements removal: the event with the given id leaves the set of stored events,
  no other event does, and the tables stay exact.
\<close>
theorem remove_refines_delete:
  assumes "store_inv X U s"
  shows "store_inv X U (remove_event X U s i) \<and>
    abs_events X (remove_event X U s i) = {(j, e) \<in> abs_events X s. j \<noteq> i}"
  using remove_event_inv [OF assms] remove_event_abs assms by (auto simp: store_inv_def)

theorem remove_refines_delete_witness:
  "\<exists>s. abs_events ref_ext s = {(replicate 32 0, ex_note)} \<and> store_inv ref_ext ref_unicode s \<and>
     abs_events ref_ext (remove_event ref_ext ref_unicode s (replicate 32 0)) = {}"
proof -
  obtain s' out where r: "put_event_in ref_ext ref_unicode ex_store ex_note 0 = (s', out)" by fastforce
  have inv: "store_inv ref_ext ref_unicode ex_store" unfolding ex_store_def by (rule store_inv_empty)
  have "out = Stored" using ex_puts(1) r by simp
  then have s': "store_inv ref_ext ref_unicode s'" "abs_events ref_ext s' = {(replicate 32 0, ex_note)}"
    using put_event_in_refines [OF json_ok_ref inv ids_commit_ex r] ex_bytes(1) by (auto simp: abs_events_def)
  then show ?thesis using remove_refines_delete [OF s'(1), of "replicate 32 0"] by (intro exI [of _ s']) auto
qed



text \<open>
  a vanished identity cannot come back. While the author, the delegator of an honoured
  delegation tag, or a recipient of a gift wrap has a vanish marker (completed or pending), a put
  leaves the store unchanged and is refused as invalid.
\<close>
theorem vanished_never_stored:
  assumes "pubkey_bytes X e = Some pk"
    and "vanished_or_pending s pk \<or> (\<exists>d. delegator_bytes X e = Some d \<and> vanished_or_pending s d)
      \<or> (kind e = GIFT_WRAP_KIND \<or> kind e = EPHEMERAL_GIFT_WRAP_KIND) \<and>
        (\<exists>t \<in> set (tags e). 2 \<le> length t \<and> t ! 0 = ''p'' \<and>
           (\<exists>r. decode_array X ID_LEN (t ! 1) = Some r \<and> vanished_or_pending s r))"
  shows "\<exists>reason. put_event_in X U s e now = (s, Invalid reason)"
proof (cases "id_bytes X e")
  case None
  then show ?thesis by (simp add: put_event_in_def)
next
  case (Some i)
  obtain reason where "put_refusal X s e now i pk = Some (Invalid reason)" using vanish_refusal [OF assms(2)] by blast
  then show ?thesis using Some assms(1) by (simp add: put_event_in_def)
qed

theorem vanished_never_stored_witness:
  "\<exists>reason. put_event_in ref_ext ref_unicode (ex_store\<lparr>vanish := [(replicate 32 0, [])]\<rparr>) ex_note 0
     = (ex_store\<lparr>vanish := [(replicate 32 0, [])]\<rparr>, Invalid reason)"
  by (rule vanished_never_stored [OF ex_bytes(2)]) (simp add: vanished_or_pending_def tget_def)

text \<open>
  C20: scans by time window, author and kind answer exactly. In a consistent store the key range of a
  window selects precisely the stored events whose \<open>created_at\<close> is in it (both ends included, also at
  the maximal timestamp), those of an author written by it or under its delegation, and those of a kind.
\<close>
theorem window_scans_exact:
  assumes "store_inv X U s" and "length pk = 32"
  shows "scan_ids (by_created s) (time_range created_key lo hi) =
      {i. \<exists>e. (i, e) \<in> abs_events X s \<and> lo \<le> created_at e \<and> created_at e \<le> hi}
    \<and> scan_ids (by_pubkey s) (time_range (pubkey_key pk) lo hi) =
      {i. \<exists>e. (i, e) \<in> abs_events X s \<and> (pubkey_bytes X e = Some pk \<or> delegator_bytes X e = Some pk)
         \<and> lo \<le> created_at e \<and> created_at e \<le> hi}
    \<and> scan_ids (by_kind s) (time_range (kind_key k) lo hi) =
      {i. \<exists>e. (i, e) \<in> abs_events X s \<and> kind e = k \<and> lo \<le> created_at e \<and> created_at e \<le> hi}"
  by (intro conjI created_scan_exact [OF assms(1)] author_scan_exact [OF assms] kind_scan_exact [OF assms(1)])

theorem window_scans_exact_witness:
  "\<exists>s'. put_event_in ref_ext ref_unicode ex_store ex_note 0 = (s', Stored) \<and>
     scan_ids (by_pubkey s') (time_range (pubkey_key (replicate 32 0)) 5 u64_max) = {replicate 32 0}"
proof -
  obtain s' out where r: "put_event_in ref_ext ref_unicode ex_store ex_note 0 = (s', out)" by fastforce
  have inv: "store_inv ref_ext ref_unicode ex_store" unfolding ex_store_def by (rule store_inv_empty)
  have out: "out = Stored" using ex_puts(1) r by simp
  then have s': "store_inv ref_ext ref_unicode s'" "abs_events ref_ext s' = {(replicate 32 0, ex_note)}"
    using put_event_in_refines [OF json_ok_ref inv ids_commit_ex r] ex_bytes(1) by (auto simp: abs_events_def)
  show ?thesis
    using window_scans_exact [OF s'(1), of "replicate 32 0" 5 u64_max] r out s'(2) ex_bytes(2) u64_max_max [of 5]
    by auto
qed

lemma digest_ok_ref: "digest_ok ref_ext"
  using ref_codec by (auto simp: digest_ok_def hex_codec_def)



text \<open>
  C22: a pending deletion survives a restart: decoding the record the writer stores gives back the
  targets, the addresses, the requesting key, the request time, the group and the gift-wrap flag.
\<close>
theorem pending_deletion_roundtrip:
  assumes "\<forall>t \<in> set targets. string_ok t" and "\<forall>a \<in> set addresses. address_ok a"
    and "\<forall>v. rp = Some v \<longrightarrow> string_ok v" and "\<forall>v. g = Some v \<longrightarrow> string_ok v"
    and "length targets < 2 ^ 32" and "length addresses < 2 ^ 32"
  shows "decode_pending_deletion (encode_pending_deletion targets addresses rp rc g w) =
    Some \<lparr>pd_targets = targets, pd_addresses = addresses, pd_request_pubkey = rp,
      pd_request_created = rc, pd_group = g, pd_purge_wraps = w\<rparr>"
  by (rule decode_encode_pending_deletion [OF assms])

theorem pending_deletion_roundtrip_witness:
  "decode_pending_deletion (encode_pending_deletion [''ab''] [\<lparr>addr_kind = 30023, addr_pubkey = ''cd'', addr_d = ''x''\<rparr>]
      (Some ''ef'') 7 None True) =
    Some \<lparr>pd_targets = [''ab''], pd_addresses = [\<lparr>addr_kind = 30023, addr_pubkey = ''cd'', addr_d = ''x''\<rparr>],
      pd_request_pubkey = Some ''ef'', pd_request_created = 7, pd_group = None, pd_purge_wraps = True\<rparr>"
  by (rule pending_deletion_roundtrip) (simp_all add: string_ok_def address_ok_def as_bytes_def code_def utf8_ok.simps word_le_nat_alt word_less_nat_alt)

text \<open>
  a pending group purge and a purged-group marker survive a restart: decoding gives back the
  group, the times, the scan bound and the create event that is exempt from the purge.
\<close>
theorem purge_records_roundtrip:
  assumes "string_ok gid" and "\<forall>i. create_id = Some i \<longrightarrow> length i = 32 \<and> i \<noteq> zero_id"
  shows "decode_pending_purge (encode_pending_purge gid now c u create_id) = Some (gid, now, c, u, create_id)
    \<and> decode_purged_group_marker (encode_purged_group_marker now c create_id) = (now, c, create_id)"
  using decode_encode_pending_purge [OF _ _ assms(2)] decode_encode_purged_group_marker [OF assms(2)] assms(1)
  by (simp add: string_ok_def)

theorem purge_records_roundtrip_witness:
  "decode_pending_purge (encode_pending_purge ''grp'' 9 8 7 (Some (replicate 32 1))) =
     Some (''grp'', 9, 8, 7, Some (replicate 32 1))"
  using purge_records_roundtrip [of "''grp''" "Some (replicate 32 1)" 9 8 7]
  by (simp add: string_ok_def as_bytes_def code_def utf8_ok.simps zero_id_def word_le_nat_alt word_less_nat_alt)

end
