(* ===== verification/ScanProps.thy ===== *)
theory ScanProps
  imports ScanAll StoreProps
begin

text \<open>
  The query engine with its event collector (\<open>REQ\<close> and \<open>COUNT\<close>): what a scan returns, that it never
  fails on a consistent store, the order of its result and the bound on its size.
\<close>

section \<open>The event collector\<close>

lemma event_ops_simps [simp]:
  "op_full (event_ops U hs fc) = ec_full" "op_cap (event_ops U hs fc) = ec_cap"
  "op_begin_filter (event_ops U hs fc) = ec_begin_filter" "op_skipped (event_ops U hs fc) = ec_skipped"
  "op_push (event_ops U hs fc) = ec_push"
  "op_sort_key (event_ops U hs fc) = (\<lambda>c. c\<lparr>ec_events := sort_by newest_first (ec_events c)\<rparr>)"
  "op_sort_asc (event_ops U hs fc) = (\<lambda>c. c\<lparr>ec_events := sort_by oldest_first (ec_events c)\<rparr>)"
  "op_sort_relevance (event_ops U hs fc) = ec_sort_relevance fc"
  "op_apply_search_limits (event_ops U hs fc) = ec_apply_search_limits U hs"
  by (simp_all add: event_ops_def)

lemma ec_append_simps [simp]:
  "ec_events (ec_append e c) = ec_events c @ [e]" "ec_skipped (ec_append e c) = ec_skipped c"
  "ec_cap (ec_append e c) = ec_cap c" "boundary_ok (ec_append e c) = boundary_ok c"
  "tie_cap (ec_append e c) = tie_cap c" "reserve_cap (ec_append e c) = reserve_cap c"
  "collect_reserve (ec_append e c) = collect_reserve c"
  by (simp_all add: ec_append_def)

lemma ec_push_cases:
  assumes "ec_push e i n c = (c', ok)"
  shows "(c' = c \<and> \<not> ok) \<or> (c' = c\<lparr>ec_skipped := True\<rparr> \<and> ok)
    \<or> (ok \<and> ec_events c' = ec_events c @ [e] \<and> ec_skipped c' = ec_skipped c \<and> ec_cap c' = ec_cap c
       \<and> boundary_ok c' = boundary_ok c \<and> tie_cap c' = tie_cap c \<and> reserve_cap c' = reserve_cap c
       \<and> collect_reserve c' = collect_reserve c)"
  using assms by (auto simp: ec_push_def Let_def split: if_splits option.splits)

lemma place_all_kept:
  "place_all U hs es qs kept dropped = (kept', dropped') \<Longrightarrow>
   (\<exists>xs. kept' = kept @ xs \<and> set xs \<subseteq> set es \<and> (distinct es \<longrightarrow> distinct xs) \<and> length xs \<le> length es \<and> (\<not> dropped' \<longrightarrow> xs = es))
   \<and> (dropped \<longrightarrow> dropped')"
proof (induction U hs es qs kept dropped rule: place_all.induct)
  case (2 U hs e es qs kept dropped)
  show ?case
  proof (cases "place U hs e qs")
    case None
    then show ?thesis using "2.IH"(1) [OF None] "2.prems" by fastforce
  next
    case (Some qs')
    then obtain xs where xs: "kept' = (kept @ [e]) @ xs" "set xs \<subseteq> set es" "distinct es \<longrightarrow> distinct xs"
      "length xs \<le> length es" "\<not> dropped' \<longrightarrow> xs = es" "dropped \<longrightarrow> dropped'"
      using "2.IH"(2) [OF Some] "2.prems" by auto
    then show ?thesis by (intro conjI exI [of _ "e # xs"]) auto
  qed
qed simp

lemma search_limits_kept:
  assumes "ec_apply_search_limits U hs fs m h c = (c', dropped)"
  shows "set (ec_events c') \<subseteq> set (ec_events c) \<and> (distinct (ec_events c) \<longrightarrow> distinct (ec_events c'))
    \<and> length (ec_events c') \<le> length (ec_events c) \<and> (\<not> dropped \<longrightarrow> ec_events c' = ec_events c)"
  using assms place_all_kept [of U hs "ec_events c" _ "[]" False]
  by (fastforce simp: ec_apply_search_limits_def split: prod.splits)

interpretation ec: scan_collector "event_ops U hs fc" ec_events "\<lambda>e i. e" for U hs fc
proof unfold_locales
  fix e i n c c' ok
  show "op_push (event_ops U hs fc) e i n c = (c', ok) \<Longrightarrow> ec_events c' = ec_events c \<or> ok \<and> ec_events c' = ec_events c @ [e]"
    using ec_push_cases [of e i n c c' ok] by auto
  show "op_push (event_ops U hs fc) e i n c = (c', True) \<Longrightarrow> op_skipped (event_ops U hs fc) c' \<or> ec_events c' = ec_events c @ [e]"
    using ec_push_cases [of e i n c c' True] by auto
  show "op_push (event_ops U hs fc) e i n c = (c', ok) \<Longrightarrow> op_skipped (event_ops U hs fc) c \<Longrightarrow> op_skipped (event_ops U hs fc) c'"
    using ec_push_cases [of e i n c c' ok] by auto
next
  fix fs m h c c' dropped
  show "op_apply_search_limits (event_ops U hs fc) fs m h c = (c', dropped) \<Longrightarrow>
      set (ec_events c') \<subseteq> set (ec_events c) \<and> (distinct (ec_events c) \<longrightarrow> distinct (ec_events c')) \<and> (\<not> dropped \<longrightarrow> set (ec_events c') = set (ec_events c))"
    using search_limits_kept [of U hs fs m h c c' dropped] by auto
qed (simp_all add: ec_begin_filter_def ec_sort_relevance_def)

section \<open>What a scan returns\<close>

text \<open>The events a request asks for: stored, deliverable and matched by a filter that takes part.\<close>

definition answer_set :: "scan_env \<Rightarrow> store \<Rightarrow> u64 \<Rightarrow> bool \<Rightarrow> filter_req list \<Rightarrow> event set" where
  "answer_set V s now count_mode fs =
     {e. \<exists>i f. f \<in> set fs \<and> (count_mode \<or> limit f \<noteq> Some 0) \<and> (i, e) \<in> abs_events (sx V) s
        \<and> deliverable (sx V) s now i e \<and> filter_matches (su V) (shs V) f e}"

lemma ec_new_events: "ec_events (ec_new a b c d) = []"
  by (simp add: ec_new_def)

lemma scan_exact:
  assumes ready: "\<forall>f \<in> set fs. scan_ready V s f" and ml: "max_limit \<noteq> 0"
    and res: "scan V fc s dfs fs now max_limit count_mode asc budget slack = Inr (evs, cut_short)"
  shows "set evs \<subseteq> answer_set V s now count_mode fs \<and> distinct evs \<and> (\<not> cut_short \<longrightarrow> set evs = answer_set V s now count_mode fs)"
proof (cases "fs = []")
  case True
  then have "evs = []" using res
    by (auto simp: scan_def scan_collect_def ec_new_def ec_sort_relevance_def ec_apply_search_limits_def Let_def all_search_terms_def
        split: if_splits)
  then show ?thesis using True by (simp add: answer_set_def)
next
  case False
  obtain out where c: "scan_collect (event_ops (su V) (shs V) fc) V s dfs fs now max_limit (if count_mode then Count else Query) asc budget slack
      (ec_new (scan_collect_cap count_mode fs max_limit slack) (\<not> count_mode) (length fs) (0 < slack)) False = Inr (out, cut_short)"
    and evs: "evs = ec_events out"
    using res by (auto simp: scan_def split: sum.splits prod.splits)
  obtain f where "f \<in> set fs" using False by (cases fs) auto
  then have ok: "events_ok (sx V) s" using ready scan_readyD(2) by blast
  have inj: "\<forall>i e j g. (i, e) \<in> abs_events (sx V) s \<longrightarrow> (j, g) \<in> abs_events (sx V) s \<longrightarrow> e = g \<longrightarrow> i = j"
    using abs_ok(1) [OF ok] by (metis option.inject)
  have k: "((if count_mode then Count else Query) = Count) = count_mode" by simp
  have D: "(\<lambda>(i, e). e) ` \<Union> (wanted V s now ` {f \<in> set fs. ec.contributes count_mode f}) = answer_set V s now count_mode fs"
    by (force simp: answer_set_def wanted_def ec.contributes_def)
  show ?thesis
    using ec.scan_collect_done [OF ready inj ec_new_events ml c] unfolding k D evs by simp
qed

section \<open>Size and order\<close>

definition size_cap :: "event_collector \<Rightarrow> nat" where
  "size_cap c = (if \<not> boundary_ok c then ec_cap c else if collect_reserve c then usize_add (tie_cap c) (reserve_cap c) else tie_cap c)"

definition within :: "nat \<Rightarrow> event_collector scan_state \<Rightarrow> bool" where
  "within n st \<longleftrightarrow> size_cap (sc_out st) = n \<and> length (ec_events (sc_out st)) \<le> n"

lemma consider_within:
  assumes "within n st" and "consider_event (event_ops U hs fc) V s fs budget False i st = (st', ok)"
  shows "within n st'"
proof (cases "sc_out st' = sc_out st")
  case True
  then show ?thesis using assms(1) by (simp add: within_def)
next
  case False
  then obtain e j k ok1 where nf: "\<not> ec_full (sc_out st)" and p: "ec_push e j k (sc_out st) = (sc_out st', ok1)"
    using consider_out [OF assms(2)] by auto
  have "length (ec_events (sc_out st)) < n"
    using nf assms(1) by (auto simp: within_def size_cap_def ec_full_def Let_def split: if_splits)
  then show ?thesis using ec_push_cases [OF p] assms(1) by (auto simp: within_def size_cap_def)
qed

lemma scan_collect_within:
  assumes "scan_collect (event_ops U hs fc) V s dfs fs now ml knd asc budget slack out0 False = Inr (out, cut_short)"
    and "ec_events out0 = []"
  shows "length (ec_events out) \<le> size_cap out0"
proof (cases "ml = 0")
  case True
  then show ?thesis using assms by (simp add: scan_collect_def Let_def)
next
  case False
  let ?ts = "all_search_terms V fs"
  let ?st0 = "\<lparr>sc_seen = {}, sc_out = out0, sc_examined = 0, sc_more = False\<rparr>"
  let ?dfs = "if ?ts = [] then [] else dfs ?ts"
  let ?ss = "knd = Query \<and> \<not> (\<exists>f \<in> set fs. \<not> has_search f)"
  obtain st where r: "scan_filters (event_ops U hs fc) V s now ml (knd = Count) ?ss asc budget slack False ?dfs ?ts 0 fs ?st0 = Inr st"
    using assms(1) False by (auto simp: scan_collect_def Let_def split: sum.splits)
  have out: "length (ec_events out) \<le> length (ec_events (sc_out st))"
  proof (cases "knd \<noteq> Count \<and> ?ss \<and> ?ts \<noteq> []")
    case True
    obtain c dropped where l: "ec_apply_search_limits U hs fs ml slack (ec_sort_relevance fc ?ts ?dfs (sc_out st)) = (c, dropped)"
      by fastforce
    then have "out = c" using assms(1) False r True by (auto simp: scan_collect_def Let_def)
    then show ?thesis using search_limits_kept [OF l] by (simp add: ec_sort_relevance_def)
  next
    case nosearch: False
    then show ?thesis using assms(1) False r by (auto simp: scan_collect_def Let_def split: if_splits)
  qed
  have "within (size_cap out0) st"
  proof (rule scan_filters_keeps [where P = "within (size_cap out0)", OF _ _ _ _ _ r])
    show "\<forall>fs i st st' ok. within (size_cap out0) st \<longrightarrow>
        consider_event (event_ops U hs fc) V s fs budget False i st = (st', ok) \<longrightarrow> within (size_cap out0) st'"
      using consider_within by blast
  qed (simp_all add: within_def stop_more_def size_cap_def ec_begin_filter_def assms(2))
  then show ?thesis using out by (simp add: within_def)
qed

lemma newest_first_order:
  "newest_first a b \<noteq> Greater \<longleftrightarrow> created_at b < created_at a \<or> created_at a = created_at b \<and> ev_id a \<le> ev_id b"
  by (auto simp: newest_first_def cmp_def not_less le_less)

lemma sorted_newest: "sorted_wrt (\<lambda>a b. newest_first a b \<noteq> Greater) (sort_by newest_first es)"
  by (rule sorted_sort_by) (auto simp: newest_first_def cmp_def split: ordering.splits if_splits)

lemma scan_total:
  assumes "\<forall>f \<in> set fs. scan_ready V s f"
  shows "\<exists>evs cut_short. scan V fc s dfs fs now max_limit count_mode asc budget slack = Inr (evs, cut_short)"
  using ec.scan_collect_total [OF assms] by (auto simp: scan_def split: sum.splits)

lemma scan_collect_of:
  assumes "scan V fc s dfs fs now max_limit count_mode asc budget slack = Inr (evs, cut_short)"
  obtains out where "scan_collect (event_ops (su V) (shs V) fc) V s dfs fs now max_limit (if count_mode then Count else Query) asc budget slack
      (ec_new (scan_collect_cap count_mode fs max_limit slack) (\<not> count_mode) (length fs) (0 < slack)) False = Inr (out, cut_short)"
    and "evs = ec_events out"
  using assms by (auto simp: scan_def split: sum.splits prod.splits)

lemma size_cap_new:
  "size_cap (ec_new cap bok n reserve) \<le> (if bok then if reserve then 4 * cap else 2 * cap else cap)"
  by (auto simp: size_cap_def ec_new_def usize_mul_def usize_add_def)

lemma scan_sorted:
  assumes "scan V fc s dfs fs now max_limit False False budget slack = Inr (evs, cut_short)" and "\<exists>f \<in> set fs. \<not> has_search f"
  shows "sorted_wrt (\<lambda>a b. newest_first a b \<noteq> Greater) evs"
proof -
  obtain out where c: "scan_collect (event_ops (su V) (shs V) fc) V s dfs fs now max_limit Query False budget slack
      (ec_new (scan_collect_cap False fs max_limit slack) True (length fs) (0 < slack)) False = Inr (out, cut_short)"
    and evs: "evs = ec_events out"
    using scan_collect_of [OF assms(1)] by auto
  have "ec_events out = [] \<or> (\<exists>es. ec_events out = sort_by newest_first es)"
    using c assms(2) by (auto simp: scan_collect_def Let_def ec_new_def split: if_splits sum.splits)
  then show ?thesis using sorted_newest evs by auto
qed

section \<open>An example request\<close>

definition ref_env :: scan_env where
  "ref_env = \<lparr>sx = ref_ext, su = ref_unicode, shs = remdups, neg_light = (\<lambda>_. None)\<rparr>"

definition ex_req :: filter_req where
  "ex_req = \<lparr>ids = None, authors = None, kinds = Some [1], since = None, until = None, limit = Some 10, search = None, ftags = []\<rparr>"

definition note_store :: store where
  "note_store = fst (put_event_in ref_ext ref_unicode ex_store ex_note 0)"

lemma note_store_facts:
  "store_inv ref_ext ref_unicode note_store" "abs_events ref_ext note_store = {(replicate 32 0, ex_note)}" "meta_index note_store"
proof -
  obtain s' out where r: "put_event_in ref_ext ref_unicode ex_store ex_note 0 = (s', out)" by fastforce
  have inv: "store_inv ref_ext ref_unicode ex_store" unfolding ex_store_def by (rule store_inv_empty)
  have "out = Stored" using ex_puts(1) r by simp
  then show "store_inv ref_ext ref_unicode note_store" "abs_events ref_ext note_store = {(replicate 32 0, ex_note)}"
    using put_event_in_refines [OF json_ok_ref inv ids_commit_ex r] ex_bytes(1) r by (auto simp: abs_events_def note_store_def)
  have keep: "meta_index (write_event X U s e i pk) = meta_index s" for X U s e i pk
    by (simp add: write_event_def put_indexes_def bump_state_seq_def bump_meta_counter_def Let_def split: option.splits)
  have "\<not> is_replaceable ex_note"
    by (simp add: is_replaceable_def is_replaceable_kind_def is_param_replaceable_kind_def word_le_nat_alt)
  then show "meta_index note_store"
    using keep by (simp add: note_store_def put_event_in_def ex_bytes ex_store_def empty_store_def split: option.splits)
qed

lemma ref_env_simps [simp]: "sx ref_env = ref_ext" "su ref_env = ref_unicode" "shs ref_env = remdups"
  by (simp_all add: ref_env_def)

lemma ex_ready: "scan_ready ref_env note_store ex_req"
  using note_store_facts ref_codec hash_order_remdups
  by (simp add: scan_ready_def ex_req_def author_fields_ok_def ex_bytes delegator_tag_def)

section \<open>Properties\<close>

text \<open>
  C1: a query answers exactly what it was asked. On a consistent store, whatever index the planner
  picks for each filter, a scan returns only stored, deliverable events that match one of the filters
  taking part, each once; and if it does not report \<open>more\<close>, it returns all of them.
\<close>
theorem scan_answers_exactly:
  assumes "\<forall>f \<in> set fs. scan_ready V s f" and "max_limit \<noteq> 0"
    and "scan V fc s dfs fs now max_limit count_mode asc budget slack = Inr (evs, cut_short)"
  shows "set evs \<subseteq> answer_set V s now count_mode fs \<and> distinct evs
    \<and> (\<not> cut_short \<longrightarrow> set evs = answer_set V s now count_mode fs)"
  by (rule scan_exact [OF assms])

lemma ex_answer: "answer_set ref_env note_store 0 False [ex_req] \<subseteq> {ex_note}"
  by (auto simp: answer_set_def note_store_facts)

theorem scan_answers_exactly_witness:
  "\<exists>evs cut_short. scan ref_env (\<lambda>_ _ _ _. Equal) note_store (\<lambda>_. []) [ex_req] 0 500 False False 1000 0 = Inr (evs, cut_short)
     \<and> distinct evs \<and> set evs \<subseteq> {ex_note}"
proof -
  have ready: "\<forall>f \<in> set [ex_req]. scan_ready ref_env note_store f" by (simp add: ex_ready)
  obtain evs cut_short where r: "scan ref_env (\<lambda>_ _ _ _. Equal) note_store (\<lambda>_. []) [ex_req] 0 500 False False 1000 0 = Inr (evs, cut_short)"
    using scan_total [OF ready] by blast
  then show ?thesis using scan_answers_exactly [OF ready _ r] ex_answer by auto
qed

text \<open>
  C24: on a consistent store a scan never fails: no index key is too short to parse, so every request
  gets an answer.
\<close>
theorem scan_never_fails:
  assumes "\<forall>f \<in> set fs. scan_ready V s f"
  shows "\<exists>evs cut_short. scan V fc s dfs fs now max_limit count_mode asc budget slack = Inr (evs, cut_short)"
  by (rule scan_total [OF assms])

theorem scan_never_fails_witness:
  "\<exists>evs cut_short. scan ref_env (\<lambda>_ _ _ _. Equal) note_store (\<lambda>_. []) [ex_req] 0 500 True False 1000 0 = Inr (evs, cut_short)"
  by (rule scan_never_fails) (simp add: ex_ready)



end
