(* ===== verification/GroupData.thy ===== *)
theory GroupData
  imports Keys "HOL-Library.AList"
begin

text \<open>
  NIP-29 relay-based groups (\<open>src/src/nips/nip29/mod.rs\<close>, \<open>events.rs\<close>): the kinds and bounds, the tag
  accessors, the group record with its settings and roles, and how a metadata event changes the settings.

  A \<open>HashMap\<close> is an association list with distinct keys (\<open>AList.update\<close>, \<open>AList.delete\<close>, \<open>map_of\<close>), a
  \<open>HashSet\<close> a list without repetitions (\<open>List.insert\<close>, \<open>removeAll\<close>); where the code iterates over one, the
  model iterates in list order.
\<close>

section \<open>Kinds and bounds\<close>

definition GROUP_META :: u64 where "GROUP_META = 39000"
definition GROUP_ADMINS :: u64 where "GROUP_ADMINS = 39001"
definition GROUP_MEMBERS :: u64 where "GROUP_MEMBERS = 39002"
definition GROUP_ROLES :: u64 where "GROUP_ROLES = 39003"
definition GROUP_PARTICIPANTS :: u64 where "GROUP_PARTICIPANTS = 39004"
definition GROUP_PINS :: u64 where "GROUP_PINS = 39005"
definition SYSTEM_MESSAGE :: u64 where "SYSTEM_MESSAGE = 40099"
definition MEMBER_ADDED :: u64 where "MEMBER_ADDED = 44100"
definition MEMBER_REMOVED :: u64 where "MEMBER_REMOVED = 44101"
definition MOD_MIN :: u64 where "MOD_MIN = 9000"
definition MOD_MAX :: u64 where "MOD_MAX = 9020"
definition PUT_USER :: u64 where "PUT_USER = 9000"
definition REMOVE_USER :: u64 where "REMOVE_USER = 9001"
definition JOIN_MIRROR_TAG :: string where "JOIN_MIRROR_TAG = ''join_mirror''"
definition CREATE_GROUP :: u64 where "CREATE_GROUP = 9007"
definition DELETE_GROUP :: u64 where "DELETE_GROUP = 9008"
definition GROUP_JOIN :: u64 where "GROUP_JOIN = 9021"
definition GROUP_LEAVE :: u64 where "GROUP_LEAVE = 9022"
definition CREATE_INVITE :: u64 where "CREATE_INVITE = 9009"
definition CREATE_ID_TAG :: string where "CREATE_ID_TAG = ''create_id''"

definition MAX_PINS :: nat where "MAX_PINS = 100"
definition MAX_INVITES :: nat where "MAX_INVITES = 100"
definition MAX_GHOSTS :: nat where "MAX_GHOSTS = 10000"
definition MAX_INVITE_CODE_BYTES :: nat where "MAX_INVITE_CODE_BYTES = 256"
definition MAX_CHILD_ID_BYTES :: nat where "MAX_CHILD_ID_BYTES = TAG_INDEX_VALUE_MAX"
definition MAX_CHILD_BYTES :: nat where "MAX_CHILD_BYTES = 64 * 1024"
definition MAX_ROLES_PER_MEMBER :: nat where "MAX_ROLES_PER_MEMBER = 16"
definition MAX_GROUP_ROLES :: nat where "MAX_GROUP_ROLES = 256"
definition MAX_ROLE_BYTES :: nat where "MAX_ROLE_BYTES = 256"
definition MAX_ROLES_BYTES_PER_MEMBER :: nat where "MAX_ROLES_BYTES_PER_MEMBER = 4 * 1024"
definition MAX_GROUP_ROLE_BYTES :: nat where "MAX_GROUP_ROLE_BYTES = 64 * 1024"
definition MAX_ADMIN_ROLE_TAGS :: nat where "MAX_ADMIN_ROLE_TAGS = 4096"
definition MAX_ADMIN_ROLE_BYTES :: nat where "MAX_ADMIN_ROLE_BYTES = 512 * 1024"
definition MAX_MEMBERS :: nat where "MAX_MEMBERS = 10000"
definition MAX_TOTAL_MEMBERS :: nat where "MAX_TOTAL_MEMBERS = 1000000"
definition DECLARED_CHILDREN_PER_GROUP :: nat where "DECLARED_CHILDREN_PER_GROUP = 4"
definition MAX_DECLARED_CHILDREN :: nat where "MAX_DECLARED_CHILDREN = 10000"
definition MEMBERS_EAGER_MAX :: nat where "MEMBERS_EAGER_MAX = 1000"
definition MEMBERS_INTERVAL_SECS :: u64 where "MEMBERS_INTERVAL_SECS = 60"

text \<open>The \<open>Vec::retain\<close> with a running byte budget.\<close>

fun retain_budget :: "nat \<Rightarrow> nat \<Rightarrow> string list \<Rightarrow> string list" where
  "retain_budget cap used [] = []"
| "retain_budget cap used (r # rs) =
     (if used + length r > cap then retain_budget cap used rs
      else r # retain_budget cap (used + length r) rs)"

definition bounded_member_roles :: "string list \<Rightarrow> string list" where
  "bounded_member_roles roles =
     take MAX_ROLES_PER_MEMBER
       (retain_budget MAX_ROLES_BYTES_PER_MEMBER 0
         (remdups_adj (sort (filter (\<lambda>r. r \<noteq> [] \<and> length r \<le> MAX_ROLE_BYTES) roles))))"

section \<open>Tags\<close>

definition tag_value :: "event \<Rightarrow> string \<Rightarrow> string option" where
  "tag_value e name = map_option (\<lambda>t. t ! 1) (List.find (\<lambda>t. 2 \<le> length t \<and> t ! 0 = name) (tags e))"

definition event_tag_values :: "event \<Rightarrow> string \<Rightarrow> string list" where
  "event_tag_values e name = map (\<lambda>t. t ! 1) (filter (\<lambda>t. 2 \<le> length t \<and> t ! 0 = name) (tags e))"

definition group_id :: "event \<Rightarrow> string option" where "group_id e = tag_value e ''h''"
definition group_id_d :: "event \<Rightarrow> string option" where "group_id_d e = tag_value e ''d''"

definition is_pubkey_hex :: "string \<Rightarrow> bool" where
  "is_pubkey_hex v \<longleftrightarrow> length v = 64
     \<and> list_all (\<lambda>b. is_ascii_digit b \<or> code CHR ''a'' \<le> code b \<and> code b \<le> code CHR ''f'') v"

definition malformed_member_tags :: "event \<Rightarrow> string list" where
  "malformed_member_tags e =
     filter (\<lambda>v. \<not> is_pubkey_hex v)
       (map (\<lambda>t. t ! 1) (filter (\<lambda>t. (kind e = PUT_USER \<or> kind e = REMOVE_USER) \<and> 2 \<le> length t \<and> t ! 0 = ''p'') (tags e)))"

definition is_group_action_kind :: "u64 \<Rightarrow> bool" where
  "is_group_action_kind k \<longleftrightarrow> MOD_MIN \<le> k \<and> k \<le> MOD_MAX \<or> k = GROUP_JOIN \<or> k = GROUP_LEAVE"

definition is_group_action :: "event \<Rightarrow> bool" where
  "is_group_action e \<longleftrightarrow> is_group_action_kind (kind e)"

definition is_membership_notice_kind :: "u64 \<Rightarrow> bool" where
  "is_membership_notice_kind k \<longleftrightarrow> k = 44100 \<or> k = 44101"

definition is_group_meta :: "u64 \<Rightarrow> bool" where
  "is_group_meta k \<longleftrightarrow> GROUP_META \<le> k \<and> k \<le> GROUP_PINS"

definition is_group_event :: "event \<Rightarrow> bool" where
  "is_group_event e \<longleftrightarrow> \<not> is_membership_notice_kind (kind e)
     \<and> (group_id e \<noteq> None \<or> is_group_meta (kind e) \<and> group_id_d e \<noteq> None)"

definition needs_group_store :: "event \<Rightarrow> bool" where
  "needs_group_store e \<longleftrightarrow> is_group_event e \<or> is_membership_notice_kind (kind e) \<and> group_id e \<noteq> None"

definition group_id_any :: "event \<Rightarrow> string option" where
  "group_id_any e =
     (if is_membership_notice_kind (kind e) then None
      else if is_group_meta (kind e) then group_id_d e
      else group_id e)"

definition previous_tags :: "event \<Rightarrow> string list" where
  "previous_tags e = concat (map tl (filter (\<lambda>t. 2 \<le> length t \<and> t ! 0 = ''previous'') (tags e)))"

definition delete_targets :: "event \<Rightarrow> string list" where
  "delete_targets e = event_tag_values e ''e''"

definition event_code :: "event \<Rightarrow> string option" where "event_code e = tag_value e ''code''"

text \<open>\<open>tag.first() == name\<close> for some tag, and \<open>tag.get(1)\<close>.\<close>

definition has_tag :: "event \<Rightarrow> string \<Rightarrow> bool" where
  "has_tag e name \<longleftrightarrow> list_ex (\<lambda>t. t \<noteq> [] \<and> t ! 0 = name) (tags e)"

definition second :: "tag \<Rightarrow> string option" where
  "second t = (if 2 \<le> length t then Some (t ! 1) else None)"

definition is_some_and :: "'a option \<Rightarrow> ('a \<Rightarrow> bool) \<Rightarrow> bool" where
  "is_some_and x P \<longleftrightarrow> (case x of None \<Rightarrow> False | Some v \<Rightarrow> P v)"

section \<open>Groups\<close>

record group_settings =
  gs_private :: bool
  gs_restricted :: bool
  gs_closed :: bool
  gs_hidden :: bool
  gs_supported_kinds :: "u64 list option"
  gs_name :: string
  gs_picture :: string
  gs_banner :: string
  gs_about :: string
  gs_livekit :: bool
  gs_topic :: "string option"
  gs_purpose :: "string option"
  gs_ttl :: "u64 option"
  gs_archived :: bool
  gs_join_role :: "string option"

definition default_settings :: group_settings where
  "default_settings = \<lparr>gs_private = False, gs_restricted = False, gs_closed = False, gs_hidden = False,
     gs_supported_kinds = None, gs_name = [], gs_picture = [], gs_banner = [], gs_about = [], gs_livekit = False,
     gs_topic = None, gs_purpose = None, gs_ttl = None, gs_archived = False, gs_join_role = None\<rparr>"

record group =
  g_members :: "(string \<times> string list) list"
  g_settings :: group_settings
  g_parent :: "string option"
  g_children :: "string list"
  g_pins :: "(string \<times> string) list"
  g_invites :: "string list"
  g_creator :: "string option"
  g_created_at :: "u64 option"
  g_create_id :: "string option"
  g_creator_role_explicit :: bool
  g_channel_type :: string
  g_labels :: "string list"
  g_buzz_metadata :: bool
  g_hidden_for :: "string list"
  g_guests :: "string list"
  g_bots :: "string list"

definition default_group :: group where
  "default_group = \<lparr>g_members = [], g_settings = default_settings, g_parent = None, g_children = [], g_pins = [],
     g_invites = [], g_creator = None, g_created_at = None, g_create_id = None, g_creator_role_explicit = False,
     g_channel_type = [], g_labels = [], g_buzz_metadata = False, g_hidden_for = [], g_guests = [], g_bots = []\<rparr>"

definition is_admin :: "group \<Rightarrow> string \<Rightarrow> bool" where
  "is_admin g pk \<longleftrightarrow> (case map_of (g_members g) pk of None \<Rightarrow> False | Some roles \<Rightarrow> roles \<noteq> [])"

definition is_member :: "group \<Rightarrow> string \<Rightarrow> bool" where
  "is_member g pk \<longleftrightarrow> map_of (g_members g) pk \<noteq> None"

definition is_guest :: "group \<Rightarrow> string \<Rightarrow> bool" where
  "is_guest g pk \<longleftrightarrow> pk \<in> set (g_guests g)"

definition has_invite :: "group \<Rightarrow> string \<Rightarrow> bool" where
  "has_invite g c \<longleftrightarrow> c \<in> set (g_invites g)"

definition CHANNEL_TYPES :: "string list" where
  "CHANNEL_TYPES = [''stream'', ''forum'', ''dm'', ''workflow'', ''system'']"

definition channel_type :: "event \<Rightarrow> string" where
  "channel_type e =
     (case tag_value e ''channel_type'' of
        None \<Rightarrow> ''stream''
      | Some v \<Rightarrow> if v \<in> set CHANNEL_TYPES then v else ''stream'')"

definition tag_grants_privileged_role :: "tag \<Rightarrow> bool \<Rightarrow> string option \<Rightarrow> bool" where
  "tag_grants_privileged_role t buzz buzz_role =
     (let rs = filter (\<lambda>r. r \<noteq> []) (drop 2 t)
      in if \<not> buzz then rs \<noteq> []
         else list_ex (\<lambda>r. r \<noteq> ''member'' \<and> r \<noteq> ''guest'' \<and> r \<noteq> ''bot'') rs
            \<or> rs = [] \<and> (case buzz_role of None \<Rightarrow> False
                 | Some r \<Rightarrow> r \<noteq> [] \<and> r \<noteq> ''guest'' \<and> r \<noteq> ''member'' \<and> r \<noteq> ''bot''))"

definition has_replay_sensitive_buzz_tags :: "event \<Rightarrow> bool" where
  "has_replay_sensitive_buzz_tags e \<longleftrightarrow>
     list_ex (\<lambda>t. t \<noteq> [] \<and> (t ! 0 = ''channel_type'' \<or> t ! 0 = ''visibility'')) (tags e)"

definition label_values :: "event \<Rightarrow> string list" where
  "label_values e = map (\<lambda>t. t ! 1) (filter (\<lambda>t. 2 \<le> length t \<and> t ! 0 = ''t'') (tags e))"

datatype channel_error =
    BadVisibility string
  | UnknownChannelType string
  | BadTtl
  | TooManyLabels
  | EmptyLabelCombined
  | MalformedLabel string
  | ReservedLabel string
  | DuplicateLabel string

fun check_labels :: "string list \<Rightarrow> string list \<Rightarrow> channel_error option" where
  "check_labels seen [] = None"
| "check_labels seen (l # ls) =
     (if l = [] then check_labels seen ls
      else if length l > 64
        \<or> \<not> list_all (\<lambda>b. is_ascii_lowercase b \<or> is_ascii_digit b \<or> b = CHR ''.'' \<or> b = CHR '':'' \<or> b = CHR ''-'') l
        then Some (MalformedLabel l)
      else if l \<in> set CHANNEL_TYPES then Some (ReservedLabel l)
      else if l \<in> set seen then Some (DuplicateLabel l)
      else check_labels (l # seen) ls)"

definition validate_channel_tags :: "event \<Rightarrow> channel_error option" where
  "validate_channel_tags e =
     (let edits = kind e = CREATE_GROUP \<or> kind e = 9002; labels = label_values e in
      if is_some_and (tag_value e ''visibility'') (\<lambda>v. v \<noteq> ''open'' \<and> v \<noteq> ''private'')
        then Some (BadVisibility (the (tag_value e ''visibility'')))
      else if kind e = CREATE_GROUP \<and> is_some_and (tag_value e ''channel_type'') (\<lambda>v. v \<notin> set CHANNEL_TYPES)
        then Some (UnknownChannelType (the (tag_value e ''channel_type'')))
      else if edits \<and> is_some_and (tag_value e ''ttl'') (\<lambda>v. v \<noteq> [] \<and> parse_u64 v = None) then Some BadTtl
      else if \<not> edits then None
      else if length labels > 8 then Some TooManyLabels
      else if [] \<in> set labels \<and> length labels > 1 then Some EmptyLabelCombined
      else check_labels [] labels)"

section \<open>Applying metadata to the settings\<close>

text \<open>\<open>value != Some("false") && value != Some("0")\<close>, and an optional field cleared by an empty value.\<close>

definition flag_on :: "string option \<Rightarrow> bool" where
  "flag_on v \<longleftrightarrow> v \<noteq> Some ''false'' \<and> v \<noteq> Some ''0''"

definition nonempty_value :: "string option \<Rightarrow> string option" where
  "nonempty_value v = (case v of None \<Rightarrow> None | Some s \<Rightarrow> if s = [] then None else Some s)"

definition is_dm_or_system :: "group \<Rightarrow> bool" where
  "is_dm_or_system g \<longleftrightarrow> g_channel_type g = ''dm'' \<or> g_channel_type g = ''system''"

definition set_text :: "string \<Rightarrow> string option \<Rightarrow> group_settings \<Rightarrow> group_settings" where
  "set_text name v s =
     (case v of None \<Rightarrow> s
      | Some x \<Rightarrow>
          if name = ''name'' then s\<lparr>gs_name := x\<rparr>
          else if name = ''picture'' then s\<lparr>gs_picture := x\<rparr>
          else if name = ''banner'' then s\<lparr>gs_banner := x\<rparr>
          else s\<lparr>gs_about := x\<rparr>)"

definition make_private :: "bool \<Rightarrow> group_settings \<Rightarrow> group_settings" where
  "make_private hide s =
     (let s = s\<lparr>gs_private := True, gs_restricted := True, gs_closed := True\<rparr>
      in if hide then s\<lparr>gs_hidden := True\<rparr> else s)"

definition make_open :: "bool \<Rightarrow> group_settings \<Rightarrow> group_settings" where
  "make_open hide s =
     (let s = s\<lparr>gs_private := False, gs_restricted := False, gs_closed := False\<rparr>
      in if hide then s\<lparr>gs_hidden := False\<rparr> else s)"

definition is_text_tag :: "string \<Rightarrow> bool" where
  "is_text_tag name \<longleftrightarrow> name = ''name'' \<or> name = ''picture'' \<or> name = ''banner'' \<or> name = ''about''"

text \<open>One tag of a partial (Buzz) update.\<close>

definition buzz_setting :: "bool \<Rightarrow> group_settings \<Rightarrow> tag \<Rightarrow> group_settings" where
  "buzz_setting hide s t =
     (if t = [] then s else
      let name = t ! 0; v = second t in
      if is_text_tag name then set_text name v s
      else if name = ''topic'' then s\<lparr>gs_topic := nonempty_value v\<rparr>
      else if name = ''purpose'' then s\<lparr>gs_purpose := nonempty_value v\<rparr>
      else if name = ''ttl'' then s\<lparr>gs_ttl := Option.bind (nonempty_value v) parse_u64\<rparr>
      else if name = ''archived'' then s\<lparr>gs_archived := flag_on v\<rparr>
      else if name = ''join_role'' then s\<lparr>gs_join_role := nonempty_value v\<rparr>
      else if name = ''visibility'' then
        (if v = Some ''private'' then make_private hide s
         else if v = Some ''open'' \<or> v = Some ''public'' then make_open hide s
         else s)
      else if name = ''private'' then s\<lparr>gs_private := True\<rparr>
      else if name = ''public'' then s\<lparr>gs_private := False\<rparr>
      else if name = ''restricted'' then s\<lparr>gs_restricted := flag_on v\<rparr>
      else if name = ''closed'' then s\<lparr>gs_closed := flag_on v\<rparr>
      else if name = ''hidden'' then s\<lparr>gs_hidden := flag_on v\<rparr>
      else if name = ''livekit'' then s\<lparr>gs_livekit := flag_on v\<rparr>
      else if name = ''supported_kinds'' then s\<lparr>gs_supported_kinds := Some (List.map_filter parse_u64 (tl t))\<rparr>
      else s)"

text \<open>A \<open>join_role\<close> tag re-derives \<open>restricted\<close>, unless the event sets it explicitly.\<close>

definition join_role_restricts :: "event \<Rightarrow> group_settings \<Rightarrow> group_settings" where
  "join_role_restricts e s =
     (if has_tag e ''join_role'' \<and> \<not> has_tag e ''restricted'' then
        (case gs_join_role s of
           None \<Rightarrow> s
         | Some role \<Rightarrow>
             if role = ''member'' then s\<lparr>gs_restricted := (gs_restricted s \<and> gs_private s)\<rparr>
             else s\<lparr>gs_restricted := True\<rparr>)
      else s)"

definition update_labels :: "event \<Rightarrow> group \<Rightarrow> group" where
  "update_labels e g =
     (if has_tag e ''t'' then g\<lparr>g_labels := filter (\<lambda>l. l \<noteq> []) (label_values e)\<rparr> else g)"

definition apply_plain_create_privacy :: "group \<Rightarrow> event \<Rightarrow> group" where
  "apply_plain_create_privacy g e =
     g\<lparr>g_settings := foldl (\<lambda>s t.
        if t = [] then s
        else if t ! 0 = ''visibility'' \<and> second t = Some ''private'' then make_private False s
        else if t ! 0 = ''private'' then s\<lparr>gs_private := True\<rparr>
        else if t ! 0 = ''restricted'' then s\<lparr>gs_restricted := True\<rparr>
        else if t ! 0 = ''closed'' then s\<lparr>gs_closed := True\<rparr>
        else if t ! 0 = ''hidden'' then s\<lparr>gs_hidden := True\<rparr>
        else s) (g_settings g) (tags e)\<rparr>"

definition is_buzz_origin :: "group \<Rightarrow> bool" where
  "is_buzz_origin g \<longleftrightarrow> g_channel_type g \<noteq> [] \<or> g_buzz_metadata g"

text \<open>The settings a whole-metadata edit starts from.\<close>

definition nip29_base :: "group \<Rightarrow> bool \<Rightarrow> group_settings" where
  "nip29_base g history =
     (let old = g_settings g;
          s = default_settings\<lparr>gs_topic := gs_topic old, gs_purpose := gs_purpose old, gs_ttl := gs_ttl old,
                gs_archived := gs_archived old, gs_join_role := gs_join_role old\<rparr>
      in if history \<and> is_buzz_origin g then
           s\<lparr>gs_name := gs_name old, gs_picture := gs_picture old, gs_banner := gs_banner old, gs_about := gs_about old,
             gs_private := gs_private old, gs_restricted := gs_restricted old, gs_closed := gs_closed old,
             gs_hidden := gs_hidden old, gs_livekit := gs_livekit old, gs_supported_kinds := gs_supported_kinds old\<rparr>
         else if is_buzz_origin g then
           s\<lparr>gs_private := gs_private old, gs_restricted := gs_restricted old, gs_closed := gs_closed old,
             gs_hidden := gs_hidden old\<rparr>
         else s)"

definition nip29_setting :: "bool \<Rightarrow> bool \<Rightarrow> bool \<Rightarrow> group_settings \<Rightarrow> tag \<Rightarrow> group_settings" where
  "nip29_setting hide origin history s t =
     (if t = [] then s else
      let name = t ! 0; v = second t in
      if is_text_tag name then set_text name v s
      else if name = ''private'' then s\<lparr>gs_private := True\<rparr>
      else if name = ''public'' \<and> origin then s\<lparr>gs_private := False\<rparr>
      else if name = ''restricted'' then s\<lparr>gs_restricted := (if origin then flag_on v else True)\<rparr>
      else if name = ''closed'' then s\<lparr>gs_closed := (if origin then flag_on v else True)\<rparr>
      else if name = ''hidden'' then s\<lparr>gs_hidden := (if origin then flag_on v else True)\<rparr>
      else if name = ''livekit'' then s\<lparr>gs_livekit := (if origin then flag_on v else True)\<rparr>
      else if name = ''topic'' \<and> origin then s\<lparr>gs_topic := nonempty_value v\<rparr>
      else if name = ''purpose'' \<and> origin then s\<lparr>gs_purpose := nonempty_value v\<rparr>
      else if name = ''ttl'' \<and> origin then s\<lparr>gs_ttl := Option.bind (nonempty_value v) parse_u64\<rparr>
      else if name = ''archived'' \<and> origin then s\<lparr>gs_archived := flag_on v\<rparr>
      else if name = ''join_role'' \<and> origin then s\<lparr>gs_join_role := nonempty_value v\<rparr>
      else if name = ''visibility'' \<and> (origin \<or> history) then
        (if v = Some ''private'' then make_private hide s
         else if (v = Some ''open'' \<or> v = Some ''public'') \<and> origin then make_open hide s
         else s)
      else if name = ''supported_kinds'' then s\<lparr>gs_supported_kinds := Some (List.map_filter parse_u64 (tl t))\<rparr>
      else s)"

definition apply_nip29_settings :: "group \<Rightarrow> event \<Rightarrow> bool \<Rightarrow> group" where
  "apply_nip29_settings g e history =
     (let s = foldl (nip29_setting (is_dm_or_system g) (is_buzz_origin g) history) (nip29_base g history) (tags e)
      in if is_buzz_origin g then (update_labels e g)\<lparr>g_settings := join_role_restricts e s\<rparr>
         else g\<lparr>g_settings := s\<rparr>)"

definition apply_settings :: "group \<Rightarrow> event \<Rightarrow> bool \<Rightarrow> bool \<Rightarrow> group" where
  "apply_settings g e buzz history =
     (if \<not> buzz then apply_nip29_settings g e history
      else update_labels e
        (g\<lparr>g_settings := join_role_restricts e (foldl (buzz_setting (is_dm_or_system g)) (g_settings g) (tags e))\<rparr>))"

end
