(* ===== verification/Removal.thy ===== *)
theory Removal
  imports Store GroupData
begin

text \<open>
  Event removal (\<open>src/src/db/removal.rs\<close>): NIP-09 deletion requests, NIP-59 gift-wrap purges, NIP-86
  event bans, NIP-29 group purges, NIP-62 vanish requests and the NIP-40 expiry purge, with their
  durable pending records and the startup resume. The long walks work through an index in chunks, one
  write transaction each, and stop at a chunk boundary when the process shuts down; a transaction
  that is dropped leaves the store as it was. LMDB faults are not modelled.
\<close>

section \<open>Which derived state a removal touches\<close>

definition STATE_STAMP_KEY :: bytes where "STATE_STAMP_KEY = as_bytes ''state_stamp''"

definition bump_state_stamp :: "store \<Rightarrow> store" where
  "bump_state_stamp s = bump_meta_counter s STATE_STAMP_KEY"

record state_removed =
  sr_group :: bool
  sr_role :: bool
  sr_group_ids :: "string list option"

definition STATE_REMOVED_SCOPE_CAP :: nat where "STATE_REMOVED_SCOPE_CAP = 1024"

definition no_state :: state_removed where
  "no_state = \<lparr>sr_group = False, sr_role = False, sr_group_ids = Some []\<rparr>"

definition scope_group :: "string option \<Rightarrow> state_removed \<Rightarrow> state_removed" where
  "scope_group gid r =
     (case gid of
        None \<Rightarrow> r\<lparr>sr_group_ids := None\<rparr>
      | Some g \<Rightarrow>
          (case sr_group_ids r of
             None \<Rightarrow> r
           | Some ids' \<Rightarrow>
               if g \<in> set ids' then r
               else if STATE_REMOVED_SCOPE_CAP \<le> length ids' then r\<lparr>sr_group_ids := None\<rparr>
               else r\<lparr>sr_group_ids := Some (ids' @ [g])\<rparr>))"

definition observe :: "u64 \<Rightarrow> string option \<Rightarrow> state_removed \<Rightarrow> state_removed" where
  "observe k gid r =
     (case state_kind_family k of
        Some Group \<Rightarrow> scope_group gid (r\<lparr>sr_group := True\<rparr>)
      | Some Role \<Rightarrow> r\<lparr>sr_role := True\<rparr>
      | None \<Rightarrow> r)"

definition merge_removed :: "state_removed \<Rightarrow> state_removed \<Rightarrow> state_removed" where
  "merge_removed r other =
     (let r = r\<lparr>sr_group := (sr_group r \<or> sr_group other), sr_role := (sr_role r \<or> sr_role other)\<rparr>
      in case sr_group_ids other of
           None \<Rightarrow> r\<lparr>sr_group_ids := None\<rparr>
         | Some gs \<Rightarrow> fold (\<lambda>g. scope_group (Some g)) gs r)"

definition state_untouched :: "state_removed \<Rightarrow> bool" where
  "state_untouched r \<longleftrightarrow> \<not> sr_group r \<and> \<not> sr_role r"

text \<open>The stamp every removal transaction ends with.\<close>

definition stamp_removed :: "state_removed \<Rightarrow> store \<Rightarrow> store" where
  "stamp_removed r s =
     (if state_untouched r then s
      else let s1 = bump_state_stamp s in if sr_group r then bump_state_seq s1 Group else s1)"

section \<open>Chunked walks\<close>

definition REMOVAL_CHUNK :: nat where "REMOVAL_CHUNK = 4096"
definition MAX_EVENT_MARKERS :: nat where "MAX_EVENT_MARKERS = 10000"
definition SCOPED_TOMBSTONE_MAX :: nat where "SCOPED_TOMBSTONE_MAX = 4"

text \<open>Reading the shutdown flag.\<close>

definition cancelled :: "store \<Rightarrow> bool" where "cancelled s \<longleftrightarrow> cancel_in s = Some 0"

definition polled :: "store \<Rightarrow> store" where
  "polled s = s\<lparr>cancel_in := map_option (\<lambda>n. n - 1) (cancel_in s)\<rparr>"

datatype key_bound = Included bytes | Excluded bytes | Unbounded

fun above :: "key_bound \<Rightarrow> bytes \<Rightarrow> bool" where
  "above (Included b) k \<longleftrightarrow> b \<le> k"
| "above (Excluded b) k \<longleftrightarrow> b < k"
| "above Unbounded k \<longleftrightarrow> True"

fun under :: "key_bound \<Rightarrow> bytes \<Rightarrow> bool" where
  "under (Included b) k \<longleftrightarrow> k \<le> b"
| "under (Excluded b) k \<longleftrightarrow> k < b"
| "under Unbounded k \<longleftrightarrow> True"

definition range_entries :: "table \<Rightarrow> key_bound \<Rightarrow> key_bound \<Rightarrow> table" where
  "range_entries t lo hi = filter (\<lambda>(k, _). above lo k \<and> under hi k) t"

definition key_id :: "bytes \<Rightarrow> bytes" where "key_id k = drop (length k - ID_LEN) k"

definition removal_chunk :: "table \<Rightarrow> key_bound \<Rightarrow> key_bound \<Rightarrow> (bytes \<times> bytes) list" where
  "removal_chunk t lo hi =
     take REMOVAL_CHUNK
       (map (\<lambda>(k, _). (k, key_id k)) (filter (\<lambda>(k, _). ID_LEN \<le> length k) (range_entries t lo hi)))"

text \<open>
  The loop the removal walks share: stop when the flag is raised, take the next chunk past the last
  key, handle it in a transaction of its own, and go on until a chunk comes back empty. The fuel is
  the number of keys in the table: every chunk moves the lower bound past at least one of them.
\<close>

datatype walk_end = Finished | Interrupted | Out_of_fuel

fun chunk_loop :: "nat \<Rightarrow> (store \<Rightarrow> table) \<Rightarrow> key_bound \<Rightarrow> key_bound \<Rightarrow>
    ((bytes \<times> bytes) list \<Rightarrow> store \<times> 'a \<Rightarrow> store \<times> 'a) \<Rightarrow> store \<times> 'a \<Rightarrow> (store \<times> 'a) \<times> walk_end" where
  "chunk_loop 0 T lo hi body sa = (sa, Out_of_fuel)"
| "chunk_loop (Suc n) T lo hi body (s, a) =
     (if cancelled s then ((s, a), Interrupted)
      else let s = polled s; entries = removal_chunk (T s) lo hi in
        if entries = [] then ((s, a), Finished)
        else chunk_loop n T (Excluded (fst (last entries))) hi body (body entries (s, a)))"

definition chunk_walk :: "(store \<Rightarrow> table) \<Rightarrow> key_bound \<Rightarrow> key_bound \<Rightarrow>
    ((bytes \<times> bytes) list \<Rightarrow> store \<times> 'a \<Rightarrow> store \<times> 'a) \<Rightarrow> store \<times> 'a \<Rightarrow> (store \<times> 'a) \<times> walk_end" where
  "chunk_walk T lo hi body sa = chunk_loop (Suc (length (T (fst sa)))) T lo hi body sa"

type_synonym progress = "nat \<times> state_removed"

text \<open>A chunk whose removals are stamped in the same transaction.\<close>

definition stamped_chunk ::
  "((bytes \<times> bytes) \<Rightarrow> store \<times> progress \<Rightarrow> store \<times> progress) \<Rightarrow> (bytes \<times> bytes) list \<Rightarrow> store \<times> progress \<Rightarrow> store \<times> progress" where
  "stamped_chunk step entries sp =
     (case sp of (s, removed, sr) \<Rightarrow>
      case fold step entries (s, removed, no_state) of (s1, removed1, chunk_sr) \<Rightarrow>
        (stamp_removed chunk_sr s1, removed1, merge_removed sr chunk_sr))"

definition storage_full :: string where "storage_full = ''storage is full''"

section \<open>Deletion markers of absent targets\<close>

definition pubkeys_equal :: "ext \<Rightarrow> string \<Rightarrow> string \<Rightarrow> bool" where
  "pubkeys_equal X a b =
     (case (hex_decode X a, hex_decode X b) of (Some x, Some y) \<Rightarrow> x = y | _ \<Rightarrow> a = b)"

definition scoped_marker_covers :: "bytes \<Rightarrow> bytes \<Rightarrow> bool" where
  "scoped_marker_covers marker pk \<longleftrightarrow>
     marker \<noteq> [] \<and> length marker mod ID_LEN = 0 \<and> (\<exists>c \<in> set (chunks ID_LEN marker). c = pk)"

definition extend_absent_deletion_marker :: "bytes \<Rightarrow> bytes \<Rightarrow> store \<Rightarrow> store" where
  "extend_absent_deletion_marker i pk s =
     (case tget (deleted s) i of
        Some existing \<Rightarrow>
          if existing = [] \<or> length existing mod ID_LEN \<noteq> 0 then s
          else if scoped_marker_covers existing pk then s
          else if ID_LEN * SCOPED_TOMBSTONE_MAX \<le> length existing then s
          else s\<lparr>deleted := tput i (existing @ pk) (deleted s)\<rparr>
      | None \<Rightarrow> s\<lparr>deleted := tput i pk (deleted s)\<rparr>)"

definition record_absent_target :: "ext \<Rightarrow> bytes \<Rightarrow> string \<Rightarrow> store \<times> nat \<Rightarrow> store \<times> nat" where
  "record_absent_target X pk target sn =
     (case sn of (s, recorded) \<Rightarrow>
      case hex_decode X target of
        None \<Rightarrow> sn
      | Some i \<Rightarrow>
          if length i \<noteq> ID_LEN then sn
          else if tget (events s) i \<noteq> None then sn
          else (extend_absent_deletion_marker i pk s, recorded + 1))"

definition record_absent_deletion_targets :: "ext \<Rightarrow> store \<Rightarrow> bytes \<Rightarrow> string list \<Rightarrow> store \<times> (string + nat)" where
  "record_absent_deletion_targets X s pk targets =
     (if low_space s then (s, Inl storage_full)
      else if length pk \<noteq> ID_LEN then (s, Inr 0)
      else case fold (record_absent_target X pk) targets (s, 0) of (s', n) \<Rightarrow> (s', Inr n))"

section \<open>Gift wraps (NIP-59)\<close>

definition gift_wrap_index_needs_rebuild :: "store \<Rightarrow> bool" where
  "gift_wrap_index_needs_rebuild s \<longleftrightarrow> tget (index_meta s) (as_bytes ''gift_wrap_index'') = None"

definition GIFT_WRAP_REBUILD :: bytes where "GIFT_WRAP_REBUILD = as_bytes ''gift_wrap_rebuild''"

text \<open>One entry of the rebuild's chunk: the key, its timestamp and the event's recipients.\<close>

definition wrap_entry :: "ext \<Rightarrow> store \<Rightarrow> bytes \<Rightarrow> bytes \<times> u64 \<times> bytes list" where
  "wrap_entry X s k =
     (k, from_be64 (take CREATED_LEN (drop 8 k)),
      case tget (events s) (key_id k) of
        None \<Rightarrow> []
      | Some raw \<Rightarrow> (case event_of_json X raw of None \<Rightarrow> [] | Some e \<Rightarrow> gift_wrap_recipients X e))"

definition wrap_chunk :: "ext \<Rightarrow> store \<Rightarrow> key_bound \<Rightarrow> key_bound \<Rightarrow> (bytes \<times> u64 \<times> bytes list) list" where
  "wrap_chunk X s lo hi =
     take REMOVAL_CHUNK
       (map (wrap_entry X s \<circ> fst) (filter (\<lambda>(k, _). CREATED_LEN + ID_LEN \<le> length k) (range_entries (by_kind s) lo hi)))"

definition index_wraps :: "(bytes \<times> u64 \<times> bytes list) list \<Rightarrow> store \<Rightarrow> store" where
  "index_wraps entries s =
     s\<lparr>by_tag := puts (concat (map (\<lambda>(k, created, recipients).
                   map (\<lambda>r. tag_key GIFT_WRAP_INDEX r created (key_id k)) recipients) entries)) (by_tag s),
       index_meta := tput GIFT_WRAP_REBUILD (fst (last entries)) (index_meta s)\<rparr>"

fun rebuild_wraps_loop :: "nat \<Rightarrow> ext \<Rightarrow> key_bound \<Rightarrow> key_bound \<Rightarrow> store \<times> nat \<Rightarrow> (store \<times> nat) \<times> walk_end" where
  "rebuild_wraps_loop 0 X lo hi sn = (sn, Out_of_fuel)"
| "rebuild_wraps_loop (Suc n) X lo hi (s, indexed) =
     (if cancelled s then ((s, indexed), Interrupted)
      else let s = polled s; entries = wrap_chunk X s lo hi in
        if entries = [] then ((s, indexed), Finished)
        else
          (let s = index_wraps entries s;
               indexed = indexed + sum_list (map (\<lambda>(_, _, r). length r) entries)
           in if length entries < REMOVAL_CHUNK then ((s, indexed), Finished)
              else rebuild_wraps_loop n X (Excluded (fst (last entries))) hi (s, indexed)))"

definition rebuild_cancelled :: string where
  "rebuild_cancelled = ''gift-wrap index rebuild cancelled during shutdown''"

definition rebuild_gift_wrap_index :: "ext \<Rightarrow> store \<Rightarrow> store \<times> (string + nat)" where
  "rebuild_gift_wrap_index X s =
     (if low_space s then (s, Inl storage_full)
      else
        (let lo = (case tget (index_meta s) GIFT_WRAP_REBUILD of
                     Some k \<Rightarrow> Excluded k
                   | None \<Rightarrow> Included (kind_key GIFT_WRAP_KIND 0 (replicate ID_LEN 0)));
             hi = Excluded (range_end (kind_key GIFT_WRAP_KIND u64_max (replicate ID_LEN 0xff)) u64_max)
         in case rebuild_wraps_loop (Suc (length (by_kind s))) X lo hi (s, 0) of
              ((s, indexed), Finished) \<Rightarrow>
                if cancelled s then (s, Inl rebuild_cancelled)
                else
                  (let s = polled s in
                   (s\<lparr>index_meta := tdel GIFT_WRAP_REBUILD (tput (as_bytes ''gift_wrap_index'') (as_bytes ''1'') (index_meta s))\<rparr>,
                    Inr indexed))
            | ((s, _), _) \<Rightarrow> (s, Inl rebuild_cancelled)))"

definition remove_wrap :: "ext \<Rightarrow> unicode \<Rightarrow> bytes \<Rightarrow> bytes \<times> bytes \<Rightarrow> store \<times> nat \<Rightarrow> store \<times> nat" where
  "remove_wrap X U pk entry sn =
     (case entry of (k, i) \<Rightarrow> case sn of (s, removed) \<Rightarrow>
      if tget (events s) i = None then (s\<lparr>by_tag := tdel k (by_tag s)\<rparr>, removed)
      else (remove_event X U (extend_absent_deletion_marker i pk s) i, removed + 1))"

definition wraps_cancelled :: string where "wraps_cancelled = ''gift-wrap removal cancelled during shutdown''"

definition remove_gift_wraps_for ::
  "ext \<Rightarrow> unicode \<Rightarrow> bytes \<Rightarrow> u64 \<Rightarrow> store \<times> nat \<Rightarrow> (store \<times> nat) \<times> string option" where
  "remove_gift_wraps_for X U pk until_ts sn =
     (case sn of (s, removed) \<Rightarrow>
      case (if gift_wrap_index_needs_rebuild s then rebuild_gift_wrap_index X s else (s, Inr 0)) of
        (s, Inl err) \<Rightarrow> ((s, removed), Some err)
      | (s, Inr _) \<Rightarrow>
          (let start = tag_key GIFT_WRAP_INDEX pk 0 (replicate ID_LEN 0);
               end' = range_end (tag_key GIFT_WRAP_INDEX pk (saturating_add until_ts 1) (replicate ID_LEN 0)) until_ts
           in case chunk_walk by_tag (Included start) (Excluded end') (fold (remove_wrap X U pk)) (s, removed) of
                (sn, Finished) \<Rightarrow> (sn, None)
              | (sn, _) \<Rightarrow> (sn, Some wraps_cancelled)))"

definition delete_gift_wraps_to :: "ext \<Rightarrow> unicode \<Rightarrow> store \<Rightarrow> bytes \<Rightarrow> u64 \<Rightarrow> store \<times> (string + nat)" where
  "delete_gift_wraps_to X U s pk until_ts =
     (if low_space s then (s, Inl storage_full)
      else case remove_gift_wraps_for X U pk until_ts (s, 0) of
        ((s, n), None) \<Rightarrow> (s, Inr n)
      | ((s, _), Some err) \<Rightarrow> (s, Inl err))"

section \<open>Deletion requests (NIP-09, NIP-29 kind 9005)\<close>

record deletion_scope =
  request_pubkey :: "string option"
  request_created :: u64
  request_group :: "string option"

text \<open>One \<open>e\<close> target inside its chunk's transaction.\<close>

definition target_spared :: "ext \<Rightarrow> deletion_scope \<Rightarrow> event \<Rightarrow> bool" where
  "target_spared X q e \<longleftrightarrow>
     kind e = DELETION_KIND
   \<or> (case request_pubkey q of
        None \<Rightarrow> False
      | Some p \<Rightarrow> \<not> pubkeys_equal X (pubkey e) p \<and> \<not> delegated_by X e p)
   \<or> (case request_group q of None \<Rightarrow> False | Some gid \<Rightarrow> group_id_any e \<noteq> Some gid)
   \<or> request_group q \<noteq> None \<and> is_group_meta (kind e)"

definition delete_target ::
  "ext \<Rightarrow> unicode \<Rightarrow> deletion_scope \<Rightarrow> string \<Rightarrow> store \<times> progress \<Rightarrow> store \<times> progress" where
  "delete_target X U q target sp =
     (case sp of (s, removed, sr) \<Rightarrow>
      case hex_decode X target of
        None \<Rightarrow> sp
      | Some i \<Rightarrow>
          if length i \<noteq> ID_LEN then sp
          else
            (case tget (events s) i of
               None \<Rightarrow>
                 (case (request_group q, Option.bind (request_pubkey q) (hex_decode X)) of
                    (None, Some pk) \<Rightarrow>
                      if length pk = ID_LEN then (extend_absent_deletion_marker i pk s, removed, sr) else sp
                  | _ \<Rightarrow> sp)
             | Some raw \<Rightarrow>
                 (case event_of_json X raw of
                    None \<Rightarrow> sp
                  | Some e \<Rightarrow>
                      if target_spared X q e then sp
                      else (remove_event X U (s\<lparr>deleted := tput i [] (deleted s)\<rparr>) i,
                            removed + 1, observe (kind e) (group_id_any e) sr))))"

definition deletion_cancelled :: string where
  "deletion_cancelled = ''NIP-09 deletion cancelled during shutdown; resuming at next startup''"

fun delete_target_chunks ::
  "ext \<Rightarrow> unicode \<Rightarrow> deletion_scope \<Rightarrow> string list list \<Rightarrow> store \<times> progress \<Rightarrow> (store \<times> progress) \<times> string option" where
  "delete_target_chunks X U q [] sp = (sp, None)"
| "delete_target_chunks X U q (c # cs) (s, removed, sr) =
     (if cancelled s then ((s, removed, sr), Some deletion_cancelled)
      else
        (case fold (delete_target X U q) c (polled s, removed, no_state) of (s1, removed1, chunk_sr) \<Rightarrow>
           delete_target_chunks X U q cs (stamp_removed chunk_sr s1, removed1, merge_removed sr chunk_sr)))"

definition merge_address_tombstone_in :: "bytes \<Rightarrow> u64 \<Rightarrow> store \<Rightarrow> store" where
  "merge_address_tombstone_in akey cut_ts s =
     (let merged = (case tget (deleted s) akey of
                      Some old \<Rightarrow> if CREATED_LEN \<le> length old then max cut_ts (from_be64 (take CREATED_LEN old)) else cut_ts
                    | None \<Rightarrow> cut_ts)
      in s\<lparr>deleted := tput akey (be64 merged) (deleted s)\<rparr>)"

definition author_owns :: "ext \<Rightarrow> deletion_scope \<Rightarrow> address \<Rightarrow> bool" where
  "author_owns X q a =
     (case request_pubkey q of
        None \<Rightarrow> True
      | Some p \<Rightarrow>
          (case (hex_decode X (addr_pubkey a), hex_decode X p) of (Some x, Some y) \<Rightarrow> x = y | _ \<Rightarrow> False))"

text \<open>One \<open>a\<close> target; the last component says whether the transaction has anything to commit.\<close>

definition delete_address ::
  "ext \<Rightarrow> unicode \<Rightarrow> deletion_scope \<Rightarrow> address \<Rightarrow> store \<times> progress \<times> bool \<Rightarrow> store \<times> progress \<times> bool" where
  "delete_address X U q a sp =
     (case sp of (s, (removed, sr), wrote) \<Rightarrow>
      case hex_decode X (addr_pubkey a) of
        None \<Rightarrow> sp
      | Some pk \<Rightarrow>
          if length pk \<noteq> ID_LEN then sp
          else
            (let owns = author_owns X q a;
                 akey = deleted_address_key X (addr_kind a) pk (addr_d a);
                 s1 = (if owns then merge_address_tombstone_in akey (request_created q) s else s);
                 wrote1 = (wrote \<or> owns);
                 rkey = replaceable_key (addr_kind a) pk (dtag_key_safe X (addr_d a))
             in case tget (replaceable s1) rkey of
                  None \<Rightarrow> (s1, (removed, sr), wrote1)
                | Some v \<Rightarrow>
                    if length v < CREATED_LEN + ID_LEN then (s1, (removed, sr), wrote1)
                    else if from_be64 (take CREATED_LEN v) > request_created q then (s1, (removed, sr), wrote1)
                    else
                      (let i = take ID_LEN (drop CREATED_LEN v);
                           delegated = (case Option.bind (tget (events s1) i) (event_of_json X) of
                                          None \<Rightarrow> False
                                        | Some e \<Rightarrow> (case request_pubkey q of None \<Rightarrow> False | Some p \<Rightarrow> delegated_by X e p))
                       in if \<not> owns \<and> \<not> delegated then (s1, (removed, sr), wrote1)
                          else
                            (let s2 = (if owns then s1 else merge_address_tombstone_in akey (request_created q) s1);
                                 s3 = remove_event X U (s2\<lparr>deleted := tput i [] (deleted s2)\<rparr>) i
                             in (s3, (removed + 1, observe (addr_kind a) None sr), True)))))"

text \<open>
  The one transaction of all addresses; the flag is read before each. \<open>None\<close> is the cancelled, rolled
  back transaction: the flag stays raised and the count of removals is not taken back.
\<close>

fun delete_addresses_loop ::
  "ext \<Rightarrow> unicode \<Rightarrow> deletion_scope \<Rightarrow> address list \<Rightarrow> store \<times> progress \<times> bool \<Rightarrow> (store \<times> progress \<times> bool) \<times> bool" where
  "delete_addresses_loop X U q [] sp = (sp, True)"
| "delete_addresses_loop X U q (a # as) (s, p, wrote) =
     (if cancelled s then ((s, p, wrote), False)
      else delete_addresses_loop X U q as (delete_address X U q a (polled s, p, wrote)))"

definition delete_addresses ::
  "ext \<Rightarrow> unicode \<Rightarrow> deletion_scope \<Rightarrow> address list \<Rightarrow> store \<times> progress \<Rightarrow> (store \<times> progress) \<times> string option" where
  "delete_addresses X U q as sp =
     (case sp of (s, removed, sr) \<Rightarrow>
      case delete_addresses_loop X U q as (s, (removed, no_state), False) of
        ((s1, (removed1, _), _), False) \<Rightarrow> ((s\<lparr>cancel_in := cancel_in s1\<rparr>, removed1, sr), Some deletion_cancelled)
      | ((s1, (removed1, chunk_sr), wrote), True) \<Rightarrow>
          ((if wrote then stamp_removed chunk_sr s1 else s\<lparr>cancel_in := cancel_in s1\<rparr>,
            removed1, merge_removed sr chunk_sr), None))"

definition put_pending_deletion :: "bytes \<Rightarrow> bytes \<Rightarrow> store \<Rightarrow> string + store" where
  "put_pending_deletion key encoded s =
     (if low_space s then Inl storage_full else Inr (s\<lparr>delete_pending := tput key encoded (delete_pending s)\<rparr>))"

definition clear_pending_deletion :: "bytes \<Rightarrow> store \<Rightarrow> string + store" where
  "clear_pending_deletion key s =
     (if low_space s then Inl storage_full else Inr (s\<lparr>delete_pending := tdel key (delete_pending s)\<rparr>))"

text \<open>The walk proper, between recording the request and clearing the record.\<close>

definition deletion_steps ::
  "ext \<Rightarrow> unicode \<Rightarrow> deletion_scope \<Rightarrow> string list \<Rightarrow> address list \<Rightarrow> bool \<Rightarrow> store \<times> progress \<Rightarrow> (store \<times> progress) \<times> string option" where
  "deletion_steps X U q targets addresses purge_wraps sp =
     (case delete_target_chunks X U q (chunks REMOVAL_CHUNK targets) sp of
        (sp, Some err) \<Rightarrow> (sp, Some err)
      | (sp, None) \<Rightarrow>
          (case (if request_group q \<noteq> None \<and> addresses \<noteq> [] then (sp, None) else delete_addresses X U q addresses sp) of
             (sp, Some err) \<Rightarrow> (sp, Some err)
           | ((s, removed, sr), None) \<Rightarrow>
               (case Option.bind (request_pubkey q) (hex_decode X) of
                  Some pk \<Rightarrow>
                    if purge_wraps \<and> length pk = ID_LEN then
                      (case remove_gift_wraps_for X U pk u64_max (s, removed) of
                         ((s, removed), err) \<Rightarrow> ((s, removed, sr), err))
                    else ((s, removed, sr), None)
                | None \<Rightarrow> ((s, removed, sr), None))))"

definition apply_deletion_walk ::
  "ext \<Rightarrow> unicode \<Rightarrow> deletion_scope \<Rightarrow> string list \<Rightarrow> address list \<Rightarrow> bool \<Rightarrow> store \<Rightarrow> (store \<times> progress) \<times> string option" where
  "apply_deletion_walk X U q targets addresses purge_wraps s =
     (if low_space s then ((s, 0, no_state), Some storage_full)
      else if request_pubkey q = None \<and> request_group q = None then ((s, 0, no_state), None)
      else
        (let encoded = encode_pending_deletion targets addresses (request_pubkey q) (request_created q) (request_group q) purge_wraps;
             key = pending_deletion_key X encoded;
             has_work = (targets \<noteq> [] \<or> addresses \<noteq> [] \<or> purge_wraps)
         in case (if has_work then put_pending_deletion key encoded s else Inr s) of
              Inl err \<Rightarrow> ((s, 0, no_state), Some err)
            | Inr s1 \<Rightarrow>
                (case deletion_steps X U q targets addresses purge_wraps (s1, 0, no_state) of
                   (sp, Some err) \<Rightarrow> (sp, Some err)
                 | ((s2, p), None) \<Rightarrow>
                     if has_work then
                       (case clear_pending_deletion key s2 of
                          Inl err \<Rightarrow> ((s2, p), Some err)
                        | Inr s3 \<Rightarrow> ((s3, p), None))
                     else ((s2, p), None))))"

record removal_report =
  rr_removed :: nat
  rr_state :: state_removed
  rr_error :: "string option"

definition checked_removed :: "removal_report \<Rightarrow> nat option" where
  "checked_removed r = (if rr_error r = None then Some (rr_removed r) else None)"

definition apply_deletion_group ::
  "ext \<Rightarrow> unicode \<Rightarrow> deletion_scope \<Rightarrow> string list \<Rightarrow> address list \<Rightarrow> bool \<Rightarrow> store \<Rightarrow> store \<times> removal_report" where
  "apply_deletion_group X U q targets addresses purge_wraps s =
     (case apply_deletion_walk X U q targets addresses purge_wraps s of
        ((s', removed, sr), err) \<Rightarrow> (s', \<lparr>rr_removed = removed, rr_state = sr, rr_error = err\<rparr>))"

definition pending_deletions_and_keys :: "store \<Rightarrow> (bytes \<times> pending_deletion) list" where
  "pending_deletions_and_keys s =
     List.map_filter (\<lambda>(k, raw).
       case decode_pending_deletion raw of
         None \<Rightarrow> None
       | Some r \<Rightarrow> if length k = 32 then Some (k, r) else None) (delete_pending s)"

definition cleared :: "bytes \<Rightarrow> store \<Rightarrow> store" where
  "cleared key s = (case clear_pending_deletion key s of Inl _ \<Rightarrow> s | Inr s' \<Rightarrow> s')"

fun resume_deletions_loop ::
  "ext \<Rightarrow> unicode \<Rightarrow> (bytes \<times> pending_deletion) list \<Rightarrow> store \<times> progress \<Rightarrow> store \<times> progress" where
  "resume_deletions_loop X U [] sp = sp"
| "resume_deletions_loop X U ((key, r) # rs) (s, completed, sr) =
     (if cancelled s then (s, completed, sr)
      else
        (let s = polled s in
         if pd_request_pubkey r = None \<and> pd_group r = None then
           resume_deletions_loop X U rs (cleared key s, completed, sr)
         else
           (let q = \<lparr>request_pubkey = pd_request_pubkey r, request_created = pd_request_created r, request_group = pd_group r\<rparr>
            in case apply_deletion_group X U q (pd_targets r) (take MAX_DELETION_ADDRESSES (pd_addresses r)) (pd_purge_wraps r) s of
                 (s1, report) \<Rightarrow>
                   (case rr_error report of
                      Some _ \<Rightarrow> resume_deletions_loop X U rs (s1, completed, merge_removed sr (rr_state report))
                    | None \<Rightarrow> resume_deletions_loop X U rs (cleared key s1, completed + 1, merge_removed sr (rr_state report))))))"

definition resume_pending_deletions :: "ext \<Rightarrow> unicode \<Rightarrow> store \<Rightarrow> store \<times> progress" where
  "resume_pending_deletions X U s = resume_deletions_loop X U (pending_deletions_and_keys s) (s, 0, no_state)"

section \<open>Event bans (NIP-86)\<close>

definition marker_list_full :: string where
  "marker_list_full = ''restricted: the event marker list is full''"

definition ensure_event_marker_room :: "bool \<Rightarrow> nat \<Rightarrow> bool" where
  "ensure_event_marker_room existing len \<longleftrightarrow> \<not> (\<not> existing \<and> MAX_EVENT_MARKERS \<le> len)"

definition apply_ban :: "ext \<Rightarrow> unicode \<Rightarrow> store \<Rightarrow> bytes \<Rightarrow> string \<Rightarrow> store \<times> (string + bool \<times> state_removed)" where
  "apply_ban X U s i reason =
     (if low_space s then (s, Inl storage_full)
      else if \<not> ensure_event_marker_room (tget (banned s) i \<noteq> None) (length (banned s)) then (s, Inl marker_list_full)
      else
        (let s1 = s\<lparr>banned := tput i (as_bytes reason) (banned s), allowed := tdel i (allowed s)\<rparr>
         in case tget (events s1) i of
              None \<Rightarrow> (s1, Inr (False, no_state))
            | Some raw \<Rightarrow>
                (let sr = (case event_of_json X raw of
                             None \<Rightarrow> no_state
                           | Some e \<Rightarrow> observe (kind e) (group_id_any e) no_state)
                 in (stamp_removed sr (remove_event X U s1 i), Inr (True, sr)))))"

definition apply_unban :: "store \<Rightarrow> bytes \<Rightarrow> store \<times> (string + bool)" where
  "apply_unban s i =
     (if low_space s then (s, Inl storage_full)
      else (s\<lparr>banned := tdel i (banned s)\<rparr>, Inr (tget (banned s) i \<noteq> None)))"

definition apply_allow :: "store \<Rightarrow> bytes \<Rightarrow> string \<Rightarrow> store \<times> (string + bool)" where
  "apply_allow s i reason =
     (if low_space s then (s, Inl storage_full)
      else if \<not> ensure_event_marker_room (tget (allowed s) i \<noteq> None) (length (allowed s)) then (s, Inl marker_list_full)
      else (s\<lparr>allowed := tput i (as_bytes reason) (allowed s), banned := tdel i (banned s)\<rparr>,
            Inr (tget (banned s) i \<noteq> None)))"

definition apply_unallow :: "store \<Rightarrow> bytes \<Rightarrow> store \<times> (string + bool)" where
  "apply_unallow s i =
     (if low_space s then (s, Inl storage_full)
      else (s\<lparr>allowed := tdel i (allowed s)\<rparr>, Inr (tget (allowed s) i \<noteq> None)))"

end
