(* ===== verification/Retention.thy ===== *)
theory Retention
  imports Removal
begin

text \<open>
  The history purges of \<open>src/src/db/removal.rs\<close>: NIP-62 vanish requests with their pending records and
  startup resume, NIP-29 group purges with their durable markers, and the NIP-40 expiry purge with
  the reaping of idle \<open>first_seen\<close> entries.
\<close>

section \<open>Vanish requests (NIP-62)\<close>

definition stored_until :: "table \<Rightarrow> bytes \<Rightarrow> u64 option" where
  "stored_until t pk = map_option from_be64 (Option.bind (tget t pk) (\<lambda>raw. get_slice raw 0 8))"

definition vanished_until :: "store \<Rightarrow> bytes \<Rightarrow> u64 option" where
  "vanished_until s pk = stored_until (vanish s) pk"

definition pending_vanishes :: "store \<Rightarrow> (bytes \<times> u64) list" where
  "pending_vanishes s =
     List.map_filter (\<lambda>(k, raw). map_option (\<lambda>b. (k, from_be64 b)) (get_slice raw 0 8)) (vanish_pending s)"

definition record_pending_vanish :: "store \<Rightarrow> bytes \<Rightarrow> u64 \<Rightarrow> store \<times> (string + u64)" where
  "record_pending_vanish s pk until_created =
     (if low_space s then (s, Inl storage_full)
      else
        (let until_ts = max (case stored_until (vanish_pending s) pk of None \<Rightarrow> 0 | Some u \<Rightarrow> u) until_created
         in (s\<lparr>vanish_pending := tput pk (be64 until_ts) (vanish_pending s)\<rparr>, Inr until_ts)))"

text \<open>One entry of the author index: only events the identity signed itself are removed.\<close>

definition vanish_entry :: "ext \<Rightarrow> unicode \<Rightarrow> bytes \<Rightarrow> bytes \<times> bytes \<Rightarrow> store \<times> progress \<Rightarrow> store \<times> progress" where
  "vanish_entry X U pk entry sp =
     (case entry of (k, i) \<Rightarrow> case sp of (s, removed, sr) \<Rightarrow>
      case Option.bind (tget (events s) i) (event_of_json X) of
        None \<Rightarrow> sp
      | Some e \<Rightarrow>
          if \<not> pubkeys_equal X (pubkey e) (hex_encode X pk) then
            (if delegation e \<noteq> None then (s\<lparr>by_pubkey := tdel k (by_pubkey s)\<rparr>, removed, sr) else sp)
          else (remove_event X U s i, removed + 1, observe (kind e) (group_id_any e) sr))"

definition vanish_cancelled :: string where
  "vanish_cancelled = ''NIP-62 vanish cancelled during shutdown; resuming at next startup''"

definition finish_vanish :: "ext \<Rightarrow> unicode \<Rightarrow> store \<Rightarrow> bytes \<Rightarrow> u64 \<Rightarrow> store \<times> (string + progress)" where
  "finish_vanish X U s pk until_created =
     (if low_space s then (s, Inl storage_full)
      else
        (let start = pubkey_key pk 0 (replicate ID_LEN 0);
             end' = range_end (pubkey_key pk (saturating_add until_created 1) (replicate ID_LEN 0)) until_created
         in case chunk_walk by_pubkey (Included start) (Excluded end') (stamped_chunk (vanish_entry X U pk)) (s, 0, no_state) of
              ((s, removed, sr), Finished) \<Rightarrow>
                (case remove_gift_wraps_for X U pk until_created (s, removed) of
                   ((s, _), Some err) \<Rightarrow> (s, Inl err)
                 | ((s, removed), None) \<Rightarrow>
                     (let covered = (case vanished_until s pk of None \<Rightarrow> 0 | Some u \<Rightarrow> u)
                      in (s\<lparr>vanish := tput pk (be64 (max covered until_created)) (vanish s),
                            vanish_pending := tdel pk (vanish_pending s)\<rparr>, Inr (removed, sr))))
            | ((s, _), _) \<Rightarrow> (s, Inl vanish_cancelled)))"

definition apply_vanish :: "ext \<Rightarrow> unicode \<Rightarrow> store \<Rightarrow> bytes \<Rightarrow> u64 \<Rightarrow> store \<times> (string + progress)" where
  "apply_vanish X U s pk until_created =
     (if low_space s then (s, Inl storage_full)
      else if (case vanished_until s pk of None \<Rightarrow> False | Some covered \<Rightarrow> until_created \<le> covered) then
        (s, Inr (0, no_state))
      else case record_pending_vanish s pk until_created of
        (s, Inl err) \<Rightarrow> (s, Inl err)
      | (s, Inr until_ts) \<Rightarrow> finish_vanish X U s pk until_ts)"

definition resume_vanish :: "ext \<Rightarrow> unicode \<Rightarrow> bytes \<times> u64 \<Rightarrow> store \<times> nat \<Rightarrow> store \<times> nat" where
  "resume_vanish X U r sn =
     (case r of (pk, until_created) \<Rightarrow> case sn of (s, completed) \<Rightarrow>
      case finish_vanish X U s pk until_created of
        (s, Inr _) \<Rightarrow> (s, completed + 1)
      | (s, Inl _) \<Rightarrow> (s, completed))"

definition resume_pending_vanishes :: "ext \<Rightarrow> unicode \<Rightarrow> store \<Rightarrow> store \<times> nat" where
  "resume_pending_vanishes X U s = fold (resume_vanish X U) (pending_vanishes s) (s, 0)"

section \<open>Group purges (NIP-29)\<close>

record purge_state =
  pg_removed :: nat
  pg_max_created :: u64
  pg_create_id :: "bytes option"
  pg_cut :: u64

datatype purge_phase = By_tag bytes bytes bool | By_created

text \<open>Whether the phase removes the entry's event; \<open>None\<close> stands for a stored value that does not parse.\<close>

definition names_group :: "string \<Rightarrow> string \<Rightarrow> event \<Rightarrow> bool" where
  "names_group name gid e \<longleftrightarrow> (\<exists>t \<in> set (tags e). 2 \<le> length t \<and> t ! 0 = name \<and> t ! 1 = gid)"

fun purge_matches :: "string \<Rightarrow> purge_phase \<Rightarrow> event option \<Rightarrow> bool" where
  "purge_matches gid By_created None = False"
| "purge_matches gid By_created (Some e) \<longleftrightarrow>
     names_group ''h'' gid e \<or> is_group_meta (kind e) \<and> names_group ''d'' gid e"
| "purge_matches gid (By_tag _ _ True) None = False"
| "purge_matches gid (By_tag _ _ True) (Some e) \<longleftrightarrow> is_group_meta (kind e) \<and> names_group ''d'' gid e"
| "purge_matches gid (By_tag _ _ False) _ = True"

fun records_create :: "purge_phase \<Rightarrow> bool" where
  "records_create (By_tag _ _ True) = False"
| "records_create _ = True"

definition purge_note :: "purge_phase \<Rightarrow> bytes \<Rightarrow> event option \<Rightarrow> purge_state \<Rightarrow> purge_state" where
  "purge_note phase i oe p =
     (case oe of
        None \<Rightarrow> p
      | Some e \<Rightarrow>
          p\<lparr>pg_max_created := max (pg_max_created p) (created_at e),
            pg_create_id := (if records_create phase \<and> kind e = CREATE_GROUP \<and> length i = ID_LEN then Some i else pg_create_id p)\<rparr>)"

definition purge_entry ::
  "ext \<Rightarrow> unicode \<Rightarrow> string \<Rightarrow> purge_phase \<Rightarrow> bytes \<times> bytes \<Rightarrow> store \<times> purge_state \<Rightarrow> store \<times> purge_state" where
  "purge_entry X U gid phase entry sp =
     (case entry of (_, i) \<Rightarrow> case sp of (s, p) \<Rightarrow>
      case tget (events s) i of
        None \<Rightarrow> sp
      | Some raw \<Rightarrow>
          (let oe = event_of_json X raw in
           if \<not> purge_matches gid phase oe then sp
           else (remove_event X U s i, (purge_note phase i oe p)\<lparr>pg_removed := pg_removed p + 1\<rparr>)))"

text \<open>A chunk without a match has nothing to persist; the others store the raised cut with their removals.\<close>

definition purge_chunk ::
  "ext \<Rightarrow> unicode \<Rightarrow> string \<Rightarrow> u64 \<Rightarrow> u64 \<Rightarrow> purge_phase \<Rightarrow> (bytes \<times> bytes) list \<Rightarrow> store \<times> purge_state \<Rightarrow> store \<times> purge_state" where
  "purge_chunk X U gid purge_now effective_until phase entries sp =
     (case fold (purge_entry X U gid phase) entries sp of (s1, p1) \<Rightarrow>
      if pg_removed p1 = pg_removed (snd sp) then (fst sp, p1)
      else
        (let p2 = p1\<lparr>pg_cut := max (pg_cut p1) (pg_max_created p1)\<rparr>
         in (s1\<lparr>purge_pending := tput (purged_group_key X gid)
                   (encode_pending_purge gid purge_now (pg_cut p2) effective_until (pg_create_id p2)) (purge_pending s1)\<rparr>, p2)))"

fun purge_phase_walk ::
  "ext \<Rightarrow> unicode \<Rightarrow> string \<Rightarrow> u64 \<Rightarrow> u64 \<Rightarrow> purge_phase \<Rightarrow> store \<times> purge_state \<Rightarrow> (store \<times> purge_state) \<times> walk_end" where
  "purge_phase_walk X U gid purge_now effective_until By_created sp =
     chunk_walk by_created (Included (created_key 0 (replicate ID_LEN 0)))
       (Included (created_key effective_until (replicate ID_LEN 0xff)))
       (purge_chunk X U gid purge_now effective_until By_created) sp"
| "purge_phase_walk X U gid purge_now effective_until (By_tag start end' meta_only) sp =
     chunk_walk by_tag (Included start) (Excluded end')
       (purge_chunk X U gid purge_now effective_until (By_tag start end' meta_only)) sp"

fun purge_phases ::
  "ext \<Rightarrow> unicode \<Rightarrow> string \<Rightarrow> u64 \<Rightarrow> u64 \<Rightarrow> purge_phase list \<Rightarrow> store \<times> purge_state \<Rightarrow> (store \<times> purge_state) \<times> bool" where
  "purge_phases X U gid purge_now effective_until [] sp = (sp, True)"
| "purge_phases X U gid purge_now effective_until (ph # phs) sp =
     (case purge_phase_walk X U gid purge_now effective_until ph sp of
        (sp, Finished) \<Rightarrow> purge_phases X U gid purge_now effective_until phs sp
      | (sp, _) \<Rightarrow> (sp, False))"

definition tag_window :: "char \<Rightarrow> string \<Rightarrow> u64 \<Rightarrow> bytes \<times> bytes" where
  "tag_window c gid until_ts =
     (tag_key (of_nat (code c)) (as_bytes gid) 0 (replicate ID_LEN 0),
      range_end (tag_key (of_nat (code c)) (as_bytes gid) (saturating_add until_ts 1) (replicate ID_LEN 0)) until_ts)"

definition phases_of :: "string \<Rightarrow> u64 \<Rightarrow> purge_phase list" where
  "phases_of gid effective_until =
     (if TAG_INDEX_VALUE_MAX < length gid then [By_created]
      else
        (let h = tag_window (CHR ''h'') gid effective_until; d = tag_window (CHR ''d'') gid effective_until
         in [By_tag (fst h) (snd h) False, By_tag (fst d) (snd d) True]))"

definition purge_cancelled :: string where
  "purge_cancelled = ''NIP-29 group purge cancelled during shutdown; resuming at next startup''"

definition corrupt_purge :: "bytes \<Rightarrow> string" where
  "corrupt_purge raw = ''corrupt pending group purge record ('' @ show_nat (length raw) @ '' bytes)''"

definition purge_marker :: "ext \<Rightarrow> store \<Rightarrow> string \<Rightarrow> u64 \<times> u64 \<times> bytes option" where
  "purge_marker X s gid =
     (case tget (purged_groups s) (purged_group_key X gid) of
        None \<Rightarrow> (0, 0, None)
      | Some raw \<Rightarrow> decode_purged_group_marker raw)"

text \<open>The first transaction: the merged marker and the pending record.\<close>

definition begin_purge :: "ext \<Rightarrow> store \<Rightarrow> string \<Rightarrow> u64 \<Rightarrow> u64 \<Rightarrow> string + store \<times> u64 \<times> u64 \<times> bytes option \<times> u64" where
  "begin_purge X s gid now until_ts =
     (case purge_marker X s gid of (old_now, old_cut, old_create) \<Rightarrow>
      case (case tget (purge_pending s) (purged_group_key X gid) of
              None \<Rightarrow> Inr None
            | Some raw \<Rightarrow> (case decode_pending_purge raw of None \<Rightarrow> Inl (corrupt_purge raw) | Some p \<Rightarrow> Inr (Some p))) of
        Inl err \<Rightarrow> Inl err
      | Inr pending \<Rightarrow>
          (let effective_until = (case pending of None \<Rightarrow> until_ts | Some (_, _, _, u, _) \<Rightarrow> max u until_ts);
               pending_cut = (case pending of None \<Rightarrow> 0 | Some (_, _, c, _, _) \<Rightarrow> c);
               create_id = (case pending of Some (_, _, _, _, Some c) \<Rightarrow> Some c | _ \<Rightarrow> old_create);
               purge_now = max old_now now;
               cut_ts = max (max old_cut pending_cut) now;
               key = purged_group_key X gid
           in Inr (s\<lparr>purged_groups := tput key (encode_purged_group_marker purge_now cut_ts create_id) (purged_groups s),
                     purge_pending := tput key (encode_pending_purge gid purge_now cut_ts effective_until create_id) (purge_pending s)\<rparr>,
                   purge_now, cut_ts, create_id, effective_until)))"

text \<open>The completion transaction.\<close>

definition complete_purge :: "ext \<Rightarrow> string \<Rightarrow> u64 \<Rightarrow> store \<times> purge_state \<Rightarrow> store" where
  "complete_purge X gid purge_now sp =
     (case sp of (s, p) \<Rightarrow>
      case purge_marker X s gid of (old_now, old_cut, old_create) \<Rightarrow>
        (let now' = max purge_now old_now;
             cut' = max (max (pg_cut p) old_cut) (pg_max_created p);
             create' = (case pg_create_id p of None \<Rightarrow> old_create | Some c \<Rightarrow> Some c);
             key = purged_group_key X gid;
             s1 = s\<lparr>purged_groups := tput key (encode_purged_group_marker now' cut' create') (purged_groups s),
                    purge_pending := tdel key (purge_pending s)\<rparr>
         in bump_state_seq (bump_state_stamp s1) Group))"

definition purge_group_until :: "ext \<Rightarrow> unicode \<Rightarrow> store \<Rightarrow> string \<Rightarrow> u64 \<Rightarrow> u64 \<Rightarrow> store \<times> (string + nat)" where
  "purge_group_until X U s gid now until_ts =
     (if low_space s then (s, Inl storage_full)
      else case begin_purge X s gid now until_ts of
        Inl err \<Rightarrow> (s, Inl err)
      | Inr (s1, purge_now, cut_ts, create_id, effective_until) \<Rightarrow>
          (case purge_phases X U gid purge_now effective_until (phases_of gid effective_until)
                  (s1, \<lparr>pg_removed = 0, pg_max_created = 0, pg_create_id = create_id, pg_cut = cut_ts\<rparr>) of
             ((s2, p), True) \<Rightarrow> (complete_purge X gid purge_now (s2, p), Inr (pg_removed p))
           | ((s2, _), False) \<Rightarrow> (s2, Inl purge_cancelled)))"

definition pending_purges :: "store \<Rightarrow> (string \<times> u64 \<times> u64) list" where
  "pending_purges s =
     List.map_filter (\<lambda>(_, raw). map_option (\<lambda>(gid, now, _, until_ts, _). (gid, now, until_ts)) (decode_pending_purge raw))
       (purge_pending s)"

section \<open>Expiry (NIP-40)\<close>

definition expire_entry :: "ext \<Rightarrow> unicode \<Rightarrow> bytes \<times> bytes \<Rightarrow> store \<times> progress \<Rightarrow> store \<times> progress" where
  "expire_entry X U entry sp =
     (case entry of (k, i) \<Rightarrow> case sp of (s, removed, sr) \<Rightarrow>
      case tget (events s) i of
        None \<Rightarrow> (s\<lparr>expiry_t := tdel k (expiry_t s)\<rparr>, removed, sr)
      | Some raw \<Rightarrow>
          (remove_event X U s i, removed + 1,
           case event_of_json X raw of None \<Rightarrow> sr | Some e \<Rightarrow> observe (kind e) (group_id_any e) sr))"

definition purge_expired_walk :: "ext \<Rightarrow> unicode \<Rightarrow> store \<Rightarrow> u64 \<Rightarrow> (store \<times> progress) \<times> string option" where
  "purge_expired_walk X U s now =
     (if low_space s then ((s, 0, no_state), Some storage_full)
      else if \<not> expiry_enabled s then ((s, 0, no_state), None)
      else
        (case chunk_walk expiry_t (Included (created_key 0 (replicate ID_LEN 0)))
                (Included (created_key now (replicate ID_LEN 0xff))) (stamped_chunk (expire_entry X U)) (s, 0, no_state) of
           (sp, _) \<Rightarrow> (sp, None)))"

text \<open>One \<open>first_seen\<close> entry: reaped, upgraded in place, or kept.\<close>

datatype reap = Doomed | Upgrade bytes | Keep

definition reap_entry :: "u64 \<Rightarrow> u64 \<Rightarrow> bytes \<Rightarrow> reap" where
  "reap_entry now cutoff raw =
     (if 16 \<le> length raw then (if from_be64 (take 8 (drop 8 raw)) < cutoff then Doomed else Keep)
      else if 8 \<le> length raw then Upgrade (take 8 raw @ be64 now)
      else if 0 < cutoff then Doomed
      else Keep)"

definition reap_chunk :: "u64 \<Rightarrow> u64 \<Rightarrow> table \<Rightarrow> table \<Rightarrow> table" where
  "reap_chunk now cutoff entries t =
     dels (map fst (filter (\<lambda>(_, raw). reap_entry now cutoff raw = Doomed) entries))
       (fold (\<lambda>(k, raw). case reap_entry now cutoff raw of Upgrade b \<Rightarrow> tput k b | _ \<Rightarrow> id) entries t)"

fun reap_loop :: "nat \<Rightarrow> u64 \<Rightarrow> u64 \<Rightarrow> key_bound \<Rightarrow> store \<Rightarrow> store \<times> walk_end" where
  "reap_loop 0 now cutoff lo s = (s, Out_of_fuel)"
| "reap_loop (Suc n) now cutoff lo s =
     (if cancelled s then (s, Interrupted)
      else
        (let s = polled s;
             entries = take REMOVAL_CHUNK (range_entries (first_seen s) lo Unbounded);
             s1 = s\<lparr>first_seen := reap_chunk now cutoff entries (first_seen s)\<rparr>
         in if length entries < REMOVAL_CHUNK then (s1, Finished)
            else reap_loop n now cutoff (Excluded (fst (last entries))) s1))"

definition reap_first_seen :: "store \<Rightarrow> u64 \<Rightarrow> u64 \<Rightarrow> store" where
  "reap_first_seen s now retention =
     (if retention = 0 then s
      else fst (reap_loop (Suc (length (first_seen s))) now (saturating_sub now retention) Unbounded s))"

definition purge_expired :: "ext \<Rightarrow> unicode \<Rightarrow> store \<Rightarrow> u64 \<Rightarrow> u64 \<Rightarrow> store \<times> removal_report" where
  "purge_expired X U s now first_seen_retention =
     (case purge_expired_walk X U s now of
        ((s, removed, sr), Some err) \<Rightarrow> (s, \<lparr>rr_removed = removed, rr_state = sr, rr_error = Some err\<rparr>)
      | ((s, removed, sr), None) \<Rightarrow>
          (reap_first_seen s now first_seen_retention, \<lparr>rr_removed = removed, rr_state = sr, rr_error = None\<rparr>))"

section \<open>The account-age clock\<close>

definition touch_first_seen :: "store \<Rightarrow> bytes \<Rightarrow> u64 \<Rightarrow> store \<times> bool \<times> u64" where
  "touch_first_seen s pk now =
     (case tget (first_seen s) pk of
        Some raw \<Rightarrow>
          if 16 \<le> length raw then
            (if from_be64 (take 8 (drop 8 raw)) \<noteq> now
             then s\<lparr>first_seen := tput pk (take 8 raw @ be64 now) (first_seen s)\<rparr> else s,
             False, from_be64 (take 8 raw))
          else if 8 \<le> length raw then
            (s\<lparr>first_seen := tput pk (take 8 raw @ be64 now) (first_seen s)\<rparr>, False, from_be64 (take 8 raw))
          else (s\<lparr>first_seen := tput pk (be64 now @ be64 now) (first_seen s)\<rparr>, True, now)
      | None \<Rightarrow> (s\<lparr>first_seen := tput pk (be64 now @ be64 now) (first_seen s)\<rparr>, True, now))"

definition first_seen_status :: "store \<Rightarrow> bytes \<Rightarrow> bool \<times> u64" where
  "first_seen_status s pk =
     (case tget (first_seen s) pk of
        Some raw \<Rightarrow> if 8 \<le> length raw then (False, from_be64 (take 8 raw)) else (False, u64_max)
      | None \<Rightarrow> (True, 0))"

end
