(* ===== verification/RemovalInv.thy ===== *)
theory RemovalInv
  imports Retention StoreInv
begin

text \<open>
  The invariant behind the removals. A vanish request drops the delegator-side entries of events that
  survive it, so the author index is exact up to the feeds of vanished identities; every other table
  stays exact. Removals only shrink the tables, which is what makes the chunked walks end and cover
  their range: the locale \<open>chunked_removal\<close>.
\<close>

section \<open>Tables only shrink\<close>

definition shrunk :: "table \<Rightarrow> table \<Rightarrow> bool" where
  "shrunk t t' \<longleftrightarrow> (\<exists>Q. t' = filter Q t)"

named_theorems shrink_intros

lemma shrunk_refl [simp, shrink_intros]: "shrunk t t"
  unfolding shrunk_def by (rule exI [of _ "\<lambda>_. True"]) simp

lemma shrunk_trans: "shrunk a b \<Longrightarrow> shrunk b c \<Longrightarrow> shrunk a c"
  unfolding shrunk_def by (auto simp: filter_filter)

lemma shrunk_tdel [shrink_intros]: "shrunk a t \<Longrightarrow> shrunk a (tdel k t)"
  by (erule shrunk_trans) (auto simp: shrunk_def tdel_def)

lemma shrunk_dels [shrink_intros]: "shrunk a t \<Longrightarrow> shrunk a (dels ks t)"
  by (induction ks arbitrary: t) (auto simp: dels_def intro: shrunk_tdel)

lemma shrunk_corrupt [shrink_intros]: "shrunk a t \<Longrightarrow> shrunk a (delete_corrupt_index_entries i t)"
  by (simp add: delete_corrupt_index_entries_def shrunk_dels)

lemma shrunk_set: "shrunk t t' \<Longrightarrow> set t' \<subseteq> set t"
  by (auto simp: shrunk_def)

lemma shrunk_table_ok: "shrunk t t' \<Longrightarrow> table_ok t \<Longrightarrow> table_ok t'"
  unfolding shrunk_def table_ok_def by (auto simp: sorted_wrt_map sorted_wrt_filter)

lemma shrunk_length: "shrunk t t' \<Longrightarrow> length (filter P t') \<le> length (filter P t)"
proof -
  assume "shrunk t t'"
  then obtain Q where "t' = filter Q t" by (auto simp: shrunk_def)
  then show ?thesis by (induction t arbitrary: t') auto
qed

lemma in_table: "tget t k \<noteq> None \<longleftrightarrow> k \<in> fst ` set t"
  by (simp add: tget_def map_of_eq_None_iff)

lemma shrunk_keys: "shrunk t t' \<Longrightarrow> fst ` set t' \<subseteq> fst ` set t"
  using shrunk_set by blast

section \<open>The part of the store the index invariant reads\<close>

definition index_view ::
  "store \<Rightarrow> (table \<times> table \<times> table \<times> table \<times> table) \<times> table option \<times> table option \<times> bool \<times> table \<times> table \<times> nat" where
  "index_view s = ((events s, by_created s, by_pubkey s, by_kind s, by_tag s), by_word s, event_meta s, meta_index s,
     expiry_t s, replaceable s, indexed_words s)"

lemma abs_events_view: "events s = events s' \<Longrightarrow> abs_events X s = abs_events X s'"
  by (simp add: abs_events_def)

lemma store_inv_view: "index_view s = index_view s' \<Longrightarrow> store_inv X U s = store_inv X U s'"
  by (simp add: index_view_def store_inv_def events_ok_def abs_events_def indexes_exact_def)

lemma index_view_bump [simp]:
  "index_view (bump_meta_counter s k) = index_view s" "index_view (bump_state_seq s f) = index_view s"
  "index_view (bump_state_stamp s) = index_view s" "index_view (stamp_removed r s) = index_view s"
  by (simp_all add: index_view_def bump_meta_counter_def bump_state_seq_def bump_state_stamp_def stamp_removed_def Let_def)

lemma index_view_marks [simp]:
  "index_view (polled s) = index_view s" "index_view (s\<lparr>deleted := d\<rparr>) = index_view s"
  "index_view (s\<lparr>cancel_in := c\<rparr>) = index_view s" "index_view (s\<lparr>delete_pending := p\<rparr>) = index_view s"
  "index_view (s\<lparr>index_meta := m\<rparr>) = index_view s" "index_view (s\<lparr>purge_pending := p\<rparr>) = index_view s"
  "index_view (s\<lparr>vanish_pending := v\<rparr>) = index_view s" "index_view (s\<lparr>vanish := w\<rparr>) = index_view s"
  "index_view (s\<lparr>purged_groups := g\<rparr>) = index_view s" "index_view (s\<lparr>banned := b\<rparr>) = index_view s"
  "index_view (s\<lparr>allowed := a\<rparr>) = index_view s" "index_view (s\<lparr>first_seen := f\<rparr>) = index_view s"
  by (simp_all add: index_view_def polled_def)

lemma index_view_extend [simp]: "index_view (extend_absent_deletion_marker i pk s) = index_view s"
  by (simp add: extend_absent_deletion_marker_def split: option.split)

lemma index_view_tombstone [simp]: "index_view (merge_address_tombstone_in k c s) = index_view s"
  by (simp add: merge_address_tombstone_in_def Let_def)

lemma index_view_fields:
  assumes "index_view s' = index_view s"
  shows "events s' = events s" "by_created s' = by_created s" "by_pubkey s' = by_pubkey s" "by_kind s' = by_kind s"
    "by_tag s' = by_tag s" "expiry_t s' = expiry_t s" "replaceable s' = replaceable s"
  using assms by (simp_all add: index_view_def)

definition shrunk_store :: "store \<Rightarrow> store \<Rightarrow> bool" where
  "shrunk_store s s' \<longleftrightarrow> shrunk (events s) (events s') \<and> shrunk (by_created s) (by_created s') \<and> shrunk (by_pubkey s) (by_pubkey s')
     \<and> shrunk (by_kind s) (by_kind s') \<and> shrunk (by_tag s) (by_tag s') \<and> shrunk (expiry_t s) (expiry_t s')"

lemma shrunk_store_view: "index_view s' = index_view s \<Longrightarrow> shrunk_store s s'"
  using index_view_fields [of s' s] by (simp add: shrunk_store_def)

lemma shrunk_store_trans: "shrunk_store a b \<Longrightarrow> shrunk_store b c \<Longrightarrow> shrunk_store a c"
  unfolding shrunk_store_def by (blast intro: shrunk_trans)

lemma remember_shrinks: "index_view (remember_thread_root_tombstone s e i) = index_view s"
  by (simp add: index_view_def remember_unchanged)

lemma remove_event_shrinks: "shrunk_store s (remove_event X U s i)"
  by (auto simp: remove_event_def remove_corrupt_event_def shrunk_store_def Let_def remember_unchanged
      intro: shrink_intros split: option.split)

section \<open>Consistent up to vanished feeds\<close>

text \<open>An author-index key under a vanished delegator, of an event that identity did not sign.\<close>

definition feed_gap :: "ext \<Rightarrow> bytes set \<Rightarrow> (bytes \<times> event) set \<Rightarrow> bytes \<Rightarrow> bool" where
  "feed_gap X V S k \<longleftrightarrow> (\<exists>d c i. d \<in> V \<and> length d = 32 \<and> length i = 32 \<and> k = pubkey_key d c i \<and> (\<forall>e. (i, e) \<in> S \<longrightarrow> author_of X e \<noteq> d))"

definition store_inv_but :: "ext \<Rightarrow> unicode \<Rightarrow> bytes set \<Rightarrow> store \<Rightarrow> bool" where
  "store_inv_but X U V s \<longleftrightarrow> (\<exists>t. store_inv X U (s\<lparr>by_pubkey := t\<rparr>) \<and>
     (\<forall>k. tget (by_pubkey s) k = tget t k \<or> tget (by_pubkey s) k = None \<and> feed_gap X V (abs_events X s) k))"

lemma abs_by_pubkey [simp]: "abs_events X (s\<lparr>by_pubkey := t\<rparr>) = abs_events X s"
  by (simp add: abs_events_def)

lemma store_inv_but_ok: "store_inv_but X U V s \<Longrightarrow> events_ok X s"
  by (auto simp: store_inv_but_def store_inv_def events_ok_def)

lemma store_inv_but_exact: "store_inv X U s \<Longrightarrow> store_inv_but X U V s"
  unfolding store_inv_but_def by (rule exI [of _ "by_pubkey s"]) simp

lemma store_inv_but_none:
  assumes "store_inv_but X U {} s"
  shows "store_inv X U s"
proof -
  obtain t where t: "store_inv X U (s\<lparr>by_pubkey := t\<rparr>)" "\<And>k. tget (by_pubkey s) k = tget t k"
    using assms by (auto simp: store_inv_but_def feed_gap_def)
  then show ?thesis by (simp add: store_inv_def events_ok_def indexes_exact_def exact_def)
qed

lemma feed_gap_mono: "feed_gap X V S k \<Longrightarrow> V \<subseteq> W \<Longrightarrow> S' \<subseteq> S \<Longrightarrow> feed_gap X W S' k"
  unfolding feed_gap_def by blast

lemma store_inv_but_mono:
  assumes "store_inv_but X U V s" and "V \<subseteq> W"
  shows "store_inv_but X U W s"
proof -
  have "\<And>k. feed_gap X V (abs_events X s) k \<Longrightarrow> feed_gap X W (abs_events X s) k"
    by (erule feed_gap_mono) (use assms(2) in simp_all)
  then show ?thesis using assms(1) unfolding store_inv_but_def by meson
qed

lemma store_inv_but_view:
  assumes "store_inv_but X U V s" and "index_view s' = index_view s"
  shows "store_inv_but X U V s'"
proof -
  obtain t where t: "store_inv X U (s\<lparr>by_pubkey := t\<rparr>)"
    "\<forall>k. tget (by_pubkey s) k = tget t k \<or> tget (by_pubkey s) k = None \<and> feed_gap X V (abs_events X s) k"
    using assms(1) by (auto simp: store_inv_but_def)
  have "index_view (s'\<lparr>by_pubkey := t\<rparr>) = index_view (s\<lparr>by_pubkey := t\<rparr>)" using assms(2) by (simp add: index_view_def)
  then have "store_inv X U (s'\<lparr>by_pubkey := t\<rparr>)" using t(1) store_inv_view by blast
  moreover have "abs_events X s' = abs_events X s" using assms(2) by (intro abs_events_view) (simp add: index_view_def)
  ultimately show ?thesis using t(2) assms(2) unfolding store_inv_but_def by (auto simp: index_view_def)
qed

text \<open>Removing an event commutes with exchanging the author index.\<close>

lemma remove_event_feed:
  assumes "events_ok X s" and "(i, e) \<in> abs_events X s"
  shows "remove_event X U (s\<lparr>by_pubkey := t\<rparr>) i = (remove_event X U s i)\<lparr>by_pubkey := dels (author_keys X e i (author_of X e)) t\<rparr>"
    and "by_pubkey (remove_event X U s i) = dels (author_keys X e i (author_of X e)) (by_pubkey s)"
proof -
  obtain raw where raw: "tget (events s) i = Some raw" "event_of_json X raw = Some e"
    using assms(2) by (auto simp: abs_events_def bind_eq_Some_conv)
  have pk: "pubkey_bytes X e = Some (author_of X e)" using abs_ok(2) [OF assms] .
  show "by_pubkey (remove_event X U s i) = dels (author_keys X e i (author_of X e)) (by_pubkey s)"
    by (simp add: remove_event_def raw pk Let_def remember_unchanged)
  show "remove_event X U (s\<lparr>by_pubkey := t\<rparr>) i = (remove_event X U s i)\<lparr>by_pubkey := dels (author_keys X e i (author_of X e)) t\<rparr>"
    by (simp add: remove_event_def raw pk Let_def remember_unchanged)
      (simp add: remember_thread_root_tombstone_def split: option.split)
qed

lemma remove_event_but:
  assumes inv: "store_inv_but X U V s"
  shows "store_inv_but X U V (remove_event X U s i)"
proof (cases "tget (events s) i")
  case None
  then show ?thesis using inv by (simp add: remove_event_def)
next
  case (Some raw)
  have ok: "events_ok X s" by (rule store_inv_but_ok [OF inv])
  obtain e where e: "(i, e) \<in> abs_events X s" using abs_mem [OF ok] Some by fastforce
  obtain t where t: "store_inv X U (s\<lparr>by_pubkey := t\<rparr>)"
    "\<forall>k. tget (by_pubkey s) k = tget t k \<or> tget (by_pubkey s) k = None \<and> feed_gap X V (abs_events X s) k"
    using inv by (auto simp: store_inv_but_def)
  note r = remove_event_feed [OF ok e]
  have "store_inv X U ((remove_event X U s i)\<lparr>by_pubkey := dels (author_keys X e i (author_of X e)) t\<rparr>)"
    using remove_event_inv [OF t(1), of i] by (simp add: r(1))
  moreover have "abs_events X (remove_event X U s i) \<subseteq> abs_events X s" using remove_event_abs [OF ok] by auto
  ultimately show ?thesis using t(2) feed_gap_mono [of X V "abs_events X s"]
    unfolding store_inv_but_def r(2) by (intro exI conjI) (auto simp: dels_def lmdb.get_dels)
qed

lemma drop_feed_but:
  assumes "store_inv_but X U V s" and "feed_gap X V (abs_events X s) k"
  shows "store_inv_but X U V (s\<lparr>by_pubkey := tdel k (by_pubkey s)\<rparr>)"
  using assms unfolding store_inv_but_def by (auto simp: lmdb.get_del)

section \<open>Chunked walks cover their range\<close>

text \<open>The entries of a chunk: index keys of the range, each with the id it ends with.\<close>

definition chunk_entries :: "table \<Rightarrow> key_bound \<Rightarrow> key_bound \<Rightarrow> (bytes \<times> bytes) list \<Rightarrow> bool" where
  "chunk_entries t lo hi es \<longleftrightarrow>
     (\<forall>(k, i) \<in> set es. k \<in> fst ` set t \<and> above lo k \<and> under hi k \<and> ID_LEN \<le> length k \<and> i = key_id k)"

lemma removal_chunk_entries: "chunk_entries t lo hi (removal_chunk t lo hi)"
  unfolding chunk_entries_def removal_chunk_def range_entries_def by (force dest!: in_set_takeD)

lemma sorted_take_covers:
  fixes ks :: "bytes list"
  assumes "sorted_wrt (<) ks" and "take n ks \<noteq> []" and "k \<in> set ks" and "\<not> last (take n ks) < k"
  shows "k \<in> set (take n ks)"
proof (rule ccontr)
  assume n: "k \<notin> set (take n ks)"
  have "set ks = set (take n ks) \<union> set (drop n ks)" by (metis append_take_drop_id set_append)
  then have "k \<in> set (drop n ks)" using n assms(3) by blast
  moreover have "sorted_wrt (<) (take n ks @ drop n ks)" using assms(1) by simp
  ultimately have "last (take n ks) < k" using assms(2) unfolding sorted_wrt_append by simp
  then show False using assms(4) by blast
qed

lemma chunk_covers:
  assumes "table_ok t" and "removal_chunk t lo hi \<noteq> []" and "k \<in> fst ` set t" and "above lo k" and "under hi k"
    and "ID_LEN \<le> length k" and "\<not> above (Excluded (fst (last (removal_chunk t lo hi)))) k"
  shows "k \<in> fst ` set (removal_chunk t lo hi)"
proof -
  let ?f = "filter (\<lambda>(k, _). ID_LEN \<le> length k) (range_entries t lo hi)"
  have m: "map fst (removal_chunk t lo hi) = take REMOVAL_CHUNK (map fst ?f)"
    by (simp add: removal_chunk_def take_map comp_def case_prod_beta)
  have "sorted_wrt (<) (map fst ?f)"
    using assms(1) by (simp add: table_ok_def range_entries_def sorted_wrt_map sorted_wrt_filter)
  moreover have "take REMOVAL_CHUNK (map fst ?f) \<noteq> []" using assms(2) m by (metis map_is_Nil_conv)
  moreover have "k \<in> set (map fst ?f)" using assms(3-6) by (force simp: range_entries_def)
  moreover have "\<not> last (take REMOVAL_CHUNK (map fst ?f)) < k" using assms(2,7) by (simp add: m [symmetric] last_map)
  ultimately have "k \<in> set (take REMOVAL_CHUNK (map fst ?f))" by (rule sorted_take_covers)
  then show ?thesis by (metis m set_map)
qed

lemma chunk_empty:
  assumes "removal_chunk t lo hi = []" and "k \<in> fst ` set t" and "above lo k" and "under hi k" and "ID_LEN \<le> length k"
  shows False
proof -
  have "filter (\<lambda>(k, _). ID_LEN \<le> length k) (range_entries t lo hi) = []"
    using assms(1) by (simp add: removal_chunk_def REMOVAL_CHUNK_def)
  then show False using assms(2-5) by (auto simp: range_entries_def filter_empty_conv)
qed

lemma above_last:
  assumes "removal_chunk t lo hi \<noteq> []" and "above (Excluded (fst (last (removal_chunk t lo hi)))) k"
  shows "above lo k"
proof -
  have "last (removal_chunk t lo hi) \<in> set (removal_chunk t lo hi)" using assms(1) by simp
  then have "above lo (fst (last (removal_chunk t lo hi)))" using removal_chunk_entries [of t lo hi] by (force simp: chunk_entries_def)
  then show ?thesis using assms(2) by (cases lo) auto
qed

lemma fuel_decreases:
  assumes ne: "removal_chunk t lo hi \<noteq> []" and sh: "shrunk t t'"
  defines "b \<equiv> Excluded (fst (last (removal_chunk t lo hi)))"
  shows "length (filter (\<lambda>(k, _). above b k \<and> under hi k) t') < length (filter (\<lambda>(k, _). above lo k \<and> under hi k) t)"
proof -
  let ?P = "\<lambda>(k, _ :: bytes). above lo k \<and> under hi k" and ?Q = "\<lambda>(k, _ :: bytes). above b k \<and> under hi k"
  have "last (removal_chunk t lo hi) \<in> set (removal_chunk t lo hi)" using ne by simp
  then obtain v where v: "(fst (last (removal_chunk t lo hi)), v) \<in> set (filter ?P t)"
    using removal_chunk_entries [of t lo hi] by (force simp: chunk_entries_def)
  have "filter ?Q t = filter ?Q (filter ?P t)"
    using above_last [OF ne] unfolding b_def by (auto intro!: filter_cong)
  moreover have "length (filter ?Q (filter ?P t)) < length (filter ?P t)"
    by (rule length_filter_less [OF v]) (simp add: b_def)
  ultimately show ?thesis using shrunk_length [OF sh, of ?Q] by simp
qed

locale chunked_removal =
  fixes T :: "store \<Rightarrow> table" and start hi :: key_bound
    and body :: "(bytes \<times> bytes) list \<Rightarrow> store \<times> 'a \<Rightarrow> store \<times> 'a"
    and I :: "store \<Rightarrow> 'a \<Rightarrow> bool" and handled :: "store \<Rightarrow> bytes \<Rightarrow> bool"
  assumes T_polled: "T (polled s) = T s" and handled_polled: "handled (polled s) k = handled s k"
    and I_polled: "I s a \<Longrightarrow> I (polled s) a" and I_sorted: "I s a \<Longrightarrow> table_ok (T s)"
    and body_ok: "I s a \<Longrightarrow> chunk_entries (T s) start hi es \<Longrightarrow> body es (s, a) = (s', a') \<Longrightarrow>
      I s' a' \<and> shrunk (T s) (T s') \<and> cancel_in s' = cancel_in s
      \<and> (\<forall>k. k \<in> fst ` set es \<or> handled s k \<longrightarrow> k \<in> fst ` set (T s') \<longrightarrow> handled s' k)"
begin

definition covered :: "key_bound \<Rightarrow> store \<Rightarrow> bool" where
  "covered lo s \<longleftrightarrow> (\<forall>k \<in> fst ` set (T s). above start k \<longrightarrow> under hi k \<longrightarrow> ID_LEN \<le> length k \<longrightarrow> above lo k \<or> handled s k)"

lemma loop_ok:
  assumes "I s a" and "\<And>k. above lo k \<Longrightarrow> above start k" and "covered lo s"
    and "length (filter (\<lambda>(k, _). above lo k \<and> under hi k) (T s)) < n"
    and "chunk_loop n T lo hi body (s, a) = ((s', a'), e)"
  shows "I s' a' \<and> shrunk (T s) (T s') \<and> e \<noteq> Out_of_fuel \<and> (cancel_in s = None \<longrightarrow> e = Finished \<and> cancel_in s' = None)
    \<and> (e = Finished \<longrightarrow> (\<forall>k \<in> fst ` set (T s'). above start k \<longrightarrow> under hi k \<longrightarrow> ID_LEN \<le> length k \<longrightarrow> handled s' k))"
  using assms
proof (induction n arbitrary: s a lo)
  case (Suc n)
  let ?s = "polled s" and ?es = "removal_chunk (T s) lo hi"
  show ?case
  proof (cases "cancelled s")
    case True
    then show ?thesis using Suc.prems by (auto simp: cancelled_def)
  next
    case nc: False
    have I1: "I ?s a" by (rule I_polled [OF Suc.prems(1)])
    show ?thesis
    proof (cases "?es = []")
      case True
      then have "s' = ?s" "a' = a" "e = Finished" using Suc.prems(5) nc by (simp_all add: Let_def T_polled)
      moreover have "handled s k" if "k \<in> fst ` set (T s)" "above start k" "under hi k" "ID_LEN \<le> length k" for k
        using Suc.prems(3) chunk_empty [OF True] that unfolding covered_def by blast
      moreover have "cancel_in s = None \<Longrightarrow> cancel_in ?s = None" by (simp add: polled_def)
      ultimately show ?thesis using I1 by (simp add: T_polled handled_polled)
    next
      case ne: False
      let ?b = "Excluded (fst (last ?es))"
      obtain s1 a1 where b: "body ?es (?s, a) = (s1, a1)" by fastforce
      have ent: "chunk_entries (T ?s) start hi ?es"
        using removal_chunk_entries [of "T s" lo hi] Suc.prems(2) by (auto simp: chunk_entries_def T_polled)
      note ok = body_ok [OF I1 ent b]
      have sh: "shrunk (T s) (T s1)" using ok by (simp add: T_polled)
      have cov: "covered ?b s1"
        unfolding covered_def
      proof (intro ballI impI)
        fix k assume k: "k \<in> fst ` set (T s1)" "above start k" "under hi k" "ID_LEN \<le> length k"
        have kt: "k \<in> fst ` set (T s)" using shrunk_keys [OF sh] k(1) by blast
        show "above ?b k \<or> handled s1 k"
        proof (cases "above ?b k")
          case False
          have "k \<in> fst ` set ?es \<or> handled s k"
            using chunk_covers [OF I_sorted [OF Suc.prems(1)] ne kt _ k(3,4) False] Suc.prems(3) kt k(2-4)
            unfolding covered_def by blast
          then show ?thesis using ok k(1) unfolding handled_polled by blast
        qed simp
      qed
      have ab: "above ?b k \<Longrightarrow> above start k" for k using above_last [OF ne] Suc.prems(2) by blast
      have fu: "length (filter (\<lambda>(k, _). above ?b k \<and> under hi k) (T s1)) < n"
        using fuel_decreases [OF ne sh] Suc.prems(4) by simp
      have lp: "chunk_loop n T ?b hi body (s1, a1) = ((s', a'), e)"
        using Suc.prems(5) nc ne b by (simp add: Let_def T_polled)
      have I2: "I s1 a1" using ok by blast
      note r = Suc.IH [OF I2 ab cov fu lp]
      have "shrunk (T s) (T s')" using r shrunk_trans [OF sh] by blast
      moreover have "cancel_in s = None \<Longrightarrow> cancel_in s1 = None" using ok by (simp add: polled_def)
      ultimately show ?thesis using r by blast
    qed
  qed
qed simp

lemma walk_ok:
  assumes "I s a" and "chunk_walk T start hi body (s, a) = ((s', a'), e)"
  shows "I s' a' \<and> shrunk (T s) (T s') \<and> e \<noteq> Out_of_fuel \<and> (cancel_in s = None \<longrightarrow> e = Finished \<and> cancel_in s' = None)
    \<and> (e = Finished \<longrightarrow> (\<forall>k \<in> fst ` set (T s'). above start k \<longrightarrow> under hi k \<longrightarrow> ID_LEN \<le> length k \<longrightarrow> handled s' k))"
proof (rule loop_ok [OF assms(1)])
  show "covered start s" by (simp add: covered_def)
  show "length (filter (\<lambda>(k, _). above start k \<and> under hi k) (T s)) < Suc (length (T s))" by (simp add: less_Suc_eq_le)
  show "chunk_loop (Suc (length (T s))) T start hi body (s, a) = ((s', a'), e)" using assms(2) by (simp add: chunk_walk_def)
qed

end

end
