(* ===== verification/RemovalWalks.thy ===== *)
theory RemovalWalks
  imports RemovalInv IndexScan
begin

text \<open>
  The chunked walks, each as an instance of \<open>chunked_removal\<close>: what they remove satisfies the walk's
  predicate, and a walk that finishes leaves nothing in its range that satisfies it.
\<close>

section \<open>Steps of a walk\<close>

definition sorted_tables :: "store \<Rightarrow> bool" where
  "sorted_tables s \<longleftrightarrow> table_ok (by_created s) \<and> table_ok (by_pubkey s) \<and> table_ok (by_kind s) \<and> table_ok (by_tag s) \<and> table_ok (expiry_t s)"

definition advances :: "ext \<Rightarrow> store \<Rightarrow> store \<Rightarrow> bool" where
  "advances X s s' \<longleftrightarrow> shrunk_store s s' \<and> cancel_in s' = cancel_in s \<and> abs_events X s' \<subseteq> abs_events X s"

lemma advances_refl [simp]: "advances X s s"
  by (simp add: advances_def shrunk_store_view)

lemma advances_trans: "advances X a b \<Longrightarrow> advances X b c \<Longrightarrow> advances X a c"
  unfolding advances_def using shrunk_store_trans by auto

lemma sorted_shrunk: "sorted_tables s \<Longrightarrow> shrunk_store s s' \<Longrightarrow> sorted_tables s'"
  by (auto simp: sorted_tables_def shrunk_store_def intro: shrunk_table_ok)

text \<open>Everything removed since \<open>s0\<close> satisfies \<open>P\<close>, and the store is consistent up to the feeds \<open>V\<close>.\<close>

definition walk_inv :: "ext \<Rightarrow> unicode \<Rightarrow> bytes set \<Rightarrow> (bytes \<Rightarrow> event \<Rightarrow> bool) \<Rightarrow> store \<Rightarrow> store \<Rightarrow> bool" where
  "walk_inv X U V P s0 s \<longleftrightarrow> store_inv_but X U V s \<and> sorted_tables s \<and> abs_events X s \<subseteq> abs_events X s0
     \<and> (\<forall>i e. (i, e) \<in> abs_events X s0 \<longrightarrow> (i, e) \<in> abs_events X s \<or> P i e)"

lemma walk_inv_start: "store_inv_but X U V s \<Longrightarrow> sorted_tables s \<Longrightarrow> walk_inv X U V P s s"
  by (simp add: walk_inv_def)

lemma walk_inv_ok: "walk_inv X U V P s0 s \<Longrightarrow> events_ok X s"
  by (auto simp: walk_inv_def dest: store_inv_but_ok)

lemma walk_inv_view:
  assumes "walk_inv X U V P s0 s" and "index_view s' = index_view s"
  shows "walk_inv X U V P s0 s'"
proof -
  have "abs_events X s' = abs_events X s" by (rule abs_events_view [OF index_view_fields(1) [OF assms(2)]])
  then show ?thesis using assms store_inv_but_view [OF _ assms(2)] sorted_shrunk [OF _ shrunk_store_view [OF assms(2)]]
    by (simp add: walk_inv_def)
qed

lemma walk_inv_trans:
  assumes "walk_inv X U V P a b" and "walk_inv X U W Q b c"
  shows "walk_inv X U W (\<lambda>i e. P i e \<or> Q i e) a c"
  using assms unfolding walk_inv_def by blast

lemma walk_inv_weaken: "walk_inv X U V P a b \<Longrightarrow> (\<And>i e. P i e \<Longrightarrow> Q i e) \<Longrightarrow> walk_inv X U V Q a b"
  unfolding walk_inv_def by blast

lemma walk_inv_more:
  assumes "walk_inv X U V P a b" and "V \<subseteq> W"
  shows "walk_inv X U W P a b"
proof -
  have "store_inv_but X U V b" using assms(1) by (simp add: walk_inv_def)
  from store_inv_but_mono [OF this assms(2)] show ?thesis using assms(1) by (simp add: walk_inv_def)
qed

lemma advances_view:
  assumes "index_view s' = index_view s" and "cancel_in s' = cancel_in s"
  shows "advances X s s'"
  unfolding advances_def abs_events_view [OF index_view_fields(1) [OF assms(1)]]
  using shrunk_store_view [OF assms(1)] assms(2) by simp

lemma cancel_in_marks [simp]:
  "cancel_in (bump_meta_counter s k) = cancel_in s" "cancel_in (stamp_removed r s) = cancel_in s"
  "cancel_in (extend_absent_deletion_marker i pk s) = cancel_in s" "cancel_in (merge_address_tombstone_in k c s) = cancel_in s"
  by (simp_all add: bump_meta_counter_def stamp_removed_def bump_state_seq_def bump_state_stamp_def Let_def
      extend_absent_deletion_marker_def merge_address_tombstone_in_def split: option.split)

lemma cancel_in_remove [simp]: "cancel_in (remove_event X U s i) = cancel_in s"
  by (simp add: remove_event_def remove_corrupt_event_def Let_def remember_thread_root_tombstone_def split: option.split)

lemma advances_remove: "events_ok X s \<Longrightarrow> advances X s (remove_event X U s i)"
  by (auto simp: advances_def remove_event_shrinks remove_event_abs)

lemma walk_inv_remove:
  assumes "walk_inv X U V P s0 s" and "\<And>e. (i, e) \<in> abs_events X s0 \<Longrightarrow> P i e"
  shows "walk_inv X U V P s0 (remove_event X U s i)"
proof -
  have w: "store_inv_but X U V s" "sorted_tables s" "abs_events X s \<subseteq> abs_events X s0"
    "\<And>i e. (i, e) \<in> abs_events X s0 \<Longrightarrow> (i, e) \<in> abs_events X s \<or> P i e"
    using assms(1) by (auto simp: walk_inv_def)
  have "abs_events X (remove_event X U s i) = {(j, e) \<in> abs_events X s. j \<noteq> i}"
    by (rule remove_event_abs [OF walk_inv_ok [OF assms(1)]])
  then have "abs_events X (remove_event X U s i) \<subseteq> abs_events X s0"
    "(j, e) \<in> abs_events X s0 \<Longrightarrow> (j, e) \<in> abs_events X (remove_event X U s i) \<or> P j e" for j e
    using w(3) w(4) [of j e] assms(2) by auto
  then show ?thesis using remove_event_but [OF w(1)] sorted_shrunk [OF w(2) remove_event_shrinks]
    unfolding walk_inv_def by blast
qed

lemma remove_event_gone: "events_ok X s \<Longrightarrow> (i, e) \<notin> abs_events X (remove_event X U s i)"
  by (simp add: remove_event_abs)

lemma fold_advances:
  assumes step: "\<And>k i s a. (k, i) \<in> set es \<Longrightarrow> J s \<Longrightarrow>
      J (fst (step (k, i) (s, a))) \<and> advances X s (fst (step (k, i) (s, a))) \<and> settled i (fst (step (k, i) (s, a)))"
    and keep: "\<And>i s s'. settled i s \<Longrightarrow> advances X s s' \<Longrightarrow> settled i s'"
    and J: "J s"
  shows "J (fst (fold step es (s, a))) \<and> advances X s (fst (fold step es (s, a))) \<and>
    (\<forall>(k, i) \<in> set es. settled i (fst (fold step es (s, a))))"
  using step J
proof (induction es arbitrary: s a)
  case (Cons x es)
  obtain k i where x: "x = (k, i)" by fastforce
  obtain s1 a1 where r: "step (k, i) (s, a) = (s1, a1)" by fastforce
  have h: "J s1" "advances X s s1" "settled i s1" using Cons.prems(1) [of k i s a] Cons.prems(2) by (auto simp: x r)
  have IH: "J (fst (fold step es (s1, a1))) \<and> advances X s1 (fst (fold step es (s1, a1))) \<and>
    (\<forall>(k, i) \<in> set es. settled i (fst (fold step es (s1, a1))))"
    by (rule Cons.IH) (use Cons.prems(1) h(1) in auto)
  then show ?case using h advances_trans keep by (auto simp: x r)
qed simp

text \<open>A key-only index has no key of an event that is gone.\<close>

lemma exact_key_stored:
  assumes "exact f (abs_events X s) t" and "owned f" and "events_ok X s" and "k \<in> fst ` set t" and "ID_LEN \<le> length k"
  shows "\<exists>e. (key_id k, e) \<in> abs_events X s \<and> k \<in> set (f (key_id k) e)"
proof -
  have "tget t k \<noteq> None" using assms(4) in_table by blast
  then obtain i e where ie: "(i, e) \<in> abs_events X s" "k \<in> set (f i e)" using assms(1) by (auto simp: exact_def split: if_splits)
  obtain p where "k = p @ i" using ownedD [OF assms(2) ie(2)] by blast
  moreover have "length i = 32" using abs_ok(1) [OF assms(3) ie(1)] id_bytes_length by blast
  ultimately have "key_id k = i" by (simp add: key_id_def ID_LEN_def)
  then show ?thesis using ie by blast
qed

lemma but_exact:
  assumes "store_inv_but X U V s"
  shows "exact (\<lambda>i e. [created_key (created_at e) i]) (abs_events X s) (by_created s)"
    and "exact (\<lambda>i e. tag_keys X e i) (abs_events X s) (by_tag s)"
    and "exact (\<lambda>i e. expiry_keys e i) (abs_events X s) (expiry_t s)"
    and "exact (\<lambda>i e. [kind_key (kind e) (created_at e) i]) (abs_events X s) (by_kind s)"
    and "slots_exact X (abs_events X s) (replaceable s)"
  using assms by (auto simp: store_inv_but_def store_inv_def indexes_exact_def)

lemma but_author_key:
  assumes "store_inv_but X U V s" and "k \<in> fst ` set (by_pubkey s)" and "ID_LEN \<le> length k"
  shows "\<exists>e. (key_id k, e) \<in> abs_events X s \<and> k \<in> set (author_keys X e (key_id k) (author_of X e))"
proof -
  obtain t where t: "store_inv X U (s\<lparr>by_pubkey := t\<rparr>)"
    "\<forall>k. tget (by_pubkey s) k = tget t k \<or> tget (by_pubkey s) k = None \<and> feed_gap X V (abs_events X s) k"
    using assms(1) by (auto simp: store_inv_but_def)
  have "exact (\<lambda>i e. author_keys X e i (author_of X e)) (abs_events X s) t" using t(1) by (auto simp: store_inv_def indexes_exact_def)
  moreover have "tget (by_pubkey s) k \<noteq> None" using assms(2) by (simp only: in_table)
  then have "tget t k \<noteq> None" using t(2) by (metis (full_types))
  then have "k \<in> fst ` set t" by (simp only: in_table)
  ultimately show ?thesis using exact_key_stored [OF _ owned_indexes(2) store_inv_but_ok [OF assms(1)] _ assms(3)] by blast
qed

text \<open>The author's own entry of a stored event is always there.\<close>

lemma but_own_key:
  assumes "store_inv_but X U V s" and "(i, e) \<in> abs_events X s"
  shows "pubkey_key (author_of X e) (created_at e) i \<in> fst ` set (by_pubkey s)"
proof -
  let ?k = "pubkey_key (author_of X e) (created_at e) i"
  have ok: "events_ok X s" by (rule store_inv_but_ok [OF assms(1)])
  obtain t where t: "store_inv X U (s\<lparr>by_pubkey := t\<rparr>)"
    "\<forall>k. tget (by_pubkey s) k = tget t k \<or> tget (by_pubkey s) k = None \<and> feed_gap X V (abs_events X s) k"
    using assms(1) by (auto simp: store_inv_but_def)
  have "?k \<in> set (author_keys X e i (author_of X e))" by (simp add: author_keys_def)
  then have "tget t ?k \<noteq> None" using t(1) assms(2) by (auto simp: store_inv_def indexes_exact_def exact_def)
  moreover have "\<not> feed_gap X V (abs_events X s) ?k"
  proof
    assume "feed_gap X V (abs_events X s) ?k"
    then obtain d c j where g: "length d = 32" "length j = 32" "?k = pubkey_key d c j" "\<And>e. (j, e) \<in> abs_events X s \<Longrightarrow> author_of X e \<noteq> d"
      by (auto simp: feed_gap_def)
    have "length i = 32" "length (author_of X e) = 32"
      using abs_ok [OF ok assms(2)] id_bytes_length pubkey_bytes_length by blast+
    then have "i = j" "author_of X e = d" using g(1-3) by (auto simp: pubkey_key_def)
    then show False using g(4) assms(2) by blast
  qed
  ultimately show ?thesis using t(2) in_table by metis
qed

text \<open>
  Folding a step over the entries of a chunk: each step may use that its key was in the index when the
  chunk was read, and that the walk has only advanced since.
\<close>

lemma fold_entries:
  fixes step :: "bytes \<times> bytes \<Rightarrow> store \<times> 'a \<Rightarrow> store \<times> 'a"
  assumes ent: "chunk_entries t lo hi es" and J: "walk_inv X U V P s0 s"
    and step: "\<And>k s1 a. k \<in> fst ` set es \<Longrightarrow> ID_LEN \<le> length k \<Longrightarrow> walk_inv X U V P s0 s1 \<Longrightarrow> advances X s s1 \<Longrightarrow>
      walk_inv X U V P s0 (fst (step (k, key_id k) (s1, a))) \<and> advances X s1 (fst (step (k, key_id k) (s1, a)))
      \<and> settled (key_id k) (fst (step (k, key_id k) (s1, a)))"
    and keep: "\<And>i s1 s2. settled i s1 \<Longrightarrow> advances X s1 s2 \<Longrightarrow> settled i s2"
    and r: "fold step es (s, a) = (s', a')"
  shows "walk_inv X U V P s0 s' \<and> advances X s s' \<and> (\<forall>k \<in> fst ` set es. settled (key_id k) s')"
proof -
  let ?J = "\<lambda>s1. walk_inv X U V P s0 s1 \<and> advances X s s1"
  have st: "?J (fst (step (k, i) (s1, b))) \<and> advances X s1 (fst (step (k, i) (s1, b))) \<and> settled i (fst (step (k, i) (s1, b)))"
    if ki: "(k, i) \<in> set es" and J1: "?J s1" for k i s1 b
  proof -
    have i: "i = key_id k" "ID_LEN \<le> length k" using ent ki by (auto simp: chunk_entries_def)
    have "k \<in> fst ` set es" using ki by force
    from step [OF this i(2), of s1 b] J1 show ?thesis using advances_trans i(1) by blast
  qed
  have J0: "?J s" using J by simp
  note fold_advances [where J = ?J and settled = settled and es = es and step = step and X = X and s = s and a = a, OF st keep J0]
  then show ?thesis using ent by (fastforce simp: r chunk_entries_def)
qed

lemma entry_key:
  assumes "walk_inv X U V P s0 s" and "exact f (abs_events X s) t" and "owned f" and "k \<in> fst ` set t"
    and "ID_LEN \<le> length k" and "(key_id k, e) \<in> abs_events X s0"
  shows "(key_id k, e) \<in> abs_events X s \<and> k \<in> set (f (key_id k) e) \<and> length (key_id k) = 32"
proof -
  have ok: "events_ok X s" by (rule walk_inv_ok [OF assms(1)])
  obtain e' where e': "(key_id k, e') \<in> abs_events X s" "k \<in> set (f (key_id k) e')"
    using exact_key_stored [OF assms(2,3) ok assms(4,5)] by blast
  have "abs_events X s \<subseteq> abs_events X s0" using assms(1) by (simp add: walk_inv_def)
  then have "e' = e" using e'(1) assms(6) abs_fun by blast
  moreover have "length (key_id k) = 32" using abs_ok(1) [OF ok e'(1)] id_bytes_length by blast
  ultimately show ?thesis using e' by blast
qed

lemma walk_inv_facts:
  assumes "walk_inv X U V P s0 s"
  shows "store_inv_but X U V s" "sorted_tables s" "abs_events X s \<subseteq> abs_events X s0" "events_ok X s"
  using assms walk_inv_ok by (auto simp: walk_inv_def)

lemma walk_inv_sorted:
  assumes "walk_inv X U V P s0 s"
  shows "table_ok (by_created s)" "table_ok (by_pubkey s)" "table_ok (by_tag s)" "table_ok (expiry_t s)"
  using assms by (simp_all add: walk_inv_def sorted_tables_def)

lemma walk_inv_polled: "walk_inv X U V P s0 s \<Longrightarrow> walk_inv X U V P s0 (polled s)"
  by (rule walk_inv_view) simp_all

lemma polled_fields [simp]:
  "events (polled s) = events s" "by_created (polled s) = by_created s" "by_pubkey (polled s) = by_pubkey s"
  "by_tag (polled s) = by_tag s" "expiry_t (polled s) = expiry_t s"
  by (simp_all add: polled_def)

lemma abs_polled [simp]: "abs_events X (polled s) = abs_events X s"
  by (rule abs_events_view) simp

section \<open>Ranges of the tag index\<close>

lemma tag_window_range:
  "(tag_key n v lo (replicate ID_LEN 0), range_end (tag_key n v (saturating_add hi 1) (replicate ID_LEN 0)) hi) = tag_range n v lo hi"
  using range_end_tail [of "[n, 0x00] @ be32 (length v) @ v" hi] by (simp add: tag_range_def tag_key_def Let_def ID_LEN_def)

lemma wrap_keys_in_range:
  fixes until_ts :: u64
  assumes "length i = 32" and "length pk = 32"
  defines "r \<equiv> tag_range GIFT_WRAP_INDEX pk 0 until_ts"
  shows "(\<exists>k \<in> set (tag_keys X e i). fst r \<le> k \<and> k < snd r) \<longleftrightarrow> pk \<in> set (gift_wrap_recipients X e) \<and> created_at e \<le> until_ts"
proof -
  have pl: "length pk < 2 ^ 32" using assms(2) by simp
  have rng: "fst r \<le> tag_key n w (created_at e) i \<and> tag_key n w (created_at e) i < snd r \<longleftrightarrow>
      n = GIFT_WRAP_INDEX \<and> w = pk \<and> created_at e \<le> until_ts" if "length w < 2 ^ 32" for n w
    unfolding r_def using tag_range_exact [OF assms(1) pl that, of GIFT_WRAP_INDEX 0 until_ts n "created_at e"] by simp
  show ?thesis
  proof
    assume "\<exists>k \<in> set (tag_keys X e i). fst r \<le> k \<and> k < snd r"
    then obtain k where k: "k \<in> set (tag_keys X e i)" "fst r \<le> k \<and> k < snd r" by blast
    from k(1) consider t where "indexable_tag t" "k = tag_key (of_nat (code (t ! 0 ! 0))) (as_bytes (t ! 1)) (created_at e) i"
      | w where "w \<in> set (gift_wrap_recipients X e)" "k = tag_key GIFT_WRAP_INDEX w (created_at e) i"
      by (auto simp: tag_keys_def)
    then show "pk \<in> set (gift_wrap_recipients X e) \<and> created_at e \<le> until_ts"
    proof cases
      case 1
      have "length (as_bytes (t ! 1)) < 2 ^ 32" using 1(1) by (simp add: indexable_tag_def TAG_VALUE_MAX_def)
      then have "(of_nat (code (t ! 0 ! 0)) :: u8) = GIFT_WRAP_INDEX" using rng k(2) 1(2) by blast
      moreover have "is_ascii_alphanumeric (t ! 0 ! 0)" using 1(1) by (simp add: indexable_tag_def)
      ultimately show ?thesis using alnum_not_gift by blast
    next
      case 2
      have "length w < 2 ^ 32" using recipient_length [OF 2(1)] by simp
      then have "w = pk \<and> created_at e \<le> until_ts" using rng k(2) 2(2) by blast
      then show ?thesis using 2(1) by blast
    qed
  next
    assume a: "pk \<in> set (gift_wrap_recipients X e) \<and> created_at e \<le> until_ts"
    then have "tag_key GIFT_WRAP_INDEX pk (created_at e) i \<in> set (tag_keys X e i)" by (auto simp: tag_keys_def)
    then show "\<exists>k \<in> set (tag_keys X e i). fst r \<le> k \<and> k < snd r" using rng [OF pl] a by blast
  qed
qed

section \<open>Gift wraps\<close>

definition wrap_to :: "ext \<Rightarrow> bytes \<Rightarrow> u64 \<Rightarrow> bytes \<Rightarrow> event \<Rightarrow> bool" where
  "wrap_to X pk until_ts i e \<longleftrightarrow> pk \<in> set (gift_wrap_recipients X e) \<and> created_at e \<le> until_ts"

definition wraps_inv :: "ext \<Rightarrow> unicode \<Rightarrow> bytes set \<Rightarrow> bytes \<Rightarrow> u64 \<Rightarrow> store \<Rightarrow> store \<Rightarrow> nat \<Rightarrow> bool" where
  "wraps_inv X U V pk until_ts s0 s n \<longleftrightarrow> length pk = 32 \<and> walk_inv X U V (wrap_to X pk until_ts) s0 s"

lemma tdel_absent: "k \<notin> fst ` set t \<Longrightarrow> tdel k t = t"
  unfolding tdel_def by (rule filter_True) force

lemma remove_wrap_step:
  assumes "walk_inv X U V P s0 s" and "ID_LEN \<le> length k" and "\<And>e. (key_id k, e) \<in> abs_events X s0 \<Longrightarrow> P (key_id k) e"
  shows "walk_inv X U V P s0 (fst (remove_wrap X U pk (k, key_id k) (s, n)))
    \<and> advances X s (fst (remove_wrap X U pk (k, key_id k) (s, n)))
    \<and> (\<forall>e. (key_id k, e) \<notin> abs_events X (fst (remove_wrap X U pk (k, key_id k) (s, n))))"
proof -
  have inv: "store_inv_but X U V s" and ok: "events_ok X s" using assms(1) walk_inv_ok by (auto simp: walk_inv_def)
  show ?thesis
  proof (cases "tget (events s) (key_id k)")
    case None
    then have none: "(key_id k, e) \<notin> abs_events X s" for e by (simp add: abs_events_def)
    have "k \<notin> fst ` set (by_tag s)"
      using exact_key_stored [OF but_exact(2) [OF inv] owned_indexes(4) ok _ assms(2)] none by blast
    then show ?thesis using None none assms(1) by (simp add: remove_wrap_def tdel_absent)
  next
    case (Some raw)
    let ?s = "extend_absent_deletion_marker (key_id k) pk s"
    have w: "walk_inv X U V P s0 ?s" by (rule walk_inv_view [OF assms(1)]) simp
    have "advances X s ?s" by (rule advances_view) simp_all
    then have "advances X s (remove_event X U ?s (key_id k))" by (rule advances_trans [OF _ advances_remove [OF walk_inv_ok [OF w]]])
    then show ?thesis using Some walk_inv_remove [OF w assms(3)] remove_event_gone [OF walk_inv_ok [OF w]]
      by (simp add: remove_wrap_def)
  qed
qed

lemma gone_mono: "\<forall>e. (i, e) \<notin> abs_events X s \<Longrightarrow> advances X s s' \<Longrightarrow> \<forall>e. (i, e) \<notin> abs_events X s'"
  by (auto simp: advances_def)

lemma gone_key:
  assumes "walk_inv X U V P s0 s" and "exact f (abs_events X s) t" and "owned f" and "ID_LEN \<le> length k"
    and "\<forall>e. (key_id k, e) \<notin> abs_events X s"
  shows "k \<notin> fst ` set t"
  using exact_key_stored [OF assms(2,3) walk_inv_ok [OF assms(1)] _ assms(4)] assms(5) by blast

abbreviation wrap_range :: "bytes \<Rightarrow> u64 \<Rightarrow> bytes \<times> bytes" where
  "wrap_range pk until_ts \<equiv> tag_range GIFT_WRAP_INDEX pk 0 until_ts"

interpretation wraps: chunked_removal by_tag "Included (fst (wrap_range pk until_ts))" "Excluded (snd (wrap_range pk until_ts))"
  "fold (remove_wrap X U pk)" "wraps_inv X U V pk until_ts s0" "\<lambda>_ _. False"
  for X U V pk until_ts s0
proof
  fix s :: store and n :: nat and es s' n'
  assume I: "wraps_inv X U V pk until_ts s0 s n"
    and ent: "chunk_entries (by_tag s) (Included (fst (wrap_range pk until_ts))) (Excluded (snd (wrap_range pk until_ts))) es"
    and r: "fold (remove_wrap X U pk) es (s, n) = (s', n')"
  have J: "walk_inv X U V (wrap_to X pk until_ts) s0 s" and pk: "length pk = 32" using I by (auto simp: wraps_inv_def)
  note w = walk_inv_facts [OF J]
  have P: "wrap_to X pk until_ts (key_id k) e" if "k \<in> fst ` set es" "(key_id k, e) \<in> abs_events X s0" for k e
  proof -
    have "k \<in> fst ` set (by_tag s)" "ID_LEN \<le> length k" "fst (wrap_range pk until_ts) \<le> k" "k < snd (wrap_range pk until_ts)"
      using ent that(1) by (auto simp: chunk_entries_def)
    then show ?thesis using entry_key [OF J but_exact(2) [OF w(1)] owned_indexes(4) _ _ that(2)]
        wrap_keys_in_range [where i = "key_id k" and pk = pk and until_ts = until_ts and X = X and e = e] pk
      by (auto simp: wrap_to_def)
  qed
  have a: "walk_inv X U V (wrap_to X pk until_ts) s0 s' \<and> advances X s s' \<and> (\<forall>k \<in> fst ` set es. \<forall>e. (key_id k, e) \<notin> abs_events X s')"
    by (rule fold_entries [where settled = "\<lambda>i s. \<forall>e. (i, e) \<notin> abs_events X s", OF ent J _ gone_mono r]) (use remove_wrap_step P in blast)
  moreover have "k \<notin> fst ` set (by_tag s')" if "k \<in> fst ` set es" for k
  proof (rule gone_key [OF _ but_exact(2) owned_indexes(4)])
    show "ID_LEN \<le> length k" using ent that by (auto simp: chunk_entries_def)
  qed (use a that in \<open>auto simp: walk_inv_def\<close>)
  ultimately show "wraps_inv X U V pk until_ts s0 s' n' \<and> shrunk (by_tag s) (by_tag s') \<and> cancel_in s' = cancel_in s \<and>
    (\<forall>k. k \<in> fst ` set es \<or> False \<longrightarrow> k \<in> fst ` set (by_tag s') \<longrightarrow> False)"
    using pk by (auto simp: wraps_inv_def advances_def shrunk_store_def)
qed (auto simp: wraps_inv_def walk_inv_polled dest: walk_inv_sorted)


section \<open>Stamped chunks\<close>

lemma stamped_chunk_run:
  assumes "stamped_chunk step es (s, p) = (s', p')"
  obtains s1 n1 c1 where "fold step es (s, fst p, no_state) = (s1, n1, c1)" "s' = stamp_removed c1 s1"
    "index_view s' = index_view s1" "cancel_in s' = cancel_in s1"
  using assms by (cases p) (auto simp: stamped_chunk_def split: prod.splits)

lemma walk_inv_stamped:
  assumes "walk_inv X U V P s0 s1 \<and> advances X s s1" and "index_view s' = index_view s1" and "cancel_in s' = cancel_in s1"
  shows "walk_inv X U V P s0 s'" "advances X s s'" "abs_events X s' = abs_events X s1"
  using walk_inv_view [OF _ assms(2)] advances_trans [OF _ advances_view [OF assms(2,3)]] assms(1)
    abs_events_view [OF index_view_fields(1) [OF assms(2)]] by auto

section \<open>Expired events\<close>

definition expired_by :: "u64 \<Rightarrow> bytes \<Rightarrow> event \<Rightarrow> bool" where
  "expired_by now i e \<longleftrightarrow> (\<exists>x. expiry e = Some x \<and> x \<le> now)"

lemma expire_step:
  assumes "walk_inv X U V P s0 s" and "ID_LEN \<le> length k" and "\<And>e. (key_id k, e) \<in> abs_events X s0 \<Longrightarrow> P (key_id k) e"
  shows "walk_inv X U V P s0 (fst (expire_entry X U (k, key_id k) (s, p)))
    \<and> advances X s (fst (expire_entry X U (k, key_id k) (s, p)))
    \<and> (\<forall>e. (key_id k, e) \<notin> abs_events X (fst (expire_entry X U (k, key_id k) (s, p))))"
proof (cases "tget (events s) (key_id k)")
  case None
  then have none: "\<forall>e. (key_id k, e) \<notin> abs_events X s" by (simp add: abs_events_def)
  have "k \<notin> fst ` set (expiry_t s)"
    by (rule gone_key [OF assms(1) but_exact(3) [OF walk_inv_facts(1) [OF assms(1)]] owned_indexes(5) assms(2) none])
  then show ?thesis using None none assms(1) by (cases p) (simp add: expire_entry_def tdel_absent)
next
  case (Some raw)
  note ok = walk_inv_ok [OF assms(1)]
  show ?thesis using Some walk_inv_remove [OF assms(1,3)] remove_event_gone [OF ok] advances_remove [OF ok]
    by (cases p) (simp add: expire_entry_def)
qed

lemma expiry_keys_in_range:
  assumes "length i = 32" and "k \<in> set (expiry_keys e i)"
  shows "k \<le> created_key now (replicate ID_LEN 0xff) \<longleftrightarrow> expired_by now i e" and "created_key 0 (replicate ID_LEN 0) \<le> k"
proof -
  obtain x where x: "expiry e = Some x" "k = created_key x i" using assms(2) by (cases "expiry e") (auto simp: expiry_keys_def)
  show "k \<le> created_key now (replicate ID_LEN 0xff) \<longleftrightarrow> expired_by now i e"
    using x ff_le [OF assms(1)] by (auto simp: expired_by_def created_key_def append_le be64_less ID_LEN_def)
  show "created_key 0 (replicate ID_LEN 0) \<le> k"
    using x tail_range(1) [OF assms(1), of 0 x] by (simp add: created_key_def ID_LEN_def)
qed

interpretation expiry: chunked_removal expiry_t "Included (created_key 0 (replicate ID_LEN 0))"
  "Included (created_key now (replicate ID_LEN 0xff))" "stamped_chunk (expire_entry X U)"
  "\<lambda>s _. walk_inv X U V (expired_by now) s0 s" "\<lambda>_ _. False"
  for X U V now s0
proof
  fix s es s' and p p' :: progress
  assume J: "walk_inv X U V (expired_by now) s0 s"
    and ent: "chunk_entries (expiry_t s) (Included (created_key 0 (replicate ID_LEN 0))) (Included (created_key now (replicate ID_LEN 0xff))) es"
    and r: "stamped_chunk (expire_entry X U) es (s, p) = (s', p')"
  note ex = but_exact(3) [OF walk_inv_facts(1) [OF J]]
  have P: "expired_by now (key_id k) e" if "k \<in> fst ` set es" "(key_id k, e) \<in> abs_events X s0" for k e
  proof -
    have "k \<in> fst ` set (expiry_t s)" "ID_LEN \<le> length k" "k \<le> created_key now (replicate ID_LEN 0xff)"
      using ent that(1) by (auto simp: chunk_entries_def)
    then show ?thesis using entry_key [OF J ex owned_indexes(5) _ _ that(2)] expiry_keys_in_range(1) by blast
  qed
  obtain s1 n1 c1 where f: "fold (expire_entry X U) es (s, fst p, no_state) = (s1, n1, c1)"
    and v: "index_view s' = index_view s1" "cancel_in s' = cancel_in s1" using r by (rule stamped_chunk_run)
  have a: "walk_inv X U V (expired_by now) s0 s1 \<and> advances X s s1 \<and> (\<forall>k \<in> fst ` set es. \<forall>e. (key_id k, e) \<notin> abs_events X s1)"
    by (rule fold_entries [where settled = "\<lambda>i s. \<forall>e. (i, e) \<notin> abs_events X s", OF ent J _ gone_mono f]) (use expire_step P in blast)
  then have b: "walk_inv X U V (expired_by now) s0 s' \<and> advances X s s'" "abs_events X s' = abs_events X s1"
    using walk_inv_stamped [OF _ v] by auto
  have "k \<notin> fst ` set (expiry_t s')" if "k \<in> fst ` set es" for k
  proof (rule gone_key [OF _ but_exact(3) owned_indexes(5)])
    show "ID_LEN \<le> length k" using ent that by (auto simp: chunk_entries_def)
  qed (use a b that in \<open>auto simp: walk_inv_def\<close>)
  then show "walk_inv X U V (expired_by now) s0 s' \<and> shrunk (expiry_t s) (expiry_t s') \<and> cancel_in s' = cancel_in s \<and>
    (\<forall>k. k \<in> fst ` set es \<or> False \<longrightarrow> k \<in> fst ` set (expiry_t s') \<longrightarrow> False)"
    using b by (auto simp: advances_def shrunk_store_def)
qed (auto simp: walk_inv_polled dest: walk_inv_sorted)

section \<open>The author's history\<close>

definition authored :: "ext \<Rightarrow> bytes \<Rightarrow> u64 \<Rightarrow> bytes \<Rightarrow> event \<Rightarrow> bool" where
  "authored X pk until_ts i e \<longleftrightarrow> pubkey_bytes X e = Some pk \<and> created_at e \<le> until_ts"

definition others_only :: "ext \<Rightarrow> bytes \<Rightarrow> bytes \<Rightarrow> store \<Rightarrow> bool" where
  "others_only X pk i s \<longleftrightarrow> (\<forall>e. (i, e) \<in> abs_events X s \<longrightarrow> author_of X e \<noteq> pk)"

definition vanish_inv :: "ext \<Rightarrow> unicode \<Rightarrow> bytes set \<Rightarrow> bytes \<Rightarrow> u64 \<Rightarrow> store \<Rightarrow> store \<Rightarrow> progress \<Rightarrow> bool" where
  "vanish_inv X U V pk until_ts s0 s p \<longleftrightarrow> hex_codec (hex_encode X) (hex_decode X) \<and> length pk = 32 \<and> pk \<in> V
     \<and> walk_inv X U V (authored X pk until_ts) s0 s"

lemma others_mono: "others_only X pk i s \<Longrightarrow> advances X s s' \<Longrightarrow> others_only X pk i s'"
  by (auto simp: others_only_def advances_def)

lemma pubkeys_equal_author:
  assumes "hex_codec (hex_encode X) (hex_decode X)" and "pubkey_bytes X e = Some a"
  shows "pubkeys_equal X (pubkey e) (hex_encode X pk) \<longleftrightarrow> a = pk"
  using assms hex_codec.dec_enc [OF assms(1)]
  by (auto simp: pubkeys_equal_def pubkey_bytes_def decode_array_Some)

lemma walk_inv_drop_feed:
  assumes "walk_inv X U V P s0 s" and "feed_gap X V (abs_events X s) k"
  shows "walk_inv X U V P s0 (s\<lparr>by_pubkey := tdel k (by_pubkey s)\<rparr>)"
    and "advances X s (s\<lparr>by_pubkey := tdel k (by_pubkey s)\<rparr>)"
proof -
  have sh: "shrunk_store s (s\<lparr>by_pubkey := tdel k (by_pubkey s)\<rparr>)" by (simp add: shrunk_store_def shrunk_tdel)
  then show "advances X s (s\<lparr>by_pubkey := tdel k (by_pubkey s)\<rparr>)" by (simp add: advances_def)
  show "walk_inv X U V P s0 (s\<lparr>by_pubkey := tdel k (by_pubkey s)\<rparr>)"
    using assms drop_feed_but sorted_shrunk [OF _ sh] by (simp add: walk_inv_def)
qed

lemma author_entry:
  assumes "store_inv_but X U V s" and "k \<in> fst ` set (by_pubkey s)" and "ID_LEN \<le> length k" and "length pk = 32"
    and rng: "fst (time_range (pubkey_key pk) 0 until_ts) \<le> k" "k < snd (time_range (pubkey_key pk) 0 until_ts)"
  obtains e c where "(key_id k, e) \<in> abs_events X s" "k = pubkey_key pk c (key_id k)" "length (key_id k) = 32" "created_at e \<le> until_ts"
proof -
  have ok: "events_ok X s" by (rule store_inv_but_ok [OF assms(1)])
  obtain e where e: "(key_id k, e) \<in> abs_events X s" "k \<in> set (author_keys X e (key_id k) (author_of X e))"
    using but_author_key [OF assms(1-3)] by blast
  have len: "length (key_id k) = 32" and al: "length (author_of X e) = 32"
    using abs_ok [OF ok e(1)] id_bytes_length pubkey_bytes_length by blast+
  have "delegator_bytes X e = Some d \<Longrightarrow> length d = 32" for d
    by (auto simp: delegator_bytes_def decode_array_Some ID_LEN_def split: option.splits)
  then obtain a where a: "k = pubkey_key a (created_at e) (key_id k)" "length a = 32"
    using e(2) al by (auto simp: author_keys_def split: option.splits)
  have "length a = length pk" using a(2) assms(4) by simp
  note time_range_exact(2) [OF len this, of 0 until_ts "created_at e"]
  then have "a = pk" "created_at e \<le> until_ts" using rng a(1) by auto
  then show ?thesis using that e(1) a(1) len by blast
qed

lemma vanish_step:
  assumes I: "vanish_inv X U V pk until_ts s0 s1 p" and "walk_inv X U V (authored X pk until_ts) s0 s" and adv: "advances X s s1"
    and k: "k \<in> fst ` set (by_pubkey s)" "ID_LEN \<le> length k"
      "fst (time_range (pubkey_key pk) 0 until_ts) \<le> k" "k < snd (time_range (pubkey_key pk) 0 until_ts)"
  defines "s2 \<equiv> fst (vanish_entry X U pk (k, key_id k) (s1, p))"
  shows "walk_inv X U V (authored X pk until_ts) s0 s2 \<and> advances X s1 s2 \<and> others_only X pk (key_id k) s2"
proof -
  have c: "hex_codec (hex_encode X) (hex_decode X)" and pk: "length pk = 32" "pk \<in> V"
    and J: "walk_inv X U V (authored X pk until_ts) s0 s1" using I by (auto simp: vanish_inv_def)
  note w = walk_inv_facts [OF J]
  obtain e c' where e: "(key_id k, e) \<in> abs_events X s" "k = pubkey_key pk c' (key_id k)" "length (key_id k) = 32" "created_at e \<le> until_ts"
    using author_entry [OF walk_inv_facts(1) [OF assms(2)] k(1,2) pk(1) k(3,4)] by blast
  have s0: "(key_id k, e') \<in> abs_events X s0 \<Longrightarrow> e' = e" for e'
    using e(1) walk_inv_facts(3) [OF assms(2)] abs_fun by blast
  obtain n sr where p: "p = (n, sr)" by fastforce
  show ?thesis
  proof (cases "Option.bind (tget (events s1) (key_id k)) (event_of_json X)")
    case None
    then have "s2 = s1" "\<And>e. (key_id k, e) \<notin> abs_events X s1" by (simp_all add: s2_def vanish_entry_def p abs_events_def)
    then show ?thesis using J by (simp add: others_only_def)
  next
    case (Some e1)
    then have e1: "(key_id k, e1) \<in> abs_events X s1" by (simp add: abs_events_def)
    then have [simp]: "e1 = e" using s0 w(3) by blast
    have a: "pubkey_bytes X e = Some (author_of X e)" using abs_ok(2) [OF w(4)] e1 by simp
    show ?thesis
    proof (cases "author_of X e = pk")
      case True
      then have "s2 = remove_event X U s1 (key_id k)"
        using Some pubkeys_equal_author [OF c a, of pk] by (simp add: s2_def vanish_entry_def p)
      moreover have "authored X pk until_ts (key_id k) e'" if "(key_id k, e') \<in> abs_events X s0" for e'
        using s0 [OF that] a True e(4) by (simp add: authored_def)
      ultimately show ?thesis
        using walk_inv_remove [OF J] advances_remove [OF w(4)] remove_event_gone [OF w(4)] by (simp add: others_only_def)
    next
      case False
      have au: "\<forall>e'. (key_id k, e') \<in> abs_events X s1 \<longrightarrow> author_of X e' \<noteq> pk"
      proof (intro allI impI)
        fix e'
        assume "(key_id k, e') \<in> abs_events X s1"
        then have "e' = e" using e1 abs_fun by simp
        then show "author_of X e' \<noteq> pk" using False by simp
      qed
      then have o: "others_only X pk (key_id k) s1" by (simp add: others_only_def)
      have g: "feed_gap X V (abs_events X s1) k"
        unfolding feed_gap_def by (rule exI [of _ pk], rule exI [of _ c'], rule exI [of _ "key_id k"]) (intro conjI pk e(2,3) au)
      note d = walk_inv_drop_feed [OF J g]
      have "s2 = s1 \<or> s2 = s1\<lparr>by_pubkey := tdel k (by_pubkey s1)\<rparr>"
        using Some False pubkeys_equal_author [OF c a, of pk] by (simp add: s2_def vanish_entry_def p)
      then show ?thesis using d J o others_mono [OF o d(2)] by auto
    qed
  qed
qed

interpretation history: chunked_removal by_pubkey "Included (fst (time_range (pubkey_key pk) 0 until_ts))"
  "Excluded (snd (time_range (pubkey_key pk) 0 until_ts))" "stamped_chunk (vanish_entry X U pk)"
  "vanish_inv X U V pk until_ts s0" "\<lambda>s k. others_only X pk (key_id k) s"
  for X U V pk until_ts s0
proof
  fix s es s' and p p' :: progress
  assume I: "vanish_inv X U V pk until_ts s0 s p"
    and ent: "chunk_entries (by_pubkey s) (Included (fst (time_range (pubkey_key pk) 0 until_ts)))
      (Excluded (snd (time_range (pubkey_key pk) 0 until_ts))) es"
    and r: "stamped_chunk (vanish_entry X U pk) es (s, p) = (s', p')"
  have J: "walk_inv X U V (authored X pk until_ts) s0 s" using I by (simp add: vanish_inv_def)
  obtain s1 n1 c1 where f: "fold (vanish_entry X U pk) es (s, fst p, no_state) = (s1, n1, c1)"
    and v: "index_view s' = index_view s1" "cancel_in s' = cancel_in s1" using r by (rule stamped_chunk_run)
  have a: "walk_inv X U V (authored X pk until_ts) s0 s1 \<and> advances X s s1 \<and> (\<forall>k \<in> fst ` set es. others_only X pk (key_id k) s1)"
  proof (rule fold_entries [where settled = "others_only X pk", OF ent J _ others_mono f])
    fix k s2 b
    assume k: "k \<in> fst ` set es" and "walk_inv X U V (authored X pk until_ts) s0 s2" and adv: "advances X s s2"
    then have I2: "vanish_inv X U V pk until_ts s0 s2 b" using I by (simp add: vanish_inv_def)
    have "k \<in> fst ` set (by_pubkey s)" "ID_LEN \<le> length k"
      "fst (time_range (pubkey_key pk) 0 until_ts) \<le> k" "k < snd (time_range (pubkey_key pk) 0 until_ts)"
      using ent k by (auto simp: chunk_entries_def)
    from vanish_step [OF I2 J adv this]
    show "walk_inv X U V (authored X pk until_ts) s0 (fst (vanish_entry X U pk (k, key_id k) (s2, b)))
      \<and> advances X s2 (fst (vanish_entry X U pk (k, key_id k) (s2, b)))
      \<and> others_only X pk (key_id k) (fst (vanish_entry X U pk (k, key_id k) (s2, b)))" .
  qed
  then have b: "walk_inv X U V (authored X pk until_ts) s0 s'" "advances X s s'" "abs_events X s' = abs_events X s1"
    using walk_inv_stamped [OF _ v] by auto
  then have "others_only X pk (key_id k) s'" if "k \<in> fst ` set es \<or> others_only X pk (key_id k) s" for k
    using that a others_mono [OF _ b(2)] by (auto simp: others_only_def)
  then show "vanish_inv X U V pk until_ts s0 s' p' \<and> shrunk (by_pubkey s) (by_pubkey s') \<and> cancel_in s' = cancel_in s \<and>
    (\<forall>k. k \<in> fst ` set es \<or> others_only X pk (key_id k) s \<longrightarrow> k \<in> fst ` set (by_pubkey s') \<longrightarrow> others_only X pk (key_id k) s')"
    using I b by (auto simp: vanish_inv_def advances_def shrunk_store_def)
qed (auto simp: vanish_inv_def walk_inv_polled others_only_def dest: walk_inv_sorted)

section \<open>A group's history\<close>

definition group_history :: "string \<Rightarrow> u64 \<Rightarrow> bytes \<Rightarrow> event \<Rightarrow> bool" where
  "group_history gid until_ts i e \<longleftrightarrow>
     (names_group ''h'' gid e \<or> is_group_meta (kind e) \<and> names_group ''d'' gid e) \<and> created_at e \<le> until_ts"

definition spared :: "ext \<Rightarrow> string \<Rightarrow> purge_phase \<Rightarrow> bytes \<Rightarrow> store \<Rightarrow> bool" where
  "spared X gid phase i s \<longleftrightarrow> (\<forall>e. (i, e) \<in> abs_events X s \<longrightarrow> \<not> purge_matches gid phase (Some e))"

lemma spared_mono: "spared X gid phase i s \<Longrightarrow> advances X s s' \<Longrightarrow> spared X gid phase i s'"
  by (auto simp: spared_def advances_def)

lemma purge_step:
  assumes J: "walk_inv X U V P s0 s" and P: "\<And>e. (i, e) \<in> abs_events X s0 \<Longrightarrow> purge_matches gid phase (Some e) \<Longrightarrow> P i e"
  shows "walk_inv X U V P s0 (fst (purge_entry X U gid phase (k, i) (s, p)))
    \<and> advances X s (fst (purge_entry X U gid phase (k, i) (s, p)))
    \<and> spared X gid phase i (fst (purge_entry X U gid phase (k, i) (s, p)))"
proof (cases "tget (events s) i")
  case None
  then have "\<And>e. (i, e) \<notin> abs_events X s" by (simp add: abs_events_def)
  then show ?thesis using None J by (simp add: purge_entry_def spared_def)
next
  case (Some raw)
  note w = walk_inv_facts [OF J]
  obtain e where e: "(i, e) \<in> abs_events X s" using abs_mem [OF w(4)] Some by fastforce
  then have js: "event_of_json X raw = Some e" using Some by (simp add: abs_events_def)
  show ?thesis
  proof (cases "purge_matches gid phase (Some e)")
    case True
    have "P i e'" if e': "(i, e') \<in> abs_events X s0" for e'
    proof -
      have "(i, e) \<in> abs_events X s0" using e w(3) by blast
      then have "e' = e" using e' abs_fun by blast
      then show ?thesis using P e' True by blast
    qed
    then show ?thesis using Some js True walk_inv_remove [OF J] advances_remove [OF w(4)] remove_event_gone [OF w(4)]
      by (simp add: purge_entry_def spared_def Let_def)
  next
    case False
    have "e' = e" if "(i, e') \<in> abs_events X s" for e' using e that by (rule abs_fun [symmetric])
    then have "spared X gid phase i s" using False by (auto simp: spared_def)
    then show ?thesis using Some js False J by (simp add: purge_entry_def Let_def)
  qed
qed

text \<open>A chunk that counted no removal changed nothing.\<close>

lemma purge_fold_same:
  "pg_removed p \<le> pg_removed (snd (fold (purge_entry X U gid phase) es (s, p)))
   \<and> (pg_removed (snd (fold (purge_entry X U gid phase) es (s, p))) = pg_removed p \<longrightarrow> fst (fold (purge_entry X U gid phase) es (s, p)) = s)"
proof (induction es arbitrary: s p)
  case (Cons x es)
  obtain s1 p1 where r: "purge_entry X U gid phase x (s, p) = (s1, p1)" by fastforce
  have "s1 = s \<and> p1 = p \<or> pg_removed p1 = pg_removed p + 1"
    using r by (auto simp: purge_entry_def Let_def split: prod.splits option.splits if_splits)
  then show ?case using Cons.IH [of p1 s1] r by auto
qed simp

lemma purge_chunk_ok:
  assumes ent: "chunk_entries t lo hi es" and J: "walk_inv X U V P s0 s"
    and P: "\<And>k e. k \<in> fst ` set es \<Longrightarrow> (key_id k, e) \<in> abs_events X s0 \<Longrightarrow> purge_matches gid phase (Some e) \<Longrightarrow> P (key_id k) e"
    and r: "purge_chunk X U gid now until_ts phase es (s, p) = (s', p')"
  shows "walk_inv X U V P s0 s' \<and> advances X s s' \<and> (\<forall>k \<in> fst ` set es. spared X gid phase (key_id k) s')"
proof -
  obtain s1 p1 where f: "fold (purge_entry X U gid phase) es (s, p) = (s1, p1)" by fastforce
  have a: "walk_inv X U V P s0 s1 \<and> advances X s s1 \<and> (\<forall>k \<in> fst ` set es. spared X gid phase (key_id k) s1)"
    by (rule fold_entries [where settled = "spared X gid phase", OF ent J _ spared_mono f]) (use purge_step P in blast)
  have same: "pg_removed p1 = pg_removed p \<Longrightarrow> s1 = s" using purge_fold_same [of p X U gid phase es s] by (simp add: f)
  show ?thesis
  proof (cases "pg_removed p1 = pg_removed p")
    case True
    then have "s' = s" using r by (simp add: purge_chunk_def f)
    then show ?thesis using a same [OF True] by simp
  next
    case False
    then have v: "index_view s' = index_view s1" "cancel_in s' = cancel_in s1" using r by (auto simp: purge_chunk_def f Let_def)
    note b = walk_inv_stamped [OF _ v, of X U V P s0 s]
    then show ?thesis using a by (auto simp: spared_def)
  qed
qed

lemma tag_window_eq: "tag_window c gid until_ts = tag_range (of_nat (code c)) (as_bytes gid) 0 until_ts"
  by (simp add: tag_window_def tag_window_range)

definition tag_phase_inv ::
  "ext \<Rightarrow> unicode \<Rightarrow> bytes set \<Rightarrow> string \<Rightarrow> u64 \<Rightarrow> char \<Rightarrow> bool \<Rightarrow> store \<Rightarrow> store \<Rightarrow> purge_state \<Rightarrow> bool" where
  "tag_phase_inv X U V gid until_ts c meta s0 s p \<longleftrightarrow> length gid \<le> TAG_INDEX_VALUE_MAX
     \<and> (c = CHR ''h'' \<and> \<not> meta \<or> c = CHR ''d'' \<and> meta) \<and> walk_inv X U V (group_history gid until_ts) s0 s"

interpretation tagged: chunked_removal by_tag "Included (fst (tag_window c gid until_ts))" "Excluded (snd (tag_window c gid until_ts))"
  "purge_chunk X U gid now until_ts (By_tag a b meta)" "tag_phase_inv X U V gid until_ts c meta s0"
  "\<lambda>s k. spared X gid (By_tag a b meta) (key_id k) s"
  for X U V gid now until_ts c a b meta s0
proof
  fix s es s' and p p' :: purge_state
  assume I: "tag_phase_inv X U V gid until_ts c meta s0 s p"
    and ent: "chunk_entries (by_tag s) (Included (fst (tag_window c gid until_ts))) (Excluded (snd (tag_window c gid until_ts))) es"
    and r: "purge_chunk X U gid now until_ts (By_tag a b meta) es (s, p) = (s', p')"
  have J: "walk_inv X U V (group_history gid until_ts) s0 s" and len: "length gid \<le> TAG_INDEX_VALUE_MAX"
    and c: "c = CHR ''h'' \<and> \<not> meta \<or> c = CHR ''d'' \<and> meta" using I by (auto simp: tag_phase_inv_def)
  have al: "is_ascii_alphanumeric c" using c by (auto simp: char_class_defs code_def)
  note w = walk_inv_facts [OF J]
  have P: "group_history gid until_ts (key_id k) e"
    if k: "k \<in> fst ` set es" and e: "(key_id k, e) \<in> abs_events X s0" and m: "purge_matches gid (By_tag a b meta) (Some e)" for k e
  proof -
    have kt: "k \<in> fst ` set (by_tag s)" "ID_LEN \<le> length k"
      and kr: "fst (tag_window c gid until_ts) \<le> k" "k < snd (tag_window c gid until_ts)"
      using ent k by (auto simp: chunk_entries_def)
    note ek = entry_key [OF J but_exact(2) [OF w(1)] owned_indexes(4) kt e]
    have "(\<exists>t \<in> set (tags e). 2 \<le> length t \<and> t ! 0 = [c] \<and> t ! 1 = gid) \<and> created_at e \<le> until_ts"
      using tag_keys_in_range [OF _ al len, where i = "key_id k" and lo = 0 and hi = until_ts and X = X and e = e] ek kr by (auto simp: tag_window_eq)
    then show ?thesis using c m by (auto simp: group_history_def names_group_def)
  qed
  note a = purge_chunk_ok [OF ent J P r]
  then have "spared X gid (By_tag a b meta) (key_id k) s'" if "k \<in> fst ` set es \<or> spared X gid (By_tag a b meta) (key_id k) s" for k
    using that spared_mono by blast
  then show "tag_phase_inv X U V gid until_ts c meta s0 s' p' \<and> shrunk (by_tag s) (by_tag s') \<and> cancel_in s' = cancel_in s \<and>
    (\<forall>k. k \<in> fst ` set es \<or> spared X gid (By_tag a b meta) (key_id k) s \<longrightarrow> k \<in> fst ` set (by_tag s') \<longrightarrow>
      spared X gid (By_tag a b meta) (key_id k) s')"
    using a I by (auto simp: tag_phase_inv_def advances_def shrunk_store_def)
qed (auto simp: tag_phase_inv_def walk_inv_polled spared_def dest: walk_inv_sorted)

lemma created_keys_in_range:
  assumes "length i = 32"
  shows "created_key c i \<le> created_key until_ts (replicate ID_LEN 0xff) \<longleftrightarrow> c \<le> until_ts" and "created_key 0 (replicate ID_LEN 0) \<le> created_key c i"
proof -
  show "created_key c i \<le> created_key until_ts (replicate ID_LEN 0xff) \<longleftrightarrow> c \<le> until_ts"
    using ff_le [OF assms] by (auto simp: created_key_def append_le be64_less ID_LEN_def)
  show "created_key 0 (replicate ID_LEN 0) \<le> created_key c i"
    using tail_range(1) [OF assms, of 0 c] by (simp add: created_key_def ID_LEN_def)
qed

interpretation timeline: chunked_removal by_created "Included (created_key 0 (replicate ID_LEN 0))"
  "Included (created_key until_ts (replicate ID_LEN 0xff))" "purge_chunk X U gid now until_ts By_created"
  "\<lambda>s _. walk_inv X U V (group_history gid until_ts) s0 s" "\<lambda>s k. spared X gid By_created (key_id k) s"
  for X U V gid now until_ts s0
proof
  fix s es s' and p p' :: purge_state
  assume J: "walk_inv X U V (group_history gid until_ts) s0 s"
    and ent: "chunk_entries (by_created s) (Included (created_key 0 (replicate ID_LEN 0))) (Included (created_key until_ts (replicate ID_LEN 0xff))) es"
    and r: "purge_chunk X U gid now until_ts By_created es (s, p) = (s', p')"
  note w = walk_inv_facts [OF J]
  have P: "group_history gid until_ts (key_id k) e"
    if k: "k \<in> fst ` set es" and e: "(key_id k, e) \<in> abs_events X s0" and m: "purge_matches gid By_created (Some e)" for k e
  proof -
    have kt: "k \<in> fst ` set (by_created s)" "ID_LEN \<le> length k" and kr: "k \<le> created_key until_ts (replicate ID_LEN 0xff)"
      using ent k by (auto simp: chunk_entries_def)
    note ek = entry_key [OF J but_exact(1) [OF w(1)] owned_indexes(1) kt e]
    then have "created_key (created_at e) (key_id k) = k" by simp
    with kr have "created_key (created_at e) (key_id k) \<le> created_key until_ts (replicate ID_LEN 0xff)" by simp
    then show ?thesis using ek m created_keys_in_range(1) by (auto simp: group_history_def)
  qed
  note a = purge_chunk_ok [OF ent J P r]
  then have "spared X gid By_created (key_id k) s'" if "k \<in> fst ` set es \<or> spared X gid By_created (key_id k) s" for k
    using that spared_mono by blast
  then show "walk_inv X U V (group_history gid until_ts) s0 s' \<and> shrunk (by_created s) (by_created s') \<and> cancel_in s' = cancel_in s \<and>
    (\<forall>k. k \<in> fst ` set es \<or> spared X gid By_created (key_id k) s \<longrightarrow> k \<in> fst ` set (by_created s') \<longrightarrow> spared X gid By_created (key_id k) s')"
    using a by (auto simp: advances_def shrunk_store_def)
qed (auto simp: walk_inv_polled spared_def dest: walk_inv_sorted)

end
