(* ===== verification/RemovalOps.thy ===== *)
theory RemovalOps
  imports RemovalWalks
begin

text \<open>
  The removal operations as whole: what each does to the set of stored events, what it leaves alone,
  when it can fail, and that the invariants are kept whether or not it was interrupted.
\<close>


section \<open>What the walks leave alone\<close>

definition fixed :: "store \<Rightarrow> (table \<times> table \<times> table \<times> table) \<times> table \<times> table \<times> table \<times> bool \<times> bool" where
  "fixed s = ((vanish s, vanish_pending s, banned s, allowed s), first_seen s, purged_groups s, delete_pending s,
     expiry_enabled s, low_space s)"

lemma fixed_fields:
  assumes "fixed s' = fixed s"
  shows "vanish s' = vanish s" "vanish_pending s' = vanish_pending s" "banned s' = banned s" "allowed s' = allowed s"
    "first_seen s' = first_seen s" "purged_groups s' = purged_groups s" "delete_pending s' = delete_pending s"
    "expiry_enabled s' = expiry_enabled s" "low_space s' = low_space s"
  using assms by (simp_all add: fixed_def)

lemma fixed_marks [simp]:
  "fixed (bump_meta_counter s k) = fixed s" "fixed (bump_state_seq s f) = fixed s" "fixed (bump_state_stamp s) = fixed s"
  "fixed (stamp_removed r s) = fixed s" "fixed (polled s) = fixed s" "fixed (s\<lparr>deleted := d\<rparr>) = fixed s"
  "fixed (s\<lparr>cancel_in := c\<rparr>) = fixed s" "fixed (s\<lparr>index_meta := m\<rparr>) = fixed s" "fixed (s\<lparr>purge_pending := p\<rparr>) = fixed s"
  "fixed (s\<lparr>by_tag := t\<rparr>) = fixed s" "fixed (s\<lparr>by_pubkey := t\<rparr>) = fixed s" "fixed (s\<lparr>expiry_t := t\<rparr>) = fixed s"
  "fixed (extend_absent_deletion_marker i pk s) = fixed s" "fixed (merge_address_tombstone_in k c' s) = fixed s"
  by (simp_all add: fixed_def bump_meta_counter_def bump_state_seq_def bump_state_stamp_def stamp_removed_def polled_def Let_def
      extend_absent_deletion_marker_def merge_address_tombstone_in_def split: option.split)

lemma fixed_remove [simp]: "fixed (remove_event X U s i) = fixed s"
  by (simp add: remove_event_def remove_corrupt_event_def Let_def remember_thread_root_tombstone_def fixed_def split: option.split)

lemma fold_frame:
  assumes "\<And>x s a. g (fst (step x (s, a))) = g s"
  shows "g (fst (fold step xs (s, a))) = g s"
proof (induction xs arbitrary: s a)
  case (Cons x xs)
  obtain s1 a1 where "step x (s, a) = (s1, a1)" by fastforce
  then show ?case using Cons.IH [of s1 a1] assms [of x s a] by simp
qed simp

lemma chunk_loop_frame:
  assumes body: "\<And>es s a. g (fst (body es (s, a))) = g s" and polled: "\<And>s. g (polled s) = g s"
  shows "g (fst (fst (chunk_loop n T lo hi body (s, a)))) = g s"
proof (induction n arbitrary: lo s a)
  case (Suc n)
  obtain s1 a1 where "body (removal_chunk (T (polled s)) lo hi) (polled s, a) = (s1, a1)" by fastforce
  then show ?case using Suc.IH [of _ s1 a1] body [of "removal_chunk (T (polled s)) lo hi" "polled s" a]
    by (simp add: Let_def polled)
qed simp

lemma stamped_chunk_frame:
  assumes "\<And>x s a. fixed (fst (step x (s, a))) = fixed s"
  shows "fixed (fst (stamped_chunk step es (s, p))) = fixed s"
proof -
  obtain s1 n1 c1 where f: "fold step es (s, fst p, no_state) = (s1, n1, c1)" by (metis prod_cases3)
  then have "fixed s1 = fixed s" using fold_frame [of fixed step es s "(fst p, no_state)", OF assms] by simp
  then show ?thesis using f by (cases p) (simp add: stamped_chunk_def)
qed

lemma fixed_steps:
  "fixed (fst (remove_wrap X U pk x (s, n))) = fixed s"
  "fixed (fst (vanish_entry X U pk x (s, p))) = fixed s"
  "fixed (fst (expire_entry X U x (s, p))) = fixed s"
  "fixed (fst (purge_entry X U gid ph x (s, q))) = fixed s"
  "fixed (fst (delete_target X U rq tgt (s, p))) = fixed s"
  by (auto simp: remove_wrap_def vanish_entry_def expire_entry_def purge_entry_def delete_target_def Let_def
      split: prod.split option.split)

lemma fixed_purge_chunk: "fixed (fst (purge_chunk X U gid now u ph es (s, p))) = fixed s"
  using fold_frame [of fixed "purge_entry X U gid ph" es s p, OF fixed_steps(4)]
  by (auto simp: purge_chunk_def Let_def split: prod.split)

lemma fixed_walks:
  "fixed (fst (fst (chunk_walk T lo hi (fold (remove_wrap X U pk)) (s, n)))) = fixed s"
  "fixed (fst (fst (chunk_walk T lo hi (stamped_chunk (vanish_entry X U pk)) (s, p)))) = fixed s"
  "fixed (fst (fst (chunk_walk T lo hi (stamped_chunk (expire_entry X U)) (s, p)))) = fixed s"
  "fixed (fst (fst (chunk_walk T lo hi (purge_chunk X U gid now u ph) (s, q)))) = fixed s"
  unfolding chunk_walk_def
  by (rule chunk_loop_frame; simp add: fold_frame [of fixed, OF fixed_steps(1)] stamped_chunk_frame fixed_steps fixed_purge_chunk)+

section \<open>Rebuilding the gift-wrap index\<close>

lemma store_inv_by_tag:
  assumes "store_inv_but X U V s" and "\<And>k. tget t k = tget (by_tag s) k"
  shows "store_inv_but X U V (s\<lparr>by_tag := t\<rparr>)"
proof -
  have "store_inv X U (s\<lparr>by_tag := t, by_pubkey := p\<rparr>) = store_inv X U (s\<lparr>by_pubkey := p\<rparr>)" for p
    using assms(2) by (simp add: store_inv_def events_ok_def indexes_exact_def exact_def abs_events_def)
  then show ?thesis using assms(1) by (simp add: store_inv_but_def abs_events_def)
qed

lemma tput_sorted_puts: "table_ok t \<Longrightarrow> table_ok (puts ks t)"
  by (induction ks arbitrary: t) (auto simp: puts_def table_ok_tput)

lemma wrap_entry_keys:
  assumes inv: "store_inv_but X U V s" and k: "k \<in> fst ` set (by_kind s)" "ID_LEN \<le> length k"
    and w: "wrap_entry X s k = (k', c, rs)" and r: "r \<in> set rs"
  shows "tget (by_tag s) (tag_key GIFT_WRAP_INDEX r c (key_id k')) = Some []"
proof -
  have ok: "events_ok X s" by (rule store_inv_but_ok [OF inv])
  obtain e where e: "(key_id k, e) \<in> abs_events X s" "k = kind_key (kind e) (created_at e) (key_id k)"
    using exact_key_stored [OF but_exact(4) [OF inv] owned_indexes(3) ok k] by auto
  obtain raw where raw: "tget (events s) (key_id k) = Some raw" "event_of_json X raw = Some e"
    using e(1) by (auto simp: abs_events_def bind_eq_Some_conv)
  have "take CREATED_LEN (drop 8 (kind_key (kind e) (created_at e) (key_id k))) = be64 (created_at e)"
    by (simp add: kind_key_def CREATED_LEN_def)
  then have "take CREATED_LEN (drop 8 k) = be64 (created_at e)" using e(2) by metis
  then have w': "k' = k" "c = created_at e" "rs = gift_wrap_recipients X e" using w raw by (auto simp: wrap_entry_def)
  have "tag_key GIFT_WRAP_INDEX r c (key_id k) \<in> set (tag_keys X e (key_id k))" using r w' by (auto simp: tag_keys_def)
  then show ?thesis using but_exact(2) [OF inv] e(1) w' by (auto simp: exact_def)
qed

lemma index_wraps_ok:
  assumes inv: "store_inv_but X U V s" and srt: "sorted_tables s" and es: "entries = wrap_chunk X s lo hi"
  shows "store_inv_but X U V (index_wraps entries s)" "sorted_tables (index_wraps entries s)"
    "abs_events X (index_wraps entries s) = abs_events X s" "fixed (index_wraps entries s) = fixed s"
    "by_kind (index_wraps entries s) = by_kind s" "cancel_in (index_wraps entries s) = cancel_in s"
proof -
  let ?ks = "concat (map (\<lambda>(k, created, recipients). map (\<lambda>r. tag_key GIFT_WRAP_INDEX r created (key_id k)) recipients) entries)"
  have "tget (by_tag s) x = Some []" if x: "x \<in> set ?ks" for x
  proof -
    obtain k c rs r where m: "(k, c, rs) \<in> set entries" "r \<in> set rs" "x = tag_key GIFT_WRAP_INDEX r c (key_id k)" using x by auto
    from m(1) obtain k0 where k0: "k0 \<in> fst ` set (by_kind s)" "ID_LEN \<le> length k0" "wrap_entry X s k0 = (k, c, rs)"
      unfolding es wrap_chunk_def range_entries_def by (force dest!: in_set_takeD simp: ID_LEN_def CREATED_LEN_def)
    show ?thesis using wrap_entry_keys [OF inv k0 m(2)] m(3) by simp
  qed
  then have "tget (puts ?ks (by_tag s)) k = tget (by_tag s) k" for k by (auto simp: puts_def lmdb.get_puts)
  then have "store_inv_but X U V (s\<lparr>by_tag := puts ?ks (by_tag s)\<rparr>)" by (rule store_inv_by_tag [OF inv])
  then show "store_inv_but X U V (index_wraps entries s)"
    by (rule store_inv_but_view) (simp add: index_wraps_def index_view_def)
  show "sorted_tables (index_wraps entries s)" using srt by (simp add: sorted_tables_def index_wraps_def tput_sorted_puts)
qed (simp_all add: index_wraps_def abs_events_def fixed_def)

lemma wrap_chunk_last:
  assumes "wrap_chunk X s lo hi \<noteq> []"
  defines "b \<equiv> Excluded (fst (last (wrap_chunk X s lo hi)))"
  shows "length (filter (\<lambda>(k, _). above b k \<and> under hi k) (by_kind s)) < length (filter (\<lambda>(k, _). above lo k \<and> under hi k) (by_kind s))"
proof -
  let ?P = "\<lambda>(k, _ :: bytes). above lo k \<and> under hi k" and ?Q = "\<lambda>(k, _ :: bytes). above b k \<and> under hi k"
  have "last (wrap_chunk X s lo hi) \<in> set (wrap_chunk X s lo hi)" using assms(1) by simp
  then obtain v where v: "(fst (last (wrap_chunk X s lo hi)), v) \<in> set (filter ?P (by_kind s))"
    unfolding wrap_chunk_def range_entries_def by (force dest!: in_set_takeD simp: wrap_entry_def)
  then have "above lo k" if "above b k" for k using that by (cases lo) (auto simp: b_def)
  then have "filter ?Q (by_kind s) = filter ?Q (filter ?P (by_kind s))" by (auto intro!: filter_cong)
  moreover have "length (filter ?Q (filter ?P (by_kind s))) < length (filter ?P (by_kind s))"
    by (rule length_filter_less [OF v]) (simp add: b_def)
  ultimately show ?thesis by simp
qed

lemma polled_keeps:
  "store_inv_but X U V s \<Longrightarrow> store_inv_but X U V (polled s)" "sorted_tables s \<Longrightarrow> sorted_tables (polled s)"
  "by_kind (polled s) = by_kind s" "cancel_in s = None \<Longrightarrow> cancel_in (polled s) = None"
  by (erule store_inv_but_view, simp) (simp_all add: sorted_tables_def polled_def)

definition keeps :: "ext \<Rightarrow> unicode \<Rightarrow> bytes set \<Rightarrow> store \<Rightarrow> store \<Rightarrow> bool" where
  "keeps X U V s s' \<longleftrightarrow> store_inv_but X U V s' \<and> sorted_tables s' \<and> abs_events X s' = abs_events X s \<and> fixed s' = fixed s"

lemma rebuild_loop_ok:
  assumes "store_inv_but X U V s" and "sorted_tables s"
    and "length (filter (\<lambda>(k, _). above lo k \<and> under hi k) (by_kind s)) < n"
    and "rebuild_wraps_loop n X lo hi (s, m) = ((s', m'), e)"
  shows "keeps X U V s s' \<and> e \<noteq> Out_of_fuel \<and> (cancel_in s = None \<longrightarrow> e = Finished \<and> cancel_in s' = None)"
  using assms
proof (induction n arbitrary: s m lo)
  case (Suc n)
  let ?s = "polled s"
  let ?es = "wrap_chunk X ?s lo hi"
  have i1: "store_inv_but X U V ?s" "sorted_tables ?s" using polled_keeps Suc.prems(1,2) by blast+
  note w = index_wraps_ok [OF i1 refl, of lo hi]
  show ?case
  proof (cases "cancelled s \<or> ?es = [] \<or> length ?es < REMOVAL_CHUNK")
    case True
    then have "s' = s \<and> e = Interrupted \<and> cancelled s \<or> s' = ?s \<and> e = Finished \<or> s' = index_wraps ?es ?s \<and> e = Finished"
      using Suc.prems(4) by (simp add: Let_def split: if_splits)
    moreover have "keeps X U V s s" "keeps X U V s ?s" "keeps X U V s (index_wraps ?es ?s)"
      using Suc.prems(1,2) i1 w by (simp_all add: keeps_def)
    moreover have "cancel_in s = None \<Longrightarrow> \<not> cancelled s" by (simp add: cancelled_def)
    moreover have "cancel_in s = None \<Longrightarrow> cancel_in (index_wraps ?es ?s) = None" using w(6) polled_keeps(4) [of s] by simp
    ultimately show ?thesis using polled_keeps(4) [of s] by auto
  next
    case False
    let ?s1 = "index_wraps ?es ?s"
    have "length (filter (\<lambda>(k, _). above (Excluded (fst (last ?es))) k \<and> under hi k) (by_kind ?s1)) < n"
      using wrap_chunk_last [of X ?s lo hi] False Suc.prems(3) by (simp add: w(5) polled_keeps(3))
    from Suc.IH [OF w(1,2) this] Suc.prems(4) False
    have "keeps X U V ?s1 s' \<and> e \<noteq> Out_of_fuel \<and> (cancel_in ?s1 = None \<longrightarrow> e = Finished \<and> cancel_in s' = None)"
      by (auto simp: Let_def)
    then show ?thesis using w(3,4,6) polled_keeps(4) [of s] by (simp add: keeps_def)
  qed
qed simp

lemma rebuild_ok:
  assumes "store_inv_but X U V s" and "sorted_tables s" and "rebuild_gift_wrap_index X s = (s', res)"
  shows "keeps X U V s s' \<and> (cancel_in s = None \<and> \<not> low_space s \<longrightarrow> isl res = False \<and> cancel_in s' = None)"
proof (cases "low_space s")
  case True
  then show ?thesis using assms by (simp add: rebuild_gift_wrap_index_def keeps_def)
next
  case False
  define lo where "lo = (case tget (index_meta s) GIFT_WRAP_REBUILD of Some k \<Rightarrow> Excluded k
    | None \<Rightarrow> Included (kind_key GIFT_WRAP_KIND 0 (replicate ID_LEN 0)))"
  define hi where "hi = Excluded (range_end (kind_key GIFT_WRAP_KIND u64_max (replicate ID_LEN 0xff)) u64_max)"
  obtain s1 m e where r: "rebuild_wraps_loop (Suc (length (by_kind s))) X lo hi (s, 0) = ((s1, m), e)" by (metis surj_pair)
  have "length (filter (\<lambda>(k, _). above lo k \<and> under hi k) (by_kind s)) < Suc (length (by_kind s))" by (simp add: less_Suc_eq_le)
  note k = rebuild_loop_ok [OF assms(1,2) this r]
  have res: "rebuild_gift_wrap_index X s = (case e of Finished \<Rightarrow> if cancelled s1 then (s1, Inl rebuild_cancelled)
      else ((polled s1)\<lparr>index_meta := tdel GIFT_WRAP_REBUILD (tput (as_bytes ''gift_wrap_index'') (as_bytes ''1'') (index_meta (polled s1)))\<rparr>, Inr m)
    | _ \<Rightarrow> (s1, Inl rebuild_cancelled))"
    using False r by (simp add: rebuild_gift_wrap_index_def lo_def [symmetric] hi_def [symmetric] Let_def split: walk_end.split)
  have p: "keeps X U V s ((polled s1)\<lparr>index_meta := im\<rparr>)" if "keeps X U V s s1" for im
    using that store_inv_but_view [of X U V s1 "(polled s1)\<lparr>index_meta := im\<rparr>"]
    by (simp add: keeps_def sorted_tables_def polled_def abs_events_def fixed_def)
  show ?thesis using k p assms(3) res
    by (auto simp: cancelled_def polled_def split: walk_end.splits if_splits)
qed

section \<open>Gift wraps, expiry and vanish\<close>

lemma keeps_walk: "keeps X U V s s' \<Longrightarrow> walk_inv X U V P s' s'' \<Longrightarrow> walk_inv X U V P s s''"
  by (simp add: keeps_def walk_inv_def)

lemma keeps_refl: "store_inv_but X U V s \<Longrightarrow> sorted_tables s \<Longrightarrow> keeps X U V s s"
  by (simp add: keeps_def)

lemma wraps_removed:
  assumes inv: "store_inv_but X U V s" "sorted_tables s" and pk: "length pk = 32"
    and r: "remove_gift_wraps_for X U pk until_ts (s, n) = ((s', n'), err)"
  shows "walk_inv X U V (wrap_to X pk until_ts) s s' \<and> fixed s' = fixed s
    \<and> (err = None \<longrightarrow> (\<forall>i e. (i, e) \<in> abs_events X s' \<longrightarrow> \<not> wrap_to X pk until_ts i e))
    \<and> (cancel_in s = None \<and> \<not> low_space s \<longrightarrow> err = None \<and> cancel_in s' = None)"
proof -
  obtain s1 res where b: "(if gift_wrap_index_needs_rebuild s then rebuild_gift_wrap_index X s else (s, Inr 0)) = (s1, res)" by fastforce
  have k: "keeps X U V s s1" "cancel_in s = None \<and> \<not> low_space s \<longrightarrow> \<not> isl res \<and> cancel_in s1 = None"
    using b rebuild_ok [OF inv] keeps_refl [OF inv] by (auto split: if_splits)
  have k1: "store_inv_but X U V s1" "sorted_tables s1" "fixed s1 = fixed s" using k(1) by (auto simp: keeps_def)
  show ?thesis
  proof (cases res)
    case (Inl er)
    then have "s' = s1" "err = Some er" using r b by (auto simp: remove_gift_wraps_for_def)
    then show ?thesis using k Inl keeps_walk [OF k(1) walk_inv_start [OF k1(1,2)]] by (auto simp: keeps_def)
  next
    case (Inr m)
    obtain s2 n2 e where w: "chunk_walk by_tag (Included (fst (wrap_range pk until_ts))) (Excluded (snd (wrap_range pk until_ts)))
        (fold (remove_wrap X U pk)) (s1, n) = ((s2, n2), e)" by (metis surj_pair)
    have res: "s' = s2" "err = (if e = Finished then None else Some wraps_cancelled)"
      using r b Inr w by (auto simp: remove_gift_wraps_for_def Let_def tag_window_range [symmetric] split: walk_end.splits)
    have I: "wraps_inv X U V pk until_ts s1 s1 n" using pk walk_inv_start [OF k1(1,2)] by (simp add: wraps_inv_def)
    note ok = wraps.walk_ok [OF I w]
    have J: "walk_inv X U V (wrap_to X pk until_ts) s1 s2" using ok by (simp add: wraps_inv_def)
    note f = walk_inv_facts [OF J]
    have none: "\<not> wrap_to X pk until_ts i x" if "e = Finished" "(i, x) \<in> abs_events X s2" for i x
    proof
      assume "wrap_to X pk until_ts i x"
      moreover have len: "length i = 32" using abs_ok(1) [OF f(4) that(2)] id_bytes_length by blast
      ultimately obtain k where k: "k \<in> set (tag_keys X x i)" "fst (wrap_range pk until_ts) \<le> k" "k < snd (wrap_range pk until_ts)"
        using wrap_keys_in_range [OF len pk, where until_ts = until_ts and X = X and e = x] by (auto simp: wrap_to_def)
      have "tget (by_tag s2) k = Some []" using but_exact(2) [OF f(1)] k(1) that(2) by (auto simp: exact_def)
      then have "k \<in> fst ` set (by_tag s2)" using in_table by (metis option.distinct(1))
      moreover have "ID_LEN \<le> length k" using ownedD [OF owned_indexes(4) k(1)] len by (auto simp: ID_LEN_def)
      ultimately show False using ok that(1) k(2,3) by auto
    qed
    have "fixed s2 = fixed s1" using fixed_walks(1) [of by_tag _ _ X U pk s1 n] w by (metis fst_conv)
    then show ?thesis using ok none res k k1(3) Inr keeps_walk [OF k(1) J] by auto
  qed
qed

lemma expired_removed:
  assumes inv: "store_inv_but X U V s" "sorted_tables s"
    and w: "chunk_walk expiry_t (Included (created_key 0 (replicate ID_LEN 0))) (Included (created_key now (replicate ID_LEN 0xff)))
      (stamped_chunk (expire_entry X U)) (s, p) = ((s', p'), e)"
  shows "walk_inv X U V (expired_by now) s s' \<and> fixed s' = fixed s
    \<and> (cancel_in s = None \<longrightarrow> e = Finished \<and> cancel_in s' = None)
    \<and> (e = Finished \<longrightarrow> (\<forall>i x. (i, x) \<in> abs_events X s' \<longrightarrow> \<not> expired_by now i x))"
proof -
  note ok = expiry.walk_ok [OF walk_inv_start [OF inv] w]
  then have J: "walk_inv X U V (expired_by now) s s'" by blast
  note f = walk_inv_facts [OF J]
  have "\<not> expired_by now i x" if "e = Finished" "(i, x) \<in> abs_events X s'" for i x
  proof
    assume ex: "expired_by now i x"
    have len: "length i = 32" using abs_ok(1) [OF f(4) that(2)] id_bytes_length by blast
    obtain k where k: "k \<in> set (expiry_keys x i)" using ex by (auto simp: expired_by_def expiry_keys_def)
    have "tget (expiry_t s') k = Some []" using but_exact(3) [OF f(1)] k that(2) by (auto simp: exact_def)
    then have "k \<in> fst ` set (expiry_t s')" using in_table by (metis option.distinct(1))
    moreover have "ID_LEN \<le> length k" using ownedD [OF owned_indexes(5) k] len by (auto simp: ID_LEN_def)
    ultimately show False using ok that(1) expiry_keys_in_range [OF len k] ex by auto
  qed
  moreover have "fixed s' = fixed s" using fixed_walks(3) [of expiry_t _ _ X U s p] w by (metis fst_conv)
  ultimately show ?thesis using ok by blast
qed

lemma history_removed:
  assumes inv: "store_inv_but X U V s" "sorted_tables s" and "hex_codec (hex_encode X) (hex_decode X)" and pk: "length pk = 32" "pk \<in> V"
    and w: "chunk_walk by_pubkey (Included (fst (time_range (pubkey_key pk) 0 until_ts))) (Excluded (snd (time_range (pubkey_key pk) 0 until_ts)))
      (stamped_chunk (vanish_entry X U pk)) (s, p) = ((s', p'), e)"
  shows "walk_inv X U V (authored X pk until_ts) s s' \<and> fixed s' = fixed s
    \<and> (cancel_in s = None \<longrightarrow> e = Finished \<and> cancel_in s' = None)
    \<and> (e = Finished \<longrightarrow> (\<forall>i x. (i, x) \<in> abs_events X s' \<longrightarrow> \<not> authored X pk until_ts i x))"
proof -
  have "vanish_inv X U V pk until_ts s s p" using assms(3-5) walk_inv_start [OF inv] by (simp add: vanish_inv_def)
  note ok = history.walk_ok [OF this w]
  then have J: "walk_inv X U V (authored X pk until_ts) s s'" by (simp add: vanish_inv_def)
  note f = walk_inv_facts [OF J]
  have "\<not> authored X pk until_ts i x" if "e = Finished" "(i, x) \<in> abs_events X s'" for i x
  proof
    assume au: "authored X pk until_ts i x"
    have len: "length i = 32" using abs_ok(1) [OF f(4) that(2)] id_bytes_length by blast
    have a: "author_of X x = pk" using au by (simp add: authored_def author_of_def)
    let ?k = "pubkey_key pk (created_at x) i"
    have "?k \<in> fst ` set (by_pubkey s')" using but_own_key [OF f(1) that(2)] a by simp
    moreover have "ID_LEN \<le> length ?k" "key_id ?k = i" using len by (simp_all add: pubkey_key_def key_id_def ID_LEN_def)
    moreover have "fst (time_range (pubkey_key pk) 0 until_ts) \<le> ?k" "?k < snd (time_range (pubkey_key pk) 0 until_ts)"
      using time_range_exact(2) [OF len refl, of pk 0 until_ts "created_at x"] au by (auto simp: authored_def)
    ultimately have "others_only X pk i s'" using ok that(1) by (metis above.simps(1) under.simps(2))
    then show False using that(2) a by (simp add: others_only_def)
  qed
  moreover have "fixed s' = fixed s" using fixed_walks(2) [of by_pubkey _ _ X U pk s p] w by (metis fst_conv)
  ultimately show ?thesis using ok J by blast
qed

lemma vanish_removed:
  assumes inv: "store_inv_but X U V s" "sorted_tables s" and hc: "hex_codec (hex_encode X) (hex_decode X)" and pk: "length pk = 32" "pk \<in> V"
    and r: "finish_vanish X U s pk until_ts = (s', res)"
  shows "walk_inv X U V (\<lambda>i e. authored X pk until_ts i e \<or> wrap_to X pk until_ts i e) s s'
    \<and> (cancel_in s = None \<and> \<not> low_space s \<longrightarrow> \<not> isl res \<and> cancel_in s' = None)
    \<and> (isl res \<longrightarrow> fixed s' = fixed s)
    \<and> (\<not> isl res \<longrightarrow> fixed s' = fixed (s\<lparr>vanish := tput pk (be64 (max (case vanished_until s pk of None \<Rightarrow> 0 | Some u \<Rightarrow> u) until_ts)) (vanish s),
          vanish_pending := tdel pk (vanish_pending s)\<rparr>)
        \<and> (\<forall>i e. (i, e) \<in> abs_events X s' \<longrightarrow> \<not> authored X pk until_ts i e \<and> \<not> wrap_to X pk until_ts i e))"
proof (cases "low_space s")
  case True
  then show ?thesis using r walk_inv_start [OF inv] by (auto simp: finish_vanish_def)
next
  case ls: False
  obtain s1 n sr e where w: "chunk_walk by_pubkey (Included (fst (time_range (pubkey_key pk) 0 until_ts))) (Excluded (snd (time_range (pubkey_key pk) 0 until_ts)))
      (stamped_chunk (vanish_entry X U pk)) (s, 0, no_state) = ((s1, n, sr), e)" by (metis surj_pair)
  note h = history_removed [OF inv hc pk w]
  then have J1: "walk_inv X U V (authored X pk until_ts) s s1" by blast
  note f1 = walk_inv_facts [OF J1]
  show ?thesis
  proof (cases "e = Finished")
    case False
    then have "s' = s1" "res = Inl vanish_cancelled"
      using r w ls by (auto simp: finish_vanish_def Let_def time_range_def split: walk_end.splits)
    then show ?thesis using h False by (auto intro: walk_inv_weaken)
  next
    case fin: True
    obtain s2 n2 err where g: "remove_gift_wraps_for X U pk until_ts (s1, n) = ((s2, n2), err)" by (metis surj_pair)
    note k = wraps_removed [OF f1(1,2) pk(1) g]
    then have J2: "walk_inv X U V (\<lambda>i e. authored X pk until_ts i e \<or> wrap_to X pk until_ts i e) s s2"
      by (intro walk_inv_trans [OF J1]) blast
    have fx: "fixed s2 = fixed s" using h k by simp
    have fr: "cancel_in s = None \<longrightarrow> err = None \<and> cancel_in s2 = None" using h k ls fixed_fields(9) [of s1 s] fin by auto
    show ?thesis
    proof (cases err)
      case (Some er)
      then have "s' = s2" "res = Inl er" using r w ls fin g by (auto simp: finish_vanish_def Let_def time_range_def)
      then show ?thesis using J2 fx fr Some by auto
    next
      case None
      let ?s3 = "s2\<lparr>vanish := tput pk (be64 (max (case vanished_until s2 pk of None \<Rightarrow> 0 | Some u \<Rightarrow> u) until_ts)) (vanish s2),
          vanish_pending := tdel pk (vanish_pending s2)\<rparr>"
      have s': "s' = ?s3" "res = Inr (n2, sr)" using r w ls fin g None by (auto simp: finish_vanish_def Let_def time_range_def)
      have v: "index_view ?s3 = index_view s2" by (simp add: index_view_def)
      have a: "abs_events X ?s3 = abs_events X s2" by (simp add: abs_events_def)
      have "abs_events X s2 \<subseteq> abs_events X s1" using k by (simp add: walk_inv_def)
      then have "\<forall>i e. (i, e) \<in> abs_events X s2 \<longrightarrow> \<not> authored X pk until_ts i e \<and> \<not> wrap_to X pk until_ts i e"
        using h k fin None by blast
      moreover have "fixed ?s3 = fixed (s\<lparr>vanish := tput pk (be64 (max (case vanished_until s pk of None \<Rightarrow> 0 | Some u \<Rightarrow> u) until_ts)) (vanish s),
          vanish_pending := tdel pk (vanish_pending s)\<rparr>)"
        using fx by (simp add: fixed_def vanished_until_def)
      ultimately show ?thesis using walk_inv_view [OF J2 v] a s' fr by simp
    qed
  qed
qed

section \<open>Group purges\<close>

lemma phase_removed:
  assumes inv: "store_inv_but X U V s" "sorted_tables s" and len: "length gid \<le> TAG_INDEX_VALUE_MAX"
    and c: "c = CHR ''h'' \<and> \<not> meta \<or> c = CHR ''d'' \<and> meta"
    and w: "purge_phase_walk X U gid now until_ts (By_tag (fst (tag_window c gid until_ts)) (snd (tag_window c gid until_ts)) meta) (s, p) = ((s', p'), e)"
  shows "walk_inv X U V (group_history gid until_ts) s s' \<and> fixed s' = fixed s
    \<and> (cancel_in s = None \<longrightarrow> e = Finished \<and> cancel_in s' = None)
    \<and> (e = Finished \<longrightarrow> (\<forall>i x. (i, x) \<in> abs_events X s' \<longrightarrow> names_group [c] gid x \<longrightarrow> created_at x \<le> until_ts \<longrightarrow>
         meta \<longrightarrow> \<not> is_group_meta (kind x)))
    \<and> (e = Finished \<longrightarrow> \<not> meta \<longrightarrow> (\<forall>i x. (i, x) \<in> abs_events X s' \<longrightarrow> names_group [c] gid x \<longrightarrow> \<not> created_at x \<le> until_ts))"
proof -
  let ?ph = "By_tag (fst (tag_window c gid until_ts)) (snd (tag_window c gid until_ts)) meta"
  have "tag_phase_inv X U V gid until_ts c meta s s p" using len c walk_inv_start [OF inv] by (simp add: tag_phase_inv_def)
  note ok = tagged.walk_ok [OF this, of now "fst (tag_window c gid until_ts)" "snd (tag_window c gid until_ts)" s' p' e] 
  have w': "chunk_walk by_tag (Included (fst (tag_window c gid until_ts))) (Excluded (snd (tag_window c gid until_ts)))
      (purge_chunk X U gid now until_ts ?ph) (s, p) = ((s', p'), e)" using w by simp
  note ok = ok [OF w']
  then have J: "walk_inv X U V (group_history gid until_ts) s s'" by (simp add: tag_phase_inv_def)
  note f = walk_inv_facts [OF J]
  have al: "is_ascii_alphanumeric c" using c by (auto simp: char_class_defs code_def)
  have sp: "\<not> purge_matches gid ?ph (Some x)"
    if h: "e = Finished" "(i, x) \<in> abs_events X s'" "names_group [c] gid x" "created_at x \<le> until_ts" for i x
  proof -
    have li: "length i = 32" using abs_ok(1) [OF f(4) h(2)] id_bytes_length by blast
    obtain k where k: "k \<in> set (tag_keys X x i)" "fst (tag_window c gid until_ts) \<le> k" "k < snd (tag_window c gid until_ts)"
      using tag_keys_in_range [OF li al len, where lo = 0 and hi = until_ts and X = X and e = x] h(3,4)
      by (auto simp: tag_window_eq names_group_def)
    have "tget (by_tag s') k = Some []" using but_exact(2) [OF f(1)] k(1) h(2) by (auto simp: exact_def)
    then have "k \<in> fst ` set (by_tag s')" using in_table by (metis option.distinct(1))
    moreover have kl: "ID_LEN \<le> length k" "key_id k = i" using ownedD [OF owned_indexes(4) k(1)] li by (auto simp: ID_LEN_def key_id_def)
    ultimately have "spared X gid ?ph i s'" using ok h(1) k(2,3) by (metis above.simps(1) under.simps(2))
    then show ?thesis using h(2) by (simp add: spared_def)
  qed
  have "fixed s' = fixed s" using fixed_walks(4) [of by_tag _ _ X U gid now until_ts ?ph s p] w' by (metis fst_conv)
  then show ?thesis using ok J sp c by (cases meta) auto
qed

lemma timeline_removed:
  assumes inv: "store_inv_but X U V s" "sorted_tables s"
    and w: "purge_phase_walk X U gid now until_ts By_created (s, p) = ((s', p'), e)"
  shows "walk_inv X U V (group_history gid until_ts) s s' \<and> fixed s' = fixed s
    \<and> (cancel_in s = None \<longrightarrow> e = Finished \<and> cancel_in s' = None)
    \<and> (e = Finished \<longrightarrow> (\<forall>i x. (i, x) \<in> abs_events X s' \<longrightarrow> \<not> group_history gid until_ts i x))"
proof -
  have w': "chunk_walk by_created (Included (created_key 0 (replicate ID_LEN 0))) (Included (created_key until_ts (replicate ID_LEN 0xff)))
      (purge_chunk X U gid now until_ts By_created) (s, p) = ((s', p'), e)" using w by simp
  note ok = timeline.walk_ok [OF walk_inv_start [OF inv] w']
  then have J: "walk_inv X U V (group_history gid until_ts) s s'" by blast
  note f = walk_inv_facts [OF J]
  have sp: "\<not> group_history gid until_ts i x" if "e = Finished" "(i, x) \<in> abs_events X s'" for i x
  proof
    assume g: "group_history gid until_ts i x"
    have li: "length i = 32" using abs_ok(1) [OF f(4) that(2)] id_bytes_length by blast
    let ?k = "created_key (created_at x) i"
    have "tget (by_created s') ?k = Some []" using but_exact(1) [OF f(1)] that(2) by (force simp: exact_def)
    then have "?k \<in> fst ` set (by_created s')" using in_table by (metis option.distinct(1))
    moreover have "ID_LEN \<le> length ?k" "key_id ?k = i" using li by (simp_all add: created_key_def key_id_def ID_LEN_def)
    moreover have "?k \<le> created_key until_ts (replicate ID_LEN 0xff)" using created_keys_in_range(1) [OF li] g by (simp add: group_history_def)
    ultimately have "spared X gid By_created i s'" using ok that(1) created_keys_in_range(2) [OF li] by (metis above.simps(1) under.simps(1))
    then show False using that(2) g by (auto simp: spared_def group_history_def)
  qed
  have "fixed s' = fixed s" using fixed_walks(4) [of by_created _ _ X U gid now until_ts By_created s p] w' by (metis fst_conv)
  then show ?thesis using ok sp by blast
qed

end
