(* ===== verification/DeletionOps.thy ===== *)
theory DeletionOps
  imports RemovalOps
begin

text \<open>
  Deletion requests: what a request may remove, that its walk removes exactly that, and that an
  interrupted walk is finished by the startup resume.
\<close>


section \<open>What a deletion request may remove\<close>

definition own_target :: "ext \<Rightarrow> deletion_scope \<Rightarrow> string list \<Rightarrow> bytes \<Rightarrow> event \<Rightarrow> bool" where
  "own_target X q targets i e \<longleftrightarrow> (\<exists>t \<in> set targets. hex_decode X t = Some i) \<and> \<not> target_spared X q e"

definition own_address :: "ext \<Rightarrow> deletion_scope \<Rightarrow> address list \<Rightarrow> bytes \<Rightarrow> event \<Rightarrow> bool" where
  "own_address X q as i e \<longleftrightarrow> is_replaceable e \<and> created_at e \<le> request_created q \<and>
     (\<exists>a \<in> set as. hex_decode X (addr_pubkey a) = Some (author_of X e)
        \<and> slot_key X e (author_of X e) = replaceable_key (addr_kind a) (author_of X e) (dtag_key_safe X (addr_d a))
        \<and> (author_owns X q a \<or> (\<exists>p. request_pubkey q = Some p \<and> delegated_by X e p)))"

section \<open>Targets\<close>

definition target_settled :: "ext \<Rightarrow> deletion_scope \<Rightarrow> string \<Rightarrow> store \<Rightarrow> bool" where
  "target_settled X q t s \<longleftrightarrow> (\<forall>i e. hex_decode X t = Some i \<longrightarrow> (i, e) \<in> abs_events X s \<longrightarrow> target_spared X q e)"

lemma target_settled_mono: "target_settled X q t s \<Longrightarrow> abs_events X s' \<subseteq> abs_events X s \<Longrightarrow> target_settled X q t s'"
  by (auto simp: target_settled_def)

lemma delete_target_step:
  fixes p :: progress
  assumes J: "walk_inv X U V P s0 s" and P: "\<forall>i e. own_target X q [t] i e \<longrightarrow> P i e"
  defines "s' \<equiv> fst (delete_target X U q t (s, p))"
  shows "walk_inv X U V P s0 s' \<and> advances X s s' \<and> target_settled X q t s'"
proof -
  note w = walk_inv_facts [OF J]
  obtain n sr where p: "p = (n, sr)" by fastforce
  have len: "length i = 32" if "(i, e) \<in> abs_events X s" for i e using abs_ok(1) [OF w(4) that] id_bytes_length by blast
  show ?thesis
  proof (cases "hex_decode X t")
    case None
    then show ?thesis using J by (simp add: s'_def delete_target_def p target_settled_def)
  next
    case i: (Some i)
    show ?thesis
    proof (cases "\<exists>e. (i, e) \<in> abs_events X s")
      case False
      then have "tget (events s) i = None" using abs_mem [OF w(4)] by blast
      then have v: "index_view s' = index_view s" "cancel_in s' = cancel_in s"
        using i by (auto simp: s'_def delete_target_def p split: option.split)
      have "abs_events X s' = abs_events X s" by (rule abs_events_view [OF index_view_fields(1) [OF v(1)]])
      then have "target_settled X q t s'" using False i by (simp add: target_settled_def)
      then show ?thesis using walk_inv_view [OF J v(1)] advances_view [OF v] by blast
    next
      case True
      then obtain e where e: "(i, e) \<in> abs_events X s" by blast
      obtain raw where raw: "tget (events s) i = Some raw" "event_of_json X raw = Some e"
        using e by (auto simp: abs_events_def bind_eq_Some_conv)
      have un: "\<And>e'. (i, e') \<in> abs_events X s \<Longrightarrow> e' = e" using e abs_fun by blast
      show ?thesis
      proof (cases "target_spared X q e")
        case True
        then have "s' = s" using i raw len [OF e] by (simp add: s'_def delete_target_def p)
        then show ?thesis using J True un i by (auto simp: target_settled_def)
      next
        case False
        let ?s = "s\<lparr>deleted := tput i [] (deleted s)\<rparr>"
        have s': "s' = remove_event X U ?s i" using i raw len [OF e] False by (simp add: s'_def delete_target_def p ID_LEN_def)
        have J1: "walk_inv X U V P s0 ?s" by (rule walk_inv_view [OF J]) simp
        have "P i e'" if e': "(i, e') \<in> abs_events X s0" for e'
        proof -
          have "(i, e) \<in> abs_events X s0" using e w(3) by blast
          then have "e' = e" using e' abs_fun by blast
          then show ?thesis using P False i by (simp add: own_target_def)
        qed
        from walk_inv_remove [OF J1 this] have "walk_inv X U V P s0 s'" by (simp add: s')
        moreover have "advances X s ?s" by (rule advances_view) simp_all
        then have "advances X s s'" unfolding s' by (rule advances_trans [OF _ advances_remove [OF walk_inv_ok [OF J1]]])
        moreover have "target_settled X q t s'" using remove_event_gone [OF walk_inv_ok [OF J1]] i by (simp add: s' target_settled_def)
        ultimately show ?thesis by blast
      qed
    qed
  qed
qed

lemma delete_targets_fold:
  assumes "walk_inv X U V P s0 s" and "\<forall>i e. own_target X q ts i e \<longrightarrow> P i e"
  shows "walk_inv X U V P s0 (fst (fold (delete_target X U q) ts (s, p))) \<and> advances X s (fst (fold (delete_target X U q) ts (s, p)))
    \<and> (\<forall>t \<in> set ts. target_settled X q t (fst (fold (delete_target X U q) ts (s, p))))"
  using assms
proof (induction ts arbitrary: s p)
  case (Cons t ts)
  obtain s1 p1 where r: "delete_target X U q t (s, p) = (s1, p1)" by (metis surj_pair)
  have "\<forall>i e. own_target X q [t] i e \<longrightarrow> P i e" using Cons.prems(2) by (auto simp: own_target_def)
  from delete_target_step [OF Cons.prems(1) this, where p = p]
  have a: "walk_inv X U V P s0 s1" "advances X s s1" "target_settled X q t s1" using r by auto
  have "\<forall>i e. own_target X q ts i e \<longrightarrow> P i e" using Cons.prems(2) by (auto simp: own_target_def)
  note IH = Cons.IH [OF a(1) this, of p1]
  then have "abs_events X (fst (fold (delete_target X U q) ts (s1, p1))) \<subseteq> abs_events X s1" by (simp add: advances_def)
  then have "target_settled X q t (fst (fold (delete_target X U q) ts (s1, p1)))" by (rule target_settled_mono [OF a(3)])
  then show ?case using IH advances_trans [OF a(2)] by (simp add: r)
qed simp

lemma delete_chunks_removed:
  assumes "walk_inv X U V P s0 s" and "\<forall>i e. own_target X q (concat cs) i e \<longrightarrow> P i e"
    and "delete_target_chunks X U q cs (s, p) = ((s', p'), err)"
  shows "walk_inv X U V P s0 s' \<and> abs_events X s' \<subseteq> abs_events X s \<and> fixed s' = fixed s
    \<and> (cancel_in s = None \<longrightarrow> err = None \<and> cancel_in s' = None)
    \<and> (err = None \<longrightarrow> (\<forall>t \<in> set (concat cs). target_settled X q t s'))"
  using assms
proof (induction cs arbitrary: s p)
  case (Cons c cs)
  obtain n sr where p: "p = (n, sr)" by fastforce
  show ?case
  proof (cases "cancelled s")
    case True
    then show ?thesis using Cons.prems by (auto simp: p cancelled_def)
  next
    case False
    obtain s1 n1 c1 where f: "fold (delete_target X U q) c (polled s, n, no_state) = (s1, n1, c1)" by (metis surj_pair)
    have J: "walk_inv X U V P s0 (polled s)" by (rule walk_inv_polled [OF Cons.prems(1)])
    have a: "walk_inv X U V P s0 s1" "advances X (polled s) s1" "\<forall>t \<in> set c. target_settled X q t s1"
      using delete_targets_fold [OF J, where q = q and ts = c and p = "(n, no_state)"] Cons.prems(2) f by (auto simp: own_target_def)
    have fx: "fixed s1 = fixed s" using fold_frame [of fixed "delete_target X U q" c "polled s" "(n, no_state)", OF fixed_steps(5)] f by simp
    let ?s2 = "stamp_removed c1 s1"
    have J2: "walk_inv X U V P s0 ?s2" by (rule walk_inv_view [OF a(1)]) simp
    have ab: "abs_events X ?s2 = abs_events X s1" by (rule abs_events_view [OF index_view_fields(1)]) simp
    have ci: "cancel_in s = None \<Longrightarrow> cancel_in ?s2 = None" using a(2) by (simp add: advances_def polled_def)
    have r: "delete_target_chunks X U q cs (?s2, n1, merge_removed sr c1) = ((s', p'), err)" using Cons.prems(3) False f by (simp add: p)
    have "\<forall>i e. own_target X q (concat cs) i e \<longrightarrow> P i e" using Cons.prems(2) by (auto simp: own_target_def)
    note IH = Cons.IH [OF J2 this r]
    have "abs_events X s' \<subseteq> abs_events X s1" using IH ab by simp
    then have "\<forall>t \<in> set c. target_settled X q t s'" using a(3) target_settled_mono by blast
    moreover have "abs_events X s' \<subseteq> abs_events X s" using \<open>abs_events X s' \<subseteq> abs_events X s1\<close> a(2) by (auto simp: advances_def)
    ultimately show ?thesis using IH fx ci by auto
  qed
qed auto

lemma concat_chunks: "0 < n \<Longrightarrow> concat (chunks n xs) = xs"
  by (induction n xs rule: chunks.induct) (subst chunks.simps, simp)

section \<open>Addresses\<close>

definition address_settled :: "ext \<Rightarrow> deletion_scope \<Rightarrow> address \<Rightarrow> store \<Rightarrow> bool" where
  "address_settled X q a s \<longleftrightarrow> (\<forall>i e. (i, e) \<in> abs_events X s \<longrightarrow> \<not> own_address X q [a] i e)"

lemma address_settled_mono: "address_settled X q a s \<Longrightarrow> abs_events X s' \<subseteq> abs_events X s \<Longrightarrow> address_settled X q a s'"
  by (auto simp: address_settled_def)

lemma slot_author:
  assumes "slot_key X e pk = replaceable_key k pk' d" and "length pk = 32" and "length pk' = 32"
  shows "pk = pk'"
  using assms by (simp add: slot_key_def replaceable_key_def)

text \<open>The slot an address names, and the event in it.\<close>

lemma address_slot:
  assumes inv: "store_inv_but X U V s" and "hex_decode X (addr_pubkey a) = Some pk" and pk: "length pk = 32"
    and v: "tget (replaceable s) (replaceable_key (addr_kind a) pk (dtag_key_safe X (addr_d a))) = Some v"
  obtains i e where "(i, e) \<in> abs_events X s" "v = be64 (created_at e) @ i" "length i = 32" "is_replaceable e" "author_of X e = pk"
    "slot_key X e pk = replaceable_key (addr_kind a) pk (dtag_key_safe X (addr_d a))"
proof -
  have ok: "events_ok X s" by (rule store_inv_but_ok [OF inv])
  have "in_slot X (abs_events X s) (replaceable_key (addr_kind a) pk (dtag_key_safe X (addr_d a))) v"
    using but_exact(5) [OF inv] v by (auto simp: slots_exact_def)
  then obtain i e where ie: "(i, e) \<in> abs_events X s" "is_replaceable e" "v = be64 (created_at e) @ i"
    "replaceable_key (addr_kind a) pk (dtag_key_safe X (addr_d a)) = slot_key X e (author_of X e)"
    unfolding in_slot_def by blast
  have "length (author_of X e) = 32" "length i = 32" using abs_ok [OF ok ie(1)] pubkey_bytes_length id_bytes_length by blast+
  moreover have "author_of X e = pk" using slot_author [OF ie(4) [symmetric]] \<open>length (author_of X e) = 32\<close> pk by blast
  ultimately show ?thesis using that ie by metis
qed

lemma own_address_slot:
  assumes inv: "store_inv_but X U V s" and "(i, e) \<in> abs_events X s" and "own_address X q [a] i e"
    and "hex_decode X (addr_pubkey a) = Some pk"
  shows "tget (replaceable s) (replaceable_key (addr_kind a) pk (dtag_key_safe X (addr_d a))) = Some (be64 (created_at e) @ i)"
proof -
  have "is_replaceable e" "replaceable_key (addr_kind a) pk (dtag_key_safe X (addr_d a)) = slot_key X e (author_of X e)"
    using assms(3,4) by (auto simp: own_address_def)
  then have "in_slot X (abs_events X s) (replaceable_key (addr_kind a) pk (dtag_key_safe X (addr_d a))) (be64 (created_at e) @ i)"
    unfolding in_slot_def using assms(2) by blast
  then show ?thesis using but_exact(5) [OF inv] by (auto simp: slots_exact_def)
qed

lemma own_address_pubkey: "own_address X q [a] i e \<Longrightarrow> hex_decode X (addr_pubkey a) = Some (author_of X e)"
  by (auto simp: own_address_def)

lemma delete_address_step:
  fixes p :: progress and wr :: bool
  assumes J: "walk_inv X U V P s0 s" and P: "\<forall>i e. own_address X q [a] i e \<longrightarrow> P i e"
  defines "s' \<equiv> fst (delete_address X U q a (s, p, wr))"
  shows "walk_inv X U V P s0 s' \<and> advances X s s' \<and> address_settled X q a s'"
proof -
  note w = walk_inv_facts [OF J]
  obtain n sr where p: "p = (n, sr)" by fastforce
  have al: "length (author_of X e) = 32" if "(i, e) \<in> abs_events X s" for i e using abs_ok(2) [OF w(4) that] pubkey_bytes_length by blast
  have same: ?thesis if v: "index_view s' = index_view s" "cancel_in s' = cancel_in s"
      and none: "\<And>i e. (i, e) \<in> abs_events X s \<Longrightarrow> \<not> own_address X q [a] i e"
  proof -
    have "abs_events X s' = abs_events X s" by (rule abs_events_view [OF index_view_fields(1) [OF v(1)]])
    then show ?thesis using walk_inv_view [OF J v(1)] advances_view [OF v] none by (simp add: address_settled_def)
  qed
  show ?thesis
  proof (cases "\<exists>pk. hex_decode X (addr_pubkey a) = Some pk \<and> length pk = 32")
    case False
    then have "s' = s" by (auto simp: s'_def delete_address_def p ID_LEN_def split: option.split)
    then show ?thesis using same False own_address_pubkey al by fastforce
  next
    case True
    then obtain pk where pk: "hex_decode X (addr_pubkey a) = Some pk" "length pk = 32" by blast
    define akey where "akey = deleted_address_key X (addr_kind a) pk (addr_d a)"
    define rkey where "rkey = replaceable_key (addr_kind a) pk (dtag_key_safe X (addr_d a))"
    define s1 where "s1 = (if author_owns X q a then merge_address_tombstone_in akey (request_created q) s else s)"
    have v1: "index_view s1 = index_view s" "cancel_in s1 = cancel_in s" by (simp_all add: s1_def)
    have r1: "replaceable s1 = replaceable s" "events s1 = events s" using index_view_fields [OF v1(1)] by blast+
    show ?thesis
    proof (cases "tget (replaceable s) rkey")
      case None
      then have "s' = s1" using pk by (simp add: s'_def delete_address_def p Let_def ID_LEN_def akey_def rkey_def s1_def [symmetric, unfolded akey_def] r1)
      moreover have "\<not> own_address X q [a] i e" if "(i, e) \<in> abs_events X s" for i e
        using own_address_slot [OF w(1) that _ pk(1)] None by (auto simp: rkey_def)
      ultimately show ?thesis using same v1 by blast
    next
      case (Some v)
      obtain i e where ie: "(i, e) \<in> abs_events X s" "v = be64 (created_at e) @ i" "length i = 32" "is_replaceable e" "author_of X e = pk"
          "slot_key X e pk = rkey" using address_slot [OF w(1) pk Some [unfolded rkey_def]] rkey_def by metis
      have un: "i' = i \<and> e' = e" if "(i', e') \<in> abs_events X s" "own_address X q [a] i' e'" for i' e'
        using own_address_slot [OF w(1) that pk(1)] Some ie(1,2) that(1) abs_fun by (auto simp: rkey_def)
      have ev: "Option.bind (tget (events s1) i) (event_of_json X) = Some e" using ie(1) by (simp add: abs_events_def r1)
      define auth where "auth = (author_owns X q a \<or> (\<exists>x. request_pubkey q = Some x \<and> delegated_by X e x))"
      have own: "own_address X q [a] i e \<longleftrightarrow> created_at e \<le> request_created q \<and> auth"
        using ie pk by (auto simp: own_address_def auth_def rkey_def)
      define s2 where "s2 = (if author_owns X q a then s1 else merge_address_tombstone_in akey (request_created q) s1)"
      have s': "s' = (if created_at e \<le> request_created q \<and> auth then remove_event X U (s2\<lparr>deleted := tput i [] (deleted s2)\<rparr>) i else s1)"
        using pk Some ev ie(2,3) unfolding s'_def delete_address_def p s2_def akey_def s1_def rkey_def auth_def
        by (auto simp: Let_def ID_LEN_def CREATED_LEN_def r1 [unfolded s1_def akey_def] split: option.split)
      show ?thesis
      proof (cases "created_at e \<le> request_created q \<and> auth")
        case False
        then have "s' = s1" using s' by auto
        moreover have "\<not> own_address X q [a] i' e'" if "(i', e') \<in> abs_events X s" for i' e'
          using un [OF that] False own by blast
        ultimately show ?thesis using same v1 by blast
      next
        case True
        let ?s = "s2\<lparr>deleted := tput i [] (deleted s2)\<rparr>"
        have v2: "index_view ?s = index_view s" "cancel_in ?s = cancel_in s" using v1 by (simp_all add: s2_def)
        have J1: "walk_inv X U V P s0 ?s" by (rule walk_inv_view [OF J v2(1)])
        have "P i e'" if e': "(i, e') \<in> abs_events X s0" for e'
        proof -
          have "(i, e) \<in> abs_events X s0" using ie(1) w(3) by blast
          then have "e' = e" using e' abs_fun by blast
          then show ?thesis using P True own by blast
        qed
        from walk_inv_remove [OF J1 this] have j: "walk_inv X U V P s0 s'" using s' True by simp
        have ad: "advances X s s'" using advances_trans [OF advances_view [OF v2] advances_remove [OF walk_inv_ok [OF J1]]] s' True by simp
        have "address_settled X q a s'"
          unfolding address_settled_def
        proof (intro allI impI notI)
          fix i' e' assume st: "(i', e') \<in> abs_events X s'" and o': "own_address X q [a] i' e'"
          have "(i', e') \<in> abs_events X s" using st ad by (auto simp: advances_def)
          then have "i' = i" using un o' by blast
          then show False using st remove_event_gone [OF walk_inv_ok [OF J1]] s' True by auto
        qed
        then show ?thesis using j ad by blast
      qed
    qed
  qed
qed

section \<open>The address transaction\<close>

lemma delete_address_fixed: "fixed (fst (delete_address X U q a (s, p, wr))) = fixed s"
  by (auto simp: delete_address_def Let_def split: prod.split option.split)

text \<open>An address that writes nothing leaves the store as it was.\<close>

lemma delete_address_silent:
  assumes "delete_address X U q a (s, p, wr) = (s', p', False)"
  shows "s' = s" "\<not> wr"
  using assms by (auto simp: delete_address_def Let_def split: prod.splits option.splits if_splits)

lemma delete_addresses_loop_ok:
  assumes "walk_inv X U V P s0 s" and "\<forall>i e. own_address X q as i e \<longrightarrow> P i e"
    and "delete_addresses_loop X U q as (s, p, wr) = ((s', p', wr'), done)"
  shows "walk_inv X U V P s0 s' \<and> abs_events X s' \<subseteq> abs_events X s \<and> fixed s' = fixed s
    \<and> (cancel_in s = None \<longrightarrow> done \<and> cancel_in s' = None)
    \<and> (\<not> wr' \<longrightarrow> s' = s\<lparr>cancel_in := cancel_in s'\<rparr>)
    \<and> (done \<longrightarrow> (\<forall>a \<in> set as. address_settled X q a s'))"
  using assms
proof (induction as arbitrary: s p wr)
  case (Cons a as)
  show ?case
  proof (cases "cancelled s")
    case True
    then show ?thesis using Cons.prems by (auto simp: cancelled_def)
  next
    case False
    obtain s1 p1 wr1 where d: "delete_address X U q a (polled s, p, wr) = (s1, p1, wr1)" by (metis prod_cases3)
    have one: "\<forall>i e. own_address X q [a] i e \<longrightarrow> P i e" "\<forall>i e. own_address X q as i e \<longrightarrow> P i e"
      using Cons.prems(2) by (auto simp: own_address_def)
    have a: "walk_inv X U V P s0 s1" "advances X (polled s) s1" "address_settled X q a s1"
      using delete_address_step [OF walk_inv_polled [OF Cons.prems(1)] one(1), where p = p and wr = wr] d by auto
    have fx: "fixed s1 = fixed s" using delete_address_fixed [of X U q a "polled s" p wr] d by simp
    have r: "delete_addresses_loop X U q as (s1, p1, wr1) = ((s', p', wr'), done)" using Cons.prems(3) False d by simp
    note IH = Cons.IH [OF a(1) one(2) r]
    have mono: "wr1 \<longrightarrow> wr'" using r
    proof (induction as arbitrary: s1 p1 wr1)
      case (Cons b bs)
      then show ?case by (auto simp: delete_address_def Let_def split: if_splits prod.splits option.splits)
    qed simp
    have "s' = s\<lparr>cancel_in := cancel_in s'\<rparr>" if "\<not> wr'"
    proof -
      have "s1 = polled s" using delete_address_silent(1) [of X U q a "polled s" p wr s1 p1] d mono that by simp
      then show ?thesis using IH that by (cases s') (simp add: polled_def)
    qed
    moreover have "address_settled X q a s'" using address_settled_mono [OF a(3)] IH by blast
    moreover have "abs_events X s1 \<subseteq> abs_events X s" "cancel_in s = None \<longrightarrow> cancel_in s1 = None"
      using a(2) by (simp_all add: advances_def) (simp add: polled_def)
    ultimately show ?thesis using IH fx by auto
  qed
qed auto

lemma walk_inv_rollback: "walk_inv X U V P s0 s \<Longrightarrow> walk_inv X U V P s0 (s\<lparr>cancel_in := c\<rparr>)"
  by (erule walk_inv_view) simp

lemma delete_addresses_removed:
  assumes J: "walk_inv X U V P s0 s" and P: "\<forall>i e. own_address X q as i e \<longrightarrow> P i e"
    and r: "delete_addresses X U q as (s, p) = ((s', p'), err)"
  shows "walk_inv X U V P s0 s' \<and> abs_events X s' \<subseteq> abs_events X s \<and> fixed s' = fixed s
    \<and> (cancel_in s = None \<longrightarrow> err = None \<and> cancel_in s' = None)
    \<and> (err = None \<longrightarrow> (\<forall>a \<in> set as. address_settled X q a s'))"
proof -
  obtain n sr where p: "p = (n, sr)" by fastforce
  obtain s1 n1 c1 wr fin where l: "delete_addresses_loop X U q as (s, (n, no_state), False) = ((s1, (n1, c1), wr), fin)"
    by (metis surj_pair)
  note ok = delete_addresses_loop_ok [OF J P l]
  have ab: "abs_events X (s\<lparr>cancel_in := c\<rparr>) = abs_events X s" for c by (simp add: abs_events_def)
  show ?thesis
  proof (cases fin)
    case False
    then have "s' = s\<lparr>cancel_in := cancel_in s1\<rparr>" "err = Some deletion_cancelled" using r l p by (auto simp: delete_addresses_def)
    then show ?thesis using walk_inv_rollback [OF J] ab ok False by auto
  next
    case True
    have e: "err = None" using r l p True by (simp add: delete_addresses_def)
    show ?thesis
    proof (cases wr)
      case True
      then have s': "s' = stamp_removed c1 s1" using r l p \<open>fin\<close> by (simp add: delete_addresses_def)
      have v: "index_view s' = index_view s1" "abs_events X s' = abs_events X s1"
        unfolding s' by (simp, rule abs_events_view [OF index_view_fields(1)], simp)
      then have "\<forall>a \<in> set as. address_settled X q a s'" using ok \<open>fin\<close> by (simp add: address_settled_def)
      then show ?thesis using ok e v walk_inv_view [OF _ v(1)] s' by auto
    next
      case False
      then have eq: "s' = s1" using r l p \<open>fin\<close> ok by (simp add: delete_addresses_def)
      show ?thesis unfolding eq using ok \<open>fin\<close> e by simp
    qed
  qed
qed

section \<open>The request\<close>

definition erased_by :: "ext \<Rightarrow> deletion_scope \<Rightarrow> string list \<Rightarrow> address list \<Rightarrow> bool \<Rightarrow> bytes \<Rightarrow> event \<Rightarrow> bool" where
  "erased_by X q targets as wraps i e \<longleftrightarrow> own_target X q targets i e
     \<or> request_group q = None \<and> own_address X q as i e
     \<or> wraps \<and> (\<exists>pk. Option.bind (request_pubkey q) (hex_decode X) = Some pk \<and> length pk = ID_LEN \<and> wrap_to X pk u64_max i e)"

lemma targets_settled:
  assumes "\<forall>t \<in> set ts. target_settled X q t s" and "(i, e) \<in> abs_events X s"
  shows "\<not> own_target X q ts i e"
  using assms by (auto simp: target_settled_def own_target_def)

lemma addresses_settled:
  assumes "\<forall>a \<in> set as. address_settled X q a s" and "(i, e) \<in> abs_events X s"
  shows "\<not> own_address X q as i e"
  using assms by (fastforce simp: address_settled_def own_address_def)

text \<open>The three walks of a request, each finishing, or stopping on a raised flag or a full disk.\<close>

lemma deletion_steps_removed:
  assumes inv: "store_inv_but X U V s" "sorted_tables s"
    and r: "deletion_steps X U q targets as wraps (s, p) = ((s', p'), err)"
  shows "walk_inv X U V (erased_by X q targets as wraps) s s' \<and> fixed s' = fixed s
    \<and> (cancel_in s = None \<and> \<not> low_space s \<longrightarrow> err = None \<and> cancel_in s' = None)
    \<and> (err = None \<longrightarrow> (\<forall>i e. (i, e) \<in> abs_events X s' \<longrightarrow> \<not> erased_by X q targets as wraps i e))"
proof -
  let ?P = "erased_by X q targets as wraps"
  obtain s1 p1 e1 where t: "delete_target_chunks X U q (chunks REMOVAL_CHUNK targets) (s, p) = ((s1, p1), e1)" by (metis surj_pair)
  have cc: "concat (chunks REMOVAL_CHUNK targets) = targets" by (rule concat_chunks) (simp add: REMOVAL_CHUNK_def)
  have a: "walk_inv X U V ?P s s1" "fixed s1 = fixed s" "cancel_in s = None \<Longrightarrow> e1 = None \<and> cancel_in s1 = None"
      "e1 = None \<Longrightarrow> \<forall>t \<in> set targets. target_settled X q t s1"
    using delete_chunks_removed [OF walk_inv_start [OF inv] _ t, of ?P] cc by (auto simp: erased_by_def)
  show ?thesis
  proof (cases e1)
    case (Some er)
    then show ?thesis using a r t by (auto simp: deletion_steps_def)
  next
    case t1: None
    let ?skip = "request_group q \<noteq> None \<and> as \<noteq> []"
    obtain s2 p2 e2 where d: "(if ?skip then ((s1, p1), None) else delete_addresses X U q as (s1, p1)) = ((s2, p2), e2)" by (metis surj_pair)
    have b: "walk_inv X U V ?P s s2 \<and> abs_events X s2 \<subseteq> abs_events X s1 \<and> fixed s2 = fixed s1
        \<and> (cancel_in s1 = None \<longrightarrow> e2 = None \<and> cancel_in s2 = None)
        \<and> (e2 = None \<longrightarrow> request_group q = None \<longrightarrow> (\<forall>a \<in> set as. address_settled X q a s2))"
    proof (cases ?skip)
      case True
      then show ?thesis using d a by auto
    next
      case False
      then have "\<forall>i e. own_address X q as i e \<longrightarrow> ?P i e" by (auto simp: erased_by_def own_address_def)
      then show ?thesis using delete_addresses_removed [OF a(1), of q as p1 s2 p2 e2] d False by auto
    qed
    have done2: "\<not> own_target X q targets i e \<and> \<not> (request_group q = None \<and> own_address X q as i e)"
      if "e2 = None" "(i, e) \<in> abs_events X s2" for i e
    proof -
      have "(i, e) \<in> abs_events X s1" using b that(2) by blast
      then have "\<not> own_target X q targets i e" using targets_settled a(4) t1 by blast
      moreover have "\<not> own_address X q as i e" if "request_group q = None" using addresses_settled b that \<open>e2 = None\<close> \<open>(i, e) \<in> abs_events X s2\<close> by blast
      ultimately show ?thesis by blast
    qed
    obtain n2 sr2 where p2: "p2 = (n2, sr2)" by fastforce
    show ?thesis
    proof (cases "e2 = None \<and> wraps \<and> (\<exists>pk. Option.bind (request_pubkey q) (hex_decode X) = Some pk \<and> length pk = ID_LEN)")
      case False
      then have "s' = s2" "err = e2" using r t t1 d p2 by (auto simp: deletion_steps_def split: option.splits if_splits)
      then show ?thesis using a b t1 done2 False by (auto simp: erased_by_def)
    next
      case True
      then obtain pk where pk: "Option.bind (request_pubkey q) (hex_decode X) = Some pk" "length pk = ID_LEN" and e2: "e2 = None" and wraps by blast
      obtain s3 n3 e3 where g: "remove_gift_wraps_for X U pk u64_max (s2, n2) = ((s3, n3), e3)" by (metis surj_pair)
      have s': "s' = s3" "err = e3" using r t t1 d p2 e2 pk \<open>wraps\<close> g by (auto simp: deletion_steps_def split: if_splits)
      have i2: "store_inv_but X U V s2" "sorted_tables s2" using b walk_inv_facts by blast+
      have c: "walk_inv X U V (wrap_to X pk u64_max) s2 s3 \<and> fixed s3 = fixed s2 \<and> (cancel_in s2 = None \<and> \<not> low_space s2 \<longrightarrow> e3 = None \<and> cancel_in s3 = None)
          \<and> (e3 = None \<longrightarrow> (\<forall>i e. (i, e) \<in> abs_events X s3 \<longrightarrow> \<not> wrap_to X pk u64_max i e))"
        using wraps_removed [OF i2 _ g] pk(2) by (auto simp: ID_LEN_def)
      have "walk_inv X U V ?P s s3"
        using walk_inv_trans [of X U V ?P s s2 V "wrap_to X pk u64_max" s3] b c pk \<open>wraps\<close>
        by (auto elim!: walk_inv_weaken simp: erased_by_def)
      moreover have "abs_events X s3 \<subseteq> abs_events X s2" using c by (simp add: walk_inv_def)
      ultimately show ?thesis using a b c t1 e2 done2 s' pk fixed_fields(9) [of s2 s] by (auto simp: erased_by_def)
    qed
  qed
qed

text \<open>A request with an author or a group, on a store with room: recorded, walked, and cleared when the walk is complete.\<close>

definition request_record :: "ext \<Rightarrow> deletion_scope \<Rightarrow> string list \<Rightarrow> address list \<Rightarrow> bool \<Rightarrow> bytes \<times> bytes" where
  "request_record X q targets as wraps =
     (let r = encode_pending_deletion targets as (request_pubkey q) (request_created q) (request_group q) wraps
      in (pending_deletion_key X r, r))"

definition requested :: "ext \<Rightarrow> deletion_scope \<Rightarrow> string list \<Rightarrow> address list \<Rightarrow> bool \<Rightarrow> store \<Rightarrow> store" where
  "requested X q targets as wraps s =
     (if targets \<noteq> [] \<or> as \<noteq> [] \<or> wraps
      then s\<lparr>delete_pending := tput (fst (request_record X q targets as wraps)) (snd (request_record X q targets as wraps)) (delete_pending s)\<rparr>
      else s)"

lemma apply_deletion_run:
  assumes "\<not> low_space s" and "request_pubkey q \<noteq> None \<or> request_group q \<noteq> None" and "\<not> low_space s2"
    and d: "deletion_steps X U q targets as wraps (requested X q targets as wraps s, 0, no_state) = ((s2, p2), e2)"
  shows "apply_deletion_group X U q targets as wraps s =
    (if e2 = None \<and> (targets \<noteq> [] \<or> as \<noteq> [] \<or> wraps)
     then s2\<lparr>delete_pending := tdel (fst (request_record X q targets as wraps)) (delete_pending s2)\<rparr> else s2,
     \<lparr>rr_removed = fst p2, rr_state = snd p2, rr_error = e2\<rparr>)"
proof -
  define work where "work \<longleftrightarrow> targets \<noteq> [] \<or> as \<noteq> [] \<or> wraps"
  define rec where "rec = encode_pending_deletion targets as (request_pubkey q) (request_created q) (request_group q) wraps"
  have rr: "request_record X q targets as wraps = (pending_deletion_key X rec, rec)"
    by (simp add: request_record_def rec_def Let_def)
  have d': "deletion_steps X U q targets as wraps
      (if work then s\<lparr>delete_pending := tput (pending_deletion_key X rec) rec (delete_pending s)\<rparr> else s, 0, no_state) = ((s2, p2), e2)"
    using d unfolding requested_def rr fst_conv snd_conv work_def .
  obtain n2 sr2 where p2: "p2 = (n2, sr2)" by fastforce
  show ?thesis
    unfolding apply_deletion_group_def apply_deletion_walk_def Let_def rec_def [symmetric] work_def [symmetric] rr
    using assms(1-3) d' p2 by (cases e2) (auto simp: put_pending_deletion_def clear_pending_deletion_def split: if_splits)
qed

lemma requested_view:
  "index_view (requested X q targets as wraps s) = index_view s" "cancel_in (requested X q targets as wraps s) = cancel_in s"
  "low_space (requested X q targets as wraps s) = low_space s" "deleted (requested X q targets as wraps s) = deleted s"
  by (simp_all add: requested_def)

lemma requested_inv:
  assumes "store_inv_but X U V s" "sorted_tables s"
  shows "store_inv_but X U V (requested X q targets as wraps s)" "sorted_tables (requested X q targets as wraps s)"
    "abs_events X (requested X q targets as wraps s) = abs_events X s"
proof -
  have w: "walk_inv X U V (\<lambda>_ _. False) s (requested X q targets as wraps s)"
    by (rule walk_inv_view [OF walk_inv_start [OF assms] requested_view(1)])
  show "store_inv_but X U V (requested X q targets as wraps s)" "sorted_tables (requested X q targets as wraps s)"
    using walk_inv_facts(1,2) [OF w] .
  show "abs_events X (requested X q targets as wraps s) = abs_events X s"
    by (rule abs_events_view [OF index_view_fields(1) [OF requested_view(1)]])
qed

lemma apply_deletion_removed:
  assumes inv: "store_inv_but X U V s" "sorted_tables s"
    and r: "apply_deletion_group X U q targets as wraps s = (s', report)"
    and who: "request_pubkey q \<noteq> None \<or> request_group q \<noteq> None"
  shows "walk_inv X U V (erased_by X q targets as wraps) s s'
    \<and> (cancel_in s = None \<and> \<not> low_space s \<longrightarrow> rr_error report = None \<and> cancel_in s' = None)
    \<and> (rr_error report = None \<longrightarrow> (\<forall>i e. (i, e) \<in> abs_events X s' \<longrightarrow> \<not> erased_by X q targets as wraps i e)
        \<and> fixed s' = fixed (if targets \<noteq> [] \<or> as \<noteq> [] \<or> wraps
            then s\<lparr>delete_pending := tdel (fst (request_record X q targets as wraps)) (delete_pending (requested X q targets as wraps s))\<rparr> else s))
    \<and> (rr_error report \<noteq> None \<longrightarrow> \<not> low_space s \<longrightarrow> fixed s' = fixed (requested X q targets as wraps s))"
proof (cases "low_space s")
  case True
  then show ?thesis using r walk_inv_start [OF inv] by (auto simp: apply_deletion_group_def apply_deletion_walk_def)
next
  case ls: False
  let ?s1 = "requested X q targets as wraps s" and ?work = "targets \<noteq> [] \<or> as \<noteq> [] \<or> wraps"
  note i1 = requested_inv [OF inv, of q targets as wraps]
  obtain s2 p2 e2 where d: "deletion_steps X U q targets as wraps (?s1, 0, no_state) = ((s2, p2), e2)" by (metis surj_pair)
  note ok = deletion_steps_removed [OF i1(1,2) d]
  have J: "walk_inv X U V (erased_by X q targets as wraps) s s2" using ok unfolding walk_inv_def i1(3) by blast
  have fx: "fixed s2 = fixed ?s1" using ok by blast
  have "\<not> low_space s2" using fixed_fields(9) [OF fx] ls by (simp add: requested_view)
  note run = apply_deletion_run [OF ls who this d]
  let ?s3 = "s2\<lparr>delete_pending := tdel (fst (request_record X q targets as wraps)) (delete_pending s2)\<rparr>"
  have s': "s' = (if e2 = None \<and> ?work then ?s3 else s2)" "rr_error report = e2" using r run by auto
  have J3: "walk_inv X U V (erased_by X q targets as wraps) s s'" unfolding s'(1) using J walk_inv_view [OF J, of ?s3] by simp
  have ab: "abs_events X s' = abs_events X s2" by (simp add: s'(1) abs_events_def)
  have "fixed s' = fixed (if ?work then s\<lparr>delete_pending := tdel (fst (request_record X q targets as wraps)) (delete_pending ?s1)\<rparr> else s)"
    if "e2 = None" using that fx by (simp add: s' fixed_def requested_def)
  moreover have "fixed s' = fixed ?s1" if "e2 \<noteq> None" using that fx by (auto simp: s')
  moreover have "\<forall>i e. (i, e) \<in> abs_events X s' \<longrightarrow> \<not> erased_by X q targets as wraps i e" if "e2 = None" using ok that ab by simp
  moreover have "cancel_in s = None \<longrightarrow> e2 = None \<and> cancel_in s' = None" using ok ls by (simp add: requested_view s')
  ultimately show ?thesis using J3 s'(2) by simp
qed

end
