(* ===== verification/Tombstones.thy ===== *)
theory Tombstones
  imports DeletionOps
begin

text \<open>
  Deletion markers: no operation takes back the marker of an erased event, a deletion request marks
  what it removes, and a marked event is refused when it is submitted again.
\<close>

section \<open>Markers are never taken back\<close>

definition marked :: "store \<Rightarrow> bytes \<Rightarrow> bool" where
  "marked s i \<longleftrightarrow> tget (deleted s) i = Some []"

definition marks_kept :: "store \<Rightarrow> store \<Rightarrow> bool" where
  "marks_kept s s' \<longleftrightarrow> (\<forall>i. length i = 32 \<longrightarrow> marked s i \<longrightarrow> marked s' i)"

lemma marks_kept_refl [simp, intro]: "marks_kept s s"
  by (simp add: marks_kept_def)

lemma marks_kept_trans [trans]: "marks_kept a b \<Longrightarrow> marks_kept b c \<Longrightarrow> marks_kept a c"
  by (simp add: marks_kept_def)

lemma marks_kept_eq: "deleted s' = deleted s \<Longrightarrow> marks_kept s s'"
  by (simp add: marks_kept_def marked_def)

lemma fold_rel:
  assumes "\<And>s. R s s" and "\<And>a b c. R a b \<Longrightarrow> R b c \<Longrightarrow> R a c" and step: "\<And>x s a. R s (fst (step x (s, a)))"
  shows "R s (fst (fold step xs (s, a)))"
proof (induction xs arbitrary: s a)
  case (Cons x xs)
  obtain s1 a1 where r: "step x (s, a) = (s1, a1)" by fastforce
  have "R s s1" using step [of s x a] r by simp
  from assms(2) [OF this Cons.IH [of s1 a1]] show ?case by (simp add: r)
qed (simp add: assms(1))

lemma chunk_loop_rel:
  assumes refl: "\<And>s. R s s" and tr: "\<And>a b c. R a b \<Longrightarrow> R b c \<Longrightarrow> R a c"
    and body: "\<And>es s a. R s (fst (body es (s, a)))" and p: "\<And>s. R s (polled s)"
  shows "R s (fst (fst (chunk_loop n T lo hi body (s, a))))"
proof (induction n arbitrary: lo s a)
  case (Suc n)
  let ?es = "removal_chunk (T (polled s)) lo hi"
  obtain s1 a1 where r: "body ?es (polled s, a) = (s1, a1)" by fastforce
  have "R (polled s) s1" using body [of "polled s" ?es a] r by simp
  from tr [OF tr [OF p this] Suc.IH [of s1 _ a1]] show ?case by (simp add: Let_def refl p r)
qed (simp add: refl)

lemma deleted_marks [simp]:
  "deleted (bump_meta_counter s k) = deleted s" "deleted (bump_state_seq s f) = deleted s" "deleted (bump_state_stamp s) = deleted s"
  "deleted (stamp_removed r s) = deleted s" "deleted (polled s) = deleted s" "deleted (index_wraps es s) = deleted s"
  by (simp_all add: bump_meta_counter_def bump_state_seq_def bump_state_stamp_def stamp_removed_def polled_def index_wraps_def Let_def)

lemma deleted_remove [simp]: "deleted (remove_event X U s i) = deleted s"
  by (simp add: remove_event_def remove_corrupt_event_def Let_def remember_thread_root_tombstone_def split: option.split)

lemma extend_keeps: "marks_kept s (extend_absent_deletion_marker i pk s)"
  by (auto simp: marks_kept_def marked_def extend_absent_deletion_marker_def lmdb.get_put split: option.split)

lemma tput_keeps: "marks_kept s (s\<lparr>deleted := tput i [] (deleted s)\<rparr>)"
  by (simp add: marks_kept_def marked_def lmdb.get_put)

text \<open>Address tombstones live under longer keys than event markers.\<close>

lemma tombstone_keeps: "length pk = 32 \<Longrightarrow> marks_kept s (merge_address_tombstone_in (deleted_address_key X k pk d) c s)"
  by (auto simp: marks_kept_def marked_def merge_address_tombstone_in_def Let_def lmdb.get_put deleted_address_key_def replaceable_key_def)

lemma marks_through:
  "marks_kept s t \<Longrightarrow> marks_kept s (remove_event X U t i)"
  "marks_kept s t \<Longrightarrow> marks_kept s (t\<lparr>deleted := tput i [] (deleted t)\<rparr>)"
  "marks_kept s t \<Longrightarrow> length pk = 32 \<Longrightarrow> marks_kept s (merge_address_tombstone_in (deleted_address_key X k pk d) c t)"
  "marks_kept s t \<Longrightarrow> marks_kept s (extend_absent_deletion_marker i pk' t)"
  "marks_kept s t \<Longrightarrow> marks_kept s (t\<lparr>by_tag := u\<rparr>)" "marks_kept s t \<Longrightarrow> marks_kept s (t\<lparr>by_pubkey := u\<rparr>)"
  "marks_kept s t \<Longrightarrow> marks_kept s (t\<lparr>expiry_t := u\<rparr>)"
  using marks_kept_trans tput_keeps tombstone_keeps extend_keeps by (simp_all add: marks_kept_def marked_def)

lemma marks_steps:
  "marks_kept s (fst (remove_wrap X U pk x (s, n)))"
  "marks_kept s (fst (vanish_entry X U pk x (s, p)))"
  "marks_kept s (fst (expire_entry X U x (s, p)))"
  "marks_kept s (fst (purge_entry X U gid ph x (s, q)))"
  "marks_kept s (fst (delete_target X U rq tgt (s, p)))"
  by (auto simp: remove_wrap_def vanish_entry_def expire_entry_def purge_entry_def delete_target_def Let_def
      intro!: marks_through split: prod.split option.split)

lemma delete_address_keeps: "marks_kept s (fst (delete_address X U q a (s, p, wr)))"
  by (auto simp: delete_address_def Let_def ID_LEN_def intro!: marks_through split: prod.split option.split)

lemma marks_fold:
  assumes "\<And>x s a. marks_kept s (fst (step x (s, a)))"
  shows "marks_kept s (fst (fold step es (s, a)))"
  by (rule fold_rel [where R = marks_kept, OF marks_kept_refl marks_kept_trans assms])

lemma marks_stamped:
  assumes "\<And>x s a. marks_kept s (fst (step x (s, a)))"
  shows "marks_kept s (fst (stamped_chunk step es (s, p)))"
proof -
  obtain n sr where p: "p = (n, sr)" by fastforce
  have "marks_kept s (fst (fold step es (s, n, no_state)))" by (rule marks_fold [OF assms])
  then show ?thesis by (auto simp: stamped_chunk_def p marks_kept_def marked_def split: prod.split)
qed

lemma marks_purge_chunk: "marks_kept s (fst (purge_chunk X U gid now u ph es (s, p)))"
proof -
  obtain s1 p1 where f: "fold (purge_entry X U gid ph) es (s, p) = (s1, p1)" by fastforce
  then have "marks_kept s s1" using marks_fold [where step = "purge_entry X U gid ph" and s = s and a = p and es = es, OF marks_steps(4)] by simp
  then show ?thesis by (simp add: purge_chunk_def f Let_def) (simp add: marks_kept_def marked_def)
qed

lemma marks_loop:
  assumes "\<And>es s a. marks_kept s (fst (body es (s, a)))"
  shows "marks_kept s (fst (fst (chunk_loop n T lo hi body (s, a))))"
  by (rule chunk_loop_rel [OF marks_kept_refl marks_kept_trans assms]) (auto intro: marks_kept_eq)

lemma marks_walks:
  "marks_kept s (fst (fst (chunk_walk T lo hi (fold (remove_wrap X U pk)) (s, n))))"
  "marks_kept s (fst (fst (chunk_walk T lo hi (stamped_chunk (vanish_entry X U pk)) (s, p))))"
  "marks_kept s (fst (fst (chunk_walk T lo hi (stamped_chunk (expire_entry X U)) (s, p))))"
  "marks_kept s (fst (fst (chunk_walk T lo hi (purge_chunk X U gid now u ph) (s, q))))"
  unfolding chunk_walk_def fst_conv
  by (rule marks_loop; rule marks_fold marks_stamped marks_purge_chunk; rule marks_steps)+

lemma rebuild_deleted: "deleted (fst (rebuild_gift_wrap_index X s)) = deleted s"
proof -
  have "deleted (fst (fst (rebuild_wraps_loop n X lo hi (s, m)))) = deleted s" for n lo hi m
  proof (induction n arbitrary: lo s m)
    case (Suc n)
    then show ?case by (simp add: Let_def)
  qed simp
  note l = this
  obtain lo hi where b: "rebuild_gift_wrap_index X s = (if low_space s then (s, Inl storage_full)
      else case rebuild_wraps_loop (Suc (length (by_kind s))) X lo hi (s, 0) of
          ((s, indexed), Finished) \<Rightarrow> if cancelled s then (s, Inl rebuild_cancelled)
            else (let s = polled s in (s\<lparr>index_meta := tdel GIFT_WRAP_REBUILD (tput (as_bytes ''gift_wrap_index'') (as_bytes ''1'') (index_meta s))\<rparr>, Inr indexed))
        | ((s, _), _) \<Rightarrow> (s, Inl rebuild_cancelled))" unfolding rebuild_gift_wrap_index_def Let_def by blast
  obtain s1 m e where r: "rebuild_wraps_loop (Suc (length (by_kind s))) X lo hi (s, 0) = ((s1, m), e)" by (metis surj_pair)
  then have "deleted s1 = deleted s" using l [of "Suc (length (by_kind s))" lo hi 0] by simp
  then show ?thesis by (cases e) (simp_all add: b r Let_def del: rebuild_wraps_loop.simps)
qed

lemma marks_wraps: "marks_kept s (fst (fst (remove_gift_wraps_for X U pk u (s, n))))"
proof -
  obtain s1 res where b: "(if gift_wrap_index_needs_rebuild s then rebuild_gift_wrap_index X s else (s, Inr 0)) = (s1, res)" by fastforce
  then have "deleted s1 = deleted s" using rebuild_deleted [of X s] by (metis fst_conv)
  then have "marks_kept s s1" by (rule marks_kept_eq)
  note w = marks_kept_trans [OF this marks_walks(1)]
  show ?thesis
  proof (cases res)
    case (Inl er)
    then show ?thesis using b \<open>marks_kept s s1\<close> by (simp add: remove_gift_wraps_for_def)
  next
    case (Inr m)
    then show ?thesis using b w unfolding remove_gift_wraps_for_def Let_def
      by (simp split: prod.split walk_end.split) (metis fst_conv)
  qed
qed

section \<open>A deletion marks what it removes\<close>

definition tombstoned :: "ext \<Rightarrow> store \<Rightarrow> store \<Rightarrow> bool" where
  "tombstoned X s s' \<longleftrightarrow> marks_kept s s' \<and>
     (\<forall>i e. (i, e) \<in> abs_events X s \<longrightarrow> length i = 32 \<longrightarrow> (i, e) \<in> abs_events X s' \<or> marked s' i)"

lemma tombstoned_refl [simp, intro]: "tombstoned X s s"
  by (simp add: tombstoned_def)

lemma tombstoned_trans: "tombstoned X a b \<Longrightarrow> tombstoned X b c \<Longrightarrow> tombstoned X a c"
  unfolding tombstoned_def marks_kept_def by blast

lemma tombstoned_same: "marks_kept s s' \<Longrightarrow> events s' = events s \<Longrightarrow> tombstoned X s s'"
  by (simp add: tombstoned_def abs_events_def)

lemma remove_event_other: "(j, e) \<in> abs_events X s \<Longrightarrow> j \<noteq> i \<Longrightarrow> (j, e) \<in> abs_events X (remove_event X U s i)"
  by (auto simp: remove_event_def remove_corrupt_event_def Let_def remember_unchanged abs_events_def lmdb.get_del split: option.split)

lemma tombstoned_remove: "tombstoned X s (remove_event X U (s\<lparr>deleted := tput i [] (deleted s)\<rparr>) i)"
proof -
  let ?s = "s\<lparr>deleted := tput i [] (deleted s)\<rparr>"
  have "marks_kept s (remove_event X U ?s i)" by (intro marks_through marks_kept_refl)
  moreover have "marked (remove_event X U ?s i) i" by (simp add: marked_def lmdb.get_put)
  moreover have "abs_events X ?s = abs_events X s" by (simp add: abs_events_def)
  ultimately show ?thesis unfolding tombstoned_def using remove_event_other [of _ _ X ?s i U] by metis
qed

lemma events_marks [simp]:
  "events (extend_absent_deletion_marker i pk s) = events s" "events (merge_address_tombstone_in k c s) = events s"
  "events (stamp_removed r s) = events s"
  by (rule index_view_fields(1), simp)+

lemma tombstoned_tombstone:
  "length pk = 32 \<Longrightarrow> tombstoned X s (merge_address_tombstone_in (deleted_address_key X k pk d) c s)"
  by (rule tombstoned_same [OF tombstone_keeps]) simp_all

lemma tombstoned_target: "tombstoned X s (fst (delete_target X U q t (s, p)))"
  by (auto simp: delete_target_def intro!: tombstoned_remove tombstoned_same [OF extend_keeps] split: prod.split option.split)

lemma tombstoned_address: "tombstoned X s (fst (delete_address X U q a (s, p, wr)))"
  by (auto simp: delete_address_def Let_def ID_LEN_def
      intro: tombstoned_trans [OF _ tombstoned_remove] tombstoned_tombstone split: prod.split option.split)

lemma tombstoned_chunks: "tombstoned X s (fst (fst (delete_target_chunks X U q cs (s, p))))"
proof (induction cs arbitrary: s p)
  case (Cons c cs)
  obtain n sr where p: "p = (n, sr)" by fastforce
  obtain s1 n1 c1 where f: "fold (delete_target X U q) c (polled s, n, no_state) = (s1, n1, c1)" by (metis prod_cases3)
  have "tombstoned X (polled s) s1"
    using fold_rel [where R = "tombstoned X" and step = "delete_target X U q" and xs = c and s = "polled s" and a = "(n, no_state)",
        OF tombstoned_refl tombstoned_trans tombstoned_target] f by simp
  moreover have "tombstoned X s (polled s)" "tombstoned X s1 (stamp_removed c1 s1)"
    by (rule tombstoned_same; simp add: marks_kept_eq)+
  ultimately have "tombstoned X s (stamp_removed c1 s1)" using tombstoned_trans by blast
  from tombstoned_trans [OF this Cons.IH] show ?case by (simp add: p f)
qed simp

lemma tombstoned_addresses: "tombstoned X s (fst (fst (delete_addresses X U q as (s, p))))"
proof -
  have l: "tombstoned X s (fst (fst (delete_addresses_loop X U q as (s, p, wr))))" for s p wr
  proof (induction as arbitrary: s p wr)
    case (Cons a as)
    obtain s1 p1 wr1 where d: "delete_address X U q a (polled s, p, wr) = (s1, p1, wr1)" by (metis prod_cases3)
    have "tombstoned X (polled s) s1" using tombstoned_address [of X "polled s" U q a p wr] d by simp
    moreover have "tombstoned X s (polled s)" by (rule tombstoned_same; simp add: marks_kept_eq)
    ultimately have "tombstoned X s s1" using tombstoned_trans by blast
    from tombstoned_trans [OF this Cons.IH] show ?case by (simp add: d)
  qed simp
  obtain n sr where p: "p = (n, sr)" by fastforce
  obtain s1 n1 c1 wr fin where d: "delete_addresses_loop X U q as (s, (n, no_state), False) = ((s1, (n1, c1), wr), fin)"
    by (metis surj_pair)
  have "tombstoned X s s1" using l [of s "(n, no_state)" False] d by simp
  moreover have "tombstoned X s (s\<lparr>cancel_in := cancel_in s1\<rparr>)" by (rule tombstoned_same [OF marks_kept_eq]) simp_all
  moreover have "tombstoned X s1 (stamp_removed c1 s1)" by (rule tombstoned_same [OF marks_kept_eq]) simp_all
  ultimately show ?thesis using tombstoned_trans by (auto simp: delete_addresses_def p d split: bool.split)
qed

lemma deletion_steps_marks:
  assumes r: "deletion_steps X U q targets as wraps (s, p) = ((s', p'), None)"
    and inv: "store_inv_but X U V s" "sorted_tables s"
    and e: "(i, e) \<in> abs_events X s" "own_target X q targets i e \<or> request_group q = None \<and> own_address X q as i e"
  shows "marked s' i"
proof -
  let ?P = "erased_by X q targets as wraps"
  obtain s1 p1 e1 where t: "delete_target_chunks X U q (chunks REMOVAL_CHUNK targets) (s, p) = ((s1, p1), e1)" by (metis surj_pair)
  have e1: "e1 = None" using r t by (cases e1) (simp_all add: deletion_steps_def)
  have cc: "concat (chunks REMOVAL_CHUNK targets) = targets" by (rule concat_chunks) (simp add: REMOVAL_CHUNK_def)
  have a: "walk_inv X U V ?P s s1" "\<forall>t \<in> set targets. target_settled X q t s1"
    using delete_chunks_removed [OF walk_inv_start [OF inv] _ t, of ?P] cc e1 by (auto simp: erased_by_def)
  let ?skip = "request_group q \<noteq> None \<and> as \<noteq> []"
  obtain s2 p2 e2 where d: "(if ?skip then ((s1, p1), None) else delete_addresses X U q as (s1, p1)) = ((s2, p2), e2)" by (metis surj_pair)
  have e2: "e2 = None" using r t d e1 by (cases e2) (auto simp: deletion_steps_def split: if_splits)
  have "abs_events X s2 \<subseteq> abs_events X s1 \<and> (request_group q = None \<longrightarrow> (\<forall>a \<in> set as. address_settled X q a s2))"
  proof (cases ?skip)
    case False
    then have "\<forall>i e. own_address X q as i e \<longrightarrow> ?P i e" by (auto simp: erased_by_def own_address_def)
    then show ?thesis using delete_addresses_removed [OF a(1), of q as p1 s2 p2 e2] d False e2 by auto
  qed (use d in auto)
  then have gone: "(i, e) \<notin> abs_events X s2"
    using e(2) targets_settled [OF a(2), of i e] addresses_settled [of as X q s2 i e] by auto
  have "tombstoned X s s1" "tombstoned X s1 s2"
    using tombstoned_chunks [of X s U q "chunks REMOVAL_CHUNK targets" p] tombstoned_addresses [of X s1 U q as p1] t d
    by (auto split: if_splits)
  then have "tombstoned X s s2" by (rule tombstoned_trans)
  moreover have len: "length i = 32" using abs_ok(1) [OF store_inv_but_ok [OF inv(1)] e(1)] id_bytes_length by blast
  ultimately have m: "marked s2 i" using gone e(1) by (auto simp: tombstoned_def)
  obtain n2 sr2 where p2: "p2 = (n2, sr2)" by fastforce
  have "s' = s2 \<or> (\<exists>pk m err. remove_gift_wraps_for X U pk u64_max (s2, n2) = ((s', m), err))"
    using r t d e1 e2 p2 by (auto simp: deletion_steps_def split: option.splits if_splits prod.splits)
  then have "marks_kept s2 s'" using marks_wraps marks_kept_refl by (metis fst_conv)
  then show ?thesis using m len by (simp add: marks_kept_def)
qed

lemma apply_deletion_marks:
  assumes r: "apply_deletion_group X U q targets as wraps s = (s', report)" and ok: "rr_error report = None"
    and inv: "store_inv_but X U V s" "sorted_tables s"
    and who: "request_pubkey q \<noteq> None \<or> request_group q \<noteq> None"
    and e: "(i, e) \<in> abs_events X s" "own_target X q targets i e \<or> request_group q = None \<and> own_address X q as i e"
  shows "marked s' i"
proof -
  have ls: "\<not> low_space s" using r ok by (auto simp: apply_deletion_group_def apply_deletion_walk_def)
  let ?s1 = "requested X q targets as wraps s"
  note i1 = requested_inv [OF inv, of q targets as wraps]
  obtain s2 p2 e2 where d: "deletion_steps X U q targets as wraps (?s1, 0, no_state) = ((s2, p2), e2)" by (metis surj_pair)
  have fx: "fixed s2 = fixed ?s1" using deletion_steps_removed [OF i1(1,2) d] by blast
  have "\<not> low_space s2" using fixed_fields(9) [OF fx] ls by (simp add: requested_view)
  note run = trans [OF r [symmetric] apply_deletion_run [OF ls who this d]]
  have e2: "e2 = None" "deleted s' = deleted s2" using run ok by (simp_all split: if_splits)
  have "marked s2 i" by (rule deletion_steps_marks [OF d [unfolded e2] i1(1,2) _ e(2)]) (use e(1) i1(3) in simp)
  then show ?thesis using e2(2) by (simp add: marked_def)
qed

section \<open>Marked events stay out\<close>

lemma marked_refused:
  assumes "marked s i" and "id_bytes X e = Some i" and "kind e \<noteq> DELETION_KIND"
  shows "\<exists>out. put_event_in X U s e now = (s, out) \<and> (out = PreviouslyDeleted \<or> (\<exists>m. out = Invalid m))"
proof (cases "pubkey_bytes X e")
  case None
  then show ?thesis using assms by (simp add: put_event_in_def)
next
  case (Some pk)
  have "\<exists>out. put_refusal X s e now i pk = Some out \<and> (out = PreviouslyDeleted \<or> (\<exists>m. out = Invalid m))"
    using assms by (auto simp: put_refusal_def marked_def deletion_marker_blocks_def)
  then show ?thesis using Some assms(2) by (auto simp: put_event_in_def)
qed

end
