(* ===== verification/PurgeOps.thy ===== *)
theory PurgeOps
  imports Tombstones
begin

text \<open>
  Group purges: a purge removes exactly the group's history up to its bound, records a cut that covers
  everything it removed, and the cut keeps the removed events out.
\<close>

section \<open>What a purge logs\<close>

definition logged :: "ext \<Rightarrow> store \<times> purge_state \<Rightarrow> store \<times> purge_state \<Rightarrow> bool" where
  "logged X a b \<longleftrightarrow> pg_max_created (snd a) \<le> pg_max_created (snd b) \<and> pg_cut (snd a) \<le> pg_cut (snd b) \<and>
     (\<forall>i e. (i, e) \<in> abs_events X (fst a) \<longrightarrow> (i, e) \<in> abs_events X (fst b) \<or> created_at e \<le> pg_max_created (snd b))"

lemma logged_refl [simp, intro]: "logged X a a"
  by (simp add: logged_def)

lemma logged_trans: "logged X a b \<Longrightarrow> logged X b c \<Longrightarrow> logged X a c"
  unfolding logged_def by (meson order_trans)

lemma logged_fold:
  assumes "\<And>x sp. logged X sp (step x sp)"
  shows "logged X sp (fold step xs sp)"
proof (induction xs arbitrary: sp)
  case (Cons x xs)
  from logged_trans [OF assms Cons.IH] show ?case by simp
qed simp

lemma logged_loop:
  assumes "\<And>es sp. logged X sp (body es sp)"
  shows "logged X sp (fst (chunk_loop n T lo hi body sp))"
proof (induction n arbitrary: lo sp)
  case (Suc n)
  obtain s p where sp: "sp = (s, p)" by fastforce
  have "logged X sp (polled s, p)" by (simp add: sp logged_def)
  from logged_trans [OF this logged_trans [OF assms Suc.IH]] this show ?case by (auto simp: sp Let_def)
qed simp

lemma logged_entry: "logged X sp (purge_entry X U gid ph x sp)"
proof -
  obtain s p k i where sp: "sp = (s, p)" "x = (k, i)" by fastforce
  show ?thesis
  proof (cases "tget (events s) i")
    case (Some raw)
    let ?q = "(purge_note ph i (event_of_json X raw) p)\<lparr>pg_removed := pg_removed p + 1\<rparr>"
    have "(j, e) \<in> abs_events X (remove_event X U s i) \<or> created_at e \<le> pg_max_created ?q" if "(j, e) \<in> abs_events X s" for j e
    proof (cases "j = i")
      case True
      then show ?thesis using that Some by (simp add: abs_events_def purge_note_def)
    qed (use remove_event_other [OF that] in blast)
    then have "logged X (s, p) (remove_event X U s i, ?q)" by (simp add: logged_def) (simp add: purge_note_def split: option.split)
    then show ?thesis by (simp add: sp Some purge_entry_def Let_def)
  qed (simp add: sp purge_entry_def)
qed

lemma logged_chunk: "logged X sp (purge_chunk X U gid now u ph es sp)"
proof -
  obtain s1 p1 where f: "fold (purge_entry X U gid ph) es sp = (s1, p1)" by fastforce
  then have l: "logged X sp (s1, p1)" using logged_fold [where X = X and sp = sp and xs = es and step = "purge_entry X U gid ph", OF logged_entry] by simp
  then show ?thesis by (auto simp: purge_chunk_def f Let_def logged_def abs_events_def le_max_iff_disj)
qed

lemma logged_phase: "logged X sp (fst (purge_phase_walk X U gid now u ph sp))"
  by (cases ph) (simp_all add: chunk_walk_def logged_loop [OF logged_chunk] del: chunk_loop.simps)

lemma logged_phases: "logged X sp (fst (purge_phases X U gid now u phs sp))"
proof (induction phs arbitrary: sp)
  case (Cons ph phs)
  obtain sp1 e where w: "purge_phase_walk X U gid now u ph sp = (sp1, e)" by fastforce
  then have "logged X sp sp1" using logged_phase [of X sp U gid now u ph] by simp
  then show ?case using logged_trans [OF _ Cons.IH] by (cases e) (simp_all add: w)
qed simp

section \<open>The phases\<close>

lemma purge_phases_removed:
  assumes inv: "store_inv_but X U V s" "sorted_tables s"
    and r: "purge_phases X U gid now u (phases_of gid u) (s, p) = ((s', p'), fin)"
  shows "walk_inv X U V (group_history gid u) s s' \<and> fixed s' = fixed s \<and> (cancel_in s = None \<longrightarrow> fin)
    \<and> (fin \<longrightarrow> (\<forall>i x. (i, x) \<in> abs_events X s' \<longrightarrow> \<not> group_history gid u i x))"
proof (cases "TAG_INDEX_VALUE_MAX < length gid")
  case True
  obtain s1 p1 e where w: "purge_phase_walk X U gid now u By_created (s, p) = ((s1, p1), e)" by (metis surj_pair)
  note t = timeline_removed [OF inv w]
  have "s' = s1" "fin = (e = Finished)" using r True w by (auto simp: phases_of_def split: walk_end.splits simp del: purge_phase_walk.simps)
  then show ?thesis using t by auto
next
  case False
  then have len: "length gid \<le> TAG_INDEX_VALUE_MAX" by simp
  let ?h = "tag_window (CHR ''h'') gid u" and ?d = "tag_window (CHR ''d'') gid u"
  have ph: "phases_of gid u = [By_tag (fst ?h) (snd ?h) False, By_tag (fst ?d) (snd ?d) True]"
    using False by (simp add: phases_of_def Let_def)
  obtain s1 p1 e1 where w1: "purge_phase_walk X U gid now u (By_tag (fst ?h) (snd ?h) False) (s, p) = ((s1, p1), e1)" by (metis surj_pair)
  note a = phase_removed [OF inv len _ w1]
  then have J1: "walk_inv X U V (group_history gid u) s s1" by simp
  note f1 = walk_inv_facts [OF J1]
  show ?thesis
  proof (cases "e1 = Finished")
    case False
    then have "s' = s1" "\<not> fin" using r ph w1 by (auto split: walk_end.splits simp del: purge_phase_walk.simps)
    then show ?thesis using a False by auto
  next
    case fin1: True
    obtain s2 p2 e2 where w2: "purge_phase_walk X U gid now u (By_tag (fst ?d) (snd ?d) True) (s1, p1) = ((s2, p2), e2)" by (metis surj_pair)
    note b = phase_removed [OF f1(1,2) len _ w2]
    have s': "s' = s2" "fin = (e2 = Finished)" using r ph w1 w2 fin1 by (auto split: walk_end.splits simp del: purge_phase_walk.simps)
    have J2: "walk_inv X U V (group_history gid u) s s2"
      using walk_inv_trans [OF J1, of V "group_history gid u" s2] b by simp
    have "\<not> group_history gid u i x" if h: "e2 = Finished" "(i, x) \<in> abs_events X s2" for i x
    proof -
      have "(i, x) \<in> abs_events X s1" using b h(2) by (auto simp: walk_inv_def)
      then show ?thesis using a b fin1 h by (auto simp: group_history_def)
    qed
    then show ?thesis using J2 a b fin1 s' by auto
  qed
qed

section \<open>The whole purge\<close>

text \<open>The bound of a purge: a pending purge of the group keeps its wider one.\<close>

definition purge_bound :: "ext \<Rightarrow> store \<Rightarrow> string \<Rightarrow> u64 \<Rightarrow> u64" where
  "purge_bound X s gid until_ts =
     (case Option.bind (tget (purge_pending s) (purged_group_key X gid)) decode_pending_purge of
        None \<Rightarrow> until_ts
      | Some (_, _, _, u, _) \<Rightarrow> max u until_ts)"

definition purge_record_ok :: "ext \<Rightarrow> store \<Rightarrow> string \<Rightarrow> bool" where
  "purge_record_ok X s gid \<longleftrightarrow>
     (\<forall>raw. tget (purge_pending s) (purged_group_key X gid) = Some raw \<longrightarrow> decode_pending_purge raw \<noteq> None)"

lemma begin_purge_ok:
  assumes "begin_purge X s gid now until_ts = Inr (s1, pnow, c, cid, u)"
  shows "index_view s1 = index_view s" "cancel_in s1 = cancel_in s" "low_space s1 = low_space s" "u = purge_bound X s gid until_ts" "now \<le> c" "now \<le> pnow"
    "\<exists>g. fixed s1 = fixed (s\<lparr>purged_groups := g\<rparr>)" "deleted s1 = deleted s"
  using assms by (auto simp: begin_purge_def purge_bound_def Let_def index_view_def fixed_def bind_eq_Some_conv
      split: prod.splits option.splits sum.splits)

lemma begin_purge_total: "purge_record_ok X s gid \<longleftrightarrow> \<not> isl (begin_purge X s gid now until_ts)"
  by (auto simp: begin_purge_def purge_record_ok_def Let_def split: prod.split option.split)

lemma purge_removed:
  assumes inv: "store_inv_but X U V s" "sorted_tables s" and r: "purge_group_until X U s gid now until_ts = (s', res)"
  shows "walk_inv X U V (group_history gid (purge_bound X s gid until_ts)) s s'
    \<and> (\<exists>g. fixed s' = fixed (s\<lparr>purged_groups := g\<rparr>))
    \<and> (cancel_in s = None \<and> \<not> low_space s \<and> purge_record_ok X s gid \<longrightarrow> \<not> isl res)
    \<and> (\<not> isl res \<longrightarrow> (\<forall>i e. (i, e) \<in> abs_events X s' \<longrightarrow> \<not> group_history gid (purge_bound X s gid until_ts) i e)
         \<and> (\<exists>n c d. tget (purged_groups s') (purged_group_key X gid) = Some (encode_purged_group_marker n c d) \<and> now \<le> n
              \<and> now \<le> c \<and> (\<forall>i e. (i, e) \<in> abs_events X s \<longrightarrow> (i, e) \<in> abs_events X s' \<or> created_at e \<le> c)))"
proof (cases "low_space s \<or> isl (begin_purge X s gid now until_ts)")
  case True
  then have "s' = s" "isl res" "\<not> (\<not> low_space s \<and> purge_record_ok X s gid)"
    using r begin_purge_total [of X s gid now until_ts]
    by (auto simp: purge_group_until_def split: sum.splits if_splits)
  moreover have "fixed s = fixed (s\<lparr>purged_groups := purged_groups s\<rparr>)" by simp
  ultimately show ?thesis using walk_inv_start [OF inv] by blast
next
  case False
  then obtain s1 pnow c cid u where b: "begin_purge X s gid now until_ts = Inr (s1, pnow, c, cid, u)"
    by (metis isl_def prod_cases5 sum.exhaust_sel)
  note k = begin_purge_ok [OF b]
  have i1: "walk_inv X U V (group_history gid u) s s1" by (rule walk_inv_view [OF walk_inv_start [OF inv] k(1)])
  note f1 = walk_inv_facts [OF i1]
  have ab1: "abs_events X s1 = abs_events X s" by (rule abs_events_view [OF index_view_fields(1) [OF k(1)]])
  let ?p = "\<lparr>pg_removed = 0, pg_max_created = 0, pg_create_id = cid, pg_cut = c\<rparr>"
  obtain s2 p2 fin where w: "purge_phases X U gid pnow u (phases_of gid u) (s1, ?p) = ((s2, p2), fin)" by (metis surj_pair)
  note ph = purge_phases_removed [OF f1(1,2) w]
  have log: "logged X (s1, ?p) (s2, p2)" using logged_phases [of X "(s1, ?p)" U gid pnow u "phases_of gid u"] w by simp
  have J: "walk_inv X U V (group_history gid u) s s2" using ph ab1 by (simp add: walk_inv_def)
  obtain g where g: "fixed s1 = fixed (s\<lparr>purged_groups := g\<rparr>)" using k(7) by blast
  show ?thesis
  proof (cases fin)
    case False
    then have "s' = s2" "isl res" using r b w \<open>\<not> (low_space s \<or> _)\<close> by (auto simp: purge_group_until_def)
    then show ?thesis using J ph k(2,4) False g by auto
  next
    case True
    have s': "s' = complete_purge X gid pnow (s2, p2)" "\<not> isl res" using r b w True \<open>\<not> (low_space s \<or> _)\<close> by (auto simp: purge_group_until_def)
    obtain on oc od where m: "purge_marker X s2 gid = (on, oc, od)" by (metis prod_cases3)
    have v: "index_view s' = index_view s2" by (simp add: s' complete_purge_def m Let_def)
    have ab: "abs_events X s' = abs_events X s2" by (rule abs_events_view [OF index_view_fields(1) [OF v]])
    have "\<exists>g. fixed s' = fixed (s2\<lparr>purged_groups := g\<rparr>)" by (simp add: s' complete_purge_def m Let_def) (metis fixed_marks(9))
    then have fx: "\<exists>g. fixed s' = fixed (s\<lparr>purged_groups := g\<rparr>)" using ph g by (auto simp: fixed_def)
    have "\<exists>d. tget (purged_groups s') (purged_group_key X gid) =
        Some (encode_purged_group_marker (max pnow on) (max (max (pg_cut p2) oc) (pg_max_created p2)) d)"
      by (simp add: s' complete_purge_def m Let_def bump_state_seq_def bump_state_stamp_def bump_meta_counter_def lmdb.get_put) blast
    moreover have "now \<le> max (max (pg_cut p2) oc) (pg_max_created p2)" "now \<le> max pnow on"
      using log k(5,6) by (auto simp: logged_def le_max_iff_disj)
    moreover have "(i, e) \<in> abs_events X s' \<or> created_at e \<le> max (max (pg_cut p2) oc) (pg_max_created p2)"
      if "(i, e) \<in> abs_events X s" for i e using log that ab ab1 by (auto simp: logged_def le_max_iff_disj)
    ultimately show ?thesis using walk_inv_view [OF J v] fx s'(2) ph True ab k(4) by (intro conjI impI) (simp_all, blast+)
  qed
qed

section \<open>Purged events stay out\<close>

lemma purged_tags_block_exists:
  assumes "t \<in> set ts" and "2 \<le> length t" and "t ! 0 = ''h'' \<or> is_meta \<and> t ! 0 = ''d''"
    and "tget (purged_groups s) (purged_group_key X (t ! 1)) = Some raw" and "decode_purged_group_marker raw = (n, c, d)"
    and "if kind e = 9007 then created_at e < n else if is_meta then created_at e < n else created_at e \<le> c"
  shows "purged_tags_block X s e is_meta ts"
  using assms(1)
proof (induction ts)
  case (Cons u us)
  show ?case
  proof (cases "t = u")
    case True
    then show ?thesis using assms(2-6) by (auto simp: Let_def split: if_splits)
  next
    case False
    then have "purged_tags_block X s e is_meta us" using Cons by simp
    then show ?thesis by (cases is_meta) (auto simp: Let_def split: option.split prod.split)
  qed
qed simp

lemma decode_marker_times:
  "\<exists>d'. decode_purged_group_marker (encode_purged_group_marker n c d) = (n, c, d')"
  by (auto simp: decode_purged_group_marker_def encode_purged_group_marker_def Let_def get_slice_def zero_id_def split: option.split)

lemma purged_blocks:
  assumes m: "tget (purged_groups s) (purged_group_key X gid) = Some (encode_purged_group_marker n c d)"
    and g: "group_history gid u i e" and late: "kind e = CREATE_GROUP \<or> is_group_meta (kind e) \<longrightarrow> created_at e < n" and c: "created_at e \<le> c"
  shows "purged_groups_blocks X s e"
proof -
  define is_meta where "is_meta \<longleftrightarrow> 39000 \<le> kind e \<and> kind e \<le> 39005"
  have meta: "is_group_meta (kind e) = is_meta" by (simp add: is_group_meta_def is_meta_def GROUP_META_def GROUP_PINS_def)
  obtain t where t: "t \<in> set (tags e)" "2 \<le> length t" "t ! 0 = ''h'' \<or> is_meta \<and> t ! 0 = ''d''" "t ! 1 = gid"
    using g meta by (auto simp: group_history_def names_group_def)
  obtain d' where d: "decode_purged_group_marker (encode_purged_group_marker n c d) = (n, c, d')" using decode_marker_times by blast
  have "purged_tags_block X s e is_meta (tags e)"
    by (rule purged_tags_block_exists [OF t(1-3) m [folded t(4)] d]) (use late c meta in \<open>auto simp: CREATE_GROUP_def\<close>)
  moreover have "purged_groups s \<noteq> []" using m by auto
  ultimately show ?thesis using t(1-3) by (auto simp: purged_groups_blocks_def is_meta_def Let_def)
qed

lemma purged_refused:
  assumes "purged_groups_blocks X s e"
  shows "\<exists>out. put_event_in X U s e now = (s, out) \<and> (out = PreviouslyDeleted \<or> (\<exists>m. out = Invalid m))"
proof (cases "id_bytes X e = None \<or> pubkey_bytes X e = None")
  case True
  then show ?thesis by (auto simp: put_event_in_def split: option.split)
next
  case False
  then obtain i pk where ip: "id_bytes X e = Some i" "pubkey_bytes X e = Some pk" by auto
  have "\<exists>out. put_refusal X s e now i pk = Some out \<and> (out = PreviouslyDeleted \<or> (\<exists>m. out = Invalid m))"
    using assms by (auto simp: put_refusal_def)
  then show ?thesis using ip by (auto simp: put_event_in_def)
qed

end
