(* ===== verification/Writer.thy ===== *)
theory Writer
  imports PurgeOps
begin

text \<open>
  The writer thread as a transition system: every operation it performs on the store is one step, and
  every store it can reach is consistent, also when a walk was interrupted and resumed later.
\<close>

section \<open>Puts and the author index\<close>

lemma feed_fields:
  "banned (s\<lparr>by_pubkey := t\<rparr>) = banned s" "deleted (s\<lparr>by_pubkey := t\<rparr>) = deleted s" "purged_groups (s\<lparr>by_pubkey := t\<rparr>) = purged_groups s"
  "expiry_enabled (s\<lparr>by_pubkey := t\<rparr>) = expiry_enabled s" "vanished_or_pending (s\<lparr>by_pubkey := t\<rparr>) pk = vanished_or_pending s pk"
  by (simp_all add: vanished_or_pending_def)

lemma purged_tags_block_feed: "purged_tags_block X (s\<lparr>by_pubkey := t\<rparr>) e m ts = purged_tags_block X s e m ts"
  by (induction ts) (simp_all only: purged_tags_block.simps feed_fields)

lemma put_refusal_feed: "put_refusal X (s\<lparr>by_pubkey := t\<rparr>) e now i pk = put_refusal X s e now i pk"
  by (simp only: put_refusal_def purged_groups_blocks_def feed_fields purged_tags_block_feed)

lemma write_event_feed:
  "write_event X U (s\<lparr>by_pubkey := t\<rparr>) e i pk = (write_event X U s e i pk)\<lparr>by_pubkey := puts (author_keys X e i pk) t\<rparr>"
  "by_pubkey (write_event X U s e i pk) = puts (author_keys X e i pk) (by_pubkey s)"
  by (simp_all add: write_event_def Let_def put_indexes_def bump_state_seq_def bump_meta_counter_def split: option.split)

text \<open>What a put does to the author index does not depend on it: some keys out, then some in.\<close>

definition feed_change :: "(table \<Rightarrow> table) \<Rightarrow> bool" where
  "feed_change F \<longleftrightarrow> (\<exists>ins outs. F = (\<lambda>t. puts ins (dels outs t)))"

lemma feed_change_dels: "feed_change (dels ks)"
  unfolding feed_change_def by (rule exI [of _ "[]"], rule exI [of _ ks]) (simp add: puts_def)

lemma feed_change_puts: "feed_change F \<Longrightarrow> feed_change (\<lambda>t. puts ks (F t))"
  unfolding feed_change_def
proof (elim exE)
  fix ins outs assume F: "F = (\<lambda>t. puts ins (dels outs t))"
  have "(\<lambda>t. puts ks (F t)) = (\<lambda>t. puts (ins @ ks) (dels outs t))" by (simp add: F puts_def)
  then show "\<exists>ins outs. (\<lambda>t. puts ks (F t)) = (\<lambda>t. puts ins (dels outs t))" by blast
qed

lemma feed_change_id: "feed_change (\<lambda>t. t)"
  unfolding feed_change_def by (rule exI [of _ "[]"], rule exI [of _ "[]"]) (simp add: puts_def dels_def)

lemma claim_slot_feed:
  assumes inv: "store_inv_but X U V s" and pk: "length pk = 32" and r: "claim_slot X U s e i pk = Inr (s1, out)"
  shows "\<exists>F. feed_change F \<and> by_pubkey s1 = F (by_pubkey s) \<and>
    (\<forall>t. claim_slot X U (s\<lparr>by_pubkey := t\<rparr>) e i pk = Inr (s1\<lparr>by_pubkey := F t\<rparr>, out))"
proof (cases "tget (replaceable s) (slot_key X e pk)")
  case None
  then show ?thesis using r feed_change_id
    by (intro exI [of _ "\<lambda>t. t"]) (auto simp: claim_slot_def Let_def split: if_splits)
next
  case (Some old)
  have ok: "events_ok X s" by (rule store_inv_but_ok [OF inv])
  obtain j f where jf: "(j, f) \<in> abs_events X s" "old = be64 (created_at f) @ j"
    using but_exact(5) [OF inv] Some by (auto simp: slots_exact_def in_slot_def)
  have len: "length j = 32" using abs_ok(1) [OF ok jf(1)] id_bytes_length by blast
  note rf = remove_event_feed [OF ok jf(1), of U]
  let ?F = "dels (author_keys X f j (author_of X f))"
  have s1: "s1 = (remove_event X U s j)\<lparr>replaceable := tput (slot_key X e pk) (be64 (created_at e) @ i) (replaceable (remove_event X U s j))\<rparr>"
      "claim_slot X U (s\<lparr>by_pubkey := t\<rparr>) e i pk = Inr (s1\<lparr>by_pubkey := ?F t\<rparr>, out)" for t
    using r Some jf(2) len rf(1) [of t] by (auto simp: claim_slot_def Let_def len_defs split: if_splits)
  have "by_pubkey s1 = ?F (by_pubkey s)" by (simp add: s1(1) rf(2))
  then show ?thesis using feed_change_dels s1(2) by blast
qed

lemma put_feed:
  assumes inv: "store_inv_but X U V s" and r: "put_event_in X U s e now = (s', out)"
  shows "\<exists>F. feed_change F \<and> by_pubkey s' = F (by_pubkey s) \<and>
    (\<forall>t. put_event_in X U (s\<lparr>by_pubkey := t\<rparr>) e now = (s'\<lparr>by_pubkey := F t\<rparr>, out))"
proof (cases "\<exists>i pk. id_bytes X e = Some i \<and> pubkey_bytes X e = Some pk \<and> put_refusal X s e now i pk = None")
  case False
  then show ?thesis using r feed_change_id
    by (intro exI [of _ "\<lambda>t. t"]) (auto simp: put_event_in_def put_refusal_feed split: option.splits)
next
  case True
  then obtain i pk where ip: "id_bytes X e = Some i" "pubkey_bytes X e = Some pk" "put_refusal X s e now i pk = None" by blast
  have pl: "length pk = 32" using ip(2) pubkey_bytes_length by blast
  show ?thesis
  proof (cases "is_replaceable e")
    case rep: True
    show ?thesis
    proof (cases "claim_slot X U s e i pk")
      case (Inl o')
      have "claim_slot X U (s\<lparr>by_pubkey := t\<rparr>) e i pk = Inl o'" for t
        using Inl by (auto simp: claim_slot_def Let_def split: option.splits if_splits)
      then show ?thesis using r ip rep Inl feed_change_id
        by (intro exI [of _ "\<lambda>t. t"]) (auto simp: put_event_in_def put_refusal_feed)
    next
      case (Inr q)
      then obtain s1 o' where c: "claim_slot X U s e i pk = Inr (s1, o')" by (cases q) simp
      obtain F where F: "feed_change F" "by_pubkey s1 = F (by_pubkey s)"
        "\<And>t. claim_slot X U (s\<lparr>by_pubkey := t\<rparr>) e i pk = Inr (s1\<lparr>by_pubkey := F t\<rparr>, o')"
        using claim_slot_feed [OF inv pl c] by blast
      have "s' = write_event X U s1 e i pk" "out = o'" using r ip rep c by (simp_all add: put_event_in_def)
      then show ?thesis using F feed_change_puts [OF F(1)] ip rep
        by (intro exI [of _ "\<lambda>t. puts (author_keys X e i pk) (F t)"]) (simp add: put_event_in_def put_refusal_feed write_event_feed)
    qed
  next
    case rep: False
    show ?thesis
    proof (cases "tget (events s) i = None")
      case True
      have "feed_change (puts (author_keys X e i pk))" using feed_change_puts [OF feed_change_id] by simp
      moreover have "s' = write_event X U s e i pk" "out = Stored" using r ip rep True by (simp_all add: put_event_in_def)
      ultimately show ?thesis using ip rep True
        by (intro exI [of _ "puts (author_keys X e i pk)"]) (simp add: put_event_in_def put_refusal_feed write_event_feed)
    next
      case False
      then show ?thesis using r ip rep feed_change_id
        by (intro exI [of _ "\<lambda>t. t"]) (auto simp: put_event_in_def put_refusal_feed)
    qed
  qed
qed

lemma feed_change_get:
  assumes "feed_change F" and "tget a k = tget b k"
  shows "tget (F a) k = tget (F b) k"
  using assms by (auto simp: feed_change_def puts_def dels_def lmdb.get_puts lmdb.get_dels)

lemma feed_change_gap:
  assumes "feed_change F" and "tget a k = None"
  shows "tget (F a) k = None \<or> (\<forall>b. tget (F a) k = tget (F b) k)"
  using assms by (auto simp: feed_change_def puts_def dels_def lmdb.get_puts lmdb.get_dels split: if_splits)

lemma put_but:
  assumes js: "json_ok X" and inv: "store_inv_but X U V s" and com: "ids_commit X s e"
    and r: "put_event_in X U s e now = (s', out)" and new: "out = Stored \<or> out = Replaced \<longrightarrow> author_of X e \<notin> V"
  shows "store_inv_but X U V s'
    \<and> (s' = s \<or> (\<exists>i. id_bytes X e = Some i \<and> (i, e) \<in> abs_events X s' \<and> abs_events X s' \<subseteq> insert (i, e) (abs_events X s)))"
proof -
  obtain t where t: "store_inv X U (s\<lparr>by_pubkey := t\<rparr>)"
    "\<forall>k. tget (by_pubkey s) k = tget t k \<or> tget (by_pubkey s) k = None \<and> feed_gap X V (abs_events X s) k"
    using inv by (auto simp: store_inv_but_def)
  obtain F where F: "feed_change F" "by_pubkey s' = F (by_pubkey s)"
    "put_event_in X U (s\<lparr>by_pubkey := t\<rparr>) e now = (s'\<lparr>by_pubkey := F t\<rparr>, out)"
    using put_feed [OF inv r] by blast
  have com': "ids_commit X (s\<lparr>by_pubkey := t\<rparr>) e" using com by (simp add: ids_commit_def)
  note p = put_event_in_refines [OF js t(1) com' F(3)]
  show ?thesis
  proof (cases "out = Stored \<or> out = Replaced")
    case False
    from r have "s' = s" using False by (cases rule: put_event_in_cases) (auto dest: claim_slot_outcome simp: claim_slot_def Let_def split: option.splits if_splits)
    then show ?thesis using inv by simp
  next
    case True
    then obtain i where i: "id_bytes X e = Some i" "(i, e) \<in> abs_events X s'" "abs_events X s' \<subseteq> insert (i, e) (abs_events X s)"
      using p by auto
    have gap: "feed_gap X V (abs_events X s') k" if "feed_gap X V (abs_events X s) k" for k
      using that new True i(3) unfolding feed_gap_def by blast
    have "tget (by_pubkey s') k = tget (F t) k \<or> tget (by_pubkey s') k = None \<and> feed_gap X V (abs_events X s') k" for k
      using t(2) gap feed_change_get [OF F(1)] feed_change_gap [OF F(1)] unfolding F(2) by metis
    moreover have "store_inv X U (s'\<lparr>by_pubkey := F t\<rparr>)" using p by blast
    ultimately have "store_inv_but X U V s'" unfolding store_inv_but_def by blast
    then show ?thesis using i by blast
  qed
qed

section \<open>Consistent stores\<close>

definition gone :: "store \<Rightarrow> bytes set" where
  "gone s = {pk. vanished_or_pending s pk}"

definition erased :: "ext \<Rightarrow> store \<Rightarrow> bool" where
  "erased X s \<longleftrightarrow> (\<forall>pk c i e. vanished_until s pk = Some c \<longrightarrow> length pk = 32 \<longrightarrow> (i, e) \<in> abs_events X s \<longrightarrow>
     \<not> authored X pk c i e \<and> \<not> wrap_to X pk c i e)"

definition consistent :: "ext \<Rightarrow> unicode \<Rightarrow> store \<Rightarrow> bool" where
  "consistent X U s \<longleftrightarrow> store_inv_but X U (gone s) s \<and> sorted_tables s \<and> erased X s
     \<and> (\<forall>pk \<in> fst ` set (vanish_pending s). length pk = 32)"

definition idents :: "store \<Rightarrow> table \<times> table" where
  "idents s = (vanish s, vanish_pending s)"

lemma gone_eq: "gone s = {pk. tget (vanish s) pk \<noteq> None \<or> tget (vanish_pending s) pk \<noteq> None}"
  by (auto simp: gone_def vanished_or_pending_def)

lemma gone_idents: "idents s' = idents s \<Longrightarrow> gone s' = gone s"
  by (simp add: gone_eq idents_def)

lemma fixed_idents: "fixed s' = fixed s \<Longrightarrow> idents s' = idents s"
  by (simp add: fixed_def idents_def)

lemma idents_marks [simp]:
  "idents (s\<lparr>deleted := d\<rparr>) = idents s" "idents (s\<lparr>delete_pending := p\<rparr>) = idents s" "idents (s\<lparr>banned := b\<rparr>) = idents s"
  "idents (s\<lparr>allowed := a\<rparr>) = idents s" "idents (s\<lparr>first_seen := f\<rparr>) = idents s" "idents (s\<lparr>purged_groups := g\<rparr>) = idents s"
  "idents (s\<lparr>cancel_in := c\<rparr>) = idents s" "idents (s\<lparr>low_space := l\<rparr>) = idents s" "idents (polled s) = idents s"
  "idents (extend_absent_deletion_marker i pk s) = idents s"
  by (simp_all add: idents_def polled_def extend_absent_deletion_marker_def split: option.split)

lemma consistentD:
  assumes "consistent X U s"
  shows "store_inv_but X U (gone s) s" "sorted_tables s" "erased X s" "events_ok X s"
  using assms store_inv_but_ok by (auto simp: consistent_def)

lemma consistent_walk:
  assumes c: "consistent X U s" and w: "walk_inv X U (gone s) P s s'" and i: "idents s' = idents s"
  shows "consistent X U s'"
proof -
  have "erased X s'" using consistentD(3) [OF c] w i by (auto simp: erased_def vanished_until_def idents_def walk_inv_def)
  then show ?thesis using c w i gone_idents [OF i] by (simp add: consistent_def walk_inv_def idents_def)
qed

lemma consistent_view: "consistent X U s \<Longrightarrow> index_view s' = index_view s \<Longrightarrow> idents s' = idents s \<Longrightarrow> consistent X U s'"
  using consistent_walk [of X U s "\<lambda>_ _. False"] walk_inv_view [OF walk_inv_start] consistentD by blast

lemma consistent_start: "consistent X U (empty_store words meta meta_on expiry_on n)"
  by (simp add: consistent_def store_inv_but_exact [OF store_inv_empty])
    (simp add: empty_store_def sorted_tables_def table_ok_def erased_def vanished_until_def stored_until_def)

section \<open>Puts\<close>

lemma sorted_write: "sorted_tables s \<Longrightarrow> sorted_tables (write_event X U s e i pk)"
  by (auto simp: sorted_tables_def write_event_def Let_def put_indexes_def bump_unchanged tput_sorted_puts split: option.split)

lemma claim_slot_shape:
  assumes "claim_slot X U s e i pk = Inr (s1, out)"
  shows "\<exists>t j. s1 = s\<lparr>replaceable := t\<rparr> \<or> s1 = (remove_event X U s j)\<lparr>replaceable := t\<rparr>"
  using assms by (auto simp: claim_slot_def Let_def split: option.splits if_splits)

lemma sorted_put:
  assumes srt: "sorted_tables s" and r: "put_event_in X U s e now = (s', out)"
  shows "sorted_tables s'"
  using r
proof (cases rule: put_event_in_cases)
  case (slot i pk s1)
  obtain t j where "s1 = s\<lparr>replaceable := t\<rparr> \<or> s1 = (remove_event X U s j)\<lparr>replaceable := t\<rparr>"
    using claim_slot_shape [OF slot(5)] by blast
  moreover have "sorted_tables (remove_event X U s j)" for j by (rule sorted_shrunk [OF srt remove_event_shrinks])
  ultimately have "sorted_tables s1" using srt by (auto simp: sorted_tables_def)
  then show ?thesis using slot(6) sorted_write by simp
next
  case (plain i pk)
  then show ?thesis using srt sorted_write by simp
qed (use srt in simp_all)

lemma idents_remove [simp]: "idents (remove_event X U s i) = idents s"
  by (rule fixed_idents) simp

lemma idents_write [simp]: "idents (write_event X U s e i pk) = idents s"
  by (auto simp: idents_def write_event_def Let_def put_indexes_def bump_state_seq_def bump_meta_counter_def split: option.split)

lemma idents_put:
  assumes "put_event_in X U s e now = (s', out)"
  shows "idents s' = idents s \<and> deleted s' = deleted s"
  using assms
proof (cases rule: put_event_in_cases)
  case (slot i pk s1)
  have d: "deleted (write_event X U u e i pk) = deleted u" for u
    by (auto simp: write_event_def Let_def put_indexes_def split: option.split)
  obtain t j where "s1 = s\<lparr>replaceable := t\<rparr> \<or> s1 = (remove_event X U s j)\<lparr>replaceable := t\<rparr>"
    using claim_slot_shape [OF slot(5)] by blast
  moreover have "idents (u\<lparr>replaceable := t\<rparr>) = idents u" "deleted (u\<lparr>replaceable := t\<rparr>) = deleted u" for u t by (simp_all add: idents_def)
  ultimately have "idents s1 = idents s \<and> deleted s1 = deleted s" using idents_remove deleted_remove by metis
  then show ?thesis using slot(6) d by simp
next
  case (plain i pk)
  then show ?thesis by (auto simp: write_event_def Let_def put_indexes_def idents_def bump_state_seq_def bump_meta_counter_def split: option.split)
qed simp_all

text \<open>Nothing of a vanished identity, and no wrap to one, passes the admission checks.\<close>

lemma admitted_not_gone:
  assumes "put_event_in X U s e now = (s', out)" and "out = Stored \<or> out = Replaced"
  shows "pubkey_bytes X e \<noteq> None" "author_of X e \<notin> gone s" "set (gift_wrap_recipients X e) \<inter> gone s = {}"
proof -
  obtain i pk where ip: "id_bytes X e = Some i" "pubkey_bytes X e = Some pk" "put_refusal X s e now i pk = None"
    using assms by (cases rule: put_event_in_cases) auto
  then have "\<not> (vanished_or_pending s pk \<or> (\<exists>d. delegator_bytes X e = Some d \<and> vanished_or_pending s d)
      \<or> (kind e = GIFT_WRAP_KIND \<or> kind e = EPHEMERAL_GIFT_WRAP_KIND) \<and>
        (\<exists>t \<in> set (tags e). 2 \<le> length t \<and> t ! 0 = ''p'' \<and>
           (\<exists>r. decode_array X ID_LEN (t ! 1) = Some r \<and> vanished_or_pending s r)))"
    using vanish_refusal [of s pk X e now i] by fastforce
  then show "pubkey_bytes X e \<noteq> None" "author_of X e \<notin> gone s" "set (gift_wrap_recipients X e) \<inter> gone s = {}"
    using ip(2) by (auto simp: author_of_def gone_def gift_wrap_recipients_def List.map_filter_def split: if_splits)
qed

lemma consistent_put:
  assumes js: "json_ok X" and c: "consistent X U s" and com: "ids_commit X s e"
  shows "consistent X U (fst (put_event_in X U s e now))"
proof -
  obtain s' out where r: "put_event_in X U s e now = (s', out)" by fastforce
  note cd = consistentD [OF c]
  have id: "idents s' = idents s" using idents_put [OF r] by blast
  have b: "store_inv_but X U (gone s) s'"
      "s' = s \<or> (\<exists>i. id_bytes X e = Some i \<and> (i, e) \<in> abs_events X s' \<and> abs_events X s' \<subseteq> insert (i, e) (abs_events X s))"
    using put_but [OF js cd(1) com r] admitted_not_gone(2) [OF r] by blast+
  have "erased X s'"
  proof (cases "out = Stored \<or> out = Replaced")
    case False
    from r have "s' = s" using False
      by (cases rule: put_event_in_cases) (auto dest: claim_slot_outcome simp: claim_slot_def Let_def split: option.splits if_splits)
    then show ?thesis using cd(3) by simp
  next
    case True
    note n = admitted_not_gone [OF r True]
    have "\<not> authored X pk c' i e \<and> \<not> wrap_to X pk c' i e" if "vanished_until s pk = Some c'" for pk c' i
    proof -
      have "pk \<in> gone s" using that by (auto simp: gone_eq vanished_until_def stored_until_def)
      then show ?thesis using n by (auto simp: authored_def author_of_def wrap_to_def)
    qed
    moreover have "vanished_until s' = vanished_until s" using id by (auto simp: vanished_until_def idents_def)
    ultimately show ?thesis using cd(3) b(2) unfolding erased_def by auto
  qed
  then show ?thesis using b(1) sorted_put [OF cd(2) r] c id gone_idents [OF id] by (simp add: r consistent_def idents_def)
qed

section \<open>Vanish requests\<close>

lemma stored_until_tput: "stored_until (tput pk (be64 c) t) pk' = (if pk' = pk then Some c else stored_until t pk')"
  by (simp add: stored_until_def lmdb.get_put get_slice_def)

lemma finish_vanish_ok:
  fixes until_ts :: u64
  assumes hc: "hex_codec (hex_encode X) (hex_decode X)" and c: "consistent X U s" and pk: "length pk = 32" "pk \<in> gone s"
  defines "s' \<equiv> fst (finish_vanish X U s pk until_ts)"
  shows "consistent X U s'" "gone s' = gone s"
proof -
  obtain res where r: "finish_vanish X U s pk until_ts = (s', res)" by (metis s'_def prod.collapse)
  note v = vanish_removed [OF consistentD(1,2) [OF c] hc pk r]
  have w: "walk_inv X U (gone s) (\<lambda>i e. authored X pk until_ts i e \<or> wrap_to X pk until_ts i e) s s'" using v by blast
  have "consistent X U s' \<and> gone s' = gone s"
  proof (cases "isl res")
    case True
    then have "idents s' = idents s" using v fixed_idents by blast
    then show ?thesis using consistent_walk [OF c w] gone_idents by blast
  next
    case False
    let ?cov = "case vanished_until s pk of None \<Rightarrow> 0 | Some u \<Rightarrow> u"
    have f: "vanish s' = tput pk (be64 (max ?cov until_ts)) (vanish s)" "vanish_pending s' = tdel pk (vanish_pending s)"
      using v False by (auto simp: fixed_def)
    have g: "gone s' = gone s" using pk(2) by (auto simp: gone_eq f lmdb.get_put lmdb.get_del)
    have sub: "abs_events X s' \<subseteq> abs_events X s" using w by (simp add: walk_inv_def)
    have "\<not> authored X pk' c' i e \<and> \<not> wrap_to X pk' c' i e"
      if h: "vanished_until s' pk' = Some c'" "length pk' = 32" "(i, e) \<in> abs_events X s'" for pk' c' i e
    proof (cases "pk' = pk")
      case True
      then have c': "c' = max ?cov until_ts" using h(1) by (simp add: vanished_until_def f stored_until_tput)
      have new: "\<not> authored X pk until_ts i e \<and> \<not> wrap_to X pk until_ts i e" using v False h(3) by blast
      moreover have "\<not> authored X pk u i e \<and> \<not> wrap_to X pk u i e" if "vanished_until s pk = Some u" for u
        using consistentD(3) [OF c] that pk(1) h(3) sub by (auto simp: erased_def)
      ultimately show ?thesis using True c' by (auto simp: authored_def wrap_to_def le_max_iff_disj split: option.splits)
    next
      case False
      then have "vanished_until s pk' = Some c'" using h(1) by (simp add: vanished_until_def f stored_until_tput)
      then show ?thesis using consistentD(3) [OF c] h(2,3) sub by (auto simp: erased_def)
    qed
    then have "erased X s'" unfolding erased_def by blast
    moreover have "\<forall>pk \<in> fst ` set (vanish_pending s'). length pk = 32"
      using c by (auto simp: consistent_def f(2) tdel_def)
    ultimately show ?thesis using w g by (simp add: consistent_def walk_inv_def)
  qed
  then show "consistent X U s'" "gone s' = gone s" by blast+
qed

definition vanish_grows :: "store \<Rightarrow> store \<Rightarrow> bool" where
  "vanish_grows s s' \<longleftrightarrow> (\<forall>pk c. vanished_until s pk = Some c \<longrightarrow> (\<exists>c'. vanished_until s' pk = Some c' \<and> c \<le> c'))"

lemma vanish_grows_refl [simp]: "vanish_grows s s"
  by (simp add: vanish_grows_def)

lemma vanish_grows_trans: "vanish_grows a b \<Longrightarrow> vanish_grows b c \<Longrightarrow> vanish_grows a c"
  unfolding vanish_grows_def by (meson order_trans)

lemma vanish_grows_eq: "vanish s' = vanish s \<Longrightarrow> vanish_grows s s'"
  by (simp add: vanish_grows_def vanished_until_def)

lemma finish_vanish_grows:
  assumes hc: "hex_codec (hex_encode X) (hex_decode X)" and c: "consistent X U s" and pk: "length pk = 32" "pk \<in> gone s"
  shows "vanish_grows s (fst (finish_vanish X U s pk u))"
proof -
  obtain s' res where r: "finish_vanish X U s pk u = (s', res)" by fastforce
  note v = vanish_removed [OF consistentD(1,2) [OF c] hc pk r]
  show ?thesis
  proof (cases "isl res")
    case True
    then have "fixed s' = fixed s" using v by blast
    then show ?thesis using r fixed_fields(1) by (auto intro: vanish_grows_eq)
  next
    case False
    then have "vanish s' = tput pk (be64 (max (case vanished_until s pk of None \<Rightarrow> 0 | Some u \<Rightarrow> u) u)) (vanish s)"
      using v by (auto simp: fixed_def)
    then show ?thesis using r by (auto simp: vanish_grows_def vanished_until_def stored_until_tput)
  qed
qed

lemma tput_keys: "fst ` set (tput k v t) \<subseteq> insert k (fst ` set t)"
proof
  fix a assume "a \<in> fst ` set (tput k v t)"
  then have "tget (tput k v t) a \<noteq> None" by (simp only: in_table)
  then show "a \<in> insert k (fst ` set t)" using in_table [of t a] by (auto simp: lmdb.get_put split: if_splits)
qed

lemma record_vanish_ok:
  assumes c: "consistent X U s" and pk: "length pk = 32" and r: "record_pending_vanish s pk u = (s', Inr u')"
  shows "consistent X U s'" "pk \<in> gone s'"
proof -
  have s': "s' = s\<lparr>vanish_pending := tput pk (be64 u') (vanish_pending s)\<rparr>"
    using r by (auto simp: record_pending_vanish_def Let_def split: if_splits)
  have sub: "gone s \<subseteq> gone s'" by (auto simp: gone_eq s' lmdb.get_put)
  show "pk \<in> gone s'" by (simp add: gone_eq s' lmdb.get_put)
  have "store_inv_but X U (gone s') s'"
    by (rule store_inv_but_mono [OF store_inv_but_view [OF consistentD(1) [OF c]] sub]) (simp add: s')
  moreover have "sorted_tables s'" using consistentD(2) [OF c] by (simp add: s' sorted_tables_def)
  moreover have "erased X s'" using consistentD(3) [OF c] by (simp add: s' erased_def vanished_until_def abs_events_def)
  moreover have "fst ` set (vanish_pending s') \<subseteq> insert pk (fst ` set (vanish_pending s))" using tput_keys by (simp add: s')
  then have "\<forall>pk \<in> fst ` set (vanish_pending s'). length pk = 32" using c pk unfolding consistent_def by blast
  ultimately show "consistent X U s'" by (simp add: consistent_def)
qed

lemma consistent_vanish:
  assumes hc: "hex_codec (hex_encode X) (hex_decode X)" and c: "consistent X U s" and pk: "length pk = 32"
  shows "consistent X U (fst (apply_vanish X U s pk u))" "vanish_grows s (fst (apply_vanish X U s pk u))"
proof -
  obtain s1 r where rec: "record_pending_vanish s pk u = (s1, r)" by fastforce
  have l: "s1 = s" if "isl r" using rec that by (auto simp: record_pending_vanish_def Let_def split: if_splits)
  have "consistent X U (fst (apply_vanish X U s pk u)) \<and> vanish_grows s (fst (apply_vanish X U s pk u))"
  proof (cases r)
    case (Inl er)
    then show ?thesis using c rec l by (auto simp: apply_vanish_def)
  next
    case (Inr u')
    note ok = record_vanish_ok [OF c pk rec [unfolded Inr]]
    have "vanish s1 = vanish s" using rec by (auto simp: record_pending_vanish_def Let_def split: if_splits)
    then have "vanish_grows s (fst (finish_vanish X U s1 pk u'))"
      using vanish_grows_trans [OF vanish_grows_eq finish_vanish_grows [OF hc ok(1) pk ok(2)]] by blast
    then show ?thesis using finish_vanish_ok(1) [OF hc ok(1) pk ok(2), of u'] c rec Inr by (auto simp: apply_vanish_def)
  qed
  then show "consistent X U (fst (apply_vanish X U s pk u))" "vanish_grows s (fst (apply_vanish X U s pk u))" by blast+
qed

lemma pending_vanish_keys:
  assumes c: "consistent X U s"
  shows "\<forall>r \<in> set (pending_vanishes s). length (fst r) = 32 \<and> fst r \<in> gone s"
proof
  fix r assume "r \<in> set (pending_vanishes s)"
  then have m: "fst r \<in> fst ` set (vanish_pending s)" by (auto simp: pending_vanishes_def List.map_filter_def image_iff) force
  then show "length (fst r) = 32 \<and> fst r \<in> gone s" using c in_table [of "vanish_pending s" "fst r"] by (auto simp: consistent_def gone_eq)
qed

lemma consistent_resume_vanish:
  assumes hc: "hex_codec (hex_encode X) (hex_decode X)" and c: "consistent X U s"
  shows "consistent X U (fst (resume_pending_vanishes X U s)) \<and> vanish_grows s (fst (resume_pending_vanishes X U s))"
proof -
  have "consistent X U (fst (fold (resume_vanish X U) rs (s, n))) \<and> vanish_grows s (fst (fold (resume_vanish X U) rs (s, n)))"
    if "consistent X U s" "\<forall>r \<in> set rs. length (fst r) = 32 \<and> fst r \<in> gone s" for rs s n
    using that
  proof (induction rs arbitrary: s n)
    case (Cons r rs)
    obtain pk u where p: "r = (pk, u)" by fastforce
    obtain s1 m where st: "resume_vanish X U r (s, n) = (s1, m)" by fastforce
    then have s1: "s1 = fst (finish_vanish X U s pk u)" by (auto simp: resume_vanish_def p split: prod.splits sum.splits)
    have pk: "length pk = 32" "pk \<in> gone s" using Cons.prems(2) p by auto
    note k = finish_vanish_ok [OF hc Cons.prems(1) pk, of u]
    have "\<forall>r \<in> set rs. length (fst r) = 32 \<and> fst r \<in> gone s1" using Cons.prems(2) k(2) s1 by auto
    then show ?case using Cons.IH [of s1 m] k(1) s1 st finish_vanish_grows [OF hc Cons.prems(1) pk, of u] vanish_grows_trans by auto
  qed simp
  moreover have "\<forall>r \<in> set (pending_vanishes s). length (fst r) = 32 \<and> fst r \<in> gone s" by (rule pending_vanish_keys [OF c])
  ultimately show ?thesis using c by (simp add: resume_pending_vanishes_def)
qed

section \<open>The other operations\<close>

text \<open>They keep the store consistent and touch no record of a vanished identity.\<close>

definition kept :: "ext \<Rightarrow> unicode \<Rightarrow> store \<Rightarrow> store \<Rightarrow> bool" where
  "kept X U s s' \<longleftrightarrow> consistent X U s' \<and> idents s' = idents s"

lemma kept_refl: "consistent X U s \<Longrightarrow> kept X U s s"
  by (simp add: kept_def)

lemma kept_trans: "kept X U a b \<Longrightarrow> kept X U b c \<Longrightarrow> kept X U a c"
  by (simp add: kept_def)

lemma kept_walk: "consistent X U s \<Longrightarrow> walk_inv X U (gone s) P s s' \<Longrightarrow> idents s' = idents s \<Longrightarrow> kept X U s s'"
  unfolding kept_def using consistent_walk by blast

lemma kept_view: "consistent X U s \<Longrightarrow> index_view s' = index_view s \<Longrightarrow> idents s' = idents s \<Longrightarrow> kept X U s s'"
  unfolding kept_def using consistent_view by blast

lemma kept_deletion:
  assumes c: "consistent X U s"
  shows "kept X U s (fst (apply_deletion_group X U q targets as wraps s))"
proof (cases "low_space s \<or> request_pubkey q = None \<and> request_group q = None")
  case True
  then have "fst (apply_deletion_group X U q targets as wraps s) = s"
    by (auto simp: apply_deletion_group_def apply_deletion_walk_def)
  then show ?thesis using kept_refl [OF c] by simp
next
  case False
  then have who: "request_pubkey q \<noteq> None \<or> request_group q \<noteq> None" by auto
  obtain s' report where r: "apply_deletion_group X U q targets as wraps s = (s', report)" by fastforce
  note d = apply_deletion_removed [OF consistentD(1,2) [OF c] r who]
  let ?u = "s\<lparr>delete_pending := tdel (fst (request_record X q targets as wraps)) (delete_pending (requested X q targets as wraps s))\<rparr>"
  have "fixed s' = fixed (if targets \<noteq> [] \<or> as \<noteq> [] \<or> wraps then ?u else s) \<or> fixed s' = fixed (requested X q targets as wraps s)"
    using d False by blast
  then have "idents s' = idents (if targets \<noteq> [] \<or> as \<noteq> [] \<or> wraps then ?u else s) \<or> idents s' = idents (requested X q targets as wraps s)"
    using fixed_idents by blast
  then have "idents s' = idents s" by (auto simp: requested_def split: if_splits)
  then show ?thesis using kept_walk [OF c] d by (auto simp: r)
qed

lemma kept_cleared: "consistent X U s \<Longrightarrow> kept X U s (cleared key s)"
  by (auto simp: cleared_def clear_pending_deletion_def intro: kept_view)

lemma kept_resume_deletions:
  assumes "consistent X U s"
  shows "kept X U s (fst (resume_pending_deletions X U s))"
proof -
  have "kept X U s (fst (resume_deletions_loop X U rs (s, p)))" if "consistent X U s" for rs s p
    using that
  proof (induction rs arbitrary: s p)
    case (Cons r rs)
    obtain key d n sr where v: "r = (key, d)" "p = (n, sr)" by fastforce
    have k1: "kept X U s (polled s)" by (rule kept_view [OF Cons.prems]) simp_all
    show ?case
    proof (cases "cancelled s")
      case False
      let ?q = "\<lparr>request_pubkey = pd_request_pubkey d, request_created = pd_request_created d, request_group = pd_group d\<rparr>"
      obtain s1 rep where a: "apply_deletion_group X U ?q (pd_targets d) (take MAX_DELETION_ADDRESSES (pd_addresses d)) (pd_purge_wraps d) (polled s) = (s1, rep)"
        by fastforce
      have k2: "kept X U s s1"
        using kept_trans [OF k1] kept_deletion [of X U "polled s" ?q "pd_targets d" "take MAX_DELETION_ADDRESSES (pd_addresses d)" "pd_purge_wraps d"] a k1
        by (simp add: kept_def)
      have go: "kept X U s (fst (resume_deletions_loop X U rs (u, m)))" if "kept X U s u" for u m
        using kept_trans [OF that Cons.IH] that by (simp add: kept_def)
      have cl: "kept X U s (cleared key u)" if "kept X U s u" for u
        using kept_trans [OF that kept_cleared] that by (simp add: kept_def)
      show ?thesis using False go [OF cl [OF k1]] go [OF k2] go [OF cl [OF k2]] by (auto simp: v Let_def a split: option.split)
    qed (use kept_refl [OF Cons.prems] in \<open>simp add: v\<close>)
  qed (simp add: kept_refl)
  then show ?thesis using assms by (simp add: resume_pending_deletions_def)
qed

lemma kept_wraps:
  assumes c: "consistent X U s" and pk: "length pk = 32"
  shows "kept X U s (fst (delete_gift_wraps_to X U s pk u))"
proof -
  obtain s' n err where r: "remove_gift_wraps_for X U pk u (s, 0) = ((s', n), err)" by (metis surj_pair)
  have "kept X U s s'"
    using wraps_removed [OF consistentD(1,2) [OF c] pk r] kept_walk [OF c] fixed_idents by blast
  then show ?thesis using kept_refl [OF c] r by (auto simp: delete_gift_wraps_to_def split: option.split)
qed

lemma kept_absent:
  assumes c: "consistent X U s"
  shows "kept X U s (fst (record_absent_deletion_targets X s pk ts))"
proof -
  have step: "index_view (fst (record_absent_target X pk t (s, n))) = index_view s \<and> idents (fst (record_absent_target X pk t (s, n))) = idents s" for t s n
    by (auto simp: record_absent_target_def split: option.split)
  have "(\<lambda>s. (index_view s, idents s)) (fst (fold (record_absent_target X pk) ts (s, 0))) = (\<lambda>s. (index_view s, idents s)) s"
    by (rule fold_frame) (simp add: step)
  then have "kept X U s (fst (fold (record_absent_target X pk) ts (s, 0)))" using kept_view [OF c] by simp
  then show ?thesis using kept_refl [OF c] by (auto simp: record_absent_deletion_targets_def split: prod.split)
qed

lemma kept_purge:
  assumes c: "consistent X U s"
  shows "kept X U s (fst (purge_group_until X U s gid now u))"
proof -
  obtain s' res where r: "purge_group_until X U s gid now u = (s', res)" by fastforce
  note p = purge_removed [OF consistentD(1,2) [OF c] r]
  then obtain g where "fixed s' = fixed (s\<lparr>purged_groups := g\<rparr>)" by blast
  then have "idents s' = idents s" using fixed_idents idents_marks(6) by metis
  then show ?thesis using kept_walk [OF c] p by (auto simp: r)
qed

lemma reap_frame: "index_view (reap_first_seen s now keep) = index_view s" "idents (reap_first_seen s now keep) = idents s"
  "deleted (reap_first_seen s now keep) = deleted s"
proof -
  have "index_view (fst (reap_loop n now cutoff lo s)) = index_view s \<and> idents (fst (reap_loop n now cutoff lo s)) = idents s
      \<and> deleted (fst (reap_loop n now cutoff lo s)) = deleted s" for n cutoff lo s
    by (induction n arbitrary: lo s) (simp_all add: Let_def)
  then show "index_view (reap_first_seen s now keep) = index_view s" "idents (reap_first_seen s now keep) = idents s"
    "deleted (reap_first_seen s now keep) = deleted s" by (simp_all add: reap_first_seen_def del: reap_loop.simps)
qed

lemma kept_expire:
  assumes c: "consistent X U s"
  shows "kept X U s (fst (purge_expired X U s now keep))"
proof (cases "low_space s \<or> \<not> expiry_enabled s")
  case True
  then show ?thesis using kept_refl [OF c] kept_view [OF c reap_frame(1,2)] by (auto simp: purge_expired_def purge_expired_walk_def)
next
  case False
  obtain s' n sr e where w: "chunk_walk expiry_t (Included (created_key 0 (replicate ID_LEN 0))) (Included (created_key now (replicate ID_LEN 0xff)))
      (stamped_chunk (expire_entry X U)) (s, 0, no_state) = ((s', n, sr), e)" by (metis surj_pair)
  have k: "kept X U s s'" using expired_removed [OF consistentD(1,2) [OF c] w] kept_walk [OF c] fixed_idents by blast
  then have "consistent X U s'" by (simp add: kept_def)
  from kept_trans [OF k kept_view [OF this reap_frame(1,2)]] show ?thesis
    using w False by (simp add: purge_expired_def purge_expired_walk_def)
qed

lemma kept_remove: "consistent X U s \<Longrightarrow> kept X U s (remove_event X U s i)"
  using kept_walk [of X U s "\<lambda>_ _. True"] walk_inv_remove [OF walk_inv_start] consistentD idents_remove by (metis (no_types, lifting))

lemma kept_bans:
  assumes c: "consistent X U s"
  shows "kept X U s (fst (apply_ban X U s i reason))" "kept X U s (fst (apply_unban s i))"
    "kept X U s (fst (apply_allow s i reason))" "kept X U s (fst (apply_unallow s i))"
proof -
  let ?s = "s\<lparr>banned := tput i (as_bytes reason) (banned s), allowed := tdel i (allowed s)\<rparr>"
  have k: "kept X U s ?s" by (rule kept_view [OF c]) simp_all
  then have "kept X U ?s (remove_event X U ?s i)" by (intro kept_remove) (simp add: kept_def)
  then have "consistent X U (remove_event X U ?s i)" by (simp add: kept_def)
  then have "kept X U (remove_event X U ?s i) (stamp_removed sr (remove_event X U ?s i))" for sr
    by (rule kept_view) (simp_all add: idents_def stamp_removed_def Let_def bump_state_stamp_def bump_state_seq_def bump_meta_counter_def)
  then have "kept X U s (stamp_removed sr (remove_event X U ?s i))" for sr
    using k \<open>kept X U ?s (remove_event X U ?s i)\<close> kept_trans by blast
  then show "kept X U s (fst (apply_ban X U s i reason))" using kept_refl [OF c] k by (auto simp: apply_ban_def Let_def split: option.split)
qed (use kept_view [OF c] kept_refl [OF c] in \<open>auto simp: apply_unban_def apply_allow_def apply_unallow_def\<close>)

section \<open>Markers survive every operation\<close>

lemma marks_deletion_steps: "marks_kept s (fst (fst (deletion_steps X U q targets as wraps (s, p))))"
proof -
  obtain s1 p1 e1 where t: "delete_target_chunks X U q (chunks REMOVAL_CHUNK targets) (s, p) = ((s1, p1), e1)" by (metis surj_pair)
  let ?skip = "request_group q \<noteq> None \<and> as \<noteq> []"
  obtain s2 n2 sr2 e2 where d: "(if ?skip then ((s1, p1), None) else delete_addresses X U q as (s1, p1)) = ((s2, n2, sr2), e2)" by (metis surj_pair)
  have 1: "marks_kept s s1" using tombstoned_chunks [of X s U q "chunks REMOVAL_CHUNK targets" p] t by (simp add: tombstoned_def)
  have "marks_kept s1 s2" using tombstoned_addresses [of X s1 U q as p1] d by (auto simp: tombstoned_def split: if_splits)
  then have 2: "marks_kept s s2" using 1 marks_kept_trans by blast
  have 3: "marks_kept s (fst (fst (remove_gift_wraps_for X U pk u64_max (s2, n2))))" for pk
    by (rule marks_kept_trans [OF 2 marks_wraps])
  show ?thesis
  proof (cases e1)
    case (Some er)
    then show ?thesis using t 1 by (simp add: deletion_steps_def)
  next
    case None
    have "fst (fst (deletion_steps X U q targets as wraps (s, p))) \<in> insert s2 (range (\<lambda>pk. fst (fst (remove_gift_wraps_for X U pk u64_max (s2, n2)))))"
      unfolding deletion_steps_def t None
      by (simp only: prod.case option.case d) (auto split: option.split prod.split simp: image_iff intro: exI, (metis fst_conv)+)
    then show ?thesis using 2 3 by auto
  qed
qed

lemma marks_deletion: "marks_kept s (fst (apply_deletion_group X U q targets as wraps s))"
proof (cases "low_space s \<or> request_pubkey q = None \<and> request_group q = None")
  case True
  then have "fst (apply_deletion_group X U q targets as wraps s) = s"
    by (auto simp: apply_deletion_group_def apply_deletion_walk_def)
  then show ?thesis by simp
next
  case False
  obtain s2 p2 e2 where d: "deletion_steps X U q targets as wraps (requested X q targets as wraps s, 0, no_state) = ((s2, p2), e2)" by (metis surj_pair)
  have "marks_kept (requested X q targets as wraps s) s2"
    using marks_deletion_steps [of "requested X q targets as wraps s" X U q targets as wraps "(0, no_state)"] d by simp
  moreover have "marks_kept s (requested X q targets as wraps s)" by (rule marks_kept_eq) (rule requested_view)
  ultimately have m: "marks_kept s s2" using marks_kept_trans by blast
  have "deleted (fst (apply_deletion_group X U q targets as wraps s)) = deleted s2"
  proof -
    let ?w = "targets \<noteq> [] \<or> as \<noteq> [] \<or> wraps"
    have "deletion_steps X U q targets as wraps (if ?w then s\<lparr>delete_pending :=
        tput (pending_deletion_key X (encode_pending_deletion targets as (request_pubkey q) (request_created q) (request_group q) wraps))
          (encode_pending_deletion targets as (request_pubkey q) (request_created q) (request_group q) wraps) (delete_pending s)\<rparr> else s, 0, no_state) = ((s2, p2), e2)"
      using d by (simp only: requested_def request_record_def Let_def fst_conv snd_conv)
    then show ?thesis using False unfolding apply_deletion_group_def apply_deletion_walk_def Let_def
      by (cases e2; cases p2; cases ?w) (auto simp: put_pending_deletion_def clear_pending_deletion_def split: if_splits)
  qed
  then show ?thesis using m by (simp add: marks_kept_def marked_def)
qed

lemma marks_resume_deletions: "marks_kept s (fst (resume_pending_deletions X U s))"
proof -
  have "marks_kept s (fst (resume_deletions_loop X U rs (s, p)))" for rs p
  proof (induction rs arbitrary: s p)
    case (Cons r rs)
    obtain key d n sr where v: "r = (key, d)" "p = (n, sr)" by fastforce
    let ?q = "\<lparr>request_pubkey = pd_request_pubkey d, request_created = pd_request_created d, request_group = pd_group d\<rparr>"
    obtain s1 rep where a: "apply_deletion_group X U ?q (pd_targets d) (take MAX_DELETION_ADDRESSES (pd_addresses d)) (pd_purge_wraps d) (polled s) = (s1, rep)"
      by fastforce
    have p: "marks_kept s (polled s)" by (rule marks_kept_eq) simp
    have cl: "marks_kept u (cleared key u)" for u by (rule marks_kept_eq) (simp add: cleared_def clear_pending_deletion_def)
    have "marks_kept (polled s) s1"
      using marks_deletion [of "polled s" X U ?q "pd_targets d" "take MAX_DELETION_ADDRESSES (pd_addresses d)" "pd_purge_wraps d"] a by simp
    then have s1: "marks_kept s s1" by (rule marks_kept_trans [OF p])
    note IH = marks_kept_trans [OF marks_kept_trans [OF p cl] Cons.IH] marks_kept_trans [OF s1 Cons.IH] marks_kept_trans [OF marks_kept_trans [OF s1 cl] Cons.IH]
    show ?case using IH by (auto simp: v Let_def a split: option.split)
  qed simp
  then show ?thesis by (simp add: resume_pending_deletions_def)
qed

lemma marks_finish: "marks_kept s (fst (finish_vanish X U s pk u))"
proof (cases "low_space s")
  case False
  let ?w = "chunk_walk by_pubkey (Included (pubkey_key pk 0 (replicate ID_LEN 0)))
    (Excluded (range_end (pubkey_key pk (saturating_add u 1) (replicate ID_LEN 0)) u)) (stamped_chunk (vanish_entry X U pk)) (s, 0, no_state)"
  obtain s1 n sr e where w: "?w = ((s1, n, sr), e)" by (metis surj_pair)
  obtain s2 n2 err where g: "remove_gift_wraps_for X U pk u (s1, n) = ((s2, n2), err)" by (metis surj_pair)
  have 1: "marks_kept s s1" using marks_walks(2) [of s by_pubkey "Included (pubkey_key pk 0 (replicate ID_LEN 0))"
      "Excluded (range_end (pubkey_key pk (saturating_add u 1) (replicate ID_LEN 0)) u)" X U pk "(0, no_state)"] w by simp
  have "marks_kept s1 s2" using marks_wraps [of s1 X U pk u n] g by simp
  then have 2: "marks_kept s s2" by (rule marks_kept_trans [OF 1])
  then have "marks_kept s (s2\<lparr>vanish := v, vanish_pending := p\<rparr>)" for v p by (simp add: marks_kept_def marked_def)
  then show ?thesis using 1 2 False w g by (cases e; cases err) (simp_all add: finish_vanish_def Let_def)
qed (simp add: finish_vanish_def)

lemma marks_vanish: "marks_kept s (fst (apply_vanish X U s pk u))"
proof -
  obtain s1 r where rec: "record_pending_vanish s pk u = (s1, r)" by fastforce
  have "deleted s1 = deleted s" using rec by (auto simp: record_pending_vanish_def Let_def split: if_splits)
  then have 1: "marks_kept s s1" by (rule marks_kept_eq)
  show ?thesis using 1 rec marks_kept_trans [OF 1 marks_finish] by (auto simp: apply_vanish_def split: sum.split)
qed

lemma marks_resume_vanish: "marks_kept s (fst (resume_pending_vanishes X U s))"
proof -
  have "marks_kept s (fst (resume_vanish X U r (s, n)))" for r s n
    using marks_finish [of s X U "fst r" "snd r"] by (auto simp: resume_vanish_def split: prod.splits sum.splits)
  then show ?thesis unfolding resume_pending_vanishes_def by (rule marks_fold)
qed

lemma marks_purge: "marks_kept s (fst (purge_group_until X U s gid now u))"
proof -
  have ph: "marks_kept s (fst (fst (purge_phase_walk X U gid n b ph (s, p))))" for s n b ph p
    by (cases ph) (simp_all add: marks_walks)
  have phs: "marks_kept s (fst (fst (purge_phases X U gid n b phs (s, p))))" for s n b phs p
  proof (induction phs arbitrary: s p)
    case (Cons x phs)
    obtain s1 p1 e where w: "purge_phase_walk X U gid n b x (s, p) = ((s1, p1), e)" by (metis surj_pair)
    then have "marks_kept s s1" using ph [of s n b x p] by simp
    then show ?case using marks_kept_trans [OF _ Cons.IH] by (cases e) (simp_all add: w)
  qed simp
  show ?thesis
  proof (cases "low_space s \<or> isl (begin_purge X s gid now u)")
    case True
    then show ?thesis by (auto simp: purge_group_until_def split: sum.splits)
  next
    case False
    then obtain s1 pnow c cid b where bp: "begin_purge X s gid now u = Inr (s1, pnow, c, cid, b)"
      by (metis isl_def prod_cases5 sum.exhaust_sel)
    let ?p = "\<lparr>pg_removed = 0, pg_max_created = 0, pg_create_id = cid, pg_cut = c\<rparr>"
    obtain s2 p2 fin where w: "purge_phases X U gid pnow b (phases_of gid b) (s1, ?p) = ((s2, p2), fin)" by (metis surj_pair)
    have "marks_kept s s1" by (rule marks_kept_eq [OF begin_purge_ok(8) [OF bp]])
    moreover have "marks_kept s1 s2" using phs [of s1 pnow b "phases_of gid b" ?p] w by simp
    ultimately have "marks_kept s s2" using marks_kept_trans by blast
    moreover have "deleted (complete_purge X gid pnow (s2, p2)) = deleted s2"
      by (auto simp: complete_purge_def Let_def split: prod.split)
    ultimately show ?thesis using False bp w by (cases fin) (simp_all add: purge_group_until_def marks_kept_def marked_def)
  qed
qed

lemma marks_expire: "marks_kept s (fst (purge_expired X U s now keep))"
proof -
  obtain s' n sr err where w: "purge_expired_walk X U s now = ((s', n, sr), err)" by (metis surj_pair)
  have "marks_kept s s'"
    using w marks_walks(3) [of s expiry_t "Included (created_key 0 (replicate ID_LEN 0))"
        "Included (created_key now (replicate ID_LEN 0xff))" X U "(0, no_state)"]
    by (auto simp: purge_expired_walk_def split: if_splits prod.splits)
  then show ?thesis using w by (cases err) (simp_all add: purge_expired_def marks_kept_def marked_def reap_frame(3))
qed

lemma marks_absent: "marks_kept s (fst (record_absent_deletion_targets X s pk ts))"
proof -
  have "marks_kept s (fst (record_absent_target X pk t (s, n)))" for t s n
    by (auto simp: record_absent_target_def intro: marks_through split: option.split)
  then have "marks_kept s (fst (fold (record_absent_target X pk) ts (s, 0)))" by (rule marks_fold)
  then show ?thesis by (auto simp: record_absent_deletion_targets_def split: prod.split)
qed

lemma marks_bans:
  "marks_kept s (fst (apply_ban X U s i reason))" "marks_kept s (fst (apply_unban s i))"
  "marks_kept s (fst (apply_allow s i reason))" "marks_kept s (fst (apply_unallow s i))"
  by (rule marks_kept_eq; simp add: apply_ban_def apply_unban_def apply_allow_def apply_unallow_def Let_def split: option.split)+

section \<open>The writer's steps\<close>

text \<open>
  One operation of the writer thread. Ids commit to the event they name, identities are 32-byte keys,
  and between two operations the shutdown flag and the free-space margin may change.
\<close>

inductive writes :: "ext \<Rightarrow> unicode \<Rightarrow> store \<Rightarrow> store \<Rightarrow> bool" for X U where
  put: "ids_commit X s e \<Longrightarrow> writes X U s (fst (put_event_in X U s e now))"
| deletion: "writes X U s (fst (apply_deletion_group X U q targets as wraps s))"
| absent: "writes X U s (fst (record_absent_deletion_targets X s pk targets))"
| wraps: "length pk = 32 \<Longrightarrow> writes X U s (fst (delete_gift_wraps_to X U s pk until_ts))"
| ban: "writes X U s (fst (apply_ban X U s i reason))"
| unban: "writes X U s (fst (apply_unban s i))"
| allow: "writes X U s (fst (apply_allow s i reason))"
| unallow: "writes X U s (fst (apply_unallow s i))"
| note_vanish: "length pk = 32 \<Longrightarrow> record_pending_vanish s pk until_ts = (s', r) \<Longrightarrow> writes X U s s'"
| vanish: "length pk = 32 \<Longrightarrow> writes X U s (fst (apply_vanish X U s pk until_ts))"
| resume_vanishes: "writes X U s (fst (resume_pending_vanishes X U s))"
| resume_deletions: "writes X U s (fst (resume_pending_deletions X U s))"
| purge: "writes X U s (fst (purge_group_until X U s gid now until_ts))"
| expire: "writes X U s (fst (purge_expired X U s now retention))"
| seen: "writes X U s (fst (touch_first_seen s pk now))"
| environment: "writes X U s (s\<lparr>cancel_in := c, low_space := l\<rparr>)"

inductive runs :: "ext \<Rightarrow> unicode \<Rightarrow> store \<Rightarrow> store \<Rightarrow> bool" for X U where
  stop: "runs X U s s"
| step: "runs X U s s' \<Longrightarrow> writes X U s' s'' \<Longrightarrow> runs X U s s''"

inductive_cases writes_cases: "writes X U s s'"

lemma kept_grows: "kept X U s s' \<Longrightarrow> vanish_grows s s'"
  by (auto simp: kept_def idents_def intro: vanish_grows_eq)

lemma writes_ok:
  assumes "json_ok X" and hc: "hex_codec (hex_encode X) (hex_decode X)" and "writes X U s s'" and c: "consistent X U s"
  shows "consistent X U s' \<and> vanish_grows s s'"
  using assms(3)
proof cases
  case (put e now)
  obtain s1 out where r: "put_event_in X U s e now = (s1, out)" by fastforce
  then have "vanish_grows s s1" using idents_put [OF r] by (auto simp: idents_def intro: vanish_grows_eq)
  then show ?thesis using consistent_put [OF assms(1) c put(2), of now] put(1) r by simp
next
  case (note_vanish pk u r)
  have "vanish s' = vanish s" using note_vanish(2) by (auto simp: record_pending_vanish_def Let_def split: if_splits)
  then show ?thesis using record_vanish_ok(1) [OF c, of pk u s'] c note_vanish
    by (cases r) (auto simp: record_pending_vanish_def Let_def vanish_grows_eq split: if_splits)
next
  case (vanish pk u)
  show ?thesis using vanish consistent_vanish [OF hc c] by simp
next
  case resume_vanishes
  then show ?thesis using consistent_resume_vanish [OF hc c] by simp
next
  case (seen pk now)
  then have "kept X U s s'" by (intro kept_view [OF c]) (auto simp: touch_first_seen_def split: option.split)
  then show ?thesis using kept_grows by (auto simp: kept_def)
next
  case (environment l c')
  then have "kept X U s s'" by (intro kept_view [OF c]) (simp_all add: index_view_def idents_def)
  then show ?thesis using kept_grows by (auto simp: kept_def)
qed (use c kept_deletion kept_absent kept_wraps kept_bans kept_resume_deletions kept_purge kept_expire kept_grows in
    \<open>metis kept_def\<close>)+

lemma writes_marks:
  assumes "writes X U s s'"
  shows "marks_kept s s'"
  using assms
proof cases
  case (put e now)
  obtain s1 out where "put_event_in X U s e now = (s1, out)" by fastforce
  then show ?thesis using put idents_put by (auto intro: marks_kept_eq)
next
  case (wraps pk u)
  obtain s1 n err where r: "remove_gift_wraps_for X U pk u (s, 0) = ((s1, n), err)" by (metis surj_pair)
  then have "marks_kept s s1" using marks_wraps [of s X U pk u 0] by simp
  then show ?thesis using wraps r by (cases err) (auto simp: delete_gift_wraps_to_def)
next
  case (note_vanish pk u r)
  then show ?thesis by (intro marks_kept_eq) (auto simp: record_pending_vanish_def Let_def split: if_splits)
next
  case (seen pk now)
  then show ?thesis by (intro marks_kept_eq) (auto simp: touch_first_seen_def split: option.split)
next
  case (environment c' l)
  then show ?thesis by (intro marks_kept_eq) simp
qed (simp_all add: marks_deletion marks_absent marks_bans marks_vanish marks_resume_vanish marks_resume_deletions marks_purge marks_expire)

lemma runs_ok:
  assumes "runs X U s s'" and "json_ok X" and "hex_codec (hex_encode X) (hex_decode X)" and "consistent X U s"
  shows "consistent X U s' \<and> vanish_grows s s'"
  using assms
proof induction
  case (step s s' s'')
  then show ?case using writes_ok [OF step.prems(1,2) step.hyps(2)] vanish_grows_trans by blast
qed simp

lemma runs_marks: "runs X U s s' \<Longrightarrow> marks_kept s s'"
  by (induction rule: runs.induct) (auto intro: marks_kept_trans writes_marks)

end
