(* ===== verification/RemovalProps.thy ===== *)
theory RemovalProps
  imports Writer StoreProps
begin

text \<open>
  What the removals guarantee: consistency of everything the writer can reach, erasure that is complete,
  limited to what the request may touch, durable across interruption, and final.
\<close>

section \<open>A writer history as the common example\<close>

abbreviation "ex_put \<equiv> fst (put_event_in ref_ext ref_unicode ex_store ex_note 0)"

lemma ex_run: "runs ref_ext ref_unicode ex_store ex_put"
  by (rule runs.step [OF runs.stop writes.put [OF ids_commit_ex]])

lemma ex_start: "consistent ref_ext ref_unicode ex_store"
  unfolding ex_store_def by (rule consistent_start)

lemma ex_consistent: "consistent ref_ext ref_unicode ex_put"
  using runs_ok [OF ex_run json_ok_ref ref_codec ex_start] by blast

lemma ex_put_fields: "cancel_in ex_put = None" "\<not> low_space ex_put" "vanish ex_put = []" "vanish_pending ex_put = []"
  "delete_pending ex_put = []" "purge_pending ex_put = []" "expiry_enabled ex_put"
  by (simp_all add: put_event_in_def ex_bytes put_refusal_def vanished_or_pending_def delegator_bytes_def delegation_def
      purged_groups_blocks_def expiry_def expiry_fields_def map_filter_simps write_event_def Let_def put_indexes_def state_kind_family_def
      is_replaceable_def is_replaceable_kind_def is_param_replaceable_kind_def ex_store_def empty_store_def
      GIFT_WRAP_KIND_def EPHEMERAL_GIFT_WRAP_KIND_def DELETION_KIND_def EXPIRATION_TAG_def word_le_nat_alt)

lemma ex_abs: "abs_events ref_ext ex_put = {(replicate 32 0, ex_note)}"
proof -
  obtain s' where r: "put_event_in ref_ext ref_unicode ex_store ex_note 0 = (s', Stored)" using ex_puts(1) by (metis prod.collapse)
  have "store_inv ref_ext ref_unicode ex_store" unfolding ex_store_def by (rule store_inv_empty)
  from put_event_in_refines [OF json_ok_ref this ids_commit_ex r] r show ?thesis
    using ex_bytes(1) by (auto simp: abs_events_def)
qed

section \<open>Properties\<close>

text \<open>
  C2: every store the writer thread can reach is consistent. Whatever sequence of puts, deletion and
  vanish requests, group purges, expiry runs, bans and startup resumes it performs, with the shutdown
  flag raised at any chunk boundary and the disk full at any time, the indexes stay exact (the author
  index up to the feeds of vanished identities) and no event covered by a completed vanish is stored.
\<close>
theorem writer_consistent:
  assumes "runs X U (empty_store words meta meta_on expiry_on n) s"
    and "json_ok X" and "hex_codec (hex_encode X) (hex_decode X)"
  shows "consistent X U s"
  using runs_ok [OF assms consistent_start] by blast

theorem writer_consistent_witness:
  "consistent ref_ext ref_unicode (fst (apply_vanish ref_ext ref_unicode (ex_put\<lparr>cancel_in := Some 1, low_space := False\<rparr>) (replicate 32 0) 7))"
proof (rule writer_consistent [OF _ json_ok_ref ref_codec, where words = True and meta = True and meta_on = True and expiry_on = True and n = 10])
  show "runs ref_ext ref_unicode (empty_store True True True True 10)
    (fst (apply_vanish ref_ext ref_unicode (ex_put\<lparr>cancel_in := Some 1, low_space := False\<rparr>) (replicate 32 0) 7))"
    unfolding ex_store_def [symmetric] by (rule runs.step [OF runs.step [OF ex_run writes.environment] writes.vanish]) simp
qed

text \<open>The bound a vanish request erases up to: a pending request of the same identity keeps a later one.\<close>

definition vanish_bound :: "store \<Rightarrow> bytes \<Rightarrow> u64 \<Rightarrow> u64" where
  "vanish_bound s pk u =
     (if (case vanished_until s pk of None \<Rightarrow> False | Some c \<Rightarrow> u \<le> c) then u
      else max (case stored_until (vanish_pending s) pk of None \<Rightarrow> 0 | Some v \<Rightarrow> v) u)"

lemma apply_vanish_run:
  assumes "consistent X U s" and hc: "hex_codec (hex_encode X) (hex_decode X)" and pk: "length pk = 32"
    and r: "apply_vanish X U s pk u = (s', res)"
  shows "walk_inv X U (insert pk (gone s)) (\<lambda>i e. authored X pk (vanish_bound s pk u) i e \<or> wrap_to X pk (vanish_bound s pk u) i e) s s'
    \<and> (cancel_in s = None \<and> \<not> low_space s \<longrightarrow> \<not> isl res)
    \<and> (\<not> isl res \<longrightarrow> (\<exists>c. vanished_until s' pk = Some c \<and> u \<le> c)
        \<and> (\<forall>i e. (i, e) \<in> abs_events X s' \<longrightarrow> \<not> authored X pk (vanish_bound s pk u) i e \<and> \<not> wrap_to X pk (vanish_bound s pk u) i e))"
proof -
  note cd = consistentD [OF assms(1)]
  have i0: "store_inv_but X U (insert pk (gone s)) s" by (rule store_inv_but_mono [OF cd(1)]) blast
  show ?thesis
  proof (cases "low_space s \<or> (case vanished_until s pk of None \<Rightarrow> False | Some c \<Rightarrow> u \<le> c)")
    case True
    then have s': "s' = s" "low_space s \<longrightarrow> isl res" using r by (auto simp: apply_vanish_def split: if_splits)
    show ?thesis
    proof (cases "low_space s")
      case True
      then show ?thesis using s' walk_inv_start [OF i0 cd(2)] by simp
    next
      case False
      then obtain c where c: "vanished_until s pk = Some c" "u \<le> c" using True by (auto split: option.splits)
      then have b: "vanish_bound s pk u = u" by (simp add: vanish_bound_def)
      have "\<not> authored X pk c i e \<and> \<not> wrap_to X pk c i e" if "(i, e) \<in> abs_events X s" for i e
        using cd(3) c(1) pk that by (auto simp: erased_def)
      then have "\<not> authored X pk u i e \<and> \<not> wrap_to X pk u i e" if "(i, e) \<in> abs_events X s" for i e
        using c(2) that by (force simp: authored_def wrap_to_def)
      moreover have "\<not> isl res" using r False c by (auto simp: apply_vanish_def)
      ultimately show ?thesis using s' walk_inv_start [OF i0 cd(2)] c b by auto
    qed
  next
    case False
    let ?b = "vanish_bound s pk u"
    let ?s1 = "s\<lparr>vanish_pending := tput pk (be64 ?b) (vanish_pending s)\<rparr>"
    have rec: "record_pending_vanish s pk u = (?s1, Inr ?b)" using False by (simp add: record_pending_vanish_def vanish_bound_def Let_def)
    have fin: "finish_vanish X U ?s1 pk ?b = (s', res)" using r False rec by (auto simp: apply_vanish_def split: option.splits)
    have v: "index_view ?s1 = index_view s" by simp
    have w1: "walk_inv X U (insert pk (gone s)) (\<lambda>_ _. False) s ?s1" by (rule walk_inv_view [OF walk_inv_start [OF i0 cd(2)] v])
    have ab: "abs_events X ?s1 = abs_events X s" by (simp add: abs_events_def)
    note f = vanish_removed [OF walk_inv_facts(1,2) [OF w1] hc pk _ fin]
    have "vanished_until ?s1 pk = vanished_until s pk" by (simp add: vanished_until_def)
    then have "\<exists>c. vanished_until s' pk = Some c \<and> u \<le> c" if "\<not> isl res"
    proof -
      have "vanish s' = tput pk (be64 (max (case vanished_until ?s1 pk of None \<Rightarrow> 0 | Some u \<Rightarrow> u) ?b)) (vanish s)"
        using f that by (auto simp: fixed_def)
      moreover have "u \<le> ?b" by (simp add: vanish_bound_def)
      ultimately show ?thesis by (auto simp: vanished_until_def stored_until_tput le_max_iff_disj)
    qed
    moreover have "walk_inv X U (insert pk (gone s)) (\<lambda>i e. authored X pk ?b i e \<or> wrap_to X pk ?b i e) s s'"
      using f ab by (simp add: walk_inv_def)
    ultimately show ?thesis using f False by simp
  qed
qed

text \<open>
  C13: a vanish request that is not interrupted erases exactly the history it covers: every event the
  identity signed up to the bound and every gift wrap addressed to it, and nothing else.
\<close>
theorem vanish_erases:
  assumes "consistent X U s" and "hex_codec (hex_encode X) (hex_decode X)" and "length pk = 32"
    and "cancel_in s = None" and "\<not> low_space s" and "apply_vanish X U s pk u = (s', res)"
  shows "\<not> isl res \<and> abs_events X s' = {(i, e) \<in> abs_events X s. \<not> authored X pk (vanish_bound s pk u) i e \<and> \<not> wrap_to X pk (vanish_bound s pk u) i e}"
  using apply_vanish_run [OF assms(1-3,6)] assms(4,5) by (auto simp: walk_inv_def)

theorem vanish_erases_witness:
  "abs_events ref_ext (fst (apply_vanish ref_ext ref_unicode ex_put (replicate 32 0) 7)) = {}"
proof -
  obtain s' res where r: "apply_vanish ref_ext ref_unicode ex_put (replicate 32 0) 7 = (s', res)" by fastforce
  have "vanish_bound ex_put (replicate 32 0) 7 = 7" by (simp add: vanish_bound_def ex_put_fields vanished_until_def stored_until_def)
  then show ?thesis using vanish_erases [OF ex_consistent ref_codec _ ex_put_fields(1,2) r] r
    by (auto simp: ex_abs authored_def ex_bytes word_le_nat_alt)
qed

text \<open>
  C3: erasure is final. Once a vanish request has completed, no store the writer can reach later holds an
  event of that identity up to the requested time or a gift wrap addressed to it.
\<close>
theorem vanished_stays_erased:
  assumes "consistent X U s" and "json_ok X" and "hex_codec (hex_encode X) (hex_decode X)" and "length pk = 32"
    and "apply_vanish X U s pk u = (s1, Inr p)" and "runs X U s1 s2" and "(i, e) \<in> abs_events X s2"
  shows "\<not> authored X pk u i e \<and> \<not> wrap_to X pk u i e"
proof -
  have c1: "consistent X U s1" using consistent_vanish(1) [OF assms(3,1,4), of u] assms(5) by simp
  obtain c where c: "vanished_until s1 pk = Some c" "u \<le> c" using apply_vanish_run [OF assms(1,3-5)] by auto
  note r = runs_ok [OF assms(6,2,3) c1]
  obtain c' where c': "vanished_until s2 pk = Some c'" "c \<le> c'" using r c(1) by (auto simp: vanish_grows_def)
  have "\<not> authored X pk c' i e \<and> \<not> wrap_to X pk c' i e"
    using consistentD(3) [of X U s2] r c'(1) assms(4,7) by (auto simp: erased_def)
  then show ?thesis using c(2) c'(2) by (auto simp: authored_def wrap_to_def)
qed

theorem vanished_stays_erased_witness:
  "\<not> authored ref_ext (replicate 32 1) 7 (replicate 32 0) ex_note \<and> \<not> wrap_to ref_ext (replicate 32 1) 7 (replicate 32 0) ex_note"
proof -
  obtain s1 res where r: "apply_vanish ref_ext ref_unicode ex_put (replicate 32 1) 7 = (s1, res)" by fastforce
  note v = apply_vanish_run [OF ex_consistent ref_codec _ r]
  have "\<not> isl res" using v ex_put_fields(1,2) by simp
  then obtain p where p: "res = Inr p" by (cases res) auto
  have "(replicate 32 0, ex_note) \<in> abs_events ref_ext s1"
    using v by (auto simp: walk_inv_def ex_abs authored_def wrap_to_def ex_bytes gift_wrap_recipients_def GIFT_WRAP_KIND_def)
  then show ?thesis using vanished_stays_erased [OF ex_consistent json_ok_ref ref_codec _ r [unfolded p] runs.stop] by simp
qed

section \<open>Deletion requests\<close>

abbreviation "ex_scope \<equiv> \<lparr>request_pubkey = Some (zeros 64), request_created = 9, request_group = None\<rparr>"

lemma ex_target: "own_target ref_ext ex_scope [zeros 64] (replicate 32 0) ex_note"
  by (simp add: own_target_def target_spared_def zeros_def hexd_zeros DELETION_KIND_def pubkeys_equal_def ex_note_def)

text \<open>
  C14: a deletion request that is not interrupted removes exactly what it names and may remove: its own
  targets, its own addressed events up to the request's time, and with the gift-wrap option the wraps
  addressed to the requester.
\<close>
theorem deletion_exact:
  assumes "consistent X U s" and "cancel_in s = None" and "\<not> low_space s"
    and "request_pubkey q \<noteq> None \<or> request_group q \<noteq> None"
    and "apply_deletion_group X U q targets as wraps s = (s', report)"
  shows "rr_error report = None \<and> abs_events X s' = {(i, e) \<in> abs_events X s. \<not> erased_by X q targets as wraps i e}"
  using apply_deletion_removed [OF consistentD(1,2) [OF assms(1)] assms(5,4)] assms(2,3) by (auto simp: walk_inv_def)

theorem deletion_exact_witness:
  "abs_events ref_ext (fst (apply_deletion_group ref_ext ref_unicode ex_scope [zeros 64] [] False ex_put)) = {}"
proof -
  obtain s' rep where r: "apply_deletion_group ref_ext ref_unicode ex_scope [zeros 64] [] False ex_put = (s', rep)" by fastforce
  show ?thesis using deletion_exact [OF ex_consistent ex_put_fields(1,2) _ r] r ex_target by (auto simp: ex_abs erased_by_def)
qed

lemma removed_author:
  assumes "events_ok X s" and "(i, e) \<in> abs_events X s"
  shows "hex_decode X (pubkey e) = Some (author_of X e)"
  using abs_ok(2) [OF assms] by (auto simp: pubkey_bytes_def decode_array_def split: option.splits if_splits)

text \<open>
  C4: a deletion request never removes what is not the requester's. With an author it removes only events
  that author signed or delegated, and wraps addressed to the author; a group moderator's request only
  events of that group, never its metadata; without either nothing at all. Deletion requests themselves
  are never removed. This holds also for interrupted requests.
\<close>
theorem deletion_only_own:
  assumes "consistent X U s" and "apply_deletion_group X U q targets as wraps s = (s', report)"
    and "(i, e) \<in> abs_events X s" and "(i, e) \<notin> abs_events X s'"
  shows "kind e \<noteq> DELETION_KIND
    \<and> (request_pubkey q \<noteq> None \<or> request_group q \<noteq> None)
    \<and> (\<forall>p. request_pubkey q = Some p \<longrightarrow>
          hex_decode X p = Some (author_of X e) \<or> delegated_by X e p \<or> wraps \<and> (\<exists>r \<in> set (gift_wrap_recipients X e). hex_decode X p = Some r))
    \<and> (\<forall>gid. request_pubkey q = None \<longrightarrow> request_group q = Some gid \<longrightarrow> group_id_any e = Some gid \<and> \<not> is_group_meta (kind e))"
proof -
  note cd = consistentD [OF assms(1)]
  have who: "request_pubkey q \<noteq> None \<or> request_group q \<noteq> None"
  proof (rule ccontr)
    assume "\<not> ?thesis"
    then have "s' = s" using assms(2) by (auto simp: apply_deletion_group_def apply_deletion_walk_def split: if_splits)
    then show False using assms(3,4) by simp
  qed
  have er: "erased_by X q targets as wraps i e"
    using apply_deletion_removed [OF cd(1,2) assms(2) who] assms(3,4) by (auto simp: walk_inv_def)
  have au: "hex_decode X (pubkey e) = Some (author_of X e)" by (rule removed_author [OF cd(4) assms(3)])
  from er consider (target) "own_target X q targets i e" | (address) "request_group q = None" "own_address X q as i e"
    | (wrap) pk where "wraps" "Option.bind (request_pubkey q) (hex_decode X) = Some pk" "wrap_to X pk u64_max i e"
    by (auto simp: erased_by_def)
  then show ?thesis
  proof cases
    case target
    then show ?thesis using who au by (auto simp: own_target_def target_spared_def pubkeys_equal_def split: option.splits)
  next
    case address
    have "kind e \<noteq> DELETION_KIND" using address(2)
      by (auto simp: own_address_def is_replaceable_def is_replaceable_kind_def is_param_replaceable_kind_def DELETION_KIND_def)
    then show ?thesis using address who by (auto simp: own_address_def author_owns_def split: option.splits)
  next
    case (wrap pk)
    then have "kind e = GIFT_WRAP_KIND" "pk \<in> set (gift_wrap_recipients X e)" by (auto simp: wrap_to_def gift_wrap_recipients_def split: if_splits)
    then show ?thesis using wrap(1,2) who by (auto simp: DELETION_KIND_def GIFT_WRAP_KIND_def bind_eq_Some_conv)
  qed
qed

theorem deletion_only_own_witness:
  "kind ex_note \<noteq> DELETION_KIND"
proof -
  obtain s' rep where r: "apply_deletion_group ref_ext ref_unicode ex_scope [zeros 64] [] False ex_put = (s', rep)" by fastforce
  have "(replicate 32 0, ex_note) \<notin> abs_events ref_ext s'"
    using apply_deletion_removed [OF consistentD(1,2) [OF ex_consistent] r] ex_put_fields(1,2) ex_target by (auto simp: erased_by_def)
  from deletion_only_own [OF ex_consistent r _ this] show ?thesis by (simp add: ex_abs)
qed



section \<open>Interrupted requests\<close>

text \<open>The scope and addresses the resume reads from a record.\<close>

definition record_scope :: "pending_deletion \<Rightarrow> deletion_scope" where
  "record_scope r = \<lparr>request_pubkey = pd_request_pubkey r, request_created = pd_request_created r, request_group = pd_group r\<rparr>"

definition done_with :: "ext \<Rightarrow> pending_deletion \<Rightarrow> store \<Rightarrow> bool" where
  "done_with X r s \<longleftrightarrow> (\<forall>i e. (i, e) \<in> abs_events X s \<longrightarrow>
     \<not> erased_by X (record_scope r) (pd_targets r) (take MAX_DELETION_ADDRESSES (pd_addresses r)) (pd_purge_wraps r) i e)"

lemma apply_deletion_idle:
  assumes c: "consistent X U s" and idle: "cancel_in s = None" "\<not> low_space s"
    and who: "request_pubkey q \<noteq> None \<or> request_group q \<noteq> None"
    and r: "apply_deletion_group X U q targets as wraps s = (s', report)"
  shows "consistent X U s' \<and> cancel_in s' = None \<and> \<not> low_space s' \<and> abs_events X s' \<subseteq> abs_events X s \<and> rr_error report = None
    \<and> (\<forall>i e. (i, e) \<in> abs_events X s' \<longrightarrow> \<not> erased_by X q targets as wraps i e)"
proof -
  note d = apply_deletion_removed [OF consistentD(1,2) [OF c] r who]
  have ok: "rr_error report = None" "cancel_in s' = None" using d idle by simp_all
  have "low_space s' = low_space s" using d ok(1) by (auto simp: fixed_def split: if_splits)
  then show ?thesis using kept_deletion [OF c, of q targets as wraps] d ok idle r by (auto simp: kept_def walk_inv_def)
qed

lemma cleared_idle:
  "consistent X U s \<Longrightarrow> consistent X U (cleared key s)" "cancel_in (cleared key s) = cancel_in s" "low_space (cleared key s) = low_space s"
  "abs_events X (cleared key s) = abs_events X s"
  using kept_cleared [of X U s key] by (auto simp: kept_def cleared_def clear_pending_deletion_def abs_events_def)

lemma polled_idle: "cancel_in s = None \<Longrightarrow> polled s = s"
  by (cases s) (simp add: polled_def)

lemma resume_loop_done:
  assumes "consistent X U s" and "cancel_in s = None" and "\<not> low_space s"
  shows "abs_events X (fst (resume_deletions_loop X U rs (s, p))) \<subseteq> abs_events X s
    \<and> (\<forall>(key, r) \<in> set rs. (pd_request_pubkey r \<noteq> None \<or> pd_group r \<noteq> None) \<longrightarrow> done_with X r (fst (resume_deletions_loop X U rs (s, p))))"
  using assms
proof (induction rs arbitrary: s p)
  case (Cons x rs)
  obtain key r n sr where v: "x = (key, r)" "p = (n, sr)" by fastforce
  note idle = polled_idle [OF Cons.prems(2)]
  have nc: "\<not> cancelled s" using Cons.prems(2) by (simp add: cancelled_def)
  show ?case
  proof (cases "pd_request_pubkey r = None \<and> pd_group r = None")
    case True
    have c: "consistent X U (cleared key s)" "cancel_in (cleared key s) = None" "\<not> low_space (cleared key s)"
      using Cons.prems by (simp_all add: cleared_idle)
    have l: "resume_deletions_loop X U (x # rs) (s, p) = resume_deletions_loop X U rs (cleared key s, p)"
      using True nc idle by (simp add: v Let_def)
    show ?thesis unfolding l using Cons.IH [OF c, of p] True v(1) by (auto simp: cleared_idle(4))
  next
    case False
    obtain s1 rep where a: "apply_deletion_group X U (record_scope r) (pd_targets r) (take MAX_DELETION_ADDRESSES (pd_addresses r)) (pd_purge_wraps r) s = (s1, rep)"
      by fastforce
    have "request_pubkey (record_scope r) \<noteq> None \<or> request_group (record_scope r) \<noteq> None" using False by (auto simp: record_scope_def)
    note d = apply_deletion_idle [OF Cons.prems this a]
    let ?p = "(n + 1, merge_removed sr (rr_state rep))"
    have l: "resume_deletions_loop X U (x # rs) (s, p) = resume_deletions_loop X U rs (cleared key s1, ?p)"
      using False nc idle a d by (auto simp: v Let_def record_scope_def)
    have c1: "consistent X U (cleared key s1)" "cancel_in (cleared key s1) = None" "\<not> low_space (cleared key s1)" "abs_events X (cleared key s1) = abs_events X s1"
      using d by (simp_all add: cleared_idle)
    note IH = Cons.IH [OF c1(1-3), of ?p]
    then have sub: "abs_events X (fst (resume_deletions_loop X U rs (cleared key s1, ?p))) \<subseteq> abs_events X s1" using c1(4) by simp
    then have "done_with X r (fst (resume_deletions_loop X U rs (cleared key s1, ?p)))" using d by (auto simp: done_with_def)
    then show ?thesis unfolding l using IH sub d v(1) by auto
  qed
qed simp

lemma pending_mem:
  assumes "(k, raw) \<in> set (delete_pending s)" and "decode_pending_deletion raw = Some r" and "length k = 32"
  shows "(k, r) \<in> set (pending_deletions_and_keys s)"
  unfolding pending_deletions_and_keys_def List.map_filter_def set_map
  by (rule image_eqI [of _ _ "(k, raw)"]) (use assms in simp_all)

text \<open>
  C11: an interrupted deletion is finished at the next start. When a request stopped half-way, its record
  is still there, and resuming the pending deletions leaves nothing of what it may remove.
\<close>
theorem interrupted_deletion_resumes:
  assumes c: "consistent X U s" and "\<not> low_space s" and "digest_ok X"
    and who: "request_pubkey q \<noteq> None \<or> request_group q \<noteq> None" and "targets \<noteq> [] \<or> as \<noteq> [] \<or> wraps"
    and enc: "\<forall>t \<in> set targets. string_ok t" "\<forall>a \<in> set as. address_ok a" "\<forall>v. request_pubkey q = Some v \<longrightarrow> string_ok v"
      "\<forall>v. request_group q = Some v \<longrightarrow> string_ok v" "length targets < 2 ^ 32" "length as \<le> MAX_DELETION_ADDRESSES"
    and r: "apply_deletion_group X U q targets as wraps s = (s1, report)" and "rr_error report \<noteq> None"
  shows "abs_events X (fst (resume_pending_deletions X U (s1\<lparr>cancel_in := None\<rparr>))) \<subseteq> abs_events X s
    \<and> (\<forall>(i, e) \<in> abs_events X (fst (resume_pending_deletions X U (s1\<lparr>cancel_in := None\<rparr>))). \<not> erased_by X q targets as wraps i e)"
proof -
  let ?s = "s1\<lparr>cancel_in := None\<rparr>"
  let ?r = "\<lparr>pd_targets = targets, pd_addresses = as, pd_request_pubkey = request_pubkey q,
      pd_request_created = request_created q, pd_group = request_group q, pd_purge_wraps = wraps\<rparr>"
  note d = apply_deletion_removed [OF consistentD(1,2) [OF c] r who]
  have fx: "fixed s1 = fixed (requested X q targets as wraps s)" using d assms(2,13) by blast
  have c1: "consistent X U s1" using kept_deletion [OF c, of q targets as wraps] r by (simp add: kept_def)
  have cs: "consistent X U ?s" by (rule consistent_view [OF c1]) simp_all
  have ls: "\<not> low_space ?s" using fixed_fields(9) [OF fx] assms(2) by (simp add: requested_view)
  have len: "length as < 2 ^ 32" using enc(6) by (simp add: MAX_DELETION_ADDRESSES_def)
  have dec: "decode_pending_deletion (snd (request_record X q targets as wraps)) = Some ?r"
    unfolding request_record_def Let_def snd_conv by (rule decode_encode_pending_deletion [OF enc(1-5) len])
  have kl: "length (fst (request_record X q targets as wraps)) = 32"
    using assms(3) by (simp add: request_record_def Let_def pending_deletion_key_def digest_ok_def)
  have "tget (delete_pending ?s) (fst (request_record X q targets as wraps)) = Some (snd (request_record X q targets as wraps))"
    using fixed_fields(7) [OF fx] assms(5) by (simp add: requested_def lmdb.get_put)
  then have "(fst (request_record X q targets as wraps), snd (request_record X q targets as wraps)) \<in> set (delete_pending ?s)"
    unfolding tget_def by (rule map_of_SomeD)
  then have m: "(fst (request_record X q targets as wraps), ?r) \<in> set (pending_deletions_and_keys ?s)"
    by (rule pending_mem [OF _ dec kl])
  have sc: "record_scope ?r = q" by (cases q) (simp add: record_scope_def)
  have l: "abs_events X (fst (resume_pending_deletions X U ?s)) \<subseteq> abs_events X ?s"
    "\<forall>(key, r) \<in> set (pending_deletions_and_keys ?s). (pd_request_pubkey r \<noteq> None \<or> pd_group r \<noteq> None) \<longrightarrow> done_with X r (fst (resume_pending_deletions X U ?s))"
    using resume_loop_done [OF cs _ ls, of "pending_deletions_and_keys ?s" "(0, no_state)"] by (simp_all add: resume_pending_deletions_def)
  have "done_with X ?r (fst (resume_pending_deletions X U ?s))" using l(2) m who by auto
  then have "\<forall>(i, e) \<in> abs_events X (fst (resume_pending_deletions X U ?s)). \<not> erased_by X q targets as wraps i e"
    using enc(6) sc by (auto simp: done_with_def)
  moreover have "abs_events X ?s \<subseteq> abs_events X s" using d by (simp add: walk_inv_def abs_events_def)
  ultimately show ?thesis using l(1) by blast
qed

theorem interrupted_deletion_resumes_witness:
  "abs_events ref_ext (fst (resume_pending_deletions ref_ext ref_unicode
     ((fst (apply_deletion_group ref_ext ref_unicode ex_scope [zeros 64] [] False (ex_put\<lparr>cancel_in := Some 0\<rparr>)))\<lparr>cancel_in := None\<rparr>))) = {}"
proof -
  let ?s = "ex_put\<lparr>cancel_in := Some 0\<rparr>"
  obtain s1 rep where r: "apply_deletion_group ref_ext ref_unicode ex_scope [zeros 64] [] False ?s = (s1, rep)" by fastforce
  have c: "consistent ref_ext ref_unicode ?s" by (rule consistent_view [OF ex_consistent]) simp_all
  have ls: "\<not> low_space ?s" using ex_put_fields(2) by simp
  have ch: "chunks REMOVAL_CHUNK [zeros 64] = [[zeros 64]]" by (subst chunks.simps, simp add: REMOVAL_CHUNK_def, subst chunks.simps, simp)
  let ?t = "requested ref_ext ex_scope [zeros 64] [] False ?s"
  have st: "deletion_steps ref_ext ref_unicode ex_scope [zeros 64] [] False (?t, 0, no_state) = ((?t, 0, no_state), Some deletion_cancelled)"
    by (simp add: deletion_steps_def ch cancelled_def requested_view(2))
  have "\<not> low_space ?t" using ls by (simp add: requested_view(3))
  from trans [OF r [symmetric] apply_deletion_run [OF ls _ this st]] have err: "rr_error rep \<noteq> None" by simp
  have u: "utf8_ok (replicate n 48)" for n by (induction n) (simp_all add: word_less_nat_alt)
  have z: "string_ok (zeros 64)" using u [of 64] by (simp add: string_ok_def zeros_def as_bytes_def code_def)
  have ab: "abs_events ref_ext ?s = {(replicate 32 0, ex_note)}" using ex_abs by (simp add: abs_events_def)
  have "abs_events ref_ext (fst (resume_pending_deletions ref_ext ref_unicode (s1\<lparr>cancel_in := None\<rparr>))) \<subseteq> abs_events ref_ext ?s
    \<and> (\<forall>(i, e) \<in> abs_events ref_ext (fst (resume_pending_deletions ref_ext ref_unicode (s1\<lparr>cancel_in := None\<rparr>))). \<not> erased_by ref_ext ex_scope [zeros 64] [] False i e)"
    by (rule interrupted_deletion_resumes [OF c ls digest_ok_ref _ _ _ _ _ _ _ _ r err]) (simp_all add: z)
  then show ?thesis unfolding ab r fst_conv using ex_target by (auto simp: erased_by_def)
qed

lemma resume_vanish_done:
  assumes hc: "hex_codec (hex_encode X) (hex_decode X)"
    and "consistent X U s" and "cancel_in s = None" and "\<not> low_space s" and "\<forall>r \<in> set rs. length (fst r) = 32 \<and> fst r \<in> gone s"
  shows "abs_events X (fst (fold (resume_vanish X U) rs (s, n))) \<subseteq> abs_events X s
    \<and> (\<forall>(pk, u) \<in> set rs. \<forall>i e. (i, e) \<in> abs_events X (fst (fold (resume_vanish X U) rs (s, n))) \<longrightarrow> \<not> authored X pk u i e \<and> \<not> wrap_to X pk u i e)"
  using assms(2-)
proof (induction rs arbitrary: s n)
  case (Cons r rs)
  obtain pk u where p: "r = (pk, u)" by fastforce
  have pk: "length pk = 32" "pk \<in> gone s" using Cons.prems(4) p by auto
  obtain s1 res where f: "finish_vanish X U s pk u = (s1, res)" by fastforce
  note v = vanish_removed [OF consistentD(1,2) [OF Cons.prems(1)] hc pk f]
  have ok: "\<not> isl res" "cancel_in s1 = None" using v Cons.prems(2,3) by simp_all
  then obtain x where x: "res = Inr x" by (cases res) auto
  have st: "fold (resume_vanish X U) (r # rs) (s, n) = fold (resume_vanish X U) rs (s1, n + 1)" by (simp add: resume_vanish_def p f x)
  have c1: "consistent X U s1" "gone s1 = gone s" using finish_vanish_ok [OF hc Cons.prems(1) pk, of u] f by simp_all
  have "low_space s1 = low_space s" using v ok(1) by (auto simp: fixed_def)
  then have IH: "abs_events X (fst (fold (resume_vanish X U) rs (s1, n + 1))) \<subseteq> abs_events X s1
    \<and> (\<forall>(pk, u) \<in> set rs. \<forall>i e. (i, e) \<in> abs_events X (fst (fold (resume_vanish X U) rs (s1, n + 1))) \<longrightarrow> \<not> authored X pk u i e \<and> \<not> wrap_to X pk u i e)"
    using Cons.IH [OF c1(1) ok(2), of "n + 1"] Cons.prems(3,4) c1(2) by auto
  moreover have "abs_events X s1 \<subseteq> abs_events X s" using v by (simp add: walk_inv_def)
  moreover have "\<not> authored X pk u i e \<and> \<not> wrap_to X pk u i e" if "(i, e) \<in> abs_events X s1" for i e using v ok(1) that by blast
  ultimately show ?case unfolding st by (auto simp: p)
qed simp

text \<open>
  C12: an interrupted vanish is finished at the next start: the pending record survives the interruption,
  and resuming it erases everything the request covers.
\<close>
theorem interrupted_vanish_resumes:
  assumes c: "consistent X U s" and hc: "hex_codec (hex_encode X) (hex_decode X)" and pk: "length pk = 32"
    and "\<not> low_space s" and r: "apply_vanish X U s pk u = (s1, Inl err)"
  shows "\<forall>(i, e) \<in> abs_events X (fst (resume_pending_vanishes X U (s1\<lparr>cancel_in := None\<rparr>))).
    (i, e) \<in> abs_events X s \<and> \<not> authored X pk u i e \<and> \<not> wrap_to X pk u i e"
proof -
  let ?t = "s1\<lparr>cancel_in := None\<rparr>" and ?b = "vanish_bound s pk u"
  have nc: "\<not> (case vanished_until s pk of None \<Rightarrow> False | Some c \<Rightarrow> u \<le> c)"
    using r assms(4) by (auto simp: apply_vanish_def)
  let ?s1 = "s\<lparr>vanish_pending := tput pk (be64 ?b) (vanish_pending s)\<rparr>"
  have rec: "record_pending_vanish s pk u = (?s1, Inr ?b)" using nc assms(4) by (simp add: record_pending_vanish_def vanish_bound_def Let_def)
  have f: "finish_vanish X U ?s1 pk ?b = (s1, Inl err)" using r nc assms(4) rec by (auto simp: apply_vanish_def split: option.splits)
  note k = record_vanish_ok [OF c pk rec]
  note v = vanish_removed [OF consistentD(1,2) [OF k(1)] hc pk k(2) f]
  have fx: "fixed s1 = fixed ?s1" using v by simp
  have c1: "consistent X U s1" "gone s1 = gone ?s1" using finish_vanish_ok [OF hc k(1) pk k(2), of ?b] f by simp_all
  have ct: "consistent X U ?t" by (rule consistent_view [OF c1(1)]) simp_all
  have ls: "\<not> low_space ?t" using fixed_fields(9) [OF fx] assms(4) by simp
  have "(pk, be64 ?b) \<in> set (vanish_pending ?t)"
    using fixed_fields(2) [OF fx] map_of_SomeD [of "vanish_pending ?t" pk "be64 ?b"] by (simp add: tget_def [symmetric] lmdb.get_put)
  then have m: "(pk, ?b) \<in> set (pending_vanishes ?t)"
    unfolding pending_vanishes_def List.map_filter_def set_map
    by (intro image_eqI [of _ _ "(pk, be64 ?b)"]) (simp_all add: get_slice_def)
  have "\<forall>r \<in> set (pending_vanishes ?t). length (fst r) = 32 \<and> fst r \<in> gone ?t" by (rule pending_vanish_keys [OF ct])
  from resume_vanish_done [OF hc ct _ ls this, of 0] m
  have "(i, e) \<in> abs_events X ?t \<and> \<not> authored X pk ?b i e \<and> \<not> wrap_to X pk ?b i e"
    if "(i, e) \<in> abs_events X (fst (resume_pending_vanishes X U ?t))" for i e using that by (auto simp: resume_pending_vanishes_def)
  moreover have "abs_events X ?t \<subseteq> abs_events X s" using v by (simp add: walk_inv_def abs_events_def)
  moreover have "u \<le> ?b" by (simp add: vanish_bound_def)
  ultimately show ?thesis by (fastforce simp: authored_def wrap_to_def)
qed

theorem interrupted_vanish_resumes_witness:
  "abs_events ref_ext (fst (resume_pending_vanishes ref_ext ref_unicode
     ((fst (apply_vanish ref_ext ref_unicode (ex_put\<lparr>cancel_in := Some 0\<rparr>) (replicate 32 0) 7))\<lparr>cancel_in := None\<rparr>))) = {}"
proof -
  let ?s = "ex_put\<lparr>cancel_in := Some 0\<rparr>"
  obtain s1 res where r: "apply_vanish ref_ext ref_unicode ?s (replicate 32 0) 7 = (s1, res)" by fastforce
  have c: "consistent ref_ext ref_unicode ?s" by (rule consistent_view [OF ex_consistent]) simp_all
  have ls: "\<not> low_space ?s" using ex_put_fields(2) by simp
  have "res = Inl vanish_cancelled"
    using r ls ex_put_fields(3,4) by (auto simp: apply_vanish_def vanished_until_def stored_until_def record_pending_vanish_def Let_def
        finish_vanish_def chunk_walk_def cancelled_def)
  note r' = r [unfolded this]
  have "abs_events ref_ext ?s = {(replicate 32 0, ex_note)}" using ex_abs by (simp add: abs_events_def)
  moreover have "authored ref_ext (replicate 32 0) 7 (replicate 32 0) ex_note" by (simp add: authored_def ex_bytes word_le_nat_alt)
  ultimately show ?thesis using interrupted_vanish_resumes [OF c ref_codec _ ls r'] r' by fastforce
qed

text \<open>A store with one group message.\<close>

definition ex_msg :: event where "ex_msg = ex_note\<lparr>tags := [[''h'', ''grp'']]\<rparr>"

abbreviation "ex_group \<equiv> fst (put_event_in ref_ext ref_unicode ex_store ex_msg 0)"

lemma ex_msg_bytes: "id_bytes ref_ext ex_msg = Some (replicate 32 0)" "pubkey_bytes ref_ext ex_msg = Some (replicate 32 0)"
  using ex_bytes(1,2) by (simp_all add: ex_msg_def id_bytes_def pubkey_bytes_def)

lemmas ex_put_simps = put_event_in_def put_refusal_def vanished_or_pending_def delegator_bytes_def delegation_def
  purged_groups_blocks_def expiry_def expiry_fields_def map_filter_simps write_event_def Let_def put_indexes_def state_kind_family_def
  is_replaceable_def is_replaceable_kind_def is_param_replaceable_kind_def ex_store_def empty_store_def
  GIFT_WRAP_KIND_def EPHEMERAL_GIFT_WRAP_KIND_def DELETION_KIND_def EXPIRATION_TAG_def word_le_nat_alt

lemma ex_group_facts: "consistent ref_ext ref_unicode ex_group" "abs_events ref_ext ex_group = {(replicate 32 0, ex_msg)}"
  "cancel_in ex_group = None" "\<not> low_space ex_group" "purge_pending ex_group = []"
proof -
  have st: "snd (put_event_in ref_ext ref_unicode ex_store ex_msg 0) = Stored"
    using ex_msg_bytes by (simp add: ex_put_simps) (simp add: ex_msg_def)
  obtain s' where r: "put_event_in ref_ext ref_unicode ex_store ex_msg 0 = (s', Stored)" using st by (metis prod.collapse)
  show "consistent ref_ext ref_unicode ex_group"
    using runs_ok [OF runs.step [OF runs.stop writes.put [OF ids_commit_ex]] json_ok_ref ref_codec ex_start] by blast
  have "store_inv ref_ext ref_unicode ex_store" unfolding ex_store_def by (rule store_inv_empty)
  from put_event_in_refines [OF json_ok_ref this ids_commit_ex r] r show "abs_events ref_ext ex_group = {(replicate 32 0, ex_msg)}"
    using ex_msg_bytes(1) by (auto simp: abs_events_def)
  show "cancel_in ex_group = None" "\<not> low_space ex_group" "purge_pending ex_group = []"
    using ex_msg_bytes by (simp_all add: ex_put_simps) (simp_all add: ex_msg_def)
qed

text \<open>
  C15: a group purge that is not interrupted removes exactly the group's history up to its bound: every
  event tagged with the group, and the group's own metadata events.
\<close>
theorem group_purge_exact:
  assumes "consistent X U s" and "cancel_in s = None" and "\<not> low_space s" and "purge_record_ok X s gid"
    and "purge_group_until X U s gid now u = (s', res)"
  shows "\<not> isl res \<and> abs_events X s' = {(i, e) \<in> abs_events X s. \<not> group_history gid (purge_bound X s gid u) i e}"
proof -
  note p = purge_removed [OF consistentD(1,2) [OF assms(1)] assms(5)]
  note w = conjunct1 [OF p] and ok = conjunct1 [OF conjunct2 [OF conjunct2 [OF p]]] and gone = conjunct2 [OF conjunct2 [OF conjunct2 [OF p]]]
  have n: "\<not> isl res" using ok assms(2-4) by simp
  show ?thesis using n w conjunct1 [OF mp [OF gone n]] by (auto simp: walk_inv_def)
qed

theorem group_purge_exact_witness:
  "abs_events ref_ext (fst (purge_group_until ref_ext ref_unicode ex_put ''grp'' 9 9)) = {(replicate 32 0, ex_note)}"
proof -
  obtain s' res where r: "purge_group_until ref_ext ref_unicode ex_put ''grp'' 9 9 = (s', res)" by fastforce
  have ng: "\<not> group_history ''grp'' u i ex_note" for u i
    by (simp add: group_history_def names_group_def is_group_meta_def GROUP_META_def word_le_nat_alt)
  have "purge_record_ok ref_ext ex_put ''grp''" by (simp add: purge_record_ok_def ex_put_fields)
  from group_purge_exact [OF ex_consistent ex_put_fields(1,2) this r] show ?thesis
    using r ng by (auto simp: ex_abs)
qed



text \<open>
  C17: the expiry run removes exactly the expired events. Interrupted or not it removes only events whose
  expiration has passed, and when it is not interrupted no such event is left.
\<close>
theorem expired_purged_exactly:
  assumes "consistent X U s" and "expiry_enabled s" and "\<not> low_space s"
  shows "(\<forall>(i, e) \<in> abs_events X s. (i, e) \<notin> abs_events X (fst (purge_expired X U s now keep)) \<longrightarrow> expired_by now i e)
    \<and> (cancel_in s = None \<longrightarrow> abs_events X (fst (purge_expired X U s now keep)) = {(i, e) \<in> abs_events X s. \<not> expired_by now i e})"
proof -
  obtain s' n sr e where w: "chunk_walk expiry_t (Included (created_key 0 (replicate ID_LEN 0))) (Included (created_key now (replicate ID_LEN 0xff)))
      (stamped_chunk (expire_entry X U)) (s, 0, no_state) = ((s', n, sr), e)" by (metis surj_pair)
  note k = expired_removed [OF consistentD(1,2) [OF assms(1)] w]
  have "fst (purge_expired X U s now keep) = reap_first_seen s' now keep"
    using w assms(2,3) by (simp add: purge_expired_def purge_expired_walk_def)
  then have "abs_events X (fst (purge_expired X U s now keep)) = abs_events X s'"
    using abs_events_view [OF index_view_fields(1) [OF reap_frame(1)]] by simp
  then show ?thesis using k by (auto simp: walk_inv_def)
qed

theorem expired_purged_exactly_witness:
  "abs_events ref_ext (fst (purge_expired ref_ext ref_unicode ex_put 9 0)) = {(replicate 32 0, ex_note)}"
  using expired_purged_exactly [OF ex_consistent ex_put_fields(7,2), of 9 0] ex_put_fields(1)
  by (auto simp: ex_abs expired_by_def expiry_def expiry_fields_def map_filter_simps EXPIRATION_TAG_def)





end
