(* ===== verification/NegCodec.thy ===== *)
theory NegCodec
  imports Event
begin

text \<open>
  The binary codec of Negentropy V1 (\<open>src/src/nips/nip77/codec.rs\<close>): varints, bounds and the
  message parser. Decoders take the whole buffer and a position, as the source does, and return
  the value with the position behind it; errors are the source's messages.
\<close>

section \<open>Varints\<close>

text \<open>The base-128 digits of a value, least significant first: the first loop of \<open>write_varint\<close>.\<close>

lemma unat_drop7: "unat (drop_bit 7 (v :: u64)) = unat v div 128"
  by (simp add: drop_bit_eq_div unat_div_distrib)

lemma unat_and7f: "unat ((v :: u64) AND 0x7F) = unat v mod 128"
proof -
  have "v AND 0x7F = take_bit 7 v" by (simp add: take_bit_eq_mask mask_eq_decr_exp)
  then have "v AND 0x7F = v mod 128" by (simp add: take_bit_eq_mod)
  then show ?thesis by (simp add: unat_mod_distrib)
qed

function varint_digits :: "u64 \<Rightarrow> bytes" where
  "varint_digits v =
     ucast (v AND 0x7F) # (if drop_bit 7 v = 0 then [] else varint_digits (drop_bit 7 v))"
  by pat_completeness auto
termination
proof (relation "measure unat")
  fix v :: u64 assume "drop_bit 7 v \<noteq> 0"
  then have "unat v div 128 \<noteq> 0" using unat_drop7 [of v] by (metis unat_eq_zero)
  then show "(drop_bit 7 v, v) \<in> measure unat" by (simp add: unat_drop7)
qed simp

declare varint_digits.simps [simp del]

definition write_varint :: "u64 \<Rightarrow> bytes" where
  "write_varint v =
     (let ds = rev (varint_digits v) in map (\<lambda>d. d OR 0x80) (butlast ds) @ [last ds])"

function read_varint_loop :: "bytes \<Rightarrow> nat \<Rightarrow> u64 \<Rightarrow> string + (u64 \<times> nat)" where
  "read_varint_loop data pos acc =
     (if pos < length data then
        (let b = data ! pos in
         case Option.bind (checked_mul acc 128) (\<lambda>v. checked_add v (ucast (b AND 0x7F))) of
           None \<Rightarrow> Inl ''varint overflow''
         | Some acc' \<Rightarrow>
             if b AND 0x80 = 0 then Inr (acc', pos + 1) else read_varint_loop data (pos + 1) acc')
      else Inl ''truncated varint'')"
  by pat_completeness auto
termination
  by (relation "measure (\<lambda>(data, pos, acc). length data - pos)") auto

declare read_varint_loop.simps [simp del]

definition read_varint :: "bytes \<Rightarrow> nat \<Rightarrow> string + (u64 \<times> nat)" where
  "read_varint data pos = read_varint_loop data pos 0"

lemma read_varint_loop_pos:
  "read_varint_loop data pos acc = Inr (v, p) \<Longrightarrow> pos < p \<and> p \<le> length data"
proof (induction data pos acc rule: read_varint_loop.induct)
  case (1 data pos acc)
  from "1.prems" show ?case
    by (subst (asm) read_varint_loop.simps)
      (auto simp: Let_def split: if_splits option.splits dest: "1.IH" [rotated 2])
qed

lemma read_varint_pos: "read_varint data pos = Inr (v, p) \<Longrightarrow> pos < p \<and> p \<le> length data"
  unfolding read_varint_def by (rule read_varint_loop_pos)

text \<open>The value of a digit list, most significant digit first.\<close>

fun digits_value :: "nat \<Rightarrow> bytes \<Rightarrow> nat" where
  "digits_value acc [] = acc"
| "digits_value acc (d # ds) = digits_value (acc * 128 + unat d) ds"

lemma digits_value_mono: "acc \<le> digits_value acc ds"
proof (induction ds arbitrary: acc)
  case (Cons d ds)
  have "acc \<le> acc * 128 + unat d" by simp
  also have "\<dots> \<le> digits_value (acc * 128 + unat d) ds" by (rule Cons.IH)
  finally show ?case by simp
qed simp

lemma digits_value_append: "digits_value acc (ds @ [d]) = digits_value acc ds * 128 + unat d"
  by (induction ds arbitrary: acc) auto

lemma unat_ucast_digit: "unat (ucast ((v :: u64) AND 0x7F) :: u8) = unat v mod 128"
proof -
  have "unat (v AND 0x7F) < 2 ^ 8" by (simp add: unat_and7f)
  then show ?thesis
    by (simp add: unat_and7f unsigned_ucast_eq take_bit_nat_eq_self del: power_numeral)
qed

lemma varint_digits_small: "d \<in> set (varint_digits v) \<Longrightarrow> unat d < 128"
proof (induction v rule: varint_digits.induct)
  case (1 v)
  then show ?case
    by (subst (asm) (2) varint_digits.simps) (auto simp: unat_ucast_digit split: if_splits)
qed

lemma varint_digits_value: "digits_value 0 (rev (varint_digits v)) = unat v"
proof (induction v rule: varint_digits.induct)
  case (1 v)
  show ?case
  proof (cases "drop_bit 7 v = 0")
    case True
    then have "unat v div 128 = 0" using unat_drop7 [of v] by simp
    then show ?thesis using True by (subst varint_digits.simps) (simp add: unat_ucast_digit)
  next
    case False
    have "unat v div 128 * 128 + unat v mod 128 = unat v" by simp
    then show ?thesis using "1.IH" [OF False] False
      by (subst varint_digits.simps) (simp add: digits_value_append unat_ucast_digit unat_drop7)
  qed
qed

lemma varint_digits_nonempty [simp]: "varint_digits v \<noteq> []"
  by (subst varint_digits.simps) simp

lemma varint_digits_length: "128 ^ (length (varint_digits v) - 1) \<le> max 1 (unat v)"
proof (induction v rule: varint_digits.induct)
  case (1 v)
  show ?case
  proof (cases "drop_bit 7 v = 0")
    case True
    then show ?thesis by (subst varint_digits.simps) simp
  next
    case False
    then have nz: "unat v div 128 \<noteq> 0" by (metis unat_drop7 unat_eq_zero)
    have "128 ^ (length (varint_digits (drop_bit 7 v)) - 1) \<le> unat v div 128"
      using "1.IH" [OF False] nz by (simp add: unat_drop7)
    then have "128 * 128 ^ (length (varint_digits (drop_bit 7 v)) - 1) \<le> unat v" by linarith
    moreover have "length (varint_digits v) = Suc (length (varint_digits (drop_bit 7 v)))"
      using False by (subst varint_digits.simps) simp
    moreover have "length (varint_digits (drop_bit 7 v)) \<noteq> 0" by simp
    ultimately show ?thesis by (metis diff_Suc_1 le_max_iff_disj power_Suc Suc_pred neq0_conv)
  qed
qed

lemma length_write_varint: "length (write_varint v) = length (varint_digits v)"
  by (simp add: write_varint_def Let_def)

lemma length_write_varint_le: "length (write_varint v) \<le> 10"
proof (rule ccontr)
  assume "\<not> ?thesis"
  then have "10 \<le> length (varint_digits v) - 1" by (simp add: length_write_varint)
  then have "(128 :: nat) ^ 10 \<le> 128 ^ (length (varint_digits v) - 1)"
    by (rule power_increasing) simp
  also have "\<dots> \<le> max 1 (unat v)" by (rule varint_digits_length)
  finally have "(128 :: nat) ^ 10 \<le> max 1 (unat v)" .
  moreover have "unat v < 18446744073709551616" by (rule unat_lt64)
  ultimately show False by (simp add: max_def del: unat_lt64 split: if_splits)
qed

lemma high_digit:
  assumes "unat (d :: u8) < 128"
  shows "(d OR 0x80) AND 0x7F = d" and "(d OR 0x80) AND 0x80 \<noteq> 0" and "d AND 0x7F = d" and "d AND 0x80 = 0"
proof -
  have lt: "unat d < 2 ^ 7" using assms by simp
  have small: "take_bit 7 d = d"
    using lt by (intro word_unat_eq_iff [THEN iffD2]) (simp add: unsigned_take_bit_eq take_bit_nat_eq_self del: power_numeral)
  have d7: "n < 7" if "bit d n" for n
    using small that by (metis bit_take_bit_iff)
  have m: "bit (0x7F :: u8) n \<longleftrightarrow> n < 7" for n
  proof -
    have "(0x7F :: u8) = mask 7" by (simp add: mask_eq_decr_exp)
    then show ?thesis by (simp only: bit_mask_iff) auto
  qed
  have h: "bit (0x80 :: u8) n \<longleftrightarrow> n = 7" for n
  proof -
    have "(0x80 :: u8) = 2 ^ 7" by simp
    then show ?thesis by (simp only: bit_exp_iff) auto
  qed
  show "(d OR 0x80) AND 0x7F = d"
    by (rule bit_eqI) (auto simp only: bit_and_iff bit_or_iff m h dest: d7)
  show "d AND 0x7F = d"
    by (rule bit_eqI) (auto simp only: bit_and_iff m dest: d7)
  show "d AND 0x80 = 0"
    by (rule bit_eqI) (auto simp only: bit_and_iff h bit_0_eq bot_apply bot_bool_def dest: d7)
  have "bit ((d OR 0x80) AND 0x80) 7" unfolding bit_and_iff bit_or_iff h by simp
  then show "(d OR 0x80) AND 0x80 \<noteq> 0" by (metis bit_0_eq bot_apply bot_bool_def)
qed

lemma acc_step:
  assumes "unat acc * 128 + unat (d :: u8) < 2 ^ 64"
  shows "Option.bind (checked_mul acc 128) (\<lambda>v. checked_add v (ucast d)) = Some (acc * 128 + ucast d)"
    and "unat (acc * 128 + ucast d) = unat acc * 128 + unat d"
proof -
  note u = unat_ucast8(2) [of d]
  have m: "unat (acc * 128) = unat acc * 128"
    using assms by (simp add: unat_word_ariths)
  show "unat (acc * 128 + ucast d) = unat acc * 128 + unat d"
    using assms u m by (simp add: unat_word_ariths)
  show "Option.bind (checked_mul acc 128) (\<lambda>v. checked_add v (ucast d)) = Some (acc * 128 + ucast d)"
    using assms u m by (simp add: checked_mul_def checked_add_def)
qed

lemma read_varint_loop_digits:
  assumes "\<forall>x \<in> set (ds @ [d]). unat x < 128" and "digits_value (unat acc) (ds @ [d]) < 2 ^ 64"
    and "drop pos data = map (\<lambda>d. d OR 0x80) ds @ d # rest" and "pos \<le> length data"
  shows "read_varint_loop data pos acc =
    Inr (of_nat (digits_value (unat acc) (ds @ [d])), pos + length ds + 1)"
  using assms
proof (induction ds arbitrary: acc pos)
  case Nil
  then have pos: "pos < length data" by (metis append_Nil drop_all leI list.map(1) list.distinct(1))
  have b: "data ! pos = d" using Nil.prems(3) pos by (metis append_Nil list.map(1) nth_via_drop)
  note st = acc_step [of acc d] and hd = high_digit [of d]
  have "of_nat (unat acc * 128 + unat d) = acc * 128 + ucast d"
    using st(2) Nil.prems(2) by (simp flip: st(2))
  then show ?case using st(1) hd Nil.prems(1,2) pos b
    by (subst read_varint_loop.simps) (simp add: Let_def)
next
  case (Cons x ds)
  have pos: "pos < length data" using Cons.prems(3) by (metis append_Cons drop_all leI list.map(2) list.distinct(1))
  have b: "data ! pos = x OR 0x80" using Cons.prems(3) pos by (metis append_Cons list.map(2) nth_via_drop)
  have tl: "drop (Suc pos) data = map (\<lambda>d. d OR 0x80) ds @ d # rest"
    using Cons.prems(3) pos by (metis append_Cons drop_Suc list.map(2) list.sel(3) tl_drop)
  note hd = high_digit [of x]
  have xs: "unat x < 128" using Cons.prems(1) by simp
  have lt: "unat acc * 128 + unat x < 2 ^ 64"
    using Cons.prems(2) digits_value_mono [of "unat acc * 128 + unat x" "ds @ [d]"] by simp
  note st = acc_step [OF lt]
  have "read_varint_loop data pos acc = read_varint_loop data (Suc pos) (acc * 128 + ucast x)"
    using st(1) hd xs pos b by (subst read_varint_loop.simps) (simp add: Let_def)
  also have "\<dots> = Inr (of_nat (digits_value (unat (acc * 128 + ucast x)) (ds @ [d])), Suc pos + length ds + 1)"
    by (rule Cons.IH) (use Cons.prems st(2) tl pos in auto)
  finally show ?case using st(2) by simp
qed

lemma read_write_varint:
  "read_varint (pre @ write_varint v @ post) (length pre) = Inr (v, length pre + length (write_varint v))"
proof -
  let ?ds = "rev (varint_digits v)"
  have ds: "?ds = butlast ?ds @ [last ?ds]" by (rule append_butlast_last_id [symmetric]) simp
  have small: "\<forall>x \<in> set (butlast ?ds @ [last ?ds]). unat x < 128"
    using varint_digits_small [of _ v] ds by (metis set_rev)
  have val: "digits_value (unat (0 :: u64)) (butlast ?ds @ [last ?ds]) = unat v"
    using varint_digits_value [of v] ds by simp
  have "read_varint_loop (pre @ write_varint v @ post) (length pre) 0 =
      Inr (of_nat (digits_value (unat (0 :: u64)) (butlast ?ds @ [last ?ds])), length pre + length (butlast ?ds) + 1)"
    by (rule read_varint_loop_digits [where rest = post])
      (use small val in \<open>simp_all add: write_varint_def Let_def\<close>)
  moreover have "length (butlast ?ds) + 1 = length (write_varint v)"
    by (simp add: length_write_varint)
  moreover have "length pre + length (butlast ?ds) + 1 = length pre + length (write_varint v)"
    using calculation(2) by linarith
  ultimately show ?thesis unfolding read_varint_def val by (simp only:) simp
qed


section \<open>Bounds, ranges and messages\<close>

text \<open>The types of \<open>src/src/nips/nip77/mod.rs\<close> the codec works on.\<close>

definition PROTOCOL_VERSION :: u8 where "PROTOCOL_VERSION = 0x61"

record bound =
  ts :: u64
  prefix_ids :: bytes

datatype range_mode = Skip | Fingerprint bytes | IdList

record range =
  upper :: bound
  mode :: range_mode

definition write_bound :: "bound \<Rightarrow> u64 \<Rightarrow> bytes \<times> u64" where
  "write_bound b prev_ts =
     (let encoded = (if ts b = u64_max then 0 else 1 + saturating_sub (ts b) prev_ts);
          prefix = (if ts b = u64_max then [] else prefix_ids b)
      in (write_varint encoded @ write_varint (of_nat (length prefix)) @ prefix, ts b))"

definition read_bound :: "bytes \<Rightarrow> nat \<Rightarrow> u64 \<Rightarrow> string + (bound \<times> nat \<times> u64)" where
  "read_bound data pos prev_ts =
     (case read_varint data pos of
        Inl e \<Rightarrow> Inl e
      | Inr (encoded, pos1) \<Rightarrow>
          (let t = (if encoded = 0 then u64_max else saturating_add prev_ts (encoded - 1)) in
           case read_varint data pos1 of
             Inl e \<Rightarrow> Inl e
           | Inr (len, pos2) \<Rightarrow>
               if 32 < len then Inl ''bound prefix too long''
               else (case get_slice data pos2 (pos2 + unat len) of
                       None \<Rightarrow> Inl ''truncated bound prefix''
                     | Some prefix \<Rightarrow>
                         Inr (\<lparr>ts = t, prefix_ids = (if t = u64_max then [] else prefix)\<rparr>, pos2 + unat len, t))))"

text \<open>The \<open>match mode\<close> of \<open>parse_message\<close>: the mode varint and its payload.\<close>

definition read_mode :: "bytes \<Rightarrow> nat \<Rightarrow> string + (range_mode \<times> nat)" where
  "read_mode data pos =
     (case read_varint data pos of
        Inl e \<Rightarrow> Inl e
      | Inr (m, pos1) \<Rightarrow>
          if m = 0 then Inr (Skip, pos1)
          else if m = 1 then
            (case get_slice data pos1 (pos1 + 16) of
               None \<Rightarrow> Inl ''truncated fingerprint''
             | Some fp \<Rightarrow> Inr (Fingerprint fp, pos1 + 16))
          else if m = 2 then
            (case read_varint data pos1 of
               Inl e \<Rightarrow> Inl e
             | Inr (len, pos2) \<Rightarrow>
                 if 10000000 < len then Inl ''id list too long''
                 else if length data < pos2 + unat len * 32 then Inl ''truncated id list''
                 else Inr (IdList, pos2 + unat len * 32))
          else Inl (''unknown mode '' @ show_nat (unat m)))"

lemma read_bound_pos: "read_bound data pos prev = Inr (b, p, q) \<Longrightarrow> pos < p \<and> p \<le> length data"
  by (auto simp: read_bound_def Let_def get_slice_def dest!: read_varint_pos split: sum.splits prod.splits if_splits)

lemma read_mode_pos: "read_mode data pos = Inr (m, p) \<Longrightarrow> pos < p \<and> p \<le> length data"
  by (auto simp: read_mode_def get_slice_def dest!: read_varint_pos
      split: sum.splits prod.splits if_splits option.splits)

function parse_loop :: "bytes \<Rightarrow> nat \<Rightarrow> nat \<Rightarrow> u64 \<Rightarrow> range list \<Rightarrow> string + range list" where
  "parse_loop data max_ranges pos prev_ts ranges =
     (if pos < length data then
        (if max_ranges \<le> length ranges then Inl ''too many ranges in one negentropy message''
         else
           (case read_bound data pos prev_ts of
              Inl e \<Rightarrow> Inl e
            | Inr (u, pos1, prev1) \<Rightarrow>
                (case read_mode data pos1 of
                   Inl e \<Rightarrow> Inl e
                 | Inr (m, pos2) \<Rightarrow>
                     parse_loop data max_ranges pos2 prev1 (ranges @ [\<lparr>upper = u, mode = m\<rparr>]))))
      else Inr ranges)"
  by pat_completeness auto
termination
  by (relation "measure (\<lambda>(data, _, pos, _). length data - pos)")
    (auto dest!: read_bound_pos read_mode_pos)

declare parse_loop.simps [simp del]

definition parse_message :: "bytes \<Rightarrow> nat \<Rightarrow> string + range list" where
  "parse_message data max_ranges =
     (case data of
        [] \<Rightarrow> Inl ''empty message''
      | v # _ \<Rightarrow>
          if v \<noteq> PROTOCOL_VERSION then Inl ''unsupported protocol version''
          else parse_loop data max_ranges 1 0 [])"


section \<open>A reference encoder\<close>

text \<open>
  What a message says, as data: the payload of every range with its upper bound. The encoder below
  is the wire format; \<open>parse_message\<close> is its inverse up to the ids of an id list, which the parser skips.
\<close>

datatype payload = PSkip | PFingerprint bytes | PIds "bytes list"

fun encode_payload :: "payload \<Rightarrow> bytes" where
  "encode_payload PSkip = write_varint 0"
| "encode_payload (PFingerprint fp) = write_varint 1 @ fp"
| "encode_payload (PIds ids) = write_varint 2 @ write_varint (of_nat (length ids)) @ concat ids"

fun encode_ranges :: "u64 \<Rightarrow> (bound \<times> payload) list \<Rightarrow> bytes" where
  "encode_ranges prev [] = []"
| "encode_ranges prev ((b, p) # rs) = fst (write_bound b prev) @ encode_payload p @ encode_ranges (ts b) rs"

fun payload_mode :: "payload \<Rightarrow> range_mode" where
  "payload_mode PSkip = Skip"
| "payload_mode (PFingerprint fp) = Fingerprint fp"
| "payload_mode (PIds ids) = IdList"

fun payload_ok :: "payload \<Rightarrow> bool" where
  "payload_ok PSkip \<longleftrightarrow> True"
| "payload_ok (PFingerprint fp) \<longleftrightarrow> length fp = 16"
| "payload_ok (PIds ids) \<longleftrightarrow> length ids \<le> 10000000 \<and> (\<forall>i \<in> set ids. length i = 32)"

definition bound_ok :: "bound \<Rightarrow> bool" where
  "bound_ok b \<longleftrightarrow> length (prefix_ids b) \<le> 32 \<and> (ts b = u64_max \<longrightarrow> prefix_ids b = [])"

fun ranges_ok :: "u64 \<Rightarrow> (bound \<times> payload) list \<Rightarrow> bool" where
  "ranges_ok prev [] \<longleftrightarrow> True"
| "ranges_ok prev ((b, p) # rs) \<longleftrightarrow> prev \<le> ts b \<and> bound_ok b \<and> payload_ok p \<and> ranges_ok (ts b) rs"

lemma get_slice_mid2:
  "n = length pre + length w \<Longrightarrow> get_slice (pre @ w @ mid @ post) n (n + length mid) = Some mid"
  using get_slice_mid [of "pre @ w" mid post] by simp

lemma read_write_varint2:
  "n = length pre + length w \<Longrightarrow>
   read_varint (pre @ w @ write_varint v @ post) n = Inr (v, n + length (write_varint v))"
  using read_write_varint [of "pre @ w" v post] by simp

lemma unat_of_nat64: "n < 2 ^ 64 \<Longrightarrow> unat (of_nat n :: u64) = n"
  by (simp add: unat_of_nat take_bit_nat_eq_self del: power_numeral)

lemma delta_roundtrip:
  assumes "prev \<le> t" and "t \<noteq> u64_max"
  shows "1 + saturating_sub t prev \<noteq> 0"
    and "saturating_add prev (1 + saturating_sub t prev - 1) = t"
proof -
  have t: "unat t < 2 ^ 64 - 1"
  proof -
    have "t < u64_max" using assms(2) u64_max_max [of t] by (rule le_neq_trans [rotated])
    then show ?thesis by (simp add: word_less_nat_alt)
  qed
  have s: "unat (saturating_sub t prev) = unat t - unat prev"
    by (simp add: unat_saturating_sub)
  then have "unat (1 + saturating_sub t prev) = 1 + (unat t - unat prev)"
    using t by (simp add: unat_word_ariths)
  then show "1 + saturating_sub t prev \<noteq> 0" by (metis add_is_0 unat_0 zero_neq_one)
  have "unat (saturating_add prev (saturating_sub t prev)) = unat t"
    using t assms(1) by (simp add: unat_saturating_add s word_le_nat_alt)
  then show "saturating_add prev (1 + saturating_sub t prev - 1) = t"
    by (simp add: word_unat_eq_iff)
qed

lemma read_write_bound:
  assumes "prev \<le> ts b" and "bound_ok b"
  shows "read_bound (pre @ fst (write_bound b prev) @ post) (length pre) prev =
    Inr (b, length pre + length (fst (write_bound b prev)), ts b)"
proof (cases "ts b = u64_max")
  case True
  then have b: "b = \<lparr>ts = u64_max, prefix_ids = []\<rparr>" using assms(2) by (simp add: bound_ok_def)
  show ?thesis
    by (simp add: b write_bound_def read_bound_def Let_def read_write_varint read_write_varint2 get_slice_def)
next
  case False
  let ?e = "1 + saturating_sub (ts b) prev" and ?n = "of_nat (length (prefix_ids b)) :: u64"
  have len: "length (prefix_ids b) \<le> 32" using assms(2) by (simp add: bound_ok_def)
  then have n: "unat ?n = length (prefix_ids b)" by (intro unat_of_nat64) simp
  then have small: "\<not> 32 < ?n" using len by (simp add: word_less_nat_alt)
  have w: "fst (write_bound b prev) = write_varint ?e @ write_varint ?n @ prefix_ids b"
    using False by (simp add: write_bound_def Let_def)
  note d = delta_roundtrip [OF assms(1) False]
  show ?thesis using False d small
    by (simp add: w read_bound_def read_write_varint read_write_varint2 n Let_def get_slice_def)
qed

lemma length_concat_const: "\<forall>i \<in> set ids. length i = k \<Longrightarrow> length (concat ids) = length ids * k"
  by (induction ids) auto

lemma read_write_payload:
  assumes "payload_ok p"
  shows "read_mode (pre @ encode_payload p @ post) (length pre) =
    Inr (payload_mode p, length pre + length (encode_payload p))"
proof (cases p)
  case PSkip
  then show ?thesis by (simp add: read_mode_def read_write_varint)
next
  case (PFingerprint fp)
  then have "length fp = 16" using assms by simp
  then show ?thesis using PFingerprint get_slice_mid2 [of _ pre "write_varint 1" fp post]
    by (simp add: read_mode_def read_write_varint add.assoc)
next
  case (PIds ids)
  let ?n = "of_nat (length ids) :: u64"
  have len: "length ids \<le> 10000000" using assms PIds by simp
  then have n: "unat ?n = length ids" by (intro unat_of_nat64) simp
  then have "\<not> 10000000 < ?n" using len by (simp add: word_less_nat_alt)
  moreover have "length (concat ids) = length ids * 32"
    using assms PIds by (intro length_concat_const) simp
  ultimately show ?thesis using PIds
    by (simp add: read_mode_def read_write_varint read_write_varint2 n add.assoc)
qed

lemma parse_loop_encode:
  assumes "ranges_ok prev rs" and "length acc + length rs \<le> max_ranges"
  shows "parse_loop (pre @ encode_ranges prev rs) max_ranges (length pre) prev acc =
    Inr (acc @ map (\<lambda>(b, p). \<lparr>upper = b, mode = payload_mode p\<rparr>) rs)"
  using assms
proof (induction prev rs arbitrary: pre acc rule: encode_ranges.induct)
  case (1 prev)
  then show ?case by (simp add: parse_loop.simps)
next
  case (2 prev b p rs)
  let ?w = "fst (write_bound b prev)" and ?e = "encode_payload p"
  let ?data = "pre @ ?w @ ?e @ encode_ranges (ts b) rs"
  have rb: "read_bound ?data (length pre) prev = Inr (b, length (pre @ ?w), ts b)"
    using read_write_bound [of prev b pre "?e @ encode_ranges (ts b) rs"] "2.prems" by simp
  have rm: "read_mode ?data (length (pre @ ?w)) = Inr (payload_mode p, length (pre @ ?w @ ?e))"
    using read_write_payload [of p "pre @ ?w" "encode_ranges (ts b) rs"] "2.prems" by simp
  have lt: "length pre < length ?data" using read_bound_pos [OF rb] by simp
  have "parse_loop ?data max_ranges (length pre) prev acc =
      parse_loop ((pre @ ?w @ ?e) @ encode_ranges (ts b) rs) max_ranges (length (pre @ ?w @ ?e)) (ts b)
        (acc @ [\<lparr>upper = b, mode = payload_mode p\<rparr>])"
    using lt rb rm "2.prems"(2) by (subst parse_loop.simps) simp
  also have "\<dots> = Inr ((acc @ [\<lparr>upper = b, mode = payload_mode p\<rparr>]) @
      map (\<lambda>(b, p). \<lparr>upper = b, mode = payload_mode p\<rparr>) rs)"
    by (rule "2.IH") (use "2.prems" in simp_all)
  finally show ?case by simp
qed

lemma parse_message_encode:
  assumes "ranges_ok 0 rs" and "length rs \<le> max_ranges"
  shows "parse_message (PROTOCOL_VERSION # encode_ranges 0 rs) max_ranges =
    Inr (map (\<lambda>(b, p). \<lparr>upper = b, mode = payload_mode p\<rparr>) rs)"
  using parse_loop_encode [of 0 rs "[]" max_ranges "[PROTOCOL_VERSION]"] assms
  by (simp add: parse_message_def)

lemma parse_loop_ok:
  "parse_loop data max_ranges pos prev ranges = Inr rs \<Longrightarrow> length ranges \<le> max_ranges \<Longrightarrow>
   \<forall>r \<in> set ranges. bound_ok (upper r) \<Longrightarrow>
   length rs \<le> max_ranges \<and> (\<forall>r \<in> set rs. bound_ok (upper r))"
proof (induction data max_ranges pos prev ranges rule: parse_loop.induct)
  case (1 data max_ranges pos prev ranges)
  show ?case
  proof (cases "pos < length data")
    case True
    with "1.prems"(1) obtain u pos1 prev1 m pos2 where
      lt: "length ranges < max_ranges" and b: "read_bound data pos prev = Inr (u, pos1, prev1)"
      and m: "read_mode data pos1 = Inr (m, pos2)"
      and rest: "parse_loop data max_ranges pos2 prev1 (ranges @ [\<lparr>upper = u, mode = m\<rparr>]) = Inr rs"
      by (subst (asm) parse_loop.simps) (auto split: if_splits sum.splits)
    have "bound_ok u" using b
      by (auto simp: read_bound_def bound_ok_def Let_def get_slice_def word_less_nat_alt
          split: sum.splits prod.splits if_splits)
    then show ?thesis using "1.IH" [OF True _ b _ _ m] rest lt "1.prems"(3) by auto
  next
    case False
    then show ?thesis using "1.prems" by (simp add: parse_loop.simps)
  qed
qed

end
