(* ===== verification/Negentropy.thy ===== *)
theory Negentropy
  imports NegCodec
begin

text \<open>
  The server side of Negentropy V1 (\<open>src/src/nips/nip77/mod.rs\<close>): items, bounds, fingerprints and
  the response to a client message. SHA-256 is the field \<open>sha256\<close> of the external interface.
\<close>

section \<open>Items and bounds\<close>

type_synonym item = "u64 \<times> bytes"

definition MAX_NEG_RANGES_PER_MSG :: nat where "MAX_NEG_RANGES_PER_MSG = 1024"
definition MAX_NEG_RESPONSE_RANGES :: nat where "MAX_NEG_RESPONSE_RANGES = MAX_NEG_RANGES_PER_MSG"
definition ID_LIST_THRESHOLD :: nat where "ID_LIST_THRESHOLD = 100"

lemmas neg_limits = MAX_NEG_RANGES_PER_MSG_def MAX_NEG_RESPONSE_RANGES_def ID_LIST_THRESHOLD_def

definition compare :: "item \<Rightarrow> item \<Rightarrow> ordering" where
  "compare a b = (case cmp (fst a) (fst b) of Equal \<Rightarrow> cmp (snd a) (snd b) | c \<Rightarrow> c)"

definition sort_items :: "item list \<Rightarrow> item list" where
  "sort_items items = sort_by compare items"

definition padded :: "bytes \<Rightarrow> bytes" where
  "padded p = p @ replicate (32 - length p) 0"

definition item_cmp :: "item \<Rightarrow> bound \<Rightarrow> ordering" where
  "item_cmp i b =
     (case cmp (fst i) (ts b) of
        Less \<Rightarrow> Less
      | Greater \<Rightarrow> Greater
      | Equal \<Rightarrow>
          if ts b = u64_max \<and> prefix_ids b = [] then Less
          else cmp (snd i) (padded (prefix_ids b)))"

section \<open>Fingerprints\<close>

text \<open>The carry loop of \<open>fingerprint\<close>: \<open>sum\<close> and \<open>id\<close> are little-endian byte arrays.\<close>

fun add_le :: "u32 \<Rightarrow> bytes \<Rightarrow> bytes \<Rightarrow> bytes" where
  "add_le carry (a # as) (b # bs) =
     (let acc = ucast a + ucast b + carry
      in ucast (acc AND 0xFF) # add_le (drop_bit 8 acc) as bs)"
| "add_le carry _ _ = []"

definition fingerprint :: "ext \<Rightarrow> item list \<Rightarrow> bytes" where
  "fingerprint E items =
     (let sum = foldl (\<lambda>s i. add_le 0 s (snd i)) (replicate 32 0) items
      in take 16 (sha256 E (sum @ write_varint (of_nat (length items)))))"

section \<open>The response\<close>

text \<open>The locals of \<open>respond\<close> that its loops update.\<close>

record neg_state =
  out :: bytes
  prev_ts :: u64
  written :: nat
  lower :: bound

definition write_response_bound :: "bound \<Rightarrow> neg_state \<Rightarrow> neg_state option" where
  "write_response_bound b st =
     (if MAX_NEG_RESPONSE_RANGES < written st + 1 then None
      else (let (w, p) = write_bound b (prev_ts st)
            in Some (st\<lparr>out := out st @ w, prev_ts := p, written := written st + 1\<rparr>)))"

definition infinity :: bound where
  "infinity = \<lparr>ts = u64_max, prefix_ids = []\<rparr>"

definition id_list_all :: "item list \<Rightarrow> bytes" where
  "id_list_all items =
     [PROTOCOL_VERSION] @ fst (write_bound infinity 0) @ write_varint 2
       @ write_varint (of_nat (length items)) @ concat (map snd items)"

text \<open>\<open>partition_point\<close> of a list partitioned by the predicate.\<close>

definition partition_point :: "('a \<Rightarrow> bool) \<Rightarrow> 'a list \<Rightarrow> nat" where
  "partition_point P xs = length (takeWhile P xs)"

definition slice_between :: "item list \<Rightarrow> bound \<Rightarrow> bound \<Rightarrow> item list" where
  "slice_between items l u =
     (let start = partition_point (\<lambda>i. item_cmp i l = Less) items;
          stop = partition_point (\<lambda>i. item_cmp i u = Less) items
      in case get_slice items start stop of Some s \<Rightarrow> s | None \<Rightarrow> [])"

definition ids_in :: "item list \<Rightarrow> bound \<Rightarrow> bound \<Rightarrow> bytes list" where
  "ids_in items l u = map snd (slice_between items l u)"

definition split_bound :: "item \<Rightarrow> item \<Rightarrow> bound" where
  "split_bound a b =
     (if fst a \<noteq> fst b then \<lparr>ts = fst b, prefix_ids = []\<rparr>
      else (let common = length (takeWhile (\<lambda>(x, y). x = y) (zip (snd a) (snd b)))
            in \<lparr>ts = fst b, prefix_ids = take (min common 31 + 1) (snd b)\<rparr>))"

text \<open>The index loop of \<open>prefix_gt\<close>, with the bytes behind the end read as zero.\<close>

fun prefix_gt :: "bytes \<Rightarrow> bytes \<Rightarrow> bool" where
  "prefix_gt [] [] = False"
| "prefix_gt (x # xs) [] = (if x \<noteq> 0 then x > 0 else prefix_gt xs [])"
| "prefix_gt [] (y # ys) = (if y \<noteq> 0 then False else prefix_gt [] ys)"
| "prefix_gt (x # xs) (y # ys) = (if x \<noteq> y then x > y else prefix_gt xs ys)"

text \<open>What every arm does after \<open>write_response_bound\<close> succeeded: append the payload and move on.\<close>

definition answer :: "bound \<Rightarrow> bytes \<Rightarrow> neg_state \<Rightarrow> neg_state option" where
  "answer b payload st =
     map_option (\<lambda>st. st\<lparr>out := out st @ payload, lower := b\<rparr>) (write_response_bound b st)"

definition id_payload :: "bytes list \<Rightarrow> bytes" where
  "id_payload ids = write_varint 2 @ write_varint (of_nat (length ids)) @ concat ids"

lemma answer_written: "answer b p st = Some st' \<Longrightarrow> written st' = written st + 1 \<and> written st' \<le> 1024"
  by (auto simp: answer_def write_response_bound_def neg_limits split: prod.splits if_splits)

text \<open>The \<open>loop\<close> of the fingerprint arm; \<open>None\<close> is the collapse into \<open>id_list_all\<close>.\<close>

function fingerprint_loop :: "ext \<Rightarrow> item list \<Rightarrow> bound \<Rightarrow> bytes \<Rightarrow> neg_state \<Rightarrow> neg_state option" where
  "fingerprint_loop E items u client_fp st =
     (let slice = slice_between items (lower st) u in
      if fingerprint E slice = client_fp then answer u (write_varint 0) st
      else if length slice \<le> ID_LIST_THRESHOLD then answer u (id_payload (map snd slice)) st
      else
        (let mid = length slice div 2;
             mid_bound = split_bound (slice ! (mid - 1)) (slice ! mid)
         in case answer mid_bound (write_varint 1 @ fingerprint E (take mid slice)) st of
              None \<Rightarrow> None
            | Some st' \<Rightarrow> fingerprint_loop E items u client_fp st'))"
  by pat_completeness auto
termination
  by (relation "measure (\<lambda>(_, _, _, _, st). 1025 - written st)") (auto dest!: answer_written)

declare fingerprint_loop.simps [simp del]

text \<open>One iteration of the loop over the client's ranges.\<close>

definition respond_range :: "ext \<Rightarrow> item list \<Rightarrow> range \<Rightarrow> neg_state \<Rightarrow> string + neg_state option" where
  "respond_range E items r st =
     (let u = upper r;
          lower_infinity = (ts (lower st) = u64_max \<and> prefix_ids (lower st) = []);
          upper_infinity = (ts u = u64_max \<and> prefix_ids u = [])
      in if lower_infinity then Inl ''ranges after infinity''
         else if ts u < ts (lower st) \<or>
             (ts (lower st) = ts u \<and> \<not> upper_infinity \<and> prefix_gt (prefix_ids (lower st)) (prefix_ids u))
         then Inl ''ranges out of order''
         else Inr (case mode r of
             Skip \<Rightarrow> answer u (write_varint 0) st
           | IdList \<Rightarrow> answer u (id_payload (ids_in items (lower st) u)) st
           | Fingerprint fp \<Rightarrow> fingerprint_loop E items u fp st))"

fun respond_loop :: "ext \<Rightarrow> item list \<Rightarrow> range list \<Rightarrow> neg_state \<Rightarrow> string + neg_state option" where
  "respond_loop E items [] st = Inr (Some st)"
| "respond_loop E items (r # rs) st =
     (case respond_range E items r st of
        Inl e \<Rightarrow> Inl e
      | Inr None \<Rightarrow> Inr None
      | Inr (Some st') \<Rightarrow> respond_loop E items rs st')"

fun has_adjacent_duplicate :: "'a list \<Rightarrow> bool" where
  "has_adjacent_duplicate (a # b # xs) = (a = b \<or> has_adjacent_duplicate (b # xs))"
| "has_adjacent_duplicate _ = False"

definition dedup_items :: "item list \<Rightarrow> item list" where
  "dedup_items items = (if has_adjacent_duplicate items then remdups_adj items else items)"

text \<open>The implicit trailing range up to infinity.\<close>

definition cover_infinity :: "range list \<Rightarrow> range list" where
  "cover_infinity ranges =
     (if ranges = [] \<or> ts (upper (last ranges)) \<noteq> u64_max \<or> prefix_ids (upper (last ranges)) \<noteq> []
      then ranges @ [\<lparr>upper = infinity, mode = Skip\<rparr>] else ranges)"

definition start_state :: neg_state where
  "start_state = \<lparr>out = [PROTOCOL_VERSION], prev_ts = 0, written = 0, lower = \<lparr>ts = 0, prefix_ids = []\<rparr>\<rparr>"

definition respond :: "ext \<Rightarrow> item list \<Rightarrow> bytes \<Rightarrow> string + bytes" where
  "respond E items0 msg =
     (if msg = [] \<or> hd msg \<noteq> PROTOCOL_VERSION then Inr [PROTOCOL_VERSION]
      else
        (let items = dedup_items items0 in
         case parse_message msg MAX_NEG_RANGES_PER_MSG of
           Inl e \<Rightarrow> Inl e
         | Inr parsed \<Rightarrow>
             (let ranges = cover_infinity parsed in
              if MAX_NEG_RANGES_PER_MSG + 1 < length ranges
              then Inl ''too many ranges in one negentropy message''
              else (case respond_loop E items ranges start_state of
                      Inl e \<Rightarrow> Inl e
                    | Inr None \<Rightarrow> Inr (id_list_all items)
                    | Inr (Some st) \<Rightarrow> Inr (out st)))))"


section \<open>The order of items and bounds\<close>

definition is_infinity :: "bound \<Rightarrow> bool" where
  "is_infinity b \<longleftrightarrow> ts b = u64_max \<and> prefix_ids b = []"

text \<open>The smallest item that is not below a finite bound.\<close>

definition cut :: "bound \<Rightarrow> item" where
  "cut b = (ts b, padded (prefix_ids b))"

definition below :: "item \<Rightarrow> bound \<Rightarrow> bool" where
  "below i b \<longleftrightarrow> is_infinity b \<or> i < cut b"

definition bound_le :: "bound \<Rightarrow> bound \<Rightarrow> bool" where
  "bound_le l u \<longleftrightarrow> is_infinity u \<or> \<not> is_infinity l \<and> cut l \<le> cut u"


lemma compare_Greater: "compare a b = Greater \<longleftrightarrow> b < a"
  by (cases a; cases b) (auto simp: compare_def cmp_def less_prod_def)

lemma insert_by_insort: "insert_by compare x ys = insort x ys"
  by (induction ys) (auto simp: compare_Greater)

lemma sort_items_sort: "sort_items items = sort items"
proof -
  have "insert_by compare = insort" by (intro ext) (rule insert_by_insort)
  then show ?thesis by (simp add: sort_items_def sort_by_def sort_key_def)
qed

lemma item_cmp_Less: "item_cmp i b = Less \<longleftrightarrow> below i b"
proof -
  have "fst i \<le> u64_max" by (rule u64_max_max)
  then show ?thesis
    by (cases i) (auto simp: item_cmp_def below_def is_infinity_def cut_def cmp_def less_prod_def)
qed

lemma below_mono: "i \<le> j \<Longrightarrow> below j b \<Longrightarrow> below i b"
  by (auto simp: below_def)

lemma below_bound_le: "bound_le l u \<Longrightarrow> below i l \<Longrightarrow> below i u"
  by (auto simp: below_def bound_le_def)

lemma bound_le_ts: "bound_le l u \<Longrightarrow> ts l \<le> ts u"
  by (auto simp: bound_le_def is_infinity_def cut_def u64_max_max less_eq_prod_def)

lemma bound_le_trans: "bound_le a b \<Longrightarrow> bound_le b c \<Longrightarrow> bound_le a c"
  by (auto simp: bound_le_def)

lemma length_padded: "length p \<le> 32 \<Longrightarrow> length (padded p) = 32"
  by (simp add: padded_def)

lemma prefix_gt_pad:
  "length a \<le> n \<Longrightarrow> length b \<le> n \<Longrightarrow>
   prefix_gt a b \<longleftrightarrow> b @ replicate (n - length b) 0 < a @ replicate (n - length a) 0"
proof (induction a b arbitrary: n rule: prefix_gt.induct)
  case (2 x xs)
  then obtain m where "n = Suc m" by (cases n) auto
  then show ?case using 2 by (auto simp: word_gt_0)
next
  case (3 y ys)
  then obtain m where "n = Suc m" by (cases n) auto
  then show ?case using 3 by (auto simp: word_gt_0)
next
  case (4 x xs y ys)
  then obtain m where "n = Suc m" by (cases n) auto
  then show ?case using 4 by auto
qed simp

lemma prefix_gt_iff: "length a \<le> 32 \<Longrightarrow> length b \<le> 32 \<Longrightarrow> prefix_gt a b \<longleftrightarrow> padded b < padded a"
  using prefix_gt_pad [of a 32 b] by (simp add: padded_def)

text \<open>The order check of \<open>respond\<close> is exactly the order of the bounds.\<close>

lemma order_check:
  assumes "bound_ok l" and "bound_ok u" and "\<not> is_infinity l"
  shows "ts u < ts l \<or> (ts l = ts u \<and> \<not> is_infinity u \<and> prefix_gt (prefix_ids l) (prefix_ids u))
    \<longleftrightarrow> \<not> bound_le l u"
  using assms u64_max_max [of "ts l"]
  by (auto simp: bound_le_def is_infinity_def cut_def bound_ok_def prefix_gt_iff less_eq_prod_def)

lemma split_prefix:
  fixes x y :: bytes
  assumes "length x = length y" and "x < y"
  defines "p \<equiv> take (length (takeWhile (\<lambda>(x, y). x = y) (zip x y)) + 1) y"
  shows "length (takeWhile (\<lambda>(x, y). x = y) (zip x y)) < length y \<and>
    x < p @ replicate (length y - length p) 0 \<and> p @ replicate (length y - length p) 0 \<le> y"
  using assms(1,2) unfolding p_def
proof (induction x y rule: list_induct2)
  case (Cons a x b y)
  then show ?case by (auto intro: zeros_le)
qed simp

text \<open>The bound between two adjacent items excludes the first and includes the second.\<close>

lemma split_bound_separates:
  assumes "a < b" and "length (snd a) = 32" and "length (snd b) = 32" and "fst b \<noteq> u64_max"
  shows "bound_ok (split_bound a b)" and "\<not> is_infinity (split_bound a b)"
    and "below a (split_bound a b)" and "\<not> below b (split_bound a b)"
proof -
  obtain t x t' y where ab: "a = (t, x)" "b = (t', y)" by (metis surj_pair)
  have lens: "length x = 32" "length y = 32" using assms(2,3) ab by auto
  show "bound_ok (split_bound a b)" using assms(4) lens ab by (auto simp: split_bound_def bound_ok_def Let_def)
  show inf: "\<not> is_infinity (split_bound a b)"
    using assms(4) ab by (auto simp: split_bound_def is_infinity_def Let_def)
  show "below a (split_bound a b)" and "\<not> below b (split_bound a b)"
  proof -
    have "a < cut (split_bound a b) \<and> cut (split_bound a b) \<le> b"
    proof (cases "t = t'")
      case False
      then show ?thesis using assms(1) ab lens zeros_le [of y 32]
        by (auto simp: split_bound_def cut_def padded_def less_prod_def)
    next
      case True
      then have "x < y" using assms(1) ab by (auto simp: less_prod_def)
      note sp = split_prefix [of x y, OF _ this]
      show ?thesis using sp lens ab True
        by (auto simp: split_bound_def cut_def padded_def Let_def min_def)
    qed
    then show "below a (split_bound a b)" and "\<not> below b (split_bound a b)"
      using inf by (auto simp: below_def)
  qed
qed


section \<open>Slices of the item set\<close>

text \<open>What \<open>respond\<close> requires of its item set: sorted, 32-byte ids, no record at the infinite timestamp.\<close>

definition items_ok :: "item list \<Rightarrow> bool" where
  "items_ok items \<longleftrightarrow>
     sorted items \<and> (\<forall>i \<in> set items. length (snd i) = 32 \<and> fst i \<noteq> u64_max) \<and> length items \<le> 10000000"

definition items_between :: "item list \<Rightarrow> bound \<Rightarrow> bound \<Rightarrow> item list" where
  "items_between items l u = filter (\<lambda>i. \<not> below i l \<and> below i u) items"

lemma takeWhile_sorted:
  assumes "sorted xs" and "\<And>i j. i \<le> j \<Longrightarrow> P j \<Longrightarrow> P i"
  shows "takeWhile P xs = filter P xs"
  using assms(1)
proof (induction xs)
  case (Cons x xs)
  have "filter P xs = []" if "\<not> P x" using Cons.prems that assms(2) by (auto simp: filter_empty_conv)
  then show ?case using Cons by auto
qed simp

lemma dropWhile_sorted:
  assumes "sorted xs" and "\<And>i j. i \<le> j \<Longrightarrow> P j \<Longrightarrow> P i"
  shows "dropWhile P xs = filter (\<lambda>x. \<not> P x) xs"
  using assms(1)
proof (induction xs)
  case (Cons x xs)
  have "filter (\<lambda>x. \<not> P x) xs = xs" if "\<not> P x" using Cons.prems that assms(2) by (auto simp: filter_id_conv)
  then show ?case using Cons by auto
qed simp

lemma slice_between_eq:
  assumes "sorted items" and "bound_le l u"
  shows "slice_between items l u = items_between items l u"
proof -
  let ?L = "\<lambda>i. below i l" and ?U = "\<lambda>i. below i u"
  have tw: "takeWhile (\<lambda>i. below i b) xs = filter (\<lambda>i. below i b) xs" if "sorted xs" for b xs
    using that below_mono by (rule takeWhile_sorted)
  let ?us = "filter ?U items"
  have "filter ?L ?us = filter ?L items" using below_bound_le [OF assms(2)] by (auto intro: filter_cong)
  then have start: "length (takeWhile ?L items) = length (takeWhile ?L ?us)"
    using assms(1) by (simp add: tw sorted_filter [where f = "\<lambda>x. x", simplified])
  have us: "take (length (takeWhile ?U items)) items = ?us"
    using assms(1) tw by (metis takeWhile_eq_take)
  have le: "length (takeWhile ?L items) \<le> length (takeWhile ?U items)"
    using start assms(1) by (simp add: tw length_takeWhile_le)
  have "take (length (takeWhile ?U items) - length (takeWhile ?L items)) (drop (length (takeWhile ?L items)) items)
      = drop (length (takeWhile ?L ?us)) ?us"
    by (simp add: take_drop le start us flip: start)
  also have "\<dots> = dropWhile ?L ?us" by (simp add: dropWhile_eq_drop)
  also have "\<dots> = filter (\<lambda>x. \<not> ?L x) ?us"
    by (rule dropWhile_sorted) (use assms(1) below_mono in \<open>auto intro: sorted_filter [where f = "\<lambda>x. x", simplified]\<close>)
  finally show ?thesis using le length_takeWhile_le [of ?U items]
    by (simp add: slice_between_def partition_point_def item_cmp_Less get_slice_def items_between_def Let_def conj_commute)
qed

lemma items_between_less:
  assumes "sorted_wrt (<) items" and "i < j" and "j < length (items_between items l u)"
  shows "items_between items l u ! i < items_between items l u ! j"
  using assms sorted_wrt_filter [OF assms(1)] by (auto simp: items_between_def sorted_wrt_iff_nth_less)

lemma dedup_items_eq: "dedup_items items = remdups_adj items"
proof -
  have "\<not> has_adjacent_duplicate items \<Longrightarrow> remdups_adj items = items"
    by (induction items rule: has_adjacent_duplicate.induct) auto
  then show ?thesis by (simp add: dedup_items_def)
qed

lemma remdups_adj_strict: "sorted xs \<Longrightarrow> sorted_wrt (<) (remdups_adj (xs :: 'a :: linorder list))"
  by (induction xs rule: remdups_adj.induct) auto

lemma dedup_items_ok: "items_ok items \<Longrightarrow> items_ok (dedup_items items) \<and> sorted_wrt (<) (dedup_items items)"
  by (auto simp: items_ok_def dedup_items_eq sorted_remdups_adj remdups_adj_strict
      intro: le_trans [OF remdups_adj_length])

text \<open>Splitting at the median: the first half is what lies below the new bound.\<close>

lemma split_slice:
  fixes items :: "item list"
  assumes ok: "items_ok items" and strict: "sorted_wrt (<) items" and le: "bound_le l u"
    and len: "2 \<le> length (items_between items l u)"
  defines "s \<equiv> items_between items l u"
  defines "mid \<equiv> length s div 2"
  defines "m \<equiv> split_bound (s ! (mid - 1)) (s ! mid)"
  shows "bound_ok m" and "\<not> is_infinity m" and "bound_le l m" and "bound_le m u"
    and "items_between items l m = take mid s"
proof -
  let ?a = "s ! (mid - 1)" and ?b = "s ! mid"
  have idx: "mid - 1 < mid" "mid < length s" using len by (auto simp: s_def mid_def)
  have ab: "?a < ?b" unfolding s_def by (rule items_between_less [OF strict]) (use idx in \<open>auto simp: s_def\<close>)
  have mem: "?a \<in> set s" "?b \<in> set s" using idx by auto
  have ids: "length (snd ?a) = 32" "length (snd ?b) = 32" "fst ?b \<noteq> u64_max"
    using mem ok by (auto simp: s_def items_between_def items_ok_def)
  note sep = split_bound_separates [OF ab ids, folded m_def]
  show "bound_ok m" and inf: "\<not> is_infinity m" by (rule sep)+
  have al: "\<not> below ?a l" and bu: "below ?b u" using mem by (auto simp: s_def items_between_def)
  show lm: "bound_le l m" using al sep(3) inf by (auto simp: bound_le_def below_def)
  show mu: "bound_le m u" using bu sep(4) inf by (auto simp: bound_le_def below_def)
  have sorted_s: "sorted_wrt (<) s" using strict by (simp add: s_def items_between_def sorted_wrt_filter)
  have lo: "below x m" if xm: "x \<in> set (take mid s)" for x
  proof -
    obtain k where "k < length (take mid s)" "take mid s ! k = x"
      using xm unfolding in_set_conv_nth by blast
    then have k: "k < mid" "x = s ! k" by auto
    have "s ! k \<le> ?a"
    proof (cases "k = mid - 1")
      case False
      then have "s ! k < ?a" using k idx by (intro sorted_wrt_nth_less [OF sorted_s]) auto
      then show ?thesis by simp
    qed simp
    then show ?thesis using sep(3) k below_mono by blast
  qed
  have hi: "\<not> below x m" if xm: "x \<in> set (drop mid s)" for x
  proof -
    obtain n where "n < length (drop mid s)" "drop mid s ! n = x"
      using xm unfolding in_set_conv_nth by blast
    then obtain k where k: "mid \<le> k" "k < length s" "x = s ! k" by (auto intro: that [of "mid + n"])
    have "?b \<le> s ! k"
    proof (cases "k = mid")
      case False
      then have "?b < s ! k" using k by (intro sorted_wrt_nth_less [OF sorted_s]) auto
      then show ?thesis by simp
    qed simp
    then show ?thesis using sep(4) k below_mono by blast
  qed
  have "items_between items l m = filter (\<lambda>i. below i m) s"
    using below_bound_le [OF mu] by (auto simp: items_between_def s_def intro: filter_cong)
  also have "\<dots> = filter (\<lambda>i. below i m) (take mid s @ drop mid s)" by simp
  also have "\<dots> = take mid s"
    using lo hi by (simp only: filter_append) (simp add: filter_empty_conv filter_id_conv)
  finally show "items_between items l m = take mid s" .
qed


section \<open>What a response says\<close>

text \<open>
  A response describes the server's set truthfully: every id list is exactly the ids of its range,
  every fingerprint is that of its range, and a range is skipped only when the client skipped it or
  the client's fingerprint equals the server's.
\<close>

fun payload_true :: "ext \<Rightarrow> item list \<Rightarrow> range list \<Rightarrow> bound \<Rightarrow> bound \<Rightarrow> payload \<Rightarrow> bool" where
  "payload_true E items client l u PSkip \<longleftrightarrow>
     (\<exists>r \<in> set client. upper r = u \<and>
        (mode r = Skip \<or> mode r = Fingerprint (fingerprint E (items_between items l u))))"
| "payload_true E items client l u (PFingerprint fp) \<longleftrightarrow> fp = fingerprint E (items_between items l u)"
| "payload_true E items client l u (PIds ids) \<longleftrightarrow> ids = map snd (items_between items l u)"

fun describes :: "ext \<Rightarrow> item list \<Rightarrow> range list \<Rightarrow> bound \<Rightarrow> (bound \<times> payload) list \<Rightarrow> bool" where
  "describes E items client l [] \<longleftrightarrow> True"
| "describes E items client l ((u, p) # rs) \<longleftrightarrow>
     \<not> is_infinity l \<and> bound_le l u \<and> payload_true E items client l u p \<and> describes E items client u rs"

fun last_bound :: "bound \<Rightarrow> (bound \<times> payload) list \<Rightarrow> bound" where
  "last_bound l [] = l"
| "last_bound l ((u, p) # rs) = last_bound u rs"

lemma last_bound_append [simp]: "last_bound l (rs @ [(u, p)]) = u"
  by (induction l rs rule: last_bound.induct) auto

lemma describes_append:
  "describes E items client l (rs @ [(u, p)]) \<longleftrightarrow>
   describes E items client l rs \<and> \<not> is_infinity (last_bound l rs) \<and> bound_le (last_bound l rs) u \<and>
   payload_true E items client (last_bound l rs) u p"
  by (induction l rs rule: last_bound.induct) auto

lemma encode_ranges_append:
  "encode_ranges (ts l) (rs @ [(u, p)]) =
   encode_ranges (ts l) rs @ fst (write_bound u (ts (last_bound l rs))) @ encode_payload p"
  by (induction l rs rule: last_bound.induct) auto

lemma ranges_ok_append:
  "ranges_ok (ts l) (rs @ [(u, p)]) \<longleftrightarrow>
   ranges_ok (ts l) rs \<and> ts (last_bound l rs) \<le> ts u \<and> bound_ok u \<and> payload_ok p"
  by (induction l rs rule: last_bound.induct) auto

abbreviation origin :: bound where "origin \<equiv> \<lparr>ts = 0, prefix_ids = []\<rparr>"

text \<open>The loop invariant: the bytes written so far encode ranges that describe the set up to \<open>lower\<close>.\<close>

definition encodes :: "ext \<Rightarrow> item list \<Rightarrow> range list \<Rightarrow> neg_state \<Rightarrow> (bound \<times> payload) list \<Rightarrow> bool" where
  "encodes E items client st rs \<longleftrightarrow>
     out st = PROTOCOL_VERSION # encode_ranges 0 rs \<and> written st = length rs \<and> length rs \<le> 1024 \<and>
     lower st = last_bound origin rs \<and> prev_ts st = ts (lower st) \<and> bound_ok (lower st) \<and>
     ranges_ok 0 rs \<and> describes E items client origin rs"

lemma encodes_start: "encodes E items client start_state []"
  by (simp add: encodes_def start_state_def bound_ok_def)

lemma answer_encodes:
  assumes "encodes E items client st rs" and "answer u (encode_payload p) st = Some st'"
    and "bound_ok u" and "bound_le (lower st) u" and "\<not> is_infinity (lower st)" and "payload_ok p"
    and "payload_true E items client (lower st) u p"
  shows "encodes E items client st' (rs @ [(u, p)])" and "lower st' = u"
proof -
  note e = encodes_def
  obtain w q where w: "write_bound u (prev_ts st) = (w, q)" by fastforce
  then have q: "q = ts u" by (simp add: write_bound_def Let_def)
  have st': "st' = st\<lparr>out := out st @ w @ encode_payload p, prev_ts := q, written := written st + 1, lower := u\<rparr>"
    and cap: "written st + 1 \<le> 1024"
    using assms(2) w by (auto simp: answer_def write_response_bound_def neg_limits split: if_splits)
  show "lower st' = u" by (simp add: st')
  have w': "w = fst (write_bound u (ts (last_bound origin rs)))" using w assms(1) by (simp add: e)
  show "encodes E items client st' (rs @ [(u, p)])"
    using assms cap bound_le_ts [OF assms(4)] encode_ranges_append [of origin rs u p] ranges_ok_append [of origin rs u p]
    by (simp add: e st' q w' describes_append)
qed

lemma items_between_ids:
  assumes "items_ok items"
  shows "payload_ok (PIds (map snd (items_between items l u)))"
proof -
  have "length (items_between items l u) \<le> 10000000"
    using assms length_filter_le le_trans unfolding items_ok_def items_between_def by blast
  moreover have "\<forall>i \<in> set (items_between items l u). length (snd i) = 32"
    using assms by (auto simp: items_ok_def items_between_def)
  ultimately show ?thesis by simp
qed

text \<open>SHA-256 digests have 32 bytes.\<close>

definition sha256_ok :: "ext \<Rightarrow> bool" where
  "sha256_ok E \<longleftrightarrow> (\<forall>m. length (sha256 E m) = 32)"

lemma length_fingerprint: "sha256_ok E \<Longrightarrow> length (fingerprint E items) = 16"
  by (simp add: fingerprint_def sha256_ok_def Let_def)


lemma fingerprint_loop_encodes:
  assumes "items_ok items" and "sorted_wrt (<) items" and "sha256_ok E"
    and "r \<in> set client" and "upper r = u" and "mode r = Fingerprint fp" and "bound_ok u"
    and "encodes E items client st rs" and "bound_le (lower st) u"
    and "\<not> is_infinity (lower st)" and "fingerprint_loop E items u fp st = Some st'"
  shows "\<exists>rs'. encodes E items client st' rs' \<and> lower st' = u"
  using assms
proof (induction E items u fp st arbitrary: rs rule: fingerprint_loop.induct)
  case (1 E items u fp st)
  note [simp] = Let_def
  let ?s = "items_between items (lower st) u"
  have sl: "slice_between items (lower st) u = ?s"
    using "1.prems"(1,9) by (intro slice_between_eq) (simp_all add: items_ok_def)
  note ans = answer_encodes [OF "1.prems"(8)]
  note res = "1.prems"(11) [unfolded fingerprint_loop.simps [of E items u fp st] Let_def sl]
  consider (sync) "fingerprint E ?s = fp" | (list) "fingerprint E ?s \<noteq> fp" "length ?s \<le> ID_LIST_THRESHOLD"
    | (split) "fingerprint E ?s \<noteq> fp" "\<not> length ?s \<le> ID_LIST_THRESHOLD" by blast
  then show ?case
  proof cases
    case sync
    then have "answer u (encode_payload PSkip) st = Some st'" using res by simp
    from ans [OF this "1.prems"(7,9,10)] show ?thesis using "1.prems"(4-6) sync by auto
  next
    case list
    then have "answer u (encode_payload (PIds (map snd ?s))) st = Some st'"
      using res by (simp add: id_payload_def)
    from ans [OF this "1.prems"(7,9,10) items_between_ids [OF "1.prems"(1)]] show ?thesis by auto
  next
    case split
    let ?mid = "length ?s div 2"
    let ?m = "split_bound (?s ! (?mid - 1)) (?s ! ?mid)" and ?p = "PFingerprint (fingerprint E (take ?mid ?s))"
    have len: "2 \<le> length ?s" using split by (simp add: ID_LIST_THRESHOLD_def)
    note sp = split_slice [OF "1.prems"(1,2,9) len]
    obtain st1 where st1: "answer ?m (encode_payload ?p) st = Some st1"
      and rest: "fingerprint_loop E items u fp st1 = Some st'"
      using res split by (auto split: option.splits)
    have "payload_ok ?p" using "1.prems"(3) by (simp add: length_fingerprint)
    moreover have "payload_true E items client (lower st) ?m ?p"
      by (simp only: payload_true.simps sp(5))
    ultimately have "encodes E items client st1 (rs @ [(?m, ?p)])" and "lower st1 = ?m"
      using ans [OF st1 sp(1,3) "1.prems"(10)] by blast+
    then show ?thesis
      using "1.IH" [of ?s ?mid ?m st1, OF _ _ _ _ _ _ "1.prems"(1-7)] split st1 rest sp(2,4) sl by auto
  qed
qed

lemma respond_range_encodes:
  assumes "items_ok items" and "sorted_wrt (<) items" and "sha256_ok E"
    and "r \<in> set client" and "bound_ok (upper r)" and "encodes E items client st rs"
    and "respond_range E items r st = Inr (Some st')"
  shows "\<exists>rs'. encodes E items client st' rs' \<and> lower st' = upper r"
proof -
  have bl: "bound_ok (lower st)" using assms(6) unfolding encodes_def by blast
  have ninf: "\<not> is_infinity (lower st)" using assms(7)
    by (auto simp: respond_range_def is_infinity_def Let_def split: if_splits)
  have le: "bound_le (lower st) (upper r)"
    using assms(7) order_check [OF bl assms(5) ninf] ninf
    by (auto simp: respond_range_def is_infinity_def Let_def split: if_splits)
  have sl: "slice_between items (lower st) (upper r) = items_between items (lower st) (upper r)"
    using assms(1) le by (intro slice_between_eq) (simp_all add: items_ok_def)
  note ans = answer_encodes [OF assms(6) _ assms(5) le ninf]
  have res: "(case mode r of
      Skip \<Rightarrow> answer (upper r) (write_varint 0) st
    | IdList \<Rightarrow> answer (upper r) (id_payload (ids_in items (lower st) (upper r))) st
    | Fingerprint fp \<Rightarrow> fingerprint_loop E items (upper r) fp st) = Some st'"
    using assms(7) by (auto simp: respond_range_def Let_def split: if_splits)
  show ?thesis
  proof (cases "mode r")
    case Skip
    then show ?thesis using res ans [of PSkip] assms(4) by auto
  next
    case (Fingerprint fp)
    then show ?thesis
      using res fingerprint_loop_encodes [OF assms(1-4) refl Fingerprint assms(5,6) le ninf] by simp
  next
    case IdList
    let ?p = "PIds (map snd (items_between items (lower st) (upper r)))"
    have "answer (upper r) (encode_payload ?p) st = Some st'"
      using IdList res by (simp add: ids_in_def sl id_payload_def)
    then show ?thesis using ans items_between_ids [OF assms(1)] by (metis payload_true.simps(3))
  qed
qed

lemma respond_loop_encodes:
  assumes "items_ok items" and "sorted_wrt (<) items" and "sha256_ok E"
  shows "set ranges \<subseteq> set client \<Longrightarrow> \<forall>r \<in> set ranges. bound_ok (upper r) \<Longrightarrow>
    encodes E items client st rs \<Longrightarrow> respond_loop E items ranges st = Inr (Some st') \<Longrightarrow>
    \<exists>rs'. encodes E items client st' rs' \<and> (ranges \<noteq> [] \<longrightarrow> lower st' = upper (last ranges))"
proof (induction ranges arbitrary: st rs)
  case (Cons r ranges)
  then obtain st1 where st1: "respond_range E items r st = Inr (Some st1)"
    and rest: "respond_loop E items ranges st1 = Inr (Some st')"
    by (auto split: sum.splits option.splits)
  obtain rs1 where rs1: "encodes E items client st1 rs1" "lower st1 = upper r"
    using respond_range_encodes [OF assms _ _ Cons.prems(3) st1] Cons.prems(1,2) by auto
  show ?case
  proof (cases "ranges = []")
    case True
    then show ?thesis using rs1 rest by auto
  next
    case False
    then show ?thesis using Cons.IH [OF _ _ rs1(1) rest] Cons.prems(1,2) by auto
  qed
qed auto


lemma id_list_all_eq: "id_list_all items = PROTOCOL_VERSION # encode_ranges 0 [(infinity, PIds (map snd items))]"
  by (simp add: id_list_all_def)

lemma origin_finite [simp]: "\<not> is_infinity origin"
  by (simp add: is_infinity_def)

lemma infinity_simps [simp]: "is_infinity infinity" "bound_le b infinity" "bound_ok infinity" "below i infinity"
  by (simp_all add: is_infinity_def infinity_def bound_le_def bound_ok_def below_def)

lemma items_between_all: "items_ok items \<Longrightarrow> items_between items origin infinity = items"
proof -
  assume ok: "items_ok items"
  have "\<not> below i origin" if "i \<in> set items" for i
    using ok that zeros_le [of "snd i" 32]
    by (cases i) (auto simp: items_ok_def below_def cut_def padded_def less_prod_def leD)
  then show ?thesis by (auto simp: items_between_def filter_id_conv)
qed

lemma id_list_all_describes:
  assumes "items_ok items"
  shows "ranges_ok 0 [(infinity, PIds (map snd items))]"
    and "describes E items client origin [(infinity, PIds (map snd items))]"
  using items_between_ids [OF assms, of origin infinity] items_between_all [OF assms]
  by simp_all

lemma cover_infinity_last: "cover_infinity ranges \<noteq> [] \<and> upper (last (cover_infinity ranges)) = infinity"
  by (auto simp: cover_infinity_def infinity_def)

lemma cover_infinity_ok: "\<forall>r \<in> set ranges. bound_ok (upper r) \<Longrightarrow> \<forall>r \<in> set (cover_infinity ranges). bound_ok (upper r)"
  by (auto simp: cover_infinity_def)

lemma parse_message_ok:
  assumes "parse_message data max_ranges = Inr rs"
  shows "length rs \<le> max_ranges" and "\<forall>r \<in> set rs. bound_ok (upper r)"
  using assms parse_loop_ok [of data max_ranges 1 0 "[]" rs]
  by (auto simp: parse_message_def split: list.splits if_splits)

lemma respond_encodes:
  assumes "items_ok items" and "sha256_ok E" and "parse_message msg MAX_NEG_RANGES_PER_MSG = Inr client"
    and "respond E items msg = Inr bytes"
  shows "\<exists>rs. bytes = PROTOCOL_VERSION # encode_ranges 0 rs \<and> ranges_ok 0 rs \<and> length rs \<le> 1024 \<and>
    describes E (dedup_items items) (cover_infinity client) origin rs \<and> last_bound origin rs = infinity"
proof -
  let ?items = "dedup_items items" and ?c = "cover_infinity client"
  have ok: "items_ok ?items" and strict: "sorted_wrt (<) ?items" using dedup_items_ok [OF assms(1)] by auto
  have hd: "msg \<noteq> [] \<and> hd msg = PROTOCOL_VERSION"
    using assms(3) by (auto simp: parse_message_def split: list.splits if_splits)
  from assms(3,4) hd consider
      (collapse) "bytes = id_list_all ?items"
    | (full) st where "respond_loop E ?items ?c start_state = Inr (Some st)" "bytes = out st"
    by (auto simp: respond_def Let_def split: if_splits sum.splits option.splits)
  then show ?thesis
  proof cases
    case collapse
    then show ?thesis using id_list_all_describes [OF ok]
      by (intro exI [of _ "[(infinity, PIds (map snd ?items))]"]) (simp add: id_list_all_eq del: encode_ranges.simps describes.simps ranges_ok.simps)
  next
    case (full st)
    have bok: "\<forall>r \<in> set ?c. bound_ok (upper r)"
      by (rule cover_infinity_ok) (rule parse_message_ok(2) [OF assms(3)])
    from respond_loop_encodes [OF ok strict assms(2) subset_refl bok encodes_start full(1)]
    obtain rs where "encodes E ?items ?c st rs" "lower st = infinity"
      using cover_infinity_last [of client] by auto
    then show ?thesis using full(2) by (intro exI [of _ rs]) (simp add: encodes_def)
  qed
qed

section \<open>Which messages are answered\<close>

fun ordered_from :: "bound \<Rightarrow> range list \<Rightarrow> bool" where
  "ordered_from l [] \<longleftrightarrow> True"
| "ordered_from l (r # rs) \<longleftrightarrow> \<not> is_infinity l \<and> bound_le l (upper r) \<and> ordered_from (upper r) rs"


lemma answer_lower: "answer u p st = Some st' \<Longrightarrow> lower st' = u"
  by (auto simp: answer_def write_response_bound_def split: if_splits prod.splits)

lemma fingerprint_loop_lower: "fingerprint_loop E items u fp st = Some st' \<Longrightarrow> lower st' = u"
proof (induction E items u fp st rule: fingerprint_loop.induct)
  case (1 E items u fp st)
  from "1.prems" show ?case
    by (subst (asm) fingerprint_loop.simps)
      (auto simp: Let_def dest: answer_lower "1.IH" [OF refl _ _ refl refl] split: if_splits option.splits)
qed

lemma respond_range_ordered:
  assumes "bound_ok (lower st)" and "bound_ok (upper r)" and "\<not> is_infinity (lower st)" and "bound_le (lower st) (upper r)"
  shows "\<exists>x. respond_range E items r st = Inr x \<and> (\<forall>st'. x = Some st' \<longrightarrow> lower st' = upper r)"
proof -
  have "\<not> (ts (upper r) < ts (lower st) \<or> (ts (lower st) = ts (upper r) \<and> \<not> is_infinity (upper r) \<and>
      prefix_gt (prefix_ids (lower st)) (prefix_ids (upper r))))"
    using order_check [OF assms(1-3)] assms(4) by blast
  then show ?thesis using assms(3)
    by (cases "mode r") (auto simp: respond_range_def is_infinity_def Let_def dest: answer_lower fingerprint_loop_lower)
qed

lemma respond_loop_ordered:
  "ordered_from (lower st) ranges \<Longrightarrow> bound_ok (lower st) \<Longrightarrow> \<forall>r \<in> set ranges. bound_ok (upper r) \<Longrightarrow>
   \<exists>x. respond_loop E items ranges st = Inr x"
proof (induction ranges arbitrary: st)
  case (Cons r ranges)
  obtain x where x: "respond_range E items r st = Inr x" "\<forall>st'. x = Some st' \<longrightarrow> lower st' = upper r"
    using respond_range_ordered [of st r E items] Cons.prems by auto
  then show ?case using Cons.IH Cons.prems by (cases x) auto
qed simp

lemma ordered_from_append:
  "ordered_from l (rs @ [r]) \<longleftrightarrow> ordered_from l rs \<and>
   \<not> is_infinity (if rs = [] then l else upper (last rs)) \<and> bound_le (if rs = [] then l else upper (last rs)) (upper r)"
  by (induction l rs rule: ordered_from.induct) auto

lemma cover_infinity_ordered: "ordered_from l rs \<Longrightarrow> \<not> is_infinity l \<Longrightarrow> ordered_from l (cover_infinity rs)"
  by (auto simp: cover_infinity_def ordered_from_append is_infinity_def)

lemma respond_ordered:
  assumes "parse_message msg MAX_NEG_RANGES_PER_MSG = Inr client" and "ordered_from origin client"
  shows "\<exists>bytes. respond E items msg = Inr bytes"
proof -
  note ok = parse_message_ok [OF assms(1)]
  have hd: "msg \<noteq> [] \<and> hd msg = PROTOCOL_VERSION"
    using assms(1) by (auto simp: parse_message_def split: list.splits if_splits)
  have "length (cover_infinity client) \<le> MAX_NEG_RANGES_PER_MSG + 1" using ok(1) by (simp add: cover_infinity_def)
  moreover obtain x where "respond_loop E (dedup_items items) (cover_infinity client) start_state = Inr x"
    using respond_loop_ordered [of start_state "cover_infinity client" E "dedup_items items"]
      cover_infinity_ordered [OF assms(2)] cover_infinity_ok [OF ok(2)]
    by (auto simp: start_state_def bound_ok_def)
  ultimately show ?thesis using hd assms(1) by (cases x) (simp_all add: respond_def Let_def)
qed

lemma describes_ordered:
  "describes E items client l rs \<Longrightarrow> ordered_from l (map (\<lambda>(b, p). \<lparr>upper = b, mode = payload_mode p\<rparr>) rs)"
  by (induction l rs rule: last_bound.induct) auto

text \<open>A response is itself a message every peer answers.\<close>

lemma respond_answerable:
  assumes "items_ok items" and "sha256_ok E" and "parse_message msg MAX_NEG_RANGES_PER_MSG = Inr client"
    and "respond E items msg = Inr bytes"
  shows "\<exists>reply. respond E' items' bytes = Inr reply"
proof -
  obtain rs where rs: "bytes = PROTOCOL_VERSION # encode_ranges 0 rs" "ranges_ok 0 rs" "length rs \<le> 1024"
    "describes E (dedup_items items) (cover_infinity client) origin rs"
    using respond_encodes [OF assms] by blast
  show ?thesis unfolding rs(1)
    by (rule respond_ordered [OF parse_message_encode [OF rs(2)] describes_ordered [OF rs(4)]])
      (use rs(3) in \<open>simp add: neg_limits\<close>)
qed

section \<open>The fingerprint as arithmetic\<close>

fun le_value :: "bytes \<Rightarrow> nat" where
  "le_value [] = 0"
| "le_value (b # bs) = unat b + 256 * le_value bs"

lemma add_le_step:
  fixes a b :: u8 and c :: u32
  assumes "unat c \<le> 1"
  defines "acc \<equiv> (ucast a + ucast b + c :: u32)"
  shows "unat (ucast (acc AND 0xFF) :: u8) = (unat a + unat b + unat c) mod 256"
    and "unat (drop_bit 8 acc) = (unat a + unat b + unat c) div 256" and "unat (drop_bit 8 acc) \<le> 1"
proof -
  have ab: "unat a < 256" "unat b < 256" using unsigned_less [of a] unsigned_less [of b] by simp_all
  note u = unat_ucast8(1)
  have acc: "unat acc = unat a + unat b + unat c"
    using assms(1) ab by (simp add: acc_def unat_word_ariths u)
  have "acc AND 0xFF = take_bit 8 acc" by (simp add: take_bit_eq_mask mask_eq_decr_exp)
  then have "unat (acc AND 0xFF) = unat acc mod 256" by (simp add: take_bit_eq_mod unat_mod_distrib)
  then show "unat (ucast (acc AND 0xFF) :: u8) = (unat a + unat b + unat c) mod 256"
    by (simp add: unsigned_ucast_eq take_bit_eq_mod acc)
  show "unat (drop_bit 8 acc) = (unat a + unat b + unat c) div 256"
    by (simp add: drop_bit_eq_div unat_div_distrib acc)
  then show "unat (drop_bit 8 acc) \<le> 1" using assms(1) ab by simp
qed

lemma carry_mod: "t mod 256 + 256 * ((k + t div 256) mod n) = (t + 256 * k) mod (256 * n)" for t k n :: nat
proof -
  have "(t + 256 * k) div 256 = k + t div 256" "(t + 256 * k) mod 256 = t mod 256" by simp_all
  then show ?thesis by (simp only: mod_mult2_eq add.commute)
qed

lemma add_le_value:
  "length as = length bs \<Longrightarrow> unat c \<le> 1 \<Longrightarrow>
   length (add_le c as bs) = length as \<and>
   le_value (add_le c as bs) = (le_value as + le_value bs + unat c) mod 256 ^ length as"
proof (induction as bs arbitrary: c rule: list_induct2)
  case (Cons a as b bs)
  let ?acc = "ucast a + ucast b + c :: u32" and ?t = "unat a + unat b + unat c"
  note st = add_le_step [OF Cons.prems, of a b]
  have "le_value (add_le c (a # as) (b # bs)) =
      ?t mod 256 + 256 * ((le_value as + le_value bs + ?t div 256) mod 256 ^ length as)"
    using Cons.IH [OF st(3)] st(1,2) by (simp add: Let_def)
  also have "\<dots> = (?t + 256 * (le_value as + le_value bs)) mod (256 * 256 ^ length as)"
    by (rule carry_mod)
  finally show ?case using Cons.IH [OF st(3)] by (simp add: Let_def algebra_simps)
qed simp

lemma fingerprint_sum:
  assumes "\<forall>i \<in> set items. length (snd i) = 32" and "length s = 32"
  shows "length (foldl (\<lambda>s i. add_le 0 s (snd i)) s items) = 32 \<and>
    le_value (foldl (\<lambda>s i. add_le 0 s (snd i)) s items) mod 256 ^ 32 =
    (le_value s + (\<Sum>i \<leftarrow> items. le_value (snd i))) mod 256 ^ 32"
  using assms
proof (induction items arbitrary: s)
  case (Cons i items)
  have st: "length (add_le 0 s (snd i)) = 32 \<and> le_value (add_le 0 s (snd i)) = (le_value s + le_value (snd i)) mod 256 ^ 32"
    using add_le_value [of s "snd i" 0] Cons.prems by simp
  then show ?case using Cons.IH [of "add_le 0 s (snd i)"] Cons.prems(1)
    by (simp add: mod_add_left_eq add.assoc del: power_numeral)
qed simp

lemma digit_eq: "x < 256 \<Longrightarrow> y < 256 \<Longrightarrow> x + 256 * p = y + 256 * q \<Longrightarrow> x = y \<and> p = q" for x y p q :: nat
proof -
  assume lt: "x < 256" "y < 256" and eq: "x + 256 * p = y + 256 * q"
  have "(x + 256 * p) mod 256 = (y + 256 * q) mod 256" by (simp only: eq)
  then have "x = y" using lt by simp
  then show "x = y \<and> p = q" using eq by simp
qed

lemma le_value_inj: "length a = length b \<Longrightarrow> le_value a = le_value b \<Longrightarrow> a = b"
proof (induction a b rule: list_induct2)
  case (Cons x a y b)
  have "unat x < 256" "unat y < 256" using unsigned_less [of x] unsigned_less [of y] by simp_all
  moreover have "unat x + 256 * le_value a = unat y + 256 * le_value b" using Cons.prems by simp
  ultimately have "unat x = unat y \<and> le_value a = le_value b" by (rule digit_eq)
  then show ?case using Cons.IH by (simp add: word_unat_eq_iff)
qed simp

lemma le_value_less: "le_value a < 256 ^ length a"
proof (induction a)
  case (Cons x a)
  have "unat x < 256" using unsigned_less [of x] by simp
  then show ?case using Cons by simp
qed simp

text \<open>The fingerprint depends only on the sum of the ids modulo \<open>2^256\<close> and their number: in particular not on their order.\<close>

lemma fingerprint_cong:
  assumes "\<forall>i \<in> set xs \<union> set ys. length (snd i) = 32" and "length xs = length ys"
    and "(\<Sum>i \<leftarrow> xs. le_value (snd i)) mod 2 ^ 256 = (\<Sum>i \<leftarrow> ys. le_value (snd i)) mod 2 ^ 256"
  shows "fingerprint E xs = fingerprint E ys"
proof -
  let ?z = "replicate 32 (0 :: u8)"
  let ?f = "\<lambda>items. foldl (\<lambda>s i. add_le 0 s (snd i)) ?z items"
  have z: "le_value ?z = 0" by (simp add: numeral_eq_Suc)
  have e: "(256 :: nat) ^ 32 = 2 ^ 256" by simp
  have fx: "length (?f xs) = 32 \<and> le_value (?f xs) = (\<Sum>i \<leftarrow> xs. le_value (snd i)) mod 256 ^ 32"
    using fingerprint_sum [of xs ?z] assms(1) le_value_less [of "?f xs"] z by (auto simp del: power_numeral)
  have fy: "length (?f ys) = 32 \<and> le_value (?f ys) = (\<Sum>i \<leftarrow> ys. le_value (snd i)) mod 256 ^ 32"
    using fingerprint_sum [of ys ?z] assms(1) le_value_less [of "?f ys"] z by (auto simp del: power_numeral)
  have "?f xs = ?f ys" using fx fy assms(3) unfolding e by (intro le_value_inj) presburger+
  then show ?thesis using assms(2) by (simp add: fingerprint_def Let_def)
qed

end
