(* ===== verification/NegProps.thy ===== *)
theory NegProps
  imports Negentropy Reference
begin

text \<open>
  The guarantees of NIP-77 set reconciliation, over \<open>NegCodec\<close> and \<open>Negentropy\<close>.
\<close>

text \<open>
  C25: reconciliation answers are truthful and complete. When \<open>respond\<close> answers a message, its
  bytes are the encoding of at most 1024 ranges that cover the whole key space up to infinity; every
  id list in it is exactly the server's ids of that range, every fingerprint is that of the server's
  items there, and a range is skipped only where the client skipped it or had the same fingerprint.
\<close>
theorem response_truthful:
  assumes "items_ok items" and "sha256_ok E" and "parse_message msg MAX_NEG_RANGES_PER_MSG = Inr client"
    and "respond E items msg = Inr bytes"
  shows "\<exists>rs. bytes = PROTOCOL_VERSION # encode_ranges 0 rs \<and> ranges_ok 0 rs \<and> length rs \<le> 1024 \<and>
    describes E (dedup_items items) (cover_infinity client) origin rs \<and> last_bound origin rs = infinity"
  by (rule respond_encodes [OF assms])

lemma sha256_ok_ref: "sha256_ok ref_ext"
  by (simp add: sha256_ok_def)

text \<open>A client that knows nothing asks about the whole space with an empty id list.\<close>

definition ask_all :: bytes where
  "ask_all = PROTOCOL_VERSION # encode_ranges 0 [(infinity, PIds [])]"

lemma ask_all_ok: "ranges_ok 0 [(infinity, PIds [])]"
  by (simp add: infinity_def bound_ok_def)

lemma parse_ask_all: "parse_message ask_all MAX_NEG_RANGES_PER_MSG = Inr [\<lparr>upper = infinity, mode = IdList\<rparr>]"
  using parse_message_encode [OF ask_all_ok, of MAX_NEG_RANGES_PER_MSG] by (simp add: ask_all_def neg_limits)

lemma ask_all_ordered: "ordered_from origin [\<lparr>upper = infinity, mode = IdList\<rparr>]"
  by (simp add: infinity_def is_infinity_def bound_le_def)

lemma ids_less: "replicate 32 (0 :: u8) < replicate 32 1"
  by (simp add: numeral_eq_Suc)

lemma items_ok_ex: "items_ok [(5, replicate 32 0), (5, replicate 32 1)]"
  using ids_less by (simp add: items_ok_def less_eq_prod_def)

theorem response_truthful_witness:
  "\<exists>bytes rs. respond ref_ext [(5, replicate 32 0), (5, replicate 32 1)] ask_all = Inr bytes \<and>
     bytes = PROTOCOL_VERSION # encode_ranges 0 rs \<and> last_bound origin rs = infinity"
proof -
  obtain bytes where "respond ref_ext [(5, replicate 32 0), (5, replicate 32 1)] ask_all = Inr bytes"
    using respond_ordered [OF parse_ask_all ask_all_ordered] by blast
  then show ?thesis using response_truthful [OF items_ok_ex sha256_ok_ref parse_ask_all] by blast
qed

text \<open>
  C26: a well-formed message with ordered bounds is always answered, and the answer is again such a
  message, so a peer running the same code always answers it: a session never gets stuck on an error.
\<close>
theorem session_never_stuck:
  assumes "items_ok items" and "sha256_ok E" and "parse_message msg MAX_NEG_RANGES_PER_MSG = Inr client"
    and "ordered_from origin client"
  shows "\<exists>bytes reply. respond E items msg = Inr bytes \<and> respond E' items' bytes = Inr reply"
  using respond_ordered [OF assms(3,4)] respond_answerable [OF assms(1,2,3)] by metis

theorem session_never_stuck_witness:
  "\<exists>bytes reply. respond ref_ext [(5, replicate 32 0), (5, replicate 32 1)] ask_all = Inr bytes
     \<and> respond ref_ext [] bytes = Inr reply"
  by (rule session_never_stuck [OF items_ok_ex sha256_ok_ref parse_ask_all ask_all_ordered])

text \<open>
  C27: parsing a written message gives back its ranges: bounds with delta-coded timestamps and id
  prefixes, skip, fingerprint and id-list modes, for every message within the range cap.
\<close>
theorem neg_message_roundtrip:
  assumes "ranges_ok 0 rs" and "length rs \<le> max_ranges"
  shows "parse_message (PROTOCOL_VERSION # encode_ranges 0 rs) max_ranges =
    Inr (map (\<lambda>(b, p). \<lparr>upper = b, mode = payload_mode p\<rparr>) rs)"
  by (rule parse_message_encode [OF assms])

theorem neg_message_roundtrip_witness:
  "parse_message (PROTOCOL_VERSION # encode_ranges 0 [(\<lparr>ts = 7, prefix_ids = [1]\<rparr>, PSkip), (infinity, PIds [replicate 32 2])]) 2 =
    Inr [\<lparr>upper = \<lparr>ts = 7, prefix_ids = [1]\<rparr>, mode = Skip\<rparr>, \<lparr>upper = infinity, mode = IdList\<rparr>]"
  using neg_message_roundtrip [of "[(\<lparr>ts = 7, prefix_ids = [1]\<rparr>, PSkip), (infinity, PIds [replicate 32 2])]" 2] u64_max_max [of 7]
  by (simp add: infinity_def bound_ok_def)

text \<open>
  every 64-bit integer survives the variable-length coding, in at most 10 bytes and whatever
  surrounds it in the message.
\<close>
theorem varint_roundtrip:
  "read_varint (pre @ write_varint v @ post) (length pre) = Inr (v, length pre + length (write_varint v))
   \<and> length (write_varint v) \<le> 10"
  using read_write_varint length_write_varint_le by blast

text \<open>
  the split point between two neighbouring items is a valid bound that lies strictly above the
  first and not above the second, for items that differ in time or only in their id.
\<close>
theorem split_bound_between:
  assumes "a < b" and "length (snd a) = 32" and "length (snd b) = 32" and "fst b \<noteq> u64_max"
  shows "bound_ok (split_bound a b) \<and> item_cmp a (split_bound a b) = Less \<and> item_cmp b (split_bound a b) \<noteq> Less"
  using split_bound_separates [OF assms] by (simp add: item_cmp_Less)

theorem split_bound_between_witness:
  "item_cmp (5, replicate 32 0) (split_bound (5, replicate 32 0) (5, replicate 32 1)) = Less
   \<and> item_cmp (5, replicate 32 1) (split_bound (5, replicate 32 0) (5, replicate 32 1)) \<noteq> Less"
  using split_bound_between [of "(5, replicate 32 0)" "(5, replicate 32 1)"] ids_less
  by simp

text \<open>
  C28: a fingerprint depends only on the number of items and on the sum of their ids modulo
  \<open>2^256\<close>, so both sides compute the same one for the same set, in whatever order they hold it.
\<close>
theorem fingerprint_of_sum:
  assumes "\<forall>i \<in> set xs \<union> set ys. length (snd i) = 32" and "length xs = length ys"
    and "(\<Sum>i \<leftarrow> xs. le_value (snd i)) mod 2 ^ 256 = (\<Sum>i \<leftarrow> ys. le_value (snd i)) mod 2 ^ 256"
  shows "fingerprint E xs = fingerprint E ys"
  by (rule fingerprint_cong [OF assms])

theorem fingerprint_of_sum_witness:
  "fingerprint ref_ext [(5, replicate 32 0), (6, replicate 32 1)] = fingerprint ref_ext [(6, replicate 32 1), (5, replicate 32 0)]"
  by (rule fingerprint_of_sum) (auto simp: add.commute)

end
