(* ===== verification/FeedProps.thy ===== *)
theory FeedProps
  imports SubIndex Reference
begin

text \<open>
  The guarantees of request filters, full-text search and the live subscription index, over
  \<open>ReqFilter\<close>, \<open>Search\<close> and \<open>SubIndex\<close>.
\<close>

section \<open>Reachable indexes\<close>

text \<open>The index as the connections drive it: registrations (which replace an earlier one) and removals.\<close>

inductive live_index :: "subscription_index \<Rightarrow> bool" where
  fresh: "live_index empty_index"
| subscribe: "live_index I \<Longrightarrow> live_index (register I c comps)"
| disconnect: "live_index I \<Longrightarrow> live_index (unregister I c)"

inductive_cases live_index_cases: "live_index I"

lemma live_index_inv: "live_index I \<Longrightarrow> index_inv I"
  by (induction rule: live_index.induct) (simp_all add: index_inv_empty index_inv_register index_inv_unregister)

lemma holders_registered: "c \<in> holders R P \<Longrightarrow> R c \<noteq> None"
  by (auto simp: holders_def)

lemma candidates_registered:
  assumes "index_inv I" and "c \<in> candidates X I e"
  shows "registered I c \<noteq> None"
proof -
  have e: "c \<in> entry_look (kinds_ix I) k \<Longrightarrow> registered I c \<noteq> None" "c \<in> entry_look (authors_ix I) a \<Longrightarrow> registered I c \<noteq> None"
    "c \<in> tag_look (tags_ix I) (n, v) \<Longrightarrow> registered I c \<noteq> None" "c \<in> all_ix I \<Longrightarrow> registered I c \<noteq> None" for k a n v
    using assms(1) by (auto simp: index_inv_def holders_def)
  show ?thesis using assms(2) e
    by (auto simp: candidates_def extend_candidates_def split: option.splits if_splits)
qed

lemma matches_terms_iff:
  "matches_terms U text ts \<longleftrightarrow> ts = [] \<or> (\<exists>w \<in> set (tokenize U text). w \<in> set ts)"
  by (simp add: matches_terms_def tokenize_def matches_terms_loop_iff)

section \<open>Properties\<close>

text \<open>
  C29: live delivery misses nobody. In every index built by registrations and removals, a connection
  that registered a filter matching a verified event is among the event's candidates.
\<close>
theorem live_delivery_complete:
  assumes "hex_codec (hex_encode X) (hex_decode X)" and "hash_order hs" and "distinct (map fst (ftags f))"
    and "author_fields_ok X e" and "filter_matches U hs f e"
    and "live_index I" and "registered I conn = Some comps" and "components_of X f \<in> set comps"
  shows "conn \<in> candidates X I e"
  by (rule candidates_complete [OF assms(1-5) live_index_inv [OF assms(6)] assms(7,8)])

definition ex_filter :: filter_req where
  "ex_filter = \<lparr>ids = None, authors = None, kinds = Some [1, 7], since = None, until = None, limit = None,
     search = None, ftags = [(''#t'', JArr [JStr ''nostr''])]\<rparr>"

lemma ex_filter_fields [simp]:
  "ids ex_filter = None" "authors ex_filter = None" "kinds ex_filter = Some [1, 7]" "since ex_filter = None"
  "until ex_filter = None" "search ex_filter = None" "ftags ex_filter = [(''#t'', JArr [JStr ''nostr''])]"
  by (simp_all add: ex_filter_def)

lemma ex_filter_matches: "filter_matches ref_unicode remdups ex_filter ex_note"
proof -
  have "tag_constraints_hold (ftags ex_filter) (tags ex_note)"
    by (simp add: tag_constraints_hold_def attribute_holds_def constraint_name_def strip_prefix_def starts_with_def
        tag_values_def map_filter_simps tag_present_def and_values_def)
  then have "plan_matches (plan_new remdups (ftags ex_filter)) (tags ex_note)"
    using plan_new_matches [OF hash_order_remdups, of "ftags ex_filter"] by simp
  then show ?thesis by (simp add: filter_matches_def matches_with_def)
qed

lemma ex_author_ok: "author_fields_ok ref_ext ex_note"
  by (simp add: author_fields_ok_def ex_bytes delegator_tag_def)

theorem live_delivery_complete_witness:
  "3 \<in> candidates ref_ext (unregister (register (register empty_index 3 [components_of ref_ext ex_filter]) 4 [All]) 4) ex_note"
proof (rule live_delivery_complete [OF ref_codec hash_order_remdups _ ex_author_ok ex_filter_matches])
  show "live_index (unregister (register (register empty_index 3 [components_of ref_ext ex_filter]) 4 [All]) 4)"
    by (intro live_index.intros)
  show "registered (unregister (register (register empty_index 3 [components_of ref_ext ex_filter]) 4 [All]) 4) 3 =
      Some [components_of ref_ext ex_filter]"
    by (simp add: unregister_registered register_registered)
qed simp_all

text \<open>
  a disconnected connection is gone. After \<open>unregister\<close>, whatever the index held before, the
  connection is a candidate for no event, and every other connection is a candidate for exactly the
  same events.
\<close>
theorem unregister_exact:
  assumes "live_index I"
  shows "candidates X (unregister I c) e = candidates X I e - {c}"
proof -
  have inv: "index_inv I" and inv': "index_inv (unregister I c)"
    using assms live_index_inv live_index.disconnect by blast+
  have h: "holders ((registered I)(c := None)) P = holders (registered I) P - {c}" for P
    by (auto simp: holders_def)
  have "entry_look (kinds_ix (unregister I c)) k = entry_look (kinds_ix I) k - {c}"
    "entry_look (authors_ix (unregister I c)) a = entry_look (authors_ix I) a - {c}"
    "tag_look (tags_ix (unregister I c)) t = tag_look (tags_ix I) t - {c}"
    "all_ix (unregister I c) = all_ix I - {c}" for k a t
    using inv inv' by (simp_all only: index_inv_def unregister_registered h)
  then show ?thesis
    by (auto simp: candidates_def extend_candidates_def split: option.splits if_splits)
qed

theorem unregister_exact_witness:
  "candidates ref_ext (unregister (register empty_index 3 [All]) 3) ex_note = {}"
proof -
  have "candidates ref_ext (unregister (register empty_index 3 [All]) 3) ex_note =
      candidates ref_ext (register empty_index 3 [All]) ex_note - {3}"
    by (rule unregister_exact) (intro live_index.intros)
  moreover have "candidates ref_ext (register empty_index 3 [All]) ex_note \<subseteq> {3}"
    using candidates_registered [OF live_index_inv [OF live_index.subscribe [OF live_index.fresh]], of _ ref_ext 3 "[All]" ex_note]
    by (fastforce simp: register_registered empty_index_def split: if_splits)
  ultimately show ?thesis by blast
qed

text \<open>
  C30: the compiled tag plan means what the filter says. For a filter object, \<open>TagMatchPlan\<close> (hash
  tables and a satisfied bitmap) accepts a tag list exactly when every \<open>#x\<close> attribute has a value
  present that is not already required by \<open>&x\<close>, every value of every \<open>&x\<close> attribute is present, and no
  attribute is empty, whatever order the hash sets iterate in.
\<close>
theorem tag_plan_correct:
  assumes "hash_order hs" and "distinct (map fst all)"
  shows "plan_matches (plan_new hs all) ts \<longleftrightarrow> tag_constraints_hold all ts"
  by (rule plan_new_matches [OF assms])

theorem tag_plan_correct_witness:
  "plan_matches (plan_new remdups [(''&t'', JArr [JStr ''a'', JStr ''b''])]) [[''t'', ''b''], [''t'', ''a'']]
   \<and> \<not> plan_matches (plan_new remdups [(''&t'', JArr [JStr ''a'', JStr ''b''])]) [[''t'', ''b'']]"
  using tag_plan_correct [OF hash_order_remdups, of "[(''&t'', JArr [JStr ''a'', JStr ''b''])]"]
  by (simp add: tag_constraints_hold_def attribute_holds_def constraint_name_def strip_prefix_def starts_with_def
      tag_values_def map_filter_simps tag_present_def)

text \<open>
  C31: a filter matches exactly the events its fields describe: an even-length hex id prefix, the
  author or the delegator compared without case, the kind, the closed time window, one of the
  first 32 search terms as a whole word of the content, and the tag attributes.
\<close>
theorem filter_matches_spec:
  assumes "hash_order hs" and "distinct (map fst (ftags f))"
  shows "filter_matches U hs f e \<longleftrightarrow>
      (\<forall>is. ids f = Some is \<longrightarrow> (\<exists>i \<in> set is. i \<noteq> [] \<and> even (length i) \<and> length i \<le> length (ev_id e)
          \<and> eq_ignore_ascii_case (take (length i) (ev_id e)) i))
    \<and> (\<forall>as. authors f = Some as \<longrightarrow> (\<exists>a \<in> set as. eq_ignore_ascii_case a (pubkey e)
          \<or> (\<exists>t. delegator_tag (tags e) = Some t \<and> eq_ignore_ascii_case a (t ! 1))))
    \<and> (\<forall>ks. kinds f = Some ks \<longrightarrow> kind e \<in> set ks)
    \<and> (\<forall>s. since f = Some s \<longrightarrow> s \<le> created_at e) \<and> (\<forall>u. until f = Some u \<longrightarrow> created_at e \<le> u)
    \<and> (\<forall>s. search f = Some s \<longrightarrow> trim s = [] \<or> terms U s = []
          \<or> (\<exists>w \<in> set (tokenize U (content e)). w \<in> set (terms U s)))
    \<and> tag_constraints_hold (ftags f) (tags e)"
proof -
  have i: "id_matches i s \<longleftrightarrow> i \<noteq> [] \<and> even (length i) \<and> length i \<le> length s \<and> eq_ignore_ascii_case (take (length i) s) i" for i s
    by (rule id_matches_iff)
  have a: "author_matches as e \<longleftrightarrow> (\<exists>a \<in> set as. eq_ignore_ascii_case a (pubkey e)
      \<or> (\<exists>t. delegator_tag (tags e) = Some t \<and> eq_ignore_ascii_case a (t ! 1)))" for as
    by (auto simp: author_matches_def hex_eq_iff split: option.splits)
  have s: "search_matches U s c \<longleftrightarrow> terms U s = [] \<or> (\<exists>w \<in> set (tokenize U c). w \<in> set (terms U s))" for s c
    using length_terms [of U s] by (simp add: search_matches_def matches_terms_iff)
  have opt: "(case x of None \<Rightarrow> False | Some y \<Rightarrow> P y) \<longleftrightarrow> \<not> (\<forall>y. x = Some y \<longrightarrow> \<not> P y)" for x :: "'x option" and P
    by (cases x) auto
  have chain: "(if \<not> A then False else if \<not> B then False else if \<not> C then False else if \<not> D then False
      else if \<not> E then False else if \<not> F then False else G) \<longleftrightarrow> A \<and> B \<and> C \<and> D \<and> E \<and> F \<and> G" for A B C D E F G
    by simp
  show ?thesis
    unfolding filter_matches_def matches_with_def plan_new_matches [OF assms] opt i a s chain
    by (simp only: not_not not_less de_Morgan_conj)
qed

theorem filter_matches_spec_witness:
  "kind ex_note \<in> {1, 7} \<and> tag_constraints_hold (ftags ex_filter) (tags ex_note)"
  using filter_matches_spec [OF hash_order_remdups, of ex_filter ref_unicode ex_note] ex_filter_matches by simp

text \<open>
  search costs are bounded and the streaming matcher agrees with the tokenizer. A query yields at
  most 32 terms of at least two bytes, which are the first words of its non-extension tokens, and the
  allocation-free scan of a text finds a term exactly when tokenizing the text would.
\<close>
theorem search_terms_bounded:
  "length (terms U query) \<le> SEARCH_MAX_TERMS \<and> (\<forall>w \<in> set (terms U query). 2 \<le> length w)
   \<and> terms U query = take SEARCH_MAX_TERMS (concat (map (\<lambda>t. query_words U (chars t) [])
       (filter (\<lambda>t. CHR '':'' \<notin> set t) (split_whitespace (floor_char_boundary query MAX_SEARCH_BYTES)))))
   \<and> (matches_terms U text ts \<longleftrightarrow> ts = [] \<or> (\<exists>w. w \<in> set (tokenize U text) \<and> w \<in> set ts))"
proof (intro conjI)
  show "\<forall>w \<in> set (terms U query). 2 \<le> length w"
    unfolding terms_eq using query_words_long by (fastforce dest!: in_set_takeD)
qed (use length_terms terms_eq matches_terms_iff in blast)+

theorem search_terms_bounded_witness:
  "length (terms ref_unicode ''hello nostr'') \<le> SEARCH_MAX_TERMS
   \<and> (matches_terms ref_unicode ''hello nostr'' [''nostr''] \<longleftrightarrow> ''nostr'' \<in> set (tokenize ref_unicode ''hello nostr''))"
  using search_terms_bounded [of ref_unicode "''hello nostr''" "''hello nostr''" "[''nostr'']"] by auto

end
