(* ===== verification/Bech32.thy ===== *)
theory Bech32
  imports ReqFilter
begin

text \<open>
  NIP-19 entities and the bech32 codec (\<open>src/src/nips/nip19.rs\<close>): the BCH checksum, the regrouping
  of bits, encoding, decoding and TLV parsing, and the \<open>inbox\<close>/\<open>outbox\<close> filter extension of
  \<open>src/src/filter.rs\<close>, which reads NIP-19 keys. The checksum is shown correct through the linearity
  of its register over GF(2), the bit regrouping through bit strings.
\<close>

section \<open>The checksum\<close>

definition CHARSET :: string where "CHARSET = ''qpzry9x8gf2tvdw0s3jn54khce6mua7l''"

definition GEN :: "u32 list" where
  "GEN = [0x3b6a57b2, 0x26508e6d, 0x1ea119fa, 0x3d4233dd, 0x2a1462b3]"

text \<open>The inner loop over \<open>GEN.iter().enumerate()\<close>.\<close>

fun gen_loop :: "u32 \<Rightarrow> nat \<Rightarrow> u32 list \<Rightarrow> u32 \<Rightarrow> u32" where
  "gen_loop hi5 i [] chk = chk"
| "gen_loop hi5 i (g # gs) chk =
     gen_loop hi5 (i + 1) gs (if drop_bit i hi5 AND 1 = 1 then chk XOR g else chk)"

definition polymod_step :: "u32 \<Rightarrow> u8 \<Rightarrow> u32" where
  "polymod_step chk v =
     (let hi5 = drop_bit 25 chk
      in gen_loop hi5 0 GEN (push_bit 5 (chk AND 0x1ffffff) XOR ucast v))"

definition polymod :: "bytes \<Rightarrow> u32" where
  "polymod values = foldl polymod_step 1 values"

definition hrp_expand :: "bytes \<Rightarrow> bytes" where
  "hrp_expand hrp = map (drop_bit 5) hrp @ [0] @ map (\<lambda>b. b AND 31) hrp"

definition verify_checksum :: "bytes \<Rightarrow> bytes \<Rightarrow> bool option" where
  "verify_checksum hrp data =
     (let poly = polymod (hrp_expand hrp @ data)
      in if poly = 1 then Some False else if poly = 0x2bc830a3 then Some True else None)"

text \<open>\<open>CHARSET.iter().position(|&c| c == ch)\<close>.\<close>

fun position :: "'a \<Rightarrow> 'a list \<Rightarrow> nat option" where
  "position x [] = None"
| "position x (y # ys) = (if y = x then Some 0 else map_option Suc (position x ys))"

definition charset_pos :: "char \<Rightarrow> u8 option" where
  "charset_pos c = map_option of_nat (position c CHARSET)"

text \<open>\<open>map(..).collect::<Option<Vec<_>>>()\<close>.\<close>

fun collect :: "('a \<Rightarrow> 'b option) \<Rightarrow> 'a list \<Rightarrow> 'b list option" where
  "collect f [] = Some []"
| "collect f (x # xs) = Option.bind (f x) (\<lambda>y. map_option ((#) y) (collect f xs))"

definition to_lowercase :: "unicode \<Rightarrow> string \<Rightarrow> string" where
  "to_lowercase U s = concat (map (lower U) (chars s))"

definition bech32_checksum_valid :: "unicode \<Rightarrow> string \<Rightarrow> string \<Rightarrow> bool" where
  "bech32_checksum_valid U hrp s0 =
     (let is_lower = \<not> (\<exists>c \<in> set s0. is_ascii_uppercase c);
          is_upper = \<not> (\<exists>c \<in> set s0. is_ascii_lowercase c)
      in if \<not> is_lower \<and> \<not> is_upper then False
         else case Option.bind (strip_prefix hrp (to_lowercase U s0)) (strip_prefix ''1'') of
           None \<Rightarrow> False
         | Some body \<Rightarrow>
             if length body < 6 then False
             else (case collect charset_pos body of
                     None \<Rightarrow> False
                   | Some data \<Rightarrow> verify_checksum (as_bytes hrp) data = Some False))"

definition checksum_digits :: "u32 \<Rightarrow> bytes" where
  "checksum_digits poly = map (\<lambda>i. ucast (drop_bit (5 * (5 - i)) poly AND 31)) [0..<6]"

definition create_checksum :: "bytes \<Rightarrow> bytes \<Rightarrow> bytes" where
  "create_checksum hrp data = checksum_digits (polymod (hrp_expand hrp @ data @ replicate 6 0) XOR 1)"

definition create_checksum_m :: "bytes \<Rightarrow> bytes \<Rightarrow> bytes" where
  "create_checksum_m hrp data = checksum_digits (polymod (hrp_expand hrp @ data @ replicate 6 0) XOR 0x2bc830a3)"

section \<open>Regrouping bits\<close>

text \<open>The inner \<open>while\<close> of \<open>convert_bits\<close>; every call has \<open>to_bits > 0\<close>.\<close>

definition maxv :: "nat \<Rightarrow> u32" where "maxv to_bits = push_bit to_bits 1 - 1"

function emit :: "nat \<Rightarrow> u32 \<Rightarrow> nat \<Rightarrow> bytes \<Rightarrow> nat \<times> bytes" where
  "emit to_bits acc bits out_bytes =
     (if to_bits \<le> bits \<and> 0 < to_bits then
        emit to_bits acc (bits - to_bits) (out_bytes @ [ucast (drop_bit (bits - to_bits) acc AND maxv to_bits)])
      else (bits, out_bytes))"
  by pat_completeness auto
termination by (relation "measure (\<lambda>(_, _, bits, _). bits)") auto

declare emit.simps [simp del]

fun convert_loop :: "nat \<Rightarrow> nat \<Rightarrow> bytes \<Rightarrow> u32 \<Rightarrow> nat \<Rightarrow> bytes \<Rightarrow> string + (u32 \<times> nat \<times> bytes)" where
  "convert_loop from_bits to_bits [] acc bits out_bytes = Inr (acc, bits, out_bytes)"
| "convert_loop from_bits to_bits (v # vs) acc bits out_bytes =
     (if drop_bit from_bits (ucast v :: u32) \<noteq> 0 then Inl ''invalid data in bech32 encoding''
      else
        (let acc' = push_bit from_bits acc OR ucast v;
             (bits', out') = emit to_bits acc' (bits + from_bits) out_bytes
         in convert_loop from_bits to_bits vs acc' bits' out'))"

definition convert_bits :: "bytes \<Rightarrow> nat \<Rightarrow> nat \<Rightarrow> bool \<Rightarrow> string + bytes" where
  "convert_bits data from_bits to_bits pad =
     (case convert_loop from_bits to_bits data 0 0 [] of
        Inl err \<Rightarrow> Inl err
      | Inr (acc, bits, out_bytes) \<Rightarrow>
          if pad then
            Inr (if 0 < bits then out_bytes @ [ucast (push_bit (to_bits - bits) acc AND maxv to_bits)] else out_bytes)
          else if from_bits \<le> bits \<or> push_bit (to_bits - bits) acc AND maxv to_bits \<noteq> 0 then
            Inl ''invalid data in bech32 encoding''
          else Inr out_bytes)"

section \<open>Decoding and encoding\<close>

definition invalid_char :: "char \<Rightarrow> string" where
  "invalid_char c = ''invalid bech32 character '' @ [CHR 0x27, c, CHR 0x27]"

definition bech32_decode :: "string \<Rightarrow> string + (string \<times> bytes \<times> bool)" where
  "bech32_decode input =
     (if 5000 < chars_count input then Inl ''bech32 string exceeds the 5000-character limit''
      else if \<not> list_all is_ascii input then Inl (invalid_char CHR ''?'')
      else
        (let has_lower = (\<exists>c \<in> set input. is_ascii_lowercase c);
             has_upper = (\<exists>c \<in> set input. is_ascii_uppercase c)
         in if has_lower \<and> has_upper then Inl (invalid_char CHR ''?'')
            else
              (let normalized = (if has_upper then to_ascii_lowercase input else input) in
               case rsplit_once CHR ''1'' normalized of
                 None \<Rightarrow> Inl (''missing bech32 separator '' @ [CHR 0x27, CHR ''1'', CHR 0x27])
               | Some (hrp, data_part) \<Rightarrow>
                   if hrp = [] then Inl ''empty human-readable part''
                   else if data_part = [] then Inl ''empty data part''
                   else (case List.find (\<lambda>c. c \<notin> set CHARSET) data_part of
                     Some c \<Rightarrow> Inl (invalid_char c)
                   | None \<Rightarrow>
                       (let data_5bit = map (\<lambda>c. the (charset_pos c)) data_part in
                        if length data_5bit < 6 then Inl ''invalid bech32m checksum''
                        else (case verify_checksum (as_bytes hrp) data_5bit of
                          None \<Rightarrow> Inl ''invalid bech32m checksum''
                        | Some is_bech32m \<Rightarrow>
                            Inr (hrp, take (length data_5bit - 6) data_5bit, is_bech32m)))))))"

definition encode_with :: "(bytes \<Rightarrow> bytes \<Rightarrow> bytes) \<Rightarrow> string \<Rightarrow> bytes \<Rightarrow> string + string" where
  "encode_with checksum hrp data =
     (case convert_bits data 8 5 True of
        Inl err \<Rightarrow> Inl err
      | Inr data_5bit \<Rightarrow>
          Inr (hrp @ ''1'' @ map (\<lambda>b. CHARSET ! unat b) (data_5bit @ checksum (as_bytes hrp) data_5bit)))"

definition bech32_encode :: "string \<Rightarrow> bytes \<Rightarrow> string + string" where
  "bech32_encode hrp data = encode_with create_checksum hrp data"

definition bech32m_encode :: "string \<Rightarrow> bytes \<Rightarrow> string + string" where
  "bech32m_encode hrp data = encode_with create_checksum_m hrp data"

section \<open>Entities\<close>

datatype nip19_entity =
    Pubkey bytes
  | Note bytes
  | EventRef bytes "string list" "bytes option" "u64 option"
  | Addr u64 bytes string "string list"

definition TLV_SPECIAL :: u8 where "TLV_SPECIAL = 0"
definition TLV_RELAY :: u8 where "TLV_RELAY = 1"
definition TLV_AUTHOR :: u8 where "TLV_AUTHOR = 2"
definition TLV_KIND :: u8 where "TLV_KIND = 3"

function parse_tlv :: "bytes \<Rightarrow> string + (u8 \<times> bytes) list" where
  "parse_tlv [] = Inr []"
| "parse_tlv [x] = Inl ''invalid TLV structure''"
| "parse_tlv (t # l # rest) =
     (if length rest < unat l then Inl ''invalid TLV structure''
      else case parse_tlv (drop (unat l) rest) of
        Inl err \<Rightarrow> Inl err
      | Inr items \<Rightarrow> Inr ((t, take (unat l) rest) # items))"
  by pat_completeness auto
termination by (relation "measure length") auto

text \<open>The accumulators of the TLV loops.\<close>

record tlv_acc =
  t_special :: "bytes option"
  t_dtag :: "string option"
  t_relays :: "string list"
  t_author :: "bytes option"
  t_kind :: "u64 option"

definition tlv_start :: tlv_acc where
  "tlv_start = \<lparr>t_special = None, t_dtag = None, t_relays = [], t_author = None, t_kind = None\<rparr>"

definition add_relay :: "bytes \<Rightarrow> tlv_acc \<Rightarrow> tlv_acc" where
  "add_relay v a = (case from_utf8 v of Some s \<Rightarrow> a\<lparr>t_relays := t_relays a @ [s]\<rparr> | None \<Rightarrow> a)"

definition nevent_step :: "tlv_acc \<Rightarrow> u8 \<times> bytes \<Rightarrow> tlv_acc" where
  "nevent_step a tv =
     (let (t, v) = tv in
      if t = TLV_SPECIAL \<and> length v = 32 then a\<lparr>t_special := Some v\<rparr>
      else if t = TLV_RELAY then add_relay v a
      else if t = TLV_AUTHOR \<and> length v = 32 then a\<lparr>t_author := Some v\<rparr>
      else if t = TLV_KIND \<and> length v = 4 then a\<lparr>t_kind := Some (of_nat (be_nat v))\<rparr>
      else a)"

fun naddr_loop :: "(u8 \<times> bytes) list \<Rightarrow> tlv_acc \<Rightarrow> string + tlv_acc" where
  "naddr_loop [] a = Inr a"
| "naddr_loop ((t, v) # items) a =
     (if t = TLV_KIND \<and> length v = 4 then naddr_loop items (a\<lparr>t_kind := Some (of_nat (be_nat v))\<rparr>)
      else if t = TLV_AUTHOR \<and> length v = 32 then naddr_loop items (a\<lparr>t_author := Some v\<rparr>)
      else if t = TLV_SPECIAL then
        (case from_utf8 v of
           Some s \<Rightarrow> naddr_loop items (a\<lparr>t_dtag := Some s\<rparr>)
         | None \<Rightarrow> Inl ''invalid TLV structure'')
      else if t = TLV_RELAY then naddr_loop items (add_relay v a)
      else naddr_loop items a)"

definition nprofile_step :: "bytes option \<Rightarrow> u8 \<times> bytes \<Rightarrow> bytes option" where
  "nprofile_step p tv = (if fst tv = TLV_SPECIAL \<and> length (snd tv) = 32 then Some (snd tv) else p)"

definition fixed32 :: "(bytes \<Rightarrow> nip19_entity) \<Rightarrow> bytes \<Rightarrow> string + nip19_entity" where
  "fixed32 mk data =
     (if length data \<noteq> 32 then Inl (''invalid length: expected 32, got '' @ show_nat (length data))
      else Inr (mk data))"

definition parse_nip19 :: "string \<Rightarrow> string + nip19_entity" where
  "parse_nip19 input =
     (case bech32_decode input of
        Inl err \<Rightarrow> Inl err
      | Inr (hrp, data_5bit, _) \<Rightarrow>
          (case convert_bits data_5bit 5 8 False of
             Inl err \<Rightarrow> Inl err
           | Inr data \<Rightarrow>
               if hrp = ''npub'' then fixed32 Pubkey data
               else if hrp = ''note'' then fixed32 Note data
               else if hrp = ''nevent'' then
                 (case parse_tlv data of
                    Inl err \<Rightarrow> Inl err
                  | Inr tlv \<Rightarrow>
                      (let a = foldl nevent_step tlv_start tlv in
                       case t_special a of
                         None \<Rightarrow> Inl ''invalid TLV structure''
                       | Some i \<Rightarrow> Inr (EventRef i (t_relays a) (t_author a) (t_kind a))))
               else if hrp = ''naddr'' then
                 (case parse_tlv data of
                    Inl err \<Rightarrow> Inl err
                  | Inr tlv \<Rightarrow>
                      (case naddr_loop tlv tlv_start of
                         Inl err \<Rightarrow> Inl err
                       | Inr a \<Rightarrow>
                           (case (t_kind a, t_author a) of
                              (Some k, Some p) \<Rightarrow>
                                Inr (Addr k p (case t_dtag a of None \<Rightarrow> [] | Some d \<Rightarrow> d) (t_relays a))
                            | _ \<Rightarrow> Inl ''invalid TLV structure'')))
               else if hrp = ''nprofile'' then
                 (case parse_tlv data of
                    Inl err \<Rightarrow> Inl err
                  | Inr tlv \<Rightarrow>
                      (case foldl nprofile_step None tlv of
                         None \<Rightarrow> Inl ''invalid TLV structure''
                       | Some p \<Rightarrow> Inr (Pubkey p)))
               else Inl (''unknown NIP-19 prefix '' @ [CHR 0x27] @ hrp @ [CHR 0x27])))"

datatype nip19_hex = HexPubkey string | HexEventId string | HexAddr u64 string string

fun nip19_to_hex :: "ext \<Rightarrow> nip19_entity \<Rightarrow> nip19_hex" where
  "nip19_to_hex X (Pubkey pk) = HexPubkey (hex_encode X pk)"
| "nip19_to_hex X (Note i) = HexEventId (hex_encode X i)"
| "nip19_to_hex X (EventRef i _ _ _) = HexEventId (hex_encode X i)"
| "nip19_to_hex X (Addr k pk d _) = HexAddr k (hex_encode X pk) d"


section \<open>The register is linear\<close>

lemma gen_bit: "drop_bit i (h :: u32) AND 1 = 1 \<longleftrightarrow> bit h i"
proof -
  have "drop_bit i h AND 1 = of_bool (bit h i)"
    by (simp add: and_one_eq mod_2_eq_odd bit_iff_odd_drop_bit)
  then show ?thesis by simp
qed

lemma gen_loop_xor: "gen_loop (h XOR h') i gs (a XOR b) = gen_loop h i gs a XOR gen_loop h' i gs b"
proof (induction gs arbitrary: i a b)
  case (Cons g gs)
  have "(if bit (h XOR h') i then (a XOR b) XOR g else a XOR b) =
      (if bit h i then a XOR g else a) XOR (if bit h' i then b XOR g else b)"
    by (auto simp: bit_xor_iff xor.assoc xor.left_commute xor.commute)
  then show ?case by (simp only: gen_loop.simps gen_bit Cons.IH)
qed simp

lemma gen_loop_zero: "gen_loop 0 i gs c = c"
  by (induction gs arbitrary: i c) simp_all

lemma ucast_xor: "(ucast ((v :: u8) XOR w) :: u32) = ucast v XOR ucast w"
  by (rule bit_eqI) (auto simp: bit_unsigned_iff bit_xor_iff)

lemma and_xor: "(a XOR b) AND m = (a AND m) XOR (b AND (m :: u32))"
  by (rule bit_eqI) (auto simp: bit_xor_iff bit_and_iff)

lemma mask31: "(31 :: u32) = mask 5"
  by (simp add: mask_eq_decr_exp)

lemma polymod_step_xor: "polymod_step (a XOR b) (v XOR w) = polymod_step a v XOR polymod_step b w"
proof -
  have "push_bit 5 ((a XOR b) AND 0x1ffffff) XOR ucast (v XOR w) =
      (push_bit 5 (a AND 0x1ffffff) XOR ucast v) XOR (push_bit 5 (b AND 0x1ffffff) XOR ucast w)"
    by (simp add: ucast_xor and_xor push_bit_xor xor.assoc xor.left_commute xor.commute)
  then show ?thesis by (simp only: polymod_step_def Let_def drop_bit_xor gen_loop_xor)
qed

lemma polymod_step_small:
  assumes "take_bit 25 x = x"
  shows "polymod_step x v = push_bit 5 x XOR ucast v"
proof -
  have "drop_bit 25 x = drop_bit 25 (take_bit 25 x)" using assms by simp
  also have "\<dots> = 0" by (simp add: drop_bit_take_bit)
  finally have d: "drop_bit 25 x = 0" .
  have "x AND 0x1ffffff = take_bit 25 x" by (simp add: take_bit_eq_mask mask_eq_decr_exp)
  then show ?thesis using assms by (simp add: polymod_step_def d gen_loop_zero)
qed

lemma gen_loop_small:
  "\<forall>g \<in> set gs. take_bit 30 g = g \<Longrightarrow> take_bit 30 c = c \<Longrightarrow> take_bit 30 (gen_loop h i gs c) = gen_loop h i gs c"
  by (induction gs arbitrary: i c) (auto simp: take_bit_xor)

lemma polymod_step_bound: "take_bit 30 (polymod_step c v) = polymod_step c v"
proof -
  have "c AND 0x1ffffff = take_bit 25 c" by (simp add: take_bit_eq_mask mask_eq_decr_exp)
  then have "take_bit 30 (push_bit 5 (c AND 0x1ffffff) XOR ucast v) = push_bit 5 (c AND 0x1ffffff) XOR ucast v"
    by (intro bit_eqI) (auto simp: bit_take_bit_iff bit_xor_iff bit_push_bit_iff bit_unsigned_iff dest: bit_imp_le_length)
  moreover have "\<forall>g \<in> set GEN. take_bit 30 g = g" by (simp add: GEN_def take_bit_eq_mod)
  ultimately show ?thesis by (simp only: polymod_step_def Let_def gen_loop_small)
qed

lemma digit_join: "push_bit 5 (drop_bit (n + 5) p) XOR (drop_bit n p AND 31) = drop_bit n (p :: u32)"
  unfolding mask31 by (rule bit_eqI) (auto simp: bit_xor_iff bit_push_bit_iff bit_and_iff bit_drop_bit_eq bit_mask_iff)

lemma ucast_digit: "(ucast (ucast (x AND 31 :: u32) :: u8) :: u32) = x AND 31"
  unfolding mask31 by (rule bit_eqI) (auto simp: bit_unsigned_iff bit_and_iff bit_mask_iff)

lemma digit_step:
  assumes "take_bit 25 (drop_bit (n + 5) p) = drop_bit (n + 5) p"
  shows "polymod_step (t XOR drop_bit (n + 5) p) (ucast (drop_bit n p AND 31)) = polymod_step t 0 XOR drop_bit n p"
proof -
  have "polymod_step (t XOR drop_bit (n + 5) p) (0 XOR ucast (drop_bit n p AND 31)) =
      polymod_step t 0 XOR polymod_step (drop_bit (n + 5) p) (ucast (drop_bit n p AND 31))"
    by (rule polymod_step_xor)
  then show ?thesis by (simp add: polymod_step_small [OF assms] ucast_digit digit_join)
qed

lemma high_small: "take_bit 30 (p :: u32) = p \<Longrightarrow> 5 \<le> n \<Longrightarrow> take_bit 25 (drop_bit n p) = drop_bit n p"
proof -
  assume "take_bit 30 p = p" and n: "5 \<le> n"
  then have b: "bit p k \<Longrightarrow> k < 30" for k by (metis bit_take_bit_iff)
  show ?thesis using n by (intro bit_eqI) (auto simp: bit_take_bit_iff bit_drop_bit_eq dest: b)
qed

lemma checksum_register:
  assumes p: "p = foldl polymod_step st (replicate 6 0) XOR c" and c: "take_bit 30 c = c"
  shows "foldl polymod_step st (checksum_digits p) = c"
proof -
  let ?L = "\<lambda>t. polymod_step t 0"
  have z: "foldl polymod_step st (replicate 6 0) = ?L (?L (?L (?L (?L (?L st)))))" by (simp add: numeral_eq_Suc)
  have p30: "take_bit 30 p = p" unfolding p z by (simp only: take_bit_xor polymod_step_bound c)
  have "drop_bit 30 p = drop_bit 30 (take_bit 30 p)" by (simp only: p30)
  then have top0: "drop_bit 30 p = 0" by (simp add: drop_bit_take_bit)
  have ds: "checksum_digits p = map (\<lambda>n. ucast (drop_bit n p AND 31)) [25, 20, 15, 10, 5, 0]"
    by (simp add: checksum_digits_def upt_rec)
  have step: "polymod_step (t XOR drop_bit (n + 5) p) (ucast (drop_bit n p AND 31)) = ?L t XOR drop_bit n p" for t n
    by (rule digit_step [OF high_small [OF p30]]) simp
  have "foldl polymod_step (st XOR drop_bit 30 p) (checksum_digits p) = ?L (?L (?L (?L (?L (?L st))))) XOR drop_bit 0 p"
    unfolding ds using step [of st 25] step [of "?L st" 20] step [of "?L (?L st)" 15] step [of "?L (?L (?L st))" 10]
      step [of "?L (?L (?L (?L st)))" 5] step [of "?L (?L (?L (?L (?L st))))" 0]
    by simp
  also have "\<dots> = c" unfolding p z by (simp add: xor.assoc [symmetric])
  finally show ?thesis by (simp add: top0)
qed

lemma verify_create_checksum: "verify_checksum hrp (data @ create_checksum hrp data) = Some False"
proof -
  have "polymod (hrp_expand hrp @ data @ create_checksum hrp data) = 1"
    unfolding create_checksum_def polymod_def foldl_append
    by (rule checksum_register) (simp_all add: take_bit_eq_mod)
  then show ?thesis by (simp add: verify_checksum_def)
qed

lemma verify_create_checksum_m: "verify_checksum hrp (data @ create_checksum_m hrp data) = Some True"
proof -
  have "polymod (hrp_expand hrp @ data @ create_checksum_m hrp data) = 0x2bc830a3"
    unfolding create_checksum_m_def polymod_def foldl_append
    by (rule checksum_register) (simp_all add: take_bit_eq_mod)
  then show ?thesis by (simp add: verify_checksum_def)
qed


section \<open>Regrouping as bit strings\<close>

text \<open>The low \<open>n\<close> bits of a word, most significant first.\<close>

definition bl :: "nat \<Rightarrow> 'a :: len word \<Rightarrow> bool list" where
  "bl n x = map (bit x) (rev [0..<n])"

definition fits :: "nat \<Rightarrow> u8 \<Rightarrow> bool" where
  "fits n v \<longleftrightarrow> drop_bit n (ucast v :: u32) = 0"

lemma length_bl [simp]: "length (bl n x) = n"
  by (simp add: bl_def)

lemma bl_0 [simp]: "bl 0 x = []"
  by (simp add: bl_def)

lemma bl_eq_iff: "bl n x = bl n y \<longleftrightarrow> (\<forall>k < n. bit x k = bit y k)"
  by (auto simp: bl_def map_eq_conv)

lemma bl_eqI: "(\<And>k. k < n \<Longrightarrow> bit x k = bit y k) \<Longrightarrow> bl n x = bl n y"
  by (simp add: bl_def)

lemma bl_split: "bl (b + f) x = bl b (drop_bit f x) @ bl f (x :: 'a :: len word)"
proof -
  have "[0..<b + f] = [0..<f] @ map (\<lambda>k. k + f) [0..<b]"
    using upt_add_eq_append [of 0 f b] by (simp add: map_add_upt add.commute)
  then show ?thesis by (simp add: bl_def rev_map bit_drop_bit_eq comp_def add.commute)
qed

lemma bl_ucast: "n \<le> 8 \<Longrightarrow> bl n (ucast (v :: u8) :: u32) = bl n v"
  by (auto simp: bl_def bit_unsigned_iff)

lemma bl_down: "n \<le> 8 \<Longrightarrow> bl n (ucast (x :: u32) :: u8) = bl n x"
  by (auto simp: bl_def bit_unsigned_iff)

lemma maxv_mask: "maxv n = mask n"
  by (simp add: maxv_def mask_eq_decr_exp)

lemma bl_mask: "n \<le> 32 \<Longrightarrow> bl n (x AND maxv n) = bl n (x :: u32)"
  by (auto simp: bl_def maxv_mask bit_and_iff bit_mask_iff)

lemma fits_mask: "n \<le> 8 \<Longrightarrow> fits n (ucast (x AND maxv n))"
  unfolding fits_def by (rule bit_eqI) (auto simp: bit_drop_bit_eq bit_unsigned_iff bit_and_iff maxv_mask bit_mask_iff)

lemma fits_8: "fits 8 v"
  unfolding fits_def by (rule bit_eqI) (auto simp: bit_drop_bit_eq bit_unsigned_iff dest: bit_imp_le_length)

lemma bl_shift_in:
  fixes acc :: u32
  assumes "b + f \<le> 32" and "fits f v" and "f \<le> 8"
  shows "bl (b + f) (push_bit f acc OR ucast v) = bl b acc @ bl f v"
proof -
  have "\<not> bit (ucast v :: u32) (f + k)" for k
  proof -
    have "bit (drop_bit f (ucast v :: u32)) k = bit (0 :: u32) k" using assms(2) by (simp only: fits_def)
    then show ?thesis by (simp add: bit_drop_bit_eq)
  qed
  then have "bl b (drop_bit f (push_bit f acc OR ucast v)) = bl b acc"
    using assms(1) by (intro bl_eqI) (auto simp: bit_drop_bit_eq bit_or_iff bit_push_bit_iff)
  moreover have "bl f (push_bit f acc OR ucast v) = bl f v"
    using bl_ucast [OF assms(3), of v] by (auto simp: bl_def bit_or_iff bit_push_bit_iff)
  ultimately show ?thesis by (simp add: bl_split)
qed

lemma emit_spec:
  assumes "0 < t" and "t \<le> 8" and "emit t acc bits o1 = (b', o2)"
  shows "b' < t \<and> concat (map (bl t) o2) @ bl b' acc = concat (map (bl t) o1) @ bl bits acc \<and>
    ((\<forall>x \<in> set o1. fits t x) \<longrightarrow> (\<forall>x \<in> set o2. fits t x))"
  using assms
proof (induction t acc bits o1 rule: emit.induct)
  case (1 t acc bits o1)
  show ?case
  proof (cases "t \<le> bits")
    case True
    let ?x = "ucast (drop_bit (bits - t) acc AND maxv t) :: u8"
    have x: "bl t ?x = bl t (drop_bit (bits - t) acc)" using "1.prems"(2) by (simp add: bl_down bl_mask)
    have sp: "bl bits acc = bl t (drop_bit (bits - t) acc) @ bl (bits - t) acc"
      using bl_split [of t "bits - t" acc] True by simp
    have "emit t acc (bits - t) (o1 @ [?x]) = (b', o2)"
      using "1.prems" True by (subst (asm) emit.simps) simp
    from "1.IH" [OF _ "1.prems"(1,2) this] True "1.prems"(1) show ?thesis
      by (auto simp: sp x fits_mask [OF "1.prems"(2)])
  next
    case False
    then show ?thesis using "1.prems" by (subst (asm) emit.simps) auto
  qed
qed

lemma convert_loop_spec:
  assumes "0 < t" and "t \<le> 8" and "f \<le> 8" and "\<forall>v \<in> set data. fits f v" and "bits < t" and "\<forall>x \<in> set o1. fits t x"
  shows "\<exists>acc' b' o2. convert_loop f t data acc bits o1 = Inr (acc', b', o2) \<and> b' < t \<and>
    concat (map (bl t) o2) @ bl b' acc' = concat (map (bl t) o1) @ bl bits acc @ concat (map (bl f) data) \<and>
    (\<forall>x \<in> set o2. fits t x)"
  using assms
proof (induction f t data acc bits o1 rule: convert_loop.induct)
  case (2 f t v vs acc bits o1)
  let ?acc = "push_bit f acc OR ucast v"
  obtain b1 o' where e: "emit t ?acc (bits + f) o1 = (b1, o')" by fastforce
  note es = emit_spec [OF "2.prems"(1,2) e]
  have v: "fits f v" using "2.prems"(4) by simp
  have sh: "bl (bits + f) ?acc = bl bits acc @ bl f v"
    using "2.prems" by (intro bl_shift_in [OF _ v]) simp_all
  have "\<exists>acc' b' o2. convert_loop f t vs ?acc b1 o' = Inr (acc', b', o2) \<and> b' < t \<and>
      concat (map (bl t) o2) @ bl b' acc' = concat (map (bl t) o') @ bl b1 ?acc @ concat (map (bl f) vs) \<and>
      (\<forall>x \<in> set o2. fits t x)"
    by (rule "2.IH" [OF _ refl e [symmetric] refl "2.prems"(1-3)]) (use "2.prems" v es in \<open>auto simp: fits_def\<close>)
  then show ?case using es sh v e by (auto simp: fits_def Let_def)
qed auto

lemma bl_append_zeros:
  assumes "b \<le> n" and "n \<le> 8"
  shows "bl n (ucast (push_bit (n - b) acc AND maxv n) :: u8) = bl b (acc :: u32) @ replicate (n - b) False"
proof -
  have "bl n (ucast (push_bit (n - b) acc AND maxv n) :: u8) = bl n (push_bit (n - b) acc)"
    using assms(2) by (simp add: bl_down bl_mask)
  also have "\<dots> = bl b (drop_bit (n - b) (push_bit (n - b) acc)) @ bl (n - b) (push_bit (n - b) acc)"
    using bl_split [of b "n - b"] assms(1) by simp
  also have "bl b (drop_bit (n - b) (push_bit (n - b) acc)) = bl b acc"
    using assms by (intro bl_eqI) (auto simp: bit_drop_bit_eq bit_push_bit_iff)
  also have "bl (n - b) (push_bit (n - b) acc) = replicate (n - b) False"
    by (auto simp: bl_def bit_push_bit_iff map_replicate_const intro: replicate_eqI)
  finally show ?thesis .
qed

lemma convert_pad:
  assumes "\<forall>v \<in> set data. fits f v" and "0 < t" and "t \<le> 8" and "f \<le> 8"
  shows "\<exists>r k. convert_bits data f t True = Inr r \<and> k < t \<and> (\<forall>x \<in> set r. fits t x) \<and>
    concat (map (bl t) r) = concat (map (bl f) data) @ replicate k False"
proof -
  obtain acc b r where c: "convert_loop f t data 0 0 [] = Inr (acc, b, r)" "b < t" "\<forall>x \<in> set r. fits t x"
    "concat (map (bl t) r) @ bl b acc = concat (map (bl f) data)"
    using convert_loop_spec [OF assms(2,3,4,1), of 0 "[]" 0] assms(2) by auto
  show ?thesis
  proof (cases "b = 0")
    case True
    then show ?thesis using c assms(2) by (intro exI [of _ r] exI [of _ 0]) (simp add: convert_bits_def)
  next
    case False
    let ?x = "ucast (push_bit (t - b) acc AND maxv t) :: u8"
    have "convert_bits data f t True = Inr (r @ [?x])" using c False by (simp add: convert_bits_def)
    moreover have "bl t ?x = bl b acc @ replicate (t - b) False" using c(2) assms(3) by (intro bl_append_zeros) auto
    ultimately show ?thesis using c False fits_mask [OF assms(3)]
      by (intro exI [of _ "r @ [?x]"] exI [of _ "t - b"]) (auto simp flip: c(4))
  qed
qed


lemma concat_bl_inj:
  "length xs = length ys \<Longrightarrow> concat (map (bl 8) xs) = concat (map (bl 8) ys) \<Longrightarrow> xs = (ys :: bytes)"
proof (induction xs ys rule: list_induct2)
  case (Cons x xs y ys)
  then have "bl 8 x = bl 8 y" and rest: "concat (map (bl 8) xs) = concat (map (bl 8) ys)" by simp_all
  then have "x = y" by (intro bit_word_eqI) (simp add: bl_eq_iff)
  then show ?case using Cons.IH [OF rest] by simp
qed simp

lemma length_concat_bl: "length (concat (map (bl n) xs)) = n * length xs"
  by (induction xs) auto

lemma bl_zero_shift:
  assumes "bl b acc = replicate b False" and "b \<le> 8"
  shows "push_bit (8 - b) acc AND maxv 8 = (0 :: u32)"
proof (rule bit_eqI)
  fix k
  have z: "\<not> bit acc j" if "j < b" for j
  proof -
    have "bl b acc ! (b - 1 - j) = False" using assms(1) that by simp
    then show ?thesis using that by (simp add: bl_def rev_nth)
  qed
  show "bit (push_bit (8 - b) acc AND maxv 8) k = bit (0 :: u32) k"
  proof (cases "8 - b \<le> k \<and> k < 8")
    case True
    then have "k - (8 - b) < b" using assms(2) by linarith
    then show ?thesis using z by (simp add: bit_and_iff bit_push_bit_iff)
  next
    case False
    then show ?thesis by (auto simp: bit_and_iff bit_push_bit_iff maxv_mask bit_mask_iff)
  qed
qed

lemma convert_bits_roundtrip:
  obtains r where "convert_bits data 8 5 True = Inr r" and "convert_bits r 5 8 False = Inr data"
    and "\<forall>x \<in> set r. fits 5 x" and "5 * length r \<le> 8 * length data + 4"
proof -
  obtain r k where r: "convert_bits data 8 5 True = Inr r" "k < 5" "\<forall>x \<in> set r. fits 5 x"
    "concat (map (bl 5) r) = concat (map (bl 8) data) @ replicate k False"
    using convert_pad [of data 8 5] fits_8 by auto
  obtain acc b q where q: "convert_loop 5 8 r 0 0 [] = Inr (acc, b, q)" "b < 8"
    "concat (map (bl 8) q) @ bl b acc = concat (map (bl 5) r)"
    using convert_loop_spec [of 8 5 r 0 "[]" 0] r(3) by auto
  have eq: "concat (map (bl 8) q) @ bl b acc = concat (map (bl 8) data) @ replicate k False"
    using q(3) r(4) by simp
  then have sum: "8 * length q + b = 8 * length data + k"
    by (metis length_append length_bl length_concat_bl length_replicate)
  have lq: "length q = length data" using sum q(2) r(2) by linarith
  then have len: "length q = length data" "b = k" using sum by simp_all
  then have "concat (map (bl 8) q) = concat (map (bl 8) data)" "bl b acc = replicate k False"
    using eq by (simp_all add: length_concat_bl append_eq_append_conv)
  then have "q = data" "push_bit (8 - b) acc AND maxv 8 = 0"
    using concat_bl_inj [OF len(1)] bl_zero_shift [of b acc] len(2) q(2) by auto
  then have "convert_bits r 5 8 False = Inr data" using q(1) r(2) len(2) by (simp add: convert_bits_def)
  moreover have "5 * length r \<le> 8 * length data + 4"
    using arg_cong [OF r(4), of length] r(2) by (simp add: length_concat_bl)
  ultimately show ?thesis using that r by blast
qed


section \<open>Encoding and decoding are inverse\<close>

lemma position_nth: "distinct xs \<Longrightarrow> n < length xs \<Longrightarrow> position (xs ! n) xs = Some n"
  by (induction xs arbitrary: n) (auto simp: nth_Cons split: nat.splits)

lemma position_Some: "position x xs = Some n \<Longrightarrow> n < length xs \<and> xs ! n = x"
  by (induction xs arbitrary: n) (auto split: if_splits)

lemma charset_facts:
  "length CHARSET = 32" "distinct CHARSET"
  "list_all (\<lambda>c. is_ascii c \<and> \<not> is_ascii_uppercase c \<and> c \<noteq> CHR ''1'') CHARSET"
  by (simp_all add: CHARSET_def char_class_defs code_def)

lemma fits_unat: "fits 5 v \<Longrightarrow> unat v < 32"
proof -
  assume "fits 5 v"
  then have "unat (drop_bit 5 (ucast v :: u32)) = 0" by (simp add: fits_def)
  then have "unat v div 32 = 0" by (simp add: drop_bit_eq_div unat_div_distrib unat_ucast8)
  then show ?thesis by simp
qed

lemma charset_pos_nth: "fits 5 v \<Longrightarrow> charset_pos (CHARSET ! unat v) = Some v"
  using fits_unat [of v] by (simp add: charset_pos_def position_nth charset_facts)

lemma charset_nth_mem: "fits 5 v \<Longrightarrow> CHARSET ! unat v \<in> set CHARSET"
  using fits_unat [of v] by (simp add: charset_facts)

lemma fits_checksum: "x \<in> set (checksum_digits p) \<Longrightarrow> fits 5 x"
proof -
  have "maxv 5 = 31" by (simp add: maxv_def)
  then show "x \<in> set (checksum_digits p) \<Longrightarrow> fits 5 x"
    using fits_mask [of 5] by (auto simp: checksum_digits_def)
qed

definition hrp_ok :: "string \<Rightarrow> bool" where
  "hrp_ok hrp \<longleftrightarrow> hrp \<noteq> [] \<and> list_all (\<lambda>c. is_ascii c \<and> \<not> is_ascii_uppercase c) hrp"

lemma decode_charset_string:
  assumes hrp: "hrp_ok hrp" and ds: "\<forall>x \<in> set ds. fits 5 x" and len: "6 \<le> length ds" "length hrp + length ds \<le> 4999"
    and chk: "verify_checksum (as_bytes hrp) ds = Some m"
  shows "bech32_decode (hrp @ ''1'' @ map (\<lambda>b. CHARSET ! unat b) ds) = Inr (hrp, take (length ds - 6) ds, m)"
proof -
  let ?enc = "map (\<lambda>b. CHARSET ! unat b) ds" and ?inp = "hrp @ ''1'' @ map (\<lambda>b. CHARSET ! unat b) ds"
  have enc: "set ?enc \<subseteq> set CHARSET" using ds charset_nth_mem by auto
  have cls: "is_ascii c \<and> \<not> is_ascii_uppercase c \<and> c \<noteq> CHR ''1''" if "c \<in> set ?enc" for c
    using that enc charset_facts(3) by (auto simp: list_all_iff)
  have one: "is_ascii CHR ''1'' \<and> \<not> is_ascii_uppercase CHR ''1''" by (simp add: char_class_defs code_def)
  have count: "\<not> 5000 < chars_count ?inp" using chars_count_le [of ?inp] len by simp
  have ascii: "list_all is_ascii ?inp" using hrp cls one by (auto simp: hrp_ok_def list_all_iff)
  have up: "\<not> (\<exists>c \<in> set ?inp. is_ascii_uppercase c)" using hrp cls one by (auto simp: hrp_ok_def list_all_iff)
  have sep: "rsplit_once CHR ''1'' ?inp = Some (hrp, ?enc)" using cls by (auto simp: rsplit_once_Some)
  have nf: "List.find (\<lambda>c. c \<notin> set CHARSET) ?enc = None" using enc by (auto simp: find_None_iff)
  have inv: "map (\<lambda>c. the (charset_pos c)) ?enc = ds" using ds charset_pos_nth by (auto intro!: map_idI)
  have ne: "hrp \<noteq> []" "?enc \<noteq> []" using hrp len(1) by (auto simp: hrp_ok_def)
  show ?thesis unfolding bech32_decode_def Let_def
    using count ascii up sep nf inv ne chk len(1) by (simp only: if_False if_True not_True_eq_False not_False_eq_True
        simp_thms option.case prod.case length_map) simp
qed

lemma decode_encode:
  assumes hrp: "hrp_ok hrp" and len: "length hrp + 2 * length data \<le> 4990"
  obtains s r where "bech32_encode hrp data = Inr s" and "bech32_decode s = Inr (hrp, r, False)"
    and "convert_bits r 5 8 False = Inr data"
proof -
  obtain r where r: "convert_bits data 8 5 True = Inr r" "convert_bits r 5 8 False = Inr data"
    "\<forall>x \<in> set r. fits 5 x" "5 * length r \<le> 8 * length data + 4" by (rule convert_bits_roundtrip [of data])
  let ?ds = "r @ create_checksum (as_bytes hrp) r"
  have l6: "length (create_checksum (as_bytes hrp) r) = 6" by (simp add: create_checksum_def checksum_digits_def)
  have ds: "\<forall>x \<in> set ?ds. fits 5 x" using r(3) fits_checksum by (auto simp: create_checksum_def)
  have "bech32_decode (hrp @ ''1'' @ map (\<lambda>b. CHARSET ! unat b) ?ds) = Inr (hrp, take (length ?ds - 6) ?ds, False)"
    by (rule decode_charset_string [OF hrp ds _ _ verify_create_checksum]) (use l6 len r(4) in simp_all)
  then show ?thesis using r l6 by (intro that [of "hrp @ ''1'' @ map (\<lambda>b. CHARSET ! unat b) ?ds" r])
      (simp_all add: bech32_encode_def encode_with_def)
qed

lemma parse_encode_npub:
  assumes "length pk = 32"
  shows "\<exists>s. bech32_encode ''npub'' pk = Inr s \<and> parse_nip19 s = Inr (Pubkey pk)"
proof -
  have "hrp_ok ''npub''" by (simp add: hrp_ok_def char_class_defs code_def)
  then obtain s r where "bech32_encode ''npub'' pk = Inr s" "bech32_decode s = Inr (''npub'', r, False)"
    "convert_bits r 5 8 False = Inr pk"
    using decode_encode [of "''npub''" pk] assms by auto
  then show ?thesis using assms by (intro exI [of _ s]) (simp add: parse_nip19_def fixed32_def)
qed


section \<open>The \<open>inbox\<close> and \<open>outbox\<close> filter keys\<close>

text \<open>
  \<open>rewrite_inbox_outbox\<close> of \<open>src/src/filter.rs\<close>. Removing a key from a \<open>serde_json\<close> object is the
  parameter \<open>rm\<close> (it may reorder the other entries); \<open>entry(..).or_insert_with\<close> and the write back
  are \<open>obj_set\<close>, which keeps the position of a present key and appends a new one.
\<close>

definition remove_ok :: "(string \<Rightarrow> json_map \<Rightarrow> json_map) \<Rightarrow> bool" where
  "remove_ok rm \<longleftrightarrow> (\<forall>k m. map_of (rm k m) = (map_of m)(k := None))"

fun obj_set :: "string \<Rightarrow> json \<Rightarrow> json_map \<Rightarrow> json_map" where
  "obj_set k v [] = [(k, v)]"
| "obj_set k v ((k', v') # m) = (if k' = k then (k, v) # m else (k', v') # obj_set k v m)"

definition filter_items :: "string \<Rightarrow> json \<Rightarrow> string + string list" where
  "filter_items key raw =
     (case raw of
        JStr s \<Rightarrow> Inr [s]
      | JArr items \<Rightarrow>
          (case collect as_str items of
             Some ss \<Rightarrow> Inr ss
           | None \<Rightarrow> Inl (''invalid '' @ key @ '' filter value''))
      | _ \<Rightarrow> Inl (''invalid '' @ key @ '' filter value''))"

definition resolve_pubkey :: "ext \<Rightarrow> string \<Rightarrow> string option" where
  "resolve_pubkey X item =
     (if length item = 64 \<and> list_all is_ascii_hexdigit item then Some (to_ascii_lowercase item)
      else case parse_nip19 item of Inr (Pubkey pk) \<Rightarrow> Some (hex_encode X pk) | _ \<Rightarrow> None)"

fun push_new :: "string set \<Rightarrow> json list \<Rightarrow> string list \<Rightarrow> json list" where
  "push_new existing arr [] = arr"
| "push_new existing arr (pk # pks) =
     (if pk \<in> existing then push_new existing arr pks
      else push_new (insert pk existing) (arr @ [JStr pk]) pks)"

definition rewrite_key :: "ext \<Rightarrow> (string \<Rightarrow> json_map \<Rightarrow> json_map) \<Rightarrow> string \<Rightarrow> string \<Rightarrow> json_map \<Rightarrow> string + json_map" where
  "rewrite_key X rm key dst m =
     (case map_of m key of
        None \<Rightarrow> Inr m
      | Some raw \<Rightarrow>
          (case filter_items key raw of
             Inl err \<Rightarrow> Inl err
           | Inr items \<Rightarrow>
               (case collect (resolve_pubkey X) items of
                  None \<Rightarrow> Inl (''invalid '' @ key @ '' pubkey'')
                | Some pubkeys \<Rightarrow>
                    (let m1 = rm key m;
                         entry = (case map_of m1 dst of None \<Rightarrow> JArr [] | Some v \<Rightarrow> v);
                         entry1 = (case entry of JStr s \<Rightarrow> JArr [JStr s] | v \<Rightarrow> v)
                     in case entry1 of
                          JArr arr \<Rightarrow>
                            Inr (obj_set dst (JArr (push_new (set (List.map_filter as_str arr)) arr pubkeys)) m1)
                        | _ \<Rightarrow> Inl (''invalid existing '' @ dst @ '' filter value'')))))"

definition rewrite_inbox_outbox :: "ext \<Rightarrow> (string \<Rightarrow> json_map \<Rightarrow> json_map) \<Rightarrow> json \<Rightarrow> string + json" where
  "rewrite_inbox_outbox X rm v =
     (case v of
        JObj m \<Rightarrow>
          (case rewrite_key X rm ''inbox'' ''#p'' m of
             Inl err \<Rightarrow> Inl err
           | Inr m1 \<Rightarrow> map_sum id JObj (rewrite_key X rm ''outbox'' ''authors'' m1))
      | _ \<Rightarrow> Inr v)"

lemma obj_set_map_of: "map_of (obj_set k v m) = (map_of m)(k \<mapsto> v)"
  by (induction m) auto

lemma push_new_strings:
  "set (List.map_filter as_str (push_new E arr pks)) \<subseteq> set (List.map_filter as_str arr) \<union> set pks \<and>
   (E \<subseteq> set (List.map_filter as_str arr) \<longrightarrow>
     set (List.map_filter as_str (push_new E arr pks)) = set (List.map_filter as_str arr) \<union> set pks)"
proof (induction E arr pks rule: push_new.induct)
  case (2 E arr pk pks)
  have "set (List.map_filter as_str (arr @ [JStr pk])) = insert pk (set (List.map_filter as_str arr))"
    by (auto simp: map_filter_def)
  then show ?case using 2 by auto
qed simp

lemma rewrite_key_ok:
  assumes rm: "remove_ok rm" and res: "rewrite_key X rm key dst m = Inr m'" and raw: "map_of m key = Some raw" and ne: "key \<noteq> dst"
  shows "map_of m' key = None \<and> (\<forall>k. k \<noteq> key \<longrightarrow> k \<noteq> dst \<longrightarrow> map_of m' k = map_of m k) \<and>
    (\<exists>items pubkeys. filter_items key raw = Inr items \<and> collect (resolve_pubkey X) items = Some pubkeys \<and>
       set (case map_of m' dst of None \<Rightarrow> [] | Some v \<Rightarrow> tag_values v) =
         set (case map_of m dst of None \<Rightarrow> [] | Some v \<Rightarrow> tag_values v) \<union> set pubkeys)"
proof -
  have m1: "map_of (rm key m) = (map_of m)(key := None)" using rm by (simp add: remove_ok_def)
  obtain items pubkeys where ip: "filter_items key raw = Inr items" "collect (resolve_pubkey X) items = Some pubkeys"
    using res raw by (auto simp: rewrite_key_def split: sum.splits option.splits)
  let ?old = "case map_of m dst of None \<Rightarrow> JArr [] | Some v \<Rightarrow> v"
  obtain arr where arr: "(case ?old of JStr s \<Rightarrow> JArr [JStr s] | v \<Rightarrow> v) = JArr arr"
    and m': "m' = obj_set dst (JArr (push_new (set (List.map_filter as_str arr)) arr pubkeys)) (rm key m)"
    using res raw ip ne m1 by (auto simp: rewrite_key_def Let_def split: json.splits)
  have "set (List.map_filter as_str arr) = set (case map_of m dst of None \<Rightarrow> [] | Some v \<Rightarrow> tag_values v)"
    using arr by (cases "map_of m dst") (auto simp: tag_values_def map_filter_simps split: json.splits)
  then show ?thesis using push_new_strings [of "set (List.map_filter as_str arr)" arr pubkeys] ip ne
    by (auto simp: m' obj_set_map_of m1 tag_values_def)
qed

end
