(* ===== verification/EventProps.thy ===== *)
theory EventProps
  imports Identity Bech32 Reference
begin

text \<open>
  The guarantees of event verification, request parsing, relay identity and NIP-19 encodings, over
  \<open>Event\<close>, \<open>Requests\<close>, \<open>Identity\<close> and \<open>Bech32\<close>.
\<close>


text \<open>
  the proof-of-work count is the number of leading zero bits of the digest, most significant bit
  first, and never exceeds its bit length; \<open>pow_verify\<close> accepts an event exactly when its id has at
  least the required number.
\<close>
theorem proof_of_work_exact:
  "leading_zero_bits ds = length (takeWhile Not (concat (map (\<lambda>x. map (bit x) [7, 6, 5, 4, 3, 2, 1, 0]) ds)))
   \<and> leading_zero_bits ds \<le> 8 * length ds
   \<and> (pow_verify X e required \<longleftrightarrow> (\<exists>idb. id_bytes X e = Some idb \<and> unat required \<le> leading_zero_bits idb))"
  using leading_zero_bits_le [of ds] leading_zero_bits_spec [of ds]
  by (auto simp: digest_bits_def pow_verify_def split: option.splits)

text \<open>
  C37: an event expires at the earliest of its well-formed expiration tags, wherever they stand, and
  has an expiry exactly when it has one.
\<close>
theorem expiry_is_earliest:
  "expiry e = (if \<exists>t v. t \<in> set (tags e) \<and> 2 \<le> length t \<and> t ! 0 = EXPIRATION_TAG \<and> parse_u64 (t ! 1) = Some v
     then Some (Min {v. \<exists>t. t \<in> set (tags e) \<and> 2 \<le> length t \<and> t ! 0 = EXPIRATION_TAG \<and> parse_u64 (t ! 1) = Some v})
     else None)"
proof -
  have "expirations (tags e) = {v. \<exists>t. t \<in> set (tags e) \<and> 2 \<le> length t \<and> t ! 0 = EXPIRATION_TAG \<and> parse_u64 (t ! 1) = Some v}"
    by (auto simp: expirations_def)
  then show ?thesis using expiry_fields_eq [of "tags e"] by (auto simp: expiry_def)
qed

text \<open>
  a deletion request's address list is complete up to its cap and never silently truncated: the
  capped list is the first 512 of the distinct addresses the request names, and the overflow test
  reports exactly the requests that name more.
\<close>
theorem deletion_addresses_capped:
  "deletion_addresses e = take MAX_DELETION_ADDRESSES (deletion_addresses_all e)
   \<and> distinct (deletion_addresses_all e)
   \<and> set (deletion_addresses_all e) = {a. \<exists>t. t \<in> set (tags e) \<and> tag_address t = Some a}
   \<and> (deletion_addresses_exceed_cap e \<longleftrightarrow> MAX_DELETION_ADDRESSES < length (deletion_addresses_all e))
   \<and> (deletion_addresses_exceed_cap e \<longleftrightarrow> deletion_addresses e \<noteq> deletion_addresses_all e)"
proof -
  have t: "take n xs \<noteq> xs \<longleftrightarrow> n < length xs" for n and xs :: "address list"
    using take_all_iff [of n xs] by (auto simp: not_less)
  show ?thesis unfolding deletion_addresses_take exceed_cap_iff t
    using deletion_addresses_all_set [of e] by (simp add: Bex_def)
qed

text \<open>
  C38: delegation conditions are read as the specification groups them: conditions on the same field
  with the same operator are alternatives, different groups must all hold, an unknown condition
  denies, and no condition allows.
\<close>
theorem delegation_conditions_grouped:
  "conditions_allow conditions k created \<longleftrightarrow>
     \<not> (\<exists>r. (([], []), r) \<in> set (condition_results conditions k created))
   \<and> \<not> (\<exists>key. (\<exists>r. (key, r) \<in> set (condition_results conditions k created))
          \<and> (key, True) \<notin> set (condition_results conditions k created))"
  unfolding conditions_allow_iff Let_def by (fastforce simp: image_iff)

text \<open>
  the relay's own address survives being written into a URL authority and read back, for host
  names, IPv4 and (bracketed) IPv6 hosts and every port.
\<close>
theorem relay_authority_roundtrip:
  assumes "public_url r = []" and "set (host r) \<inter> {CHR ''['', CHR '']''} = {}"
  shows "split_host_port (authority_of r) = (host r, Some (port r))"
  by (rule authority_roundtrip [OF assms])

theorem relay_authority_roundtrip_witness:
  "split_host_port (authority_of \<lparr>host = ''2001:db8::1'', port = 7777, public_url = []\<rparr>) = (''2001:db8::1'', Some 7777)"
  using relay_authority_roundtrip [of "\<lparr>host = ''2001:db8::1'', port = 7777, public_url = []\<rparr>"] by simp


definition ex_relay :: relay_identity where
  "ex_relay = \<lparr>host = ''relay.example'', port = 443, public_url = []\<rparr>"

definition ex_auth :: event where
  "ex_auth = \<lparr>ev_id = zeros 64, pubkey = zeros 64, created_at = 1000, kind = 22242,
     tags = [[''challenge'', ''abc''], [''relay'', ''wss://relay.example'']], content = [], sig = zeros 128\<rparr>"

lemma ex_auth_tag: "tag_matches ''wss://relay.example'' ex_relay"
proof -
  have a: "scheme_authority ''wss://relay.example'' = ''relay.example''"
    by (simp add: scheme_authority_def starts_with_def is_known_scheme_def to_ascii_lowercase_def ascii_lower_def
        is_ascii_uppercase_def code_def)
  have b: "split_host_port ''relay.example'' = (''relay.example'', None)"
    by (simp add: split_host_port_def strip_prefix_def rsplit_once_def)
  have "split_host_port (authority_of ex_relay) = (host ex_relay, Some (port ex_relay))"
    by (rule authority_roundtrip) (simp_all add: ex_relay_def)
  then have c: "split_host_port (authority_of ex_relay) = (''relay.example'', Some 443)"
    by (simp only: ex_relay_def relay_identity.simps)
  have d: "map_option (\<lambda>(s, _). to_ascii_lowercase s) (split_once_str ''://'' ''wss://relay.example'') = Some ''wss''"
    by (simp add: starts_with_def to_ascii_lowercase_def ascii_lower_def is_ascii_uppercase_def code_def)
  show ?thesis unfolding tag_matches_def a b c d
    by (simp add: eq_ignore_ascii_case_def scheme_default_port_def is_none_or_def)
qed

lemma ex_auth_verify: "auth_verify ref_ext ex_auth ''abc'' 1200 ex_relay"
proof -
  have "is_ok (verify ref_ext ex_auth)"
    by (simp add: verify_ok_iff ex_auth_def zeros_def compute_id_def hexe_zeros id_bytes_def pubkey_bytes_def decode_array_def hexd_zeros)
  moreover have "abs_diff 1000 1200 \<le> 600" by (simp add: abs_diff_def word_less_nat_alt word_le_nat_alt)
  ultimately show ?thesis using ex_auth_tag
    by (simp add: auth_verify_def ex_auth_def AUTH_KIND_def RELAY_TAG_def ALL_RELAYS_def not_less)
qed


text \<open>
  C40: every 32-byte key survives its \<open>npub\<close> form, and every Bech32 and Bech32m string built here
  carries a checksum that verifies as its own variant.
\<close>
theorem npub_roundtrip:
  assumes "length pk = 32"
  shows "(\<exists>s. bech32_encode ''npub'' pk = Inr s \<and> parse_nip19 s = Inr (Pubkey pk))
    \<and> verify_checksum hrp (data @ create_checksum hrp data) = Some False
    \<and> verify_checksum hrp (data @ create_checksum_m hrp data) = Some True"
  using parse_encode_npub [OF assms] verify_create_checksum verify_create_checksum_m by blast

theorem npub_roundtrip_witness:
  "\<exists>s. bech32_encode ''npub'' (replicate 32 7) = Inr s \<and> parse_nip19 s = Inr (Pubkey (replicate 32 7))"
  using npub_roundtrip [of "replicate 32 7"] by simp

end
