(* ===== verification/HttpAuth.thy ===== *)
theory HttpAuth
  imports Identity
begin

text \<open>
  NIP-98 HTTP authorization (\<open>src/src/nips/nip98.rs\<close>): the header scheme, verification of the
  authorization event, the URL comparison, and the replay guard that admits every authorization at most
  once. The base64 decoders are parameters.
\<close>

section \<open>The header and the event\<close>

definition HTTP_AUTH_KIND :: u64 where "HTTP_AUTH_KIND = 27235"
definition PAYLOAD_TAG :: string where "PAYLOAD_TAG = ''payload''"
definition URL_TAG :: string where "URL_TAG = ''u''"
definition METHOD_TAG :: string where "METHOD_TAG = ''method''"

text \<open>\<open>split_once(char::is_whitespace)\<close>: no white-space character starts with a continuation byte.\<close>

fun split_once_ws :: "string \<Rightarrow> (string \<times> string) option" where
  "split_once_ws [] = None"
| "split_once_ws (c # s) =
     (if ws_len (c # s) \<noteq> 0 then Some ([], drop (ws_len (c # s)) (c # s))
      else map_option (\<lambda>(a, b). (c # a, b)) (split_once_ws s))"

definition strip_nostr_scheme :: "string \<Rightarrow> string option" where
  "strip_nostr_scheme value =
     (case split_once_ws value of
        None \<Rightarrow> None
      | Some (scheme, token) \<Rightarrow>
          if eq_ignore_ascii_case scheme ''Nostr'' \<and> trim token \<noteq> [] then Some (trim token) else None)"

record base64 =
  standard :: "string \<Rightarrow> bytes option"
  url_safe_no_pad :: "string \<Rightarrow> bytes option"

record verified =
  vf_pubkey :: string
  vf_id :: string
  vf_created_at :: u64

definition has_tag_with :: "event \<Rightarrow> string \<Rightarrow> (string \<Rightarrow> bool) \<Rightarrow> bool" where
  "has_tag_with e name P \<longleftrightarrow> (\<exists>t \<in> set (tags e). 2 \<le> length t \<and> t ! 0 = name \<and> P (t ! 1))"

definition http_verify ::
  "ext \<Rightarrow> base64 \<Rightarrow> u64 \<Rightarrow> string \<Rightarrow> string option \<Rightarrow> bool \<Rightarrow> string option \<Rightarrow> string \<Rightarrow> (string \<Rightarrow> bool) \<Rightarrow> verified option" where
  "http_verify X B now encoded expected_pubkey require_payload expected_hash meth url_matches =
     Option.bind (case standard B encoded of Some raw \<Rightarrow> Some raw | None \<Rightarrow> url_safe_no_pad B encoded) (\<lambda>raw.
     Option.bind (event_of_json X raw) (\<lambda>e.
       if kind e \<noteq> HTTP_AUTH_KIND then None
       else if \<not> is_none_or expected_pubkey (eq_ignore_ascii_case (pubkey e)) then None
       else if abs_diff (created_at e) now > 60 then None
       else if \<not> has_tag_with e URL_TAG url_matches then None
       else if \<not> has_tag_with e METHOD_TAG (\<lambda>v. v = meth) then None
       else if require_payload \<and> \<not> has_tag_with e PAYLOAD_TAG (\<lambda>v. is_none_or expected_hash (eq_ignore_ascii_case v)) then None
       else if \<not> is_ok (verify X e) then None
       else Some \<lparr>vf_pubkey = pubkey e, vf_id = ev_id e, vf_created_at = created_at e\<rparr>))"

definition payload_sha256_hex :: "ext \<Rightarrow> bytes \<Rightarrow> string" where
  "payload_sha256_hex X data = hex_encode X (sha256 X data)"

definition matches_request_url :: "string \<Rightarrow> relay_identity \<Rightarrow> string \<Rightarrow> string option \<Rightarrow> bool" where
  "matches_request_url tag identity path query =
     (let expected = http_origin identity @ path @ (case query of None \<Rightarrow> [] | Some q \<Rightarrow> CHR ''?'' # q)
      in if tag = expected then True
         else if path = ''/'' \<and> query = None then tag = http_origin identity
         else False)"

section \<open>The replay guard\<close>

record guard_entry =
  en_expiry :: u64
  en_presented :: u64
  en_pubkey :: string
  en_protected :: bool

record replay_guard =
  seen :: "(string \<times> guard_entry) list"
  next_presentation :: u64
  last_capacity_warning :: u64

definition MAX_ENTRIES :: nat where "MAX_ENTRIES = 4096"
definition MAX_PROTECTED_PER_AUTHOR :: nat where "MAX_PROTECTED_PER_AUTHOR = 64"
definition WARNING_INTERVAL :: u64 where "WARNING_INTERVAL = 60"

definition empty_guard :: replay_guard where
  "empty_guard = \<lparr>seen = [], next_presentation = 0, last_capacity_warning = 0\<rparr>"

text \<open>\<open>min_by_key\<close> on the presentation number: the first of the smallest.\<close>

fun oldest :: "(string \<times> guard_entry) list \<Rightarrow> string option" where
  "oldest [] = None"
| "oldest (x # xs) =
     (if \<forall>y \<in> set xs. en_presented (snd x) \<le> en_presented (snd y) then Some (fst x) else oldest xs)"

definition evict :: "(guard_entry \<Rightarrow> bool) \<Rightarrow> (string \<times> guard_entry) list \<Rightarrow> (string \<times> guard_entry) list \<times> bool" where
  "evict P live =
     (case oldest (filter (\<lambda>(_, e). P e) live) of
        None \<Rightarrow> (live, False)
      | Some i \<Rightarrow> (filter (\<lambda>(k, _). k \<noteq> i) live, True))"

definition evict_oldest_protected ::
  "string \<Rightarrow> (string \<times> guard_entry) list \<Rightarrow> (string \<times> guard_entry) list \<times> bool" where
  "evict_oldest_protected pk live = evict (\<lambda>e. en_protected e \<and> en_pubkey e = pk) live"

definition evict_unprotected :: "(string \<times> guard_entry) list \<Rightarrow> (string \<times> guard_entry) list \<times> bool" where
  "evict_unprotected live = evict (\<lambda>e. \<not> en_protected e) live"

definition warn_capacity :: "u64 \<Rightarrow> replay_guard \<Rightarrow> replay_guard" where
  "warn_capacity now G =
     (if saturating_sub now (last_capacity_warning G) < WARNING_INTERVAL then G else G\<lparr>last_capacity_warning := now\<rparr>)"

text \<open>Making room for an authorization that is not tracked: the entries left, whether it is admitted, and whether to warn.\<close>

definition own_protected :: "string \<Rightarrow> (string \<times> guard_entry) list \<Rightarrow> (string \<times> guard_entry) list" where
  "own_protected pk live = filter (\<lambda>(_, e). en_protected e \<and> en_pubkey e = pk) live"

definition make_room :: "string \<Rightarrow> bool \<Rightarrow> (string \<times> guard_entry) list \<Rightarrow> (string \<times> guard_entry) list \<times> bool \<times> bool" where
  "make_room pk prot live =
     (if prot then
        (if MAX_PROTECTED_PER_AUTHOR \<le> length (own_protected pk live) then
           (case evict_oldest_protected pk live of (l, ok) \<Rightarrow> (l, ok, False))
         else if MAX_ENTRIES \<le> length live then
           (case evict_unprotected live of
              (l, True) \<Rightarrow> (l, True, True)
            | (l, False) \<Rightarrow> (case evict_oldest_protected pk l of (l, ok) \<Rightarrow> (l, ok, True)))
         else (live, True, False))
      else if MAX_ENTRIES \<le> length live then (case evict_unprotected live of (l, ok) \<Rightarrow> (l, ok, True))
      else (live, True, False))"

definition accept_as :: "replay_guard \<Rightarrow> string \<Rightarrow> u64 \<Rightarrow> u64 \<Rightarrow> string \<Rightarrow> bool \<Rightarrow> replay_guard \<times> bool" where
  "accept_as G i now created pubkey0 prot =
     (let pk = to_ascii_lowercase pubkey0;
          presented = saturating_add (next_presentation G) 1;
          G1 = G\<lparr>next_presentation := next_presentation G + 1\<rparr>;
          live = filter (\<lambda>(_, e). now < en_expiry e) (seen G)
      in if i \<in> fst ` set live then (G1\<lparr>seen := live\<rparr>, False)
         else
           (case make_room pk prot live of (left, admit, warn) \<Rightarrow>
              (let entry = \<lparr>en_expiry = saturating_add created 61, en_presented = presented, en_pubkey = pk, en_protected = prot\<rparr>;
                   G2 = G1\<lparr>seen := (if admit then (i, entry) # left else left)\<rparr>
               in (if warn then warn_capacity now G2 else G2, admit))))"

definition accept :: "replay_guard \<Rightarrow> string \<Rightarrow> u64 \<Rightarrow> u64 \<Rightarrow> string \<Rightarrow> replay_guard \<times> bool" where
  "accept G i now created pk = accept_as G i now created pk False"

section \<open>Eviction\<close>

definition tracked :: "replay_guard \<Rightarrow> string \<Rightarrow> guard_entry \<Rightarrow> bool" where
  "tracked G i e \<longleftrightarrow> (i, e) \<in> set (seen G)"

definition guard_ok :: "replay_guard \<Rightarrow> bool" where
  "guard_ok G \<longleftrightarrow> distinct (map fst (seen G)) \<and> length (seen G) \<le> MAX_ENTRIES
     \<and> (\<forall>pk. length (own_protected pk (seen G)) \<le> MAX_PROTECTED_PER_AUTHOR)"

lemma oldest_mem: "oldest xs = Some i \<Longrightarrow> i \<in> fst ` set xs"
  by (induction xs) (auto split: if_splits)

lemma oldest_none: "oldest xs = None \<longleftrightarrow> xs = []"
proof (induction xs)
  case (Cons x xs)
  then show ?case by (cases xs) auto
qed simp

lemma evict_cases:
  assumes "evict P live = (left, ok)"
  obtains (none) "\<not> ok" "left = live" "\<forall>(k, e) \<in> set live. \<not> P e"
    | (victim) i e where "ok" "(i, e) \<in> set live" "P e" "left = filter (\<lambda>(k, _). k \<noteq> i) live"
proof (cases "oldest (filter (\<lambda>(_, e). P e) live)")
  case None
  then have "\<forall>(k, e) \<in> set live. \<not> P e" by (auto simp: oldest_none filter_empty_conv)
  then show ?thesis using assms None none by (simp add: evict_def)
next
  case (Some i)
  then obtain e where "(i, e) \<in> set live" "P e" using oldest_mem [OF Some] by auto
  then show ?thesis using assms Some victim by (simp add: evict_def)
qed

lemma evict_sub:
  assumes "evict P live = (left, ok)" and d: "distinct (map fst live)"
  shows "set left \<subseteq> set live \<and> distinct (map fst left) \<and> length left \<le> length live \<and> (ok \<longrightarrow> length left < length live)
    \<and> (\<forall>k e. (k, e) \<in> set live \<longrightarrow> \<not> P e \<longrightarrow> (k, e) \<in> set left)
    \<and> length (own_protected pk left) \<le> length (own_protected pk live)"
  using assms(1)
proof (cases rule: evict_cases)
  case (victim i f)
  have "k \<noteq> i" if "(k, e) \<in> set live" "\<not> P e" for k e using that victim(2,3) d by (metis eq_key_imp_eq_value)
  moreover have "own_protected pk left = filter (\<lambda>(k, _). k \<noteq> i) (own_protected pk live)"
    by (simp add: victim(4) own_protected_def conj_commute case_prod_beta)
  moreover have "length left < length live" using victim length_filter_less [of "(i, f)" live "\<lambda>(k, _). k \<noteq> i"] by simp
  ultimately show ?thesis using victim(4) d by (auto simp: distinct_map_filter)
qed (use d in auto)

lemma own_evicted:
  assumes "evict_oldest_protected pk live = (left, True)" and d: "distinct (map fst live)"
  shows "length (own_protected pk left) < length (own_protected pk live)"
  using assms(1) unfolding evict_oldest_protected_def
proof (cases rule: evict_cases)
  case (victim i f)
  have m: "(i, f) \<in> set (own_protected pk live)" using victim(2,3) by (simp add: own_protected_def)
  have "own_protected pk left = filter (\<lambda>(k, _). k \<noteq> i) (own_protected pk live)"
    by (simp add: victim(4) own_protected_def conj_commute case_prod_beta)
  then show ?thesis using length_filter_less [OF m, of "\<lambda>(k, _). k \<noteq> i"] by simp
qed simp

lemma make_room_ok:
  assumes r: "make_room pk prot live = (left, admit, warn)" and d: "distinct (map fst live)" and n: "length live \<le> MAX_ENTRIES"
    and q: "\<forall>a. length (own_protected a live) \<le> MAX_PROTECTED_PER_AUTHOR"
  shows "set left \<subseteq> set live \<and> distinct (map fst left) \<and> length left \<le> MAX_ENTRIES \<and> (admit \<longrightarrow> length left < MAX_ENTRIES)
    \<and> (admit \<longrightarrow> prot \<longrightarrow> length (own_protected pk left) < MAX_PROTECTED_PER_AUTHOR)
    \<and> (\<forall>a. length (own_protected a left) \<le> MAX_PROTECTED_PER_AUTHOR)
    \<and> (\<forall>k e. (k, e) \<in> set live \<longrightarrow> en_protected e \<longrightarrow> en_pubkey e \<noteq> pk \<longrightarrow> (k, e) \<in> set left)"
proof -
  obtain l1 ok1 where e1: "evict_oldest_protected pk live = (l1, ok1)" by fastforce
  obtain l2 ok2 where e2: "evict_unprotected live = (l2, ok2)" by fastforce
  note s1 = evict_sub [OF e1 [unfolded evict_oldest_protected_def] d] and s2 = evict_sub [OF e2 [unfolded evict_unprotected_def] d]
  have q1: "length (own_protected a l1) \<le> MAX_PROTECTED_PER_AUTHOR" "length (own_protected a l2) \<le> MAX_PROTECTED_PER_AUTHOR" for a
    using s1 [of a] s2 [of a] q by (meson order_trans)+
  have n1: "length l1 \<le> MAX_ENTRIES" "length l2 \<le> MAX_ENTRIES" "ok1 \<longrightarrow> length l1 < MAX_ENTRIES" "ok2 \<longrightarrow> length l2 < MAX_ENTRIES"
    using s1 [of pk] s2 [of pk] n by auto
  have k: "set l1 \<subseteq> set live" "set l2 \<subseteq> set live" "distinct (map fst l1)" "distinct (map fst l2)"
    "\<forall>k e. (k, e) \<in> set live \<longrightarrow> en_protected e \<longrightarrow> en_pubkey e \<noteq> pk \<longrightarrow> (k, e) \<in> set l1"
    "\<forall>k e. (k, e) \<in> set live \<longrightarrow> en_protected e \<longrightarrow> (k, e) \<in> set l2"
    using s1 [of pk] s2 [of pk] by auto
  have l2: "l2 = live" if "\<not> ok2" using e2 [unfolded evict_unprotected_def] that by (cases rule: evict_cases) auto
  show ?thesis
  proof (cases "prot \<and> MAX_PROTECTED_PER_AUTHOR \<le> length (own_protected pk live)")
    case True
    then have m: "left = l1" "admit = ok1" using r e1 by (auto simp: make_room_def)
    have "ok1 \<longrightarrow> length (own_protected pk l1) < MAX_PROTECTED_PER_AUTHOR" using own_evicted [of pk live l1] e1 d q by (cases ok1) (auto intro: less_le_trans)
    then show ?thesis using m k q1 n1 by simp
  next
    case False
    show ?thesis
    proof (cases "MAX_ENTRIES \<le> length live")
      case full: True
      show ?thesis
      proof (cases ok2)
        case True
        then have "left = l2" "admit" using r e2 False full by (auto simp: make_room_def split: if_splits)
        moreover have "prot \<longrightarrow> length (own_protected pk l2) < MAX_PROTECTED_PER_AUTHOR" using False s2 [of pk] by auto
        ultimately show ?thesis using k q1 n1 True by simp
      next
        case no2: False
        show ?thesis
        proof (cases prot)
          case True
          then have m: "left = l1" "admit = ok1" using r e1 e2 False full no2 l2 by (auto simp: make_room_def split: if_splits)
          have "length (own_protected pk l1) < MAX_PROTECTED_PER_AUTHOR" using False True s1 [of pk] by auto
          then show ?thesis using m k q1 n1 by simp
        next
          case False
          then have "left = live" "\<not> admit" using r e2 full no2 l2 by (auto simp: make_room_def)
          then show ?thesis using d n q False by auto
        qed
      qed
    next
      case room: False
      then have "left = live" "admit" using r False by (auto simp: make_room_def split: if_splits)
      then show ?thesis using d n q False room by auto
    qed
  qed
qed

end
