(* ===== verification/AuthProps.thy ===== *)
theory AuthProps
  imports HttpAuth Reference
begin

text \<open>
  What HTTP authorization guarantees: an accepted header is bound to its request, the replay guard is
  bounded, and a management identity's header is good for one request.
\<close>

section \<open>Runs of the guard\<close>

record call =
  ca_id :: string
  ca_now :: u64
  ca_created :: u64
  ca_pubkey :: string
  ca_protected :: bool

definition present :: "call \<Rightarrow> replay_guard \<Rightarrow> replay_guard" where
  "present c G = fst (accept_as G (ca_id c) (ca_now c) (ca_created c) (ca_pubkey c) (ca_protected c))"

lemma seen_warn [simp]: "seen (warn_capacity now G) = seen G"
  by (simp add: warn_capacity_def)

lemma own_protected_filter: "length (own_protected pk (filter P xs)) \<le> length (own_protected pk xs)"
  by (induction xs) (auto simp: own_protected_def)

lemma accept_as_run:
  assumes ok: "guard_ok G" and r: "accept_as G i now created pk prot = (G', res)"
  shows "guard_ok G'"
    and "res \<Longrightarrow> \<forall>e. (i, e) \<in> set (seen G) \<longrightarrow> en_expiry e \<le> now"
    and "res \<Longrightarrow> (i, \<lparr>en_expiry = saturating_add created 61, en_presented = saturating_add (next_presentation G) 1,
        en_pubkey = to_ascii_lowercase pk, en_protected = prot\<rparr>) \<in> set (seen G')"
    and "\<forall>k e. tracked G k e \<longrightarrow> en_protected e \<longrightarrow> en_pubkey e \<noteq> to_ascii_lowercase pk \<longrightarrow> now < en_expiry e \<longrightarrow> tracked G' k e"
proof -
  let ?live = "filter (\<lambda>(_, e). now < en_expiry e) (seen G)" and ?pk = "to_ascii_lowercase pk"
  obtain left admit warn where m: "make_room ?pk prot ?live = (left, admit, warn)" by (metis prod_cases3)
  have d: "distinct (map fst ?live)" "length ?live \<le> MAX_ENTRIES" "\<forall>a. length (own_protected a ?live) \<le> MAX_PROTECTED_PER_AUTHOR"
    using ok own_protected_filter [of _ "\<lambda>(_, e). now < en_expiry e" "seen G"]
    by (auto simp: guard_ok_def distinct_map_filter intro: order_trans [OF length_filter_le] order_trans)
  note mr = make_room_ok [OF m d]
  let ?e = "\<lparr>en_expiry = saturating_add created 61, en_presented = saturating_add (next_presentation G) 1, en_pubkey = ?pk, en_protected = prot\<rparr>"
  have s: "seen G' = (if i \<in> fst ` set ?live then ?live else if admit then (i, ?e) # left else left)"
    and res: "res = (i \<notin> fst ` set ?live \<and> admit)"
    using r m by (auto simp: accept_as_def Let_def split: if_splits)
  have own: "own_protected a ((i, ?e) # left) = (if prot \<and> a = ?pk then [(i, ?e)] else []) @ own_protected a left" for a
    by (auto simp: own_protected_def)
  have fresh: "i \<notin> fst ` set left" if "i \<notin> fst ` set ?live" using mr that by blast
  show "guard_ok G'"
    unfolding guard_ok_def s using d mr fresh by (auto simp: own le_less_Suc_eq Suc_le_eq)
  show "\<forall>e. (i, e) \<in> set (seen G) \<longrightarrow> en_expiry e \<le> now" if "res" using that res by (force simp: not_less)
  show "(i, ?e) \<in> set (seen G')" if "res" using that res s by simp
  show "\<forall>k e. tracked G k e \<longrightarrow> en_protected e \<longrightarrow> en_pubkey e \<noteq> ?pk \<longrightarrow> now < en_expiry e \<longrightarrow> tracked G' k e"
    using mr by (auto simp: tracked_def s)
qed

lemma present_ok: "guard_ok G \<Longrightarrow> guard_ok (present c G)"
  unfolding present_def by (rule accept_as_run(1) [OF _ prod.collapse [symmetric]])

lemma presents_ok: "guard_ok G \<Longrightarrow> guard_ok (fold present cs G)"
  by (induction cs arbitrary: G) (auto simp: present_ok)

lemma presents_keep:
  assumes "guard_ok G" and "tracked G i e" and "en_protected e"
    and "\<forall>c \<in> set cs. en_pubkey e \<noteq> to_ascii_lowercase (ca_pubkey c) \<and> ca_now c < en_expiry e"
  shows "tracked (fold present cs G) i e"
  using assms
proof (induction cs arbitrary: G)
  case (Cons c cs)
  have "tracked (present c G) i e"
    using accept_as_run(4) [OF Cons.prems(1) prod.collapse [symmetric], where i = "ca_id c" and now = "ca_now c" and created = "ca_created c" and pk = "ca_pubkey c" and prot = "ca_protected c"] Cons.prems
    by (auto simp: present_def)
  then show ?case using Cons.IH [OF present_ok [OF Cons.prems(1)]] Cons.prems by simp
qed simp

lemma guard_empty: "guard_ok empty_guard"
  by (simp add: guard_ok_def empty_guard_def own_protected_def)

lemma verified_fresh:
  assumes "http_verify X B now enc who need hash meth url = Some v"
  shows "abs_diff (vf_created_at v) now \<le> 60"
  using assms by (auto simp: http_verify_def bind_eq_Some_conv not_less split: if_splits option.splits)

lemma fresh_before_expiry:
  assumes "abs_diff created now \<le> 60" and "created < u64_max - 61"
  shows "now < saturating_add created 61"
proof -
  have "unat now \<le> unat created + 60" using assms(1) by (simp add: word_le_nat_alt unat_abs_diff)
  moreover have "unat created + 61 < 2 ^ 64 - 1" using assms(2) by (simp add: word_less_nat_alt)
  ultimately show ?thesis by (simp add: word_less_nat_alt unat_saturating_add)
qed

section \<open>An authorization header\<close>

definition ex_http :: event where
  "ex_http = \<lparr>ev_id = zeros 64, pubkey = zeros 64, created_at = 1000, kind = 27235,
     tags = [[''u'', ''http://h:80/x''], [''method'', ''POST''], [''payload'', zeros 64]], content = [], sig = zeros 128\<rparr>"

definition ex_b64 :: base64 where
  "ex_b64 = \<lparr>standard = (\<lambda>_. Some (json_of_event ref_ext ex_http)), url_safe_no_pad = (\<lambda>_. None)\<rparr>"

definition ex_home :: relay_identity where
  "ex_home = \<lparr>host = ''h'', port = 80, public_url = []\<rparr>"

definition ex_verified :: verified where
  "ex_verified = \<lparr>vf_pubkey = zeros 64, vf_id = zeros 64, vf_created_at = 1000\<rparr>"

lemma ex_http_verifies: "is_ok (verify ref_ext ex_http)"
  by (simp add: verify_ok_iff ex_http_def zeros_def compute_id_def hexe_zeros id_bytes_def pubkey_bytes_def decode_array_def hexd_zeros)

lemma ex_http_verify:
  "http_verify ref_ext ex_b64 1030 tok (Some (zeros 64)) True (Some (payload_sha256_hex ref_ext [])) ''POST''
     (\<lambda>u. matches_request_url u ex_home ''/x'' None) = Some ex_verified"
proof -
  have js: "event_of_json ref_ext (json_of_event ref_ext ex_http) = Some ex_http" by (rule ref_json)
  have u: "matches_request_url ''http://h:80/x'' ex_home ''/x'' None"
    by (simp add: matches_request_url_def http_origin_def authority_of_def ex_home_def trim_def trim_start.simps trim_end_rev.simps show_nat.simps char_of_def bit_iff_odd)
  have h: "payload_sha256_hex ref_ext [] = zeros 64" by (simp add: payload_sha256_hex_def hexe_zeros zeros_def)
  have d: "abs_diff 1000 1030 \<le> 60" by (simp add: abs_diff_def word_less_nat_alt word_le_nat_alt)
  have t: "has_tag_with ex_http URL_TAG (\<lambda>u. matches_request_url u ex_home ''/x'' None)" "has_tag_with ex_http METHOD_TAG (\<lambda>v. v = ''POST'')"
      "has_tag_with ex_http PAYLOAD_TAG (eq_ignore_ascii_case (zeros 64))"
    using u by (simp_all add: has_tag_with_def ex_http_def URL_TAG_def METHOD_TAG_def PAYLOAD_TAG_def eq_ignore_ascii_case_def)
  have t3: "has_tag_with ex_http PAYLOAD_TAG (\<lambda>v. eq_ignore_ascii_case v (zeros 64))"
    using t(3) by (simp add: eq_ignore_ascii_case_def has_tag_with_def eq_commute)
  have f: "kind ex_http = HTTP_AUTH_KIND" "pubkey ex_http = zeros 64" "created_at ex_http = 1000" "ev_id ex_http = zeros 64"
    by (simp_all add: ex_http_def HTTP_AUTH_KIND_def)
  have e: "eq_ignore_ascii_case (zeros 64) (zeros 64)" by (simp add: eq_ignore_ascii_case_def)
  show ?thesis unfolding http_verify_def h
    using js d t t3 f e ex_http_verifies by (simp add: ex_b64_def is_none_or_def ex_verified_def not_less)
qed


section \<open>Properties\<close>

text \<open>
  C34: the replay guard is bounded. Whatever authorizations are presented, in whatever order and at
  whatever times, it never tracks more than 4096, each once, and never more than 64 protected ones of
  one management identity.
\<close>
theorem guard_bounded:
  "distinct (map fst (seen (fold present cs empty_guard))) \<and> length (seen (fold present cs empty_guard)) \<le> MAX_ENTRIES
    \<and> length (own_protected pk (seen (fold present cs empty_guard))) \<le> MAX_PROTECTED_PER_AUTHOR"
  using presents_ok [OF guard_empty, of cs] by (simp add: guard_ok_def)

text \<open>
  C32: a captured management authorization cannot be replayed. Once the guard admitted a protected
  authorization, no flood of other identities can make it forget: as long as the header still
  verifies, presenting it again is refused.
\<close>
theorem management_never_replayed:
  assumes "guard_ok G" and "accept_as G (vf_id v) now0 (vf_created_at v) (vf_pubkey v) True = (G1, True)"
    and "\<forall>c \<in> set cs. to_ascii_lowercase (ca_pubkey c) \<noteq> to_ascii_lowercase (vf_pubkey v) \<and> abs_diff (vf_created_at v) (ca_now c) \<le> 60"
    and "vf_created_at v < u64_max - 61" and "http_verify X B now enc who need hash meth url = Some v"
  shows "\<not> snd (accept_as (fold present cs G1) (vf_id v) now (vf_created_at v) (vf_pubkey v) prot)"
proof -
  let ?e = "\<lparr>en_expiry = saturating_add (vf_created_at v) 61, en_presented = saturating_add (next_presentation G) 1,
        en_pubkey = to_ascii_lowercase (vf_pubkey v), en_protected = True\<rparr>"
  note a = accept_as_run [OF assms(1,2)]
  have "tracked (fold present cs G1) (vf_id v) ?e"
    by (rule presents_keep [OF a(1)]) (use a(3) assms(3) fresh_before_expiry [OF _ assms(4)] in \<open>auto simp: tracked_def\<close>)
  moreover have "now < en_expiry ?e" using fresh_before_expiry [OF verified_fresh [OF assms(5)] assms(4)] by simp
  moreover have "guard_ok (fold present cs G1)" by (rule presents_ok [OF a(1)])
  ultimately show ?thesis
    using accept_as_run(2) [OF _ prod.collapse [symmetric], where G = "fold present cs G1" and i = "vf_id v" and now = now and created = "vf_created_at v" and pk = "vf_pubkey v" and prot = prot]
    by (force simp: tracked_def)
qed

theorem management_never_replayed_witness:
  "\<not> snd (accept_as (fold present [\<lparr>ca_id = ''x'', ca_now = 1010, ca_created = 1010, ca_pubkey = ''aa'', ca_protected = False\<rparr>]
       (fst (accept_as empty_guard (zeros 64) 1000 1000 (zeros 64) True))) (zeros 64) 1030 1000 (zeros 64) True)"
proof -
  obtain G1 where r: "accept_as empty_guard (zeros 64) 1000 1000 (zeros 64) True = (G1, True)"
    by (simp add: accept_as_def empty_guard_def make_room_def own_protected_def MAX_PROTECTED_PER_AUTHOR_def MAX_ENTRIES_def Let_def)
  have z: "to_ascii_lowercase ''aa'' \<noteq> to_ascii_lowercase (zeros 64)"
    by (simp add: to_ascii_lowercase_def zeros_def ascii_lower_def is_ascii_uppercase_def code_def numeral_eq_Suc)
  show ?thesis
    using management_never_replayed [OF guard_empty _ _ _ ex_http_verify, of 1000 G1
        "[\<lparr>ca_id = ''x'', ca_now = 1010, ca_created = 1010, ca_pubkey = ''aa'', ca_protected = False\<rparr>]" True] r z
    by (simp add: ex_verified_def abs_diff_def word_less_nat_alt word_le_nat_alt)
qed



section \<open>What a flood can do\<close>

text \<open>
  At capacity the guard evicts the oldest unprotected authorization, whoever presented it. So a flood of
  fresh identities pushes out a quiet identity's earlier authorization, which is then admitted again:
  the eviction of the most prolific author that the guard's description promises is not what it does.
\<close>

lemma oldest_first:
  assumes "(i, e) \<in> set xs" and "\<forall>(k, f) \<in> set xs. k \<noteq> i \<longrightarrow> en_presented e < en_presented f" and "distinct (map fst xs)"
  shows "oldest xs = Some i"
  using assms
proof (induction xs)
  case (Cons x xs)
  obtain k f where x: "x = (k, f)" by fastforce
  show ?case
  proof (cases "k = i")
    case True
    then have "f = e" using Cons.prems(1,3) x by (auto simp: image_iff)
    then have "\<forall>y \<in> set xs. en_presented f \<le> en_presented (snd y)"
      using Cons.prems(2,3) x True by (force simp: less_imp_le)
    then show ?thesis using x True by simp
  next
    case False
    then have m: "(i, e) \<in> set xs" and "en_presented e < en_presented f" using Cons.prems x by auto
    then have "\<not> (\<forall>y \<in> set xs. en_presented f \<le> en_presented (snd y))" by force
    then show ?thesis using Cons.IH [OF m] Cons.prems x by auto
  qed
qed simp

lemma flood_evicts_quiet:
  assumes ok: "guard_ok G" and full: "length (seen G) = MAX_ENTRIES"
    and live: "\<forall>(k, e) \<in> set (seen G). now < en_expiry e \<and> \<not> en_protected e"
    and q: "(i, e) \<in> set (seen G)" "\<forall>(k, f) \<in> set (seen G). k \<noteq> i \<longrightarrow> en_presented e < en_presented f"
    and j: "j \<notin> fst ` set (seen G)"
  shows "\<exists>G'. accept_as G j now created pk False = (G', True) \<and> i \<notin> fst ` set (seen G')"
proof -
  have l: "filter (\<lambda>(_, e). now < en_expiry e) (seen G) = seen G" "filter (\<lambda>(_, e). \<not> en_protected e) (seen G) = seen G"
    using live by (auto intro!: filter_True)
  have "oldest (seen G) = Some i" using oldest_first [OF q] ok by (simp add: guard_ok_def)
  then have "make_room (to_ascii_lowercase pk) False (seen G) = (filter (\<lambda>(k, _). k \<noteq> i) (seen G), True, True)"
    using full l(2) by (simp add: make_room_def evict_unprotected_def evict_def)
  moreover have "j \<noteq> i" using q(1) j by force
  ultimately show ?thesis using j l(1) by (auto simp: accept_as_def Let_def)
qed

end
