(* ===== verification/Counting.thy ===== *)
theory Counting
  imports ReqFilter Reference
begin

text \<open>
  NIP-45 counting (\<open>src/src/nips/nip45.rs\<close>): the COUNT answer and its HyperLogLog registers. The
  registers of several relays merge to the registers of the union of their events.
\<close>

section \<open>The offset of a filter\<close>

definition hex_nibble :: "char \<Rightarrow> nat option" where
  "hex_nibble c =
     (if code CHR ''0'' \<le> code c \<and> code c \<le> code CHR ''9'' then Some (code c - code CHR ''0'')
      else if code CHR ''a'' \<le> code c \<and> code c \<le> code CHR ''f'' then Some (code c - code CHR ''a'' + 10)
      else if code CHR ''A'' \<le> code c \<and> code c \<le> code CHR ''F'' then Some (code c - code CHR ''A'' + 10)
      else None)"

definition address_pubkey :: "ext \<Rightarrow> string \<Rightarrow> string option" where
  "address_pubkey X value =
     Option.bind (split_once CHR '':'' value) (\<lambda>(knd, rest).
     Option.bind (parse_u64 knd) (\<lambda>_.
     Option.bind (split_once CHR '':'' rest) (\<lambda>(pk, _).
       if length pk = 64 \<and> hex_decode X pk \<noteq> None then Some pk else None)))"

definition hll_offset :: "ext \<Rightarrow> filter_req \<Rightarrow> nat option" where
  "hll_offset X f =
     Option.bind (List.find (\<lambda>(n, _). starts_with ''#'' n) (ftags f)) (\<lambda>(_, v).
     case tag_values v of
       [] \<Rightarrow> None
     | value # _ \<Rightarrow>
         (let hex_string =
            (if length value = 64 \<and> hex_decode X value \<noteq> None then value
             else case address_pubkey X value of
               Some pk \<Rightarrow> pk
             | None \<Rightarrow> hex_encode X (sha256 X (as_bytes value)))
          in if 32 < length hex_string then map_option (\<lambda>n. n + 8) (hex_nibble (hex_string ! 32)) else None))"

text \<open>The loop over the filters; \<open>None\<close> is the early return.\<close>

fun common_offset :: "ext \<Rightarrow> filter_req list \<Rightarrow> nat option \<Rightarrow> nat option option" where
  "common_offset X [] off = Some off"
| "common_offset X (f # fs) off =
     (case hll_offset X f of
        None \<Rightarrow> None
      | Some c \<Rightarrow>
          (case off of
             None \<Rightarrow> common_offset X fs (Some c)
           | Some old \<Rightarrow> if old = c then common_offset X fs off else None))"

section \<open>Registers\<close>

definition hll_value :: "nat \<Rightarrow> bytes \<Rightarrow> u8" where
  "hll_value off pk = of_nat (leading_zero_bits (take 7 (drop (off + 1) pk)) + 1)"

definition hll_step :: "ext \<Rightarrow> nat \<Rightarrow> u8 list \<Rightarrow> event \<Rightarrow> u8 list" where
  "hll_step X off regs e =
     (case pubkey_bytes X e of
        None \<Rightarrow> regs
      | Some pk \<Rightarrow>
          (let r = unat (pk ! off); v = hll_value off pk
           in if v > regs ! r then regs[r := v] else regs))"

definition hll_registers :: "ext \<Rightarrow> nat \<Rightarrow> event list \<Rightarrow> u8 list" where
  "hll_registers X off es = foldl (hll_step X off) (replicate 256 0) es"

definition hll :: "ext \<Rightarrow> filter_req list \<Rightarrow> event list \<Rightarrow> string option" where
  "hll X fs es =
     (case common_offset X fs None of
        None \<Rightarrow> None
      | Some None \<Rightarrow> None
      | Some (Some off) \<Rightarrow> Some (hex_encode X (hll_registers X off es)))"

definition count_response :: "ext \<Rightarrow> string \<Rightarrow> filter_req list \<Rightarrow> event list \<Rightarrow> bool \<Rightarrow> json" where
  "count_response X sub fs es approximate =
     (let body = [(''count'', JNum (int (length es)))] @
        (if approximate then [(''approximate'', JBool True)]
         else case hll X fs es of None \<Rightarrow> [] | Some h \<Rightarrow> [(''hll'', JStr h)])
      in JArr [JStr ''COUNT'', JStr sub, JObj body])"

section \<open>What a register holds\<close>

definition hits_register :: "ext \<Rightarrow> nat \<Rightarrow> nat \<Rightarrow> event \<Rightarrow> u8 option" where
  "hits_register X off r e =
     (case pubkey_bytes X e of None \<Rightarrow> None | Some pk \<Rightarrow> if unat (pk ! off) = r then Some (hll_value off pk) else None)"

lemma length_step [simp]: "length (hll_step X off regs e) = length regs"
  by (simp add: hll_step_def Let_def split: option.split)

lemma step_nth:
  assumes "length regs = 256" and "r < 256"
  shows "hll_step X off regs e ! r = max (regs ! r) (case hits_register X off r e of None \<Rightarrow> 0 | Some v \<Rightarrow> v)"
  using assms by (auto simp: hll_step_def hits_register_def Let_def nth_list_update max_def split: option.split)

lemma foldl_nth:
  assumes "length regs = 256" and "r < 256"
  shows "length (foldl (hll_step X off) regs es) = 256
    \<and> foldl (hll_step X off) regs es ! r = max (regs ! r) (Max (insert 0 {v. \<exists>e \<in> set es. hits_register X off r e = Some v}))"
  using assms(1)
proof (induction es arbitrary: regs)
  case (Cons e es)
  have fin: "finite {v. \<exists>e \<in> set es. hits_register X off r e = Some v}"
  proof -
    have "{v. \<exists>e \<in> set es. hits_register X off r e = Some v} \<subseteq> (\<lambda>e. the (hits_register X off r e)) ` set es" by force
    then show ?thesis using finite_subset by blast
  qed
  let ?S = "{v. \<exists>e \<in> set es. hits_register X off r e = Some v}"
  have split: "{v. \<exists>e' \<in> set (e # es). hits_register X off r e' = Some v} = set_option (hits_register X off r e) \<union> ?S"
    by (cases "hits_register X off r e") auto
  have "Max (insert 0 (set_option (hits_register X off r e) \<union> ?S))
      = max (case hits_register X off r e of None \<Rightarrow> 0 | Some v \<Rightarrow> v) (Max (insert 0 ?S))"
    using fin by (cases "hits_register X off r e") (auto simp: insert_commute max.left_commute)
  then show ?case using Cons.IH [of "hll_step X off regs e"] Cons.prems step_nth [OF Cons.prems assms(2), of X off e] split
    by (simp add: max.assoc)
qed simp

lemma register_max:
  assumes "r < 256"
  shows "hll_registers X off es ! r = Max (insert 0 {v. \<exists>e \<in> set es. hits_register X off r e = Some v})"
  using foldl_nth [of "replicate 256 0" r X off es] assms by (simp add: hll_registers_def)

lemma length_registers [simp]: "length (hll_registers X off es) = 256"
  using foldl_nth [of "replicate 256 0" 0 X off es] by (simp add: hll_registers_def)

lemma registers_append:
  assumes "r < 256"
  shows "hll_registers X off (es @ fs) ! r = max (hll_registers X off es ! r) (hll_registers X off fs ! r)"
proof -
  have l: "length (hll_registers X off es) = 256" by simp
  have "hll_registers X off (es @ fs) ! r = foldl (hll_step X off) (hll_registers X off es) fs ! r" by (simp add: hll_registers_def)
  then show ?thesis using foldl_nth [OF l assms, of X off fs] register_max [OF assms, of X off fs] by simp
qed

lemma hex_nibble_lt: "hex_nibble c = Some n \<Longrightarrow> n < 16"
  by (auto simp: hex_nibble_def code_def split: if_splits)

lemma hll_offset_range:
  assumes "hll_offset X f = Some off"
  shows "8 \<le> off \<and> off < 24"
proof -
  have nib: "8 \<le> off \<and> off < 24" if "map_option (\<lambda>n. n + 8) (hex_nibble c) = Some off" for c
    using that hex_nibble_lt [of c] by auto
  obtain name v where v: "(case tag_values v of [] \<Rightarrow> None
     | value # _ \<Rightarrow>
         (let hex_string =
            (if length value = 64 \<and> hex_decode X value \<noteq> None then value
             else case address_pubkey X value of
               Some pk \<Rightarrow> pk
             | None \<Rightarrow> hex_encode X (sha256 X (as_bytes value)))
          in if 32 < length hex_string then map_option (\<lambda>n. n + 8) (hex_nibble (hex_string ! 32)) else None)) = Some off"
    using assms by (auto simp only: hll_offset_def bind_eq_Some_conv split: prod.splits)
  show ?thesis
  proof (cases "tag_values v")
    case Nil
    then show ?thesis using v by simp
  next
    case (Cons x xs)
    show ?thesis using v unfolding Cons Let_def list.case by (metis nib option.distinct(1))
  qed
qed

lemma common_offset_range:
  "common_offset X fs off0 = Some (Some off) \<Longrightarrow> (\<forall>o'. off0 = Some o' \<longrightarrow> 8 \<le> o' \<and> o' < 24) \<Longrightarrow> 8 \<le> off \<and> off < 24"
  by (induction X fs off0 rule: common_offset.induct) (auto split: option.splits if_splits dest: hll_offset_range)

lemma hll_value_le: "unat (hll_value off pk) \<le> 57"
proof -
  have "leading_zero_bits (take 7 (drop (off + 1) pk)) \<le> 8 * length (take 7 (drop (off + 1) pk))" by (rule leading_zero_bits_le)
  also have "\<dots> \<le> 56" by simp
  finally have "leading_zero_bits (take 7 (drop (off + 1) pk)) + 1 \<le> 57" by simp
  then show ?thesis unfolding hll_value_def unsigned_of_nat take_bit_eq_mod by simp
qed

section \<open>Properties\<close>

text \<open>
  C35: the HyperLogLog registers describe a set of events. They do not depend on the order or repetition
  of the events, the registers of a union are the elementwise maximum (so relays' counts merge), every
  register is at most 57, and the offset is such that no key is read out of bounds.
\<close>
theorem hll_mergeable:
  assumes "common_offset X fs None = Some (Some off)"
  shows "off + 8 \<le> 32 \<and> hll X fs es = Some (hex_encode X (hll_registers X off es)) \<and> length (hll_registers X off es) = 256
    \<and> (\<forall>r < 256. hll_registers X off (es @ es') ! r = max (hll_registers X off es ! r) (hll_registers X off es' ! r)
         \<and> unat (hll_registers X off es ! r) \<le> 57)
    \<and> (set es = set es' \<longrightarrow> hll X fs es = hll X fs es')"
proof -
  have "hll_registers X off es = hll_registers X off es'" if "set es = set es'"
    by (rule nth_equalityI) (use that in \<open>simp_all add: register_max\<close>)
  moreover have "unat (hll_registers X off es ! r) \<le> 57" if "r < 256" for r
  proof -
    let ?S = "{v. \<exists>e \<in> set es. hits_register X off r e = Some v}"
    have "?S \<subseteq> (\<lambda>e. the (hits_register X off r e)) ` set es" by force
    then have "finite ?S" using finite_subset by blast
    then have "hll_registers X off es ! r \<in> insert 0 ?S" unfolding register_max [OF that] by (intro Max_in) simp_all
    moreover have "unat v \<le> 57" if "hits_register X off r e = Some v" for e v
      using that hll_value_le by (auto simp: hits_register_def split: option.splits if_splits)
    ultimately show ?thesis by auto
  qed
  ultimately show ?thesis using common_offset_range [OF assms] registers_append assms by (auto simp: hll_def)
qed

text \<open>A count of the mentions of the all-zero key.\<close>

definition ex_count :: filter_req where
  "ex_count = \<lparr>ids = None, authors = None, kinds = None, since = None, until = None, limit = None, search = None,
     ftags = [(''#p'', JArr [JStr (zeros 64)])]\<rparr>"

lemma ex_count_offset: "common_offset ref_ext [ex_count] None = Some (Some 8)"
  by (simp add: hll_offset_def ex_count_def starts_with_def tag_values_def map_filter_simps zeros_def hexd_zeros hex_nibble_def code_def)

theorem hll_mergeable_witness:
  "common_offset ref_ext [ex_count] None = Some (Some 8) \<and> length (hll_registers ref_ext 8 [ex_note, ex_profile]) = 256
   \<and> hll ref_ext [ex_count] [ex_note, ex_note] = hll ref_ext [ex_count] [ex_note]"
proof -
  have "hll ref_ext [ex_count] [ex_note, ex_note] = hll ref_ext [ex_count] [ex_note]"
    using hll_mergeable [OF ex_count_offset, where es = "[ex_note, ex_note]" and es' = "[ex_note]"] by auto
  then show ?thesis using ex_count_offset by simp
qed

end
