(* ===== verification/GroupEvents.thy ===== *)
theory GroupEvents
  imports GroupData
begin

text \<open>
  The group store of \<open>nips/nip29/mod.rs\<close> and the relay-generated events of \<open>nips/nip29/events.rs\<close>:
  metadata, admins, members, roles, pins and the moderation mirrors. The printing of a JSON value
  (\<open>serde_json\<close>) is the argument \<open>J\<close>.
\<close>

section \<open>The store\<close>

record group_store =
  gr_groups :: "(string \<times> group) list"
  gr_deleted :: "string list"
  gr_ghost :: "string list"
  gr_ghost_overflow :: bool
  gr_published_at :: "(string \<times> u64) list"
  gr_dirty :: "string list"
  gr_max_groups :: nat
  gr_buzz :: bool
  gr_total :: nat
  gr_max_total :: nat
  gr_trust_joins :: bool
  gr_declared :: "string list"
  gr_stale :: bool
  gr_stale_groups :: "string list"
  gr_unrestored :: bool

definition with_cap :: "nat \<Rightarrow> group_store" where
  "with_cap n = \<lparr>gr_groups = [], gr_deleted = [], gr_ghost = [], gr_ghost_overflow = False, gr_published_at = [],
     gr_dirty = [], gr_max_groups = n, gr_buzz = False, gr_total = 0, gr_max_total = MAX_TOTAL_MEMBERS,
     gr_trust_joins = False, gr_declared = [], gr_stale = False, gr_stale_groups = [], gr_unrestored = False\<rparr>"

definition group_of :: "group_store \<Rightarrow> string \<Rightarrow> group option" where
  "group_of S gid = map_of (gr_groups S) gid"

definition set_group :: "string \<Rightarrow> group \<Rightarrow> group_store \<Rightarrow> group_store" where
  "set_group gid g S = S\<lparr>gr_groups := AList.update gid g (gr_groups S)\<rparr>"

text \<open>\<open>if let Some(group) = self.groups.get_mut(gid)\<close>.\<close>

definition edit_group :: "string \<Rightarrow> (group \<Rightarrow> group) \<Rightarrow> group_store \<Rightarrow> group_store" where
  "edit_group gid f S = (case group_of S gid of None \<Rightarrow> S | Some g \<Rightarrow> set_group gid (f g) S)"

section \<open>Relay-generated events\<close>

definition base_event :: "u64 \<Rightarrow> string \<Rightarrow> string \<Rightarrow> u64 \<Rightarrow> event" where
  "base_event k gid relay now =
     \<lparr>ev_id = [], pubkey = relay, created_at = now, kind = k, tags = [[''d'', gid]], content = [], sig = []\<rparr>"

definition push_tags :: "tag list \<Rightarrow> event \<Rightarrow> event" where
  "push_tags ts e = e\<lparr>tags := tags e @ ts\<rparr>"

definition attach_create_id :: "string option \<Rightarrow> event \<Rightarrow> event" where
  "attach_create_id cid e = (case cid of None \<Rightarrow> e | Some i \<Rightarrow> push_tags [[CREATE_ID_TAG, i]] e)"

definition identity_tags :: "group option \<Rightarrow> bool \<Rightarrow> tag list" where
  "identity_tags go include_created_at =
     (case go of
        None \<Rightarrow> []
      | Some g \<Rightarrow>
          (if g_channel_type g \<noteq> [] then [[''t'', g_channel_type g]] else [])
          @ map (\<lambda>l. [''t'', l]) (g_labels g)
          @ (case g_creator g of None \<Rightarrow> [] | Some c \<Rightarrow> [[''P'', c]])
          @ (case g_created_at g of
               None \<Rightarrow> []
             | Some t \<Rightarrow> if include_created_at then [[''created_at'', show_nat (unat t)]] else []))"

definition push_channel_identity_tags :: "event \<Rightarrow> group option \<Rightarrow> bool \<Rightarrow> event" where
  "push_channel_identity_tags e go include_created_at = push_tags (identity_tags go include_created_at) e"

definition opt_tag :: "string \<Rightarrow> string option \<Rightarrow> tag list" where
  "opt_tag name v = (case v of None \<Rightarrow> [] | Some x \<Rightarrow> [[name, x]])"

definition meta_tags :: "group \<Rightarrow> bool \<Rightarrow> tag list" where
  "meta_tags g buzz =
     (let s = g_settings g in
      map (\<lambda>(n, v). [n, v]) (filter (\<lambda>(n, v). v \<noteq> [])
        [(''name'', gs_name s), (''picture'', gs_picture s), (''banner'', gs_banner s), (''about'', gs_about s)])
      @ (if buzz then opt_tag ''topic'' (gs_topic s) @ opt_tag ''purpose'' (gs_purpose s)
           @ opt_tag ''ttl'' (map_option (\<lambda>n. show_nat (unat n)) (gs_ttl s))
           @ (if gs_archived s then [[''archived'', ''true'']] else []) else [])
      @ (if gs_private s then [[''private'']] else if buzz then [[''public'']] else [])
      @ (if gs_restricted s then [[''restricted'']] else [])
      @ (if gs_closed s then [[''closed'']] else [])
      @ (if gs_hidden s then [[''hidden'']] else [])
      @ (if gs_livekit s then [[''livekit'']] else [])
      @ (if buzz then opt_tag ''join_role'' (gs_join_role s) else [])
      @ (case gs_supported_kinds s of None \<Rightarrow> []
         | Some ks \<Rightarrow> [''supported_kinds'' # map (\<lambda>k. show_nat (unat k)) ks])
      @ (if buzz then identity_tags (Some g) True else [])
      @ (if g_channel_type g = ''dm'' then map (\<lambda>pk. [''p'', pk]) (sort (map fst (g_members g))) else [])
      @ opt_tag ''parent'' (g_parent g)
      @ map (\<lambda>c. [''child'', c]) (g_children g))"

definition build_meta_event :: "string \<Rightarrow> group option \<Rightarrow> string \<Rightarrow> u64 \<Rightarrow> bool \<Rightarrow> event" where
  "build_meta_event gid go relay now buzz =
     (case go of
        None \<Rightarrow> base_event GROUP_META gid relay now
      | Some g \<Rightarrow> push_tags (meta_tags g buzz) (base_event GROUP_META gid relay now))"

text \<open>The admin rows within the row and byte budget; the first row that does not fit ends the list.\<close>

fun admin_rows :: "nat \<Rightarrow> nat \<Rightarrow> (string \<times> string list) list \<Rightarrow> tag list" where
  "admin_rows n used [] = []"
| "admin_rows n used ((pk, roles) # rest) =
     (let tag_bytes = length pk + sum_list (map length roles) + length roles * 8
      in if n \<ge> MAX_ADMIN_ROLE_TAGS \<or> used + tag_bytes > MAX_ADMIN_ROLE_BYTES then []
         else (''p'' # pk # roles) # admin_rows (n + 1) (used + tag_bytes) rest)"

definition build_admins_event :: "string \<Rightarrow> group option \<Rightarrow> string \<Rightarrow> u64 \<Rightarrow> bool \<Rightarrow> event" where
  "build_admins_event gid go relay now buzz =
     push_tags ((if buzz then identity_tags go False else []) @
       (case go of
          None \<Rightarrow> []
        | Some g \<Rightarrow> admin_rows 0 0 (sort_key fst
            (map (\<lambda>(pk, roles). (pk, bounded_member_roles roles)) (filter (\<lambda>(pk, roles). roles \<noteq> []) (g_members g))))))
       (base_event GROUP_ADMINS gid relay now)"

definition member_role :: "group \<Rightarrow> string \<Rightarrow> string" where
  "member_role g pk =
     (if pk \<in> set (g_guests g) then ''guest''
      else if pk \<in> set (g_bots g) then ''bot''
      else case map_of (g_members g) pk of
        None \<Rightarrow> ''member''
      | Some roles \<Rightarrow>
          if ''owner'' \<in> set roles then ''owner''
          else if ''admin'' \<in> set roles then ''admin''
          else if ''bot'' \<in> set roles then ''bot''
          else case sort roles of [] \<Rightarrow> ''member'' | r # _ \<Rightarrow> r)"

definition build_members_event :: "string \<Rightarrow> group option \<Rightarrow> string \<Rightarrow> u64 \<Rightarrow> bool \<Rightarrow> event" where
  "build_members_event gid go relay now buzz =
     push_tags ((if buzz then identity_tags go False else []) @
       (case go of
          None \<Rightarrow> []
        | Some g \<Rightarrow> map (\<lambda>pk. if buzz then [''p'', pk, [], member_role g pk] else [''p'', pk]) (sort (map fst (g_members g)))))
       (base_event GROUP_MEMBERS gid relay now)"

definition build_pins_event :: "string \<Rightarrow> group option \<Rightarrow> string \<Rightarrow> u64 \<Rightarrow> event" where
  "build_pins_event gid go relay now =
     push_tags (case go of None \<Rightarrow> [] | Some g \<Rightarrow> map (\<lambda>(n, v). [n, v]) (g_pins g)) (base_event GROUP_PINS gid relay now)"

definition build_roles_event :: "string \<Rightarrow> group option \<Rightarrow> string \<Rightarrow> u64 \<Rightarrow> bool \<Rightarrow> event" where
  "build_roles_event gid go relay now buzz =
     push_tags (case go of
        None \<Rightarrow> []
      | Some g \<Rightarrow>
          (let roles = concat (map snd (g_members g)) @
             (if buzz then map (\<lambda>_. ''guest'') (g_guests g) @ map (\<lambda>_. ''bot'') (g_bots g) else [])
           in map (\<lambda>r. [''role'', r]) (take MAX_GROUP_ROLES (retain_budget MAX_GROUP_ROLE_BYTES 0
                (remdups_adj (sort (filter (\<lambda>r. length r \<le> MAX_ROLE_BYTES) roles)))))))
       (base_event GROUP_ROLES gid relay now)"

definition build_participants_event :: "string \<Rightarrow> string list \<Rightarrow> string \<Rightarrow> u64 \<Rightarrow> event" where
  "build_participants_event gid ps relay now =
     push_tags (map (\<lambda>p. [''participant'', p]) ps) (base_event GROUP_PARTICIPANTS gid relay now)"

definition build_system_message ::
  "(json \<Rightarrow> string) \<Rightarrow> string \<Rightarrow> string \<Rightarrow> string option \<Rightarrow> string \<Rightarrow> string \<Rightarrow> u64 \<Rightarrow> event" where
  "build_system_message J gid actor target message_type relay now =
     \<lparr>ev_id = [], pubkey = relay, created_at = now, kind = SYSTEM_MESSAGE, tags = [[''h'', gid]],
      content = J (JObj ([(''type'', JStr message_type), (''actor'', JStr actor)]
        @ (case target of None \<Rightarrow> [] | Some t \<Rightarrow> [(''target'', JStr t)]))),
      sig = []\<rparr>"

definition build_membership_notice ::
  "(json \<Rightarrow> string) \<Rightarrow> u64 \<Rightarrow> string \<Rightarrow> string \<Rightarrow> string \<Rightarrow> string \<Rightarrow> string \<Rightarrow> u64 \<Rightarrow> event" where
  "build_membership_notice J k gid ct target actor relay now =
     \<lparr>ev_id = [], pubkey = relay, created_at = now, kind = k,
      tags = [[''p'', target], [''h'', gid], [''t'', ct]],
      content = J (JObj [(''type'', JStr (if k = MEMBER_ADDED then ''member_added'' else ''member_removed'')),
        (''channel_id'', JStr gid), (''actor'', JStr actor)]),
      sig = []\<rparr>"

definition build_put_user :: "string \<Rightarrow> string \<Rightarrow> string list \<Rightarrow> string \<Rightarrow> u64 \<Rightarrow> event" where
  "build_put_user gid member roles relay now =
     (base_event 9000 gid relay now)\<lparr>tags := [[''h'', gid], [''p'', member] @ roles, [JOIN_MIRROR_TAG, ''1'']]\<rparr>"

definition build_remove_user :: "string \<Rightarrow> string \<Rightarrow> string \<Rightarrow> u64 \<Rightarrow> event" where
  "build_remove_user gid member relay now = (base_event 9001 gid relay now)\<lparr>tags := [[''h'', gid], [''p'', member]]\<rparr>"

definition build_remove_users :: "string \<Rightarrow> string list \<Rightarrow> string \<Rightarrow> u64 \<Rightarrow> event" where
  "build_remove_users gid ms relay now =
     (base_event 9001 gid relay now)\<lparr>tags := [''h'', gid] # map (\<lambda>m. [''p'', m]) ms\<rparr>"

section \<open>Rosters\<close>

definition notice_channel_type :: "group_store \<Rightarrow> string \<Rightarrow> string" where
  "notice_channel_type S gid =
     (case group_of S gid of
        None \<Rightarrow> ''stream''
      | Some g \<Rightarrow> if g_channel_type g = [] then ''stream'' else g_channel_type g)"

definition members_due :: "group_store \<Rightarrow> string \<Rightarrow> u64 \<Rightarrow> bool" where
  "members_due S gid now \<longleftrightarrow>
     (case group_of S gid of None \<Rightarrow> 0 | Some g \<Rightarrow> length (g_members g)) \<le> MEMBERS_EAGER_MAX
     \<or> is_none_or (map_of (gr_published_at S) gid) (\<lambda>last. MEMBERS_INTERVAL_SECS \<le> saturating_sub now last)"

definition meta_event :: "group_store \<Rightarrow> string \<Rightarrow> string \<Rightarrow> u64 \<Rightarrow> event" where
  "meta_event S gid relay now = build_meta_event gid (group_of S gid) relay now (gr_buzz S)"

definition is_dm :: "group_store \<Rightarrow> string \<Rightarrow> bool" where
  "is_dm S gid \<longleftrightarrow> is_some_and (group_of S gid) (\<lambda>g. g_channel_type g = ''dm'')"

definition membership_events :: "group_store \<Rightarrow> string \<Rightarrow> string \<Rightarrow> u64 \<Rightarrow> group_store \<times> event list" where
  "membership_events S gid relay now =
     (let out = (if is_dm S gid then [meta_event S gid relay now] else [])
            @ [build_admins_event gid (group_of S gid) relay now (gr_buzz S),
               build_roles_event gid (group_of S gid) relay now (gr_buzz S)]
      in if members_due S gid now
         then (S\<lparr>gr_published_at := AList.update gid now (gr_published_at S), gr_dirty := removeAll gid (gr_dirty S)\<rparr>,
               out @ [build_members_event gid (group_of S gid) relay now (gr_buzz S)])
         else (S\<lparr>gr_dirty := List.insert gid (gr_dirty S)\<rparr>, out))"

fun due_loop :: "group_store \<Rightarrow> string list \<Rightarrow> string \<Rightarrow> u64 \<Rightarrow> group_store \<times> event list" where
  "due_loop S [] relay now = (S, [])"
| "due_loop S (gid # gids) relay now =
     (if group_of S gid = None then due_loop (S\<lparr>gr_dirty := removeAll gid (gr_dirty S)\<rparr>) gids relay now
      else if members_due S gid now then
        (let (S', out) = due_loop (S\<lparr>gr_dirty := removeAll gid (gr_dirty S),
                gr_published_at := AList.update gid now (gr_published_at S)\<rparr>) gids relay now
         in (S', build_members_event gid (group_of S gid) relay now (gr_buzz S) # out))
      else due_loop S gids relay now)"

definition due_membership_events :: "group_store \<Rightarrow> string \<Rightarrow> u64 \<Rightarrow> group_store \<times> event list" where
  "due_membership_events S relay now = due_loop S (gr_dirty S) relay now"

fun all_loop :: "group_store \<Rightarrow> string list \<Rightarrow> string \<Rightarrow> u64 \<Rightarrow> group_store \<times> event list" where
  "all_loop S [] relay now = (S, [])"
| "all_loop S (gid # gids) relay now =
     (let (S1, ms) = membership_events S gid relay now; (S2, out) = all_loop S1 gids relay now
      in (S2, (if is_dm S gid then [] else [meta_event S gid relay now])
            @ [build_pins_event gid (group_of S gid) relay now] @ ms @ out))"

definition all_metadata_events :: "group_store \<Rightarrow> string \<Rightarrow> u64 \<Rightarrow> group_store \<times> event list" where
  "all_metadata_events S relay now = all_loop S (map fst (gr_groups S)) relay now"

end
