(* ===== verification/GroupWrite.thy ===== *)
theory GroupWrite
  imports GroupEvents
begin

text \<open>
  Admission of group writes and read visibility (\<open>nips/nip29/mod.rs\<close>): capacity, \<open>validate_edit_metadata\<close>
  with its two graph walks, \<open>validate_write_inner\<close>, \<open>authorize_live_state_event\<close>, \<open>visible_to\<close> and
  \<open>privacy_gated\<close>.
\<close>

section \<open>Capacity and hints\<close>

definition at_member_capacity :: "group_store \<Rightarrow> nat \<Rightarrow> bool" where
  "at_member_capacity S fresh \<longleftrightarrow> gr_max_total S > 0 \<and> gr_total S + fresh > gr_max_total S"

definition at_capacity :: "group_store \<Rightarrow> bool" where
  "at_capacity S \<longleftrightarrow> gr_max_groups S > 0 \<and> length (gr_groups S) \<ge> gr_max_groups S"

definition p_tags :: "event \<Rightarrow> tag list" where
  "p_tags e = filter (\<lambda>t. 2 \<le> length t \<and> t ! 0 = ''p'') (tags e)"

definition fresh_members :: "group \<Rightarrow> event \<Rightarrow> string list" where
  "fresh_members g e = remdups (filter (\<lambda>pk. \<not> is_member g pk) (map (\<lambda>t. t ! 1) (p_tags e)))"

definition capacity_rejection :: "group_store \<Rightarrow> event \<Rightarrow> string option" where
  "capacity_rejection S e =
     (case group_id e of
        None \<Rightarrow> None
      | Some gid \<Rightarrow>
          if kind e = CREATE_GROUP then
            (if at_capacity S then Some ''restricted: group limit reached''
             else if at_member_capacity S 1 then Some ''restricted: the relay member limit is reached''
             else None)
          else if kind e = GROUP_JOIN then
            (case group_of S gid of
               None \<Rightarrow> None
             | Some g \<Rightarrow>
                 if is_member g (pubkey e) then None
                 else if length (g_members g) \<ge> MAX_MEMBERS then Some ''restricted: the group is full''
                 else if at_member_capacity S 1 then Some ''restricted: the relay member limit is reached''
                 else None)
          else if kind e = PUT_USER then
            (case group_of S gid of
               None \<Rightarrow> None
             | Some g \<Rightarrow>
                 let fresh = length (fresh_members g e)
                 in if length (g_members g) + fresh > MAX_MEMBERS then Some ''restricted: too many group members''
                    else if at_member_capacity S fresh then Some ''restricted: the relay member limit is reached''
                    else None)
          else None)"

definition declared_children_cap :: "group_store \<Rightarrow> nat" where
  "declared_children_cap S =
     (if gr_max_groups S = 0 then MAX_DECLARED_CHILDREN else gr_max_groups S * DECLARED_CHILDREN_PER_GROUP)"

definition live_children :: "group_store \<Rightarrow> string list" where
  "live_children S = concat (map (\<lambda>(gid, g). g_children g) (gr_groups S))"

definition group_is_stale :: "group_store \<Rightarrow> string \<Rightarrow> bool" where
  "group_is_stale S gid \<longleftrightarrow> gr_stale S \<or> gid \<in> set (gr_stale_groups S)"

section \<open>Metadata edits\<close>

datatype write_error =
    ManyHTags | StateUnavailable | MissingHTag | Rebuilding | GroupDeleted | BuzzTagsRefused | GroupLimit
  | MemberLimit | UnknownGroup | PredatesGroup | AlreadyMember | GroupFull | InvalidInvite | GroupClosed
  | GuestPost | NotAdmin | TooManyPins | EmptyInvite | InviteTooLong | TooManyInvites | TooManyMembers
  | TooManyRoles | RoleTooLong | TooManyRoleBytes | LastAdmin | MembersOnly | KindNotSupported
  | ManyParents | EmptyChild | ChildTooLong | TooManyChildBytes | ParentTooLong | OwnChild | ParentAndChild
  | WouldCycle | NotParentAdmin | NoParentGroup | MissingChildren | NotChildAdmin | TooManyDeclared

text \<open>The links a replay could not re-authorize.\<close>

record edit_denials =
  d_parent :: bool
  d_children :: "string list"

definition no_denials :: edit_denials where
  "no_denials = \<lparr>d_parent = False, d_children = []\<rparr>"

definition is_member_topic_edit :: "group \<Rightarrow> event \<Rightarrow> bool \<Rightarrow> bool" where
  "is_member_topic_edit g e relay_signed \<longleftrightarrow>
     kind e = 9002 \<and> \<not> relay_signed
     \<and> is_member g (pubkey e) \<and> \<not> is_guest g (pubkey e) \<and> \<not> is_admin g (pubkey e)
     \<and> list_all (\<lambda>t. t = [] \<or> t ! 0 \<in> {''h'', ''topic'', ''purpose'', ''previous''}) (tags e)"

fun check_children :: "nat \<Rightarrow> string list \<Rightarrow> write_error option" where
  "check_children used [] = None"
| "check_children used (c # cs) =
     (if c = [] then Some EmptyChild
      else if length c > MAX_CHILD_ID_BYTES then Some ChildTooLong
      else if used + length c > MAX_CHILD_BYTES then Some TooManyChildBytes
      else check_children (used + length c) cs)"

definition parent_value :: "event \<Rightarrow> string option" where
  "parent_value e = nonempty_value (tag_value e ''parent'')"

definition child_values :: "event \<Rightarrow> string list" where
  "child_values e = event_tag_values e ''child''"

text \<open>The parent relation as the edit will leave it.\<close>

definition upcoming_parent ::
  "(string \<times> group) list \<Rightarrow> string \<Rightarrow> string option \<Rightarrow> string list \<Rightarrow> string \<Rightarrow> string option" where
  "upcoming_parent gs gid parent children x =
     (if x = gid then parent
      else if x \<in> set children then Some gid
      else Option.bind (map_of gs x) g_parent)"

text \<open>The upward walk: does it revisit a node?\<close>

function climb_revisits ::
  "(string \<times> group) list \<Rightarrow> string \<Rightarrow> string option \<Rightarrow> string list \<Rightarrow> string list \<Rightarrow> string option \<Rightarrow> bool" where
  "climb_revisits gs gid parent children visited None = False"
| "climb_revisits gs gid parent children visited (Some current) =
     (if current \<in> set visited then True
      else climb_revisits gs gid parent children (current # visited) (upcoming_parent gs gid parent children current))"
  by pat_completeness auto
termination
proof (relation "measure (\<lambda>(gs, gid, parent, children, visited, cursor).
    2 * card (insert gid (set children \<union> fst ` set gs) - set visited) + (if cursor = None then 0 else 1))", goal_cases)
  case (2 gs gid parent children visited current)
  let ?N = "insert gid (set children \<union> fst ` set gs)"
  show ?case
  proof (cases "current \<in> ?N")
    case True
    have "?N - set (current # visited) = (?N - set visited) - {current}" by auto
    moreover have "card ((?N - set visited) - {current}) < card (?N - set visited)"
      using True 2 by (intro card_Diff1_less) simp_all
    ultimately show ?thesis by simp
  next
    case False
    then have "upcoming_parent gs gid parent children current = None"
      by (auto simp: upcoming_parent_def map_of_eq_None_iff bind_eq_None_conv)
    moreover have "?N - set (current # visited) = ?N - set visited" using False by auto
    ultimately show ?thesis using 2 by simp
  qed
qed simp

declare climb_revisits.simps [simp del]

text \<open>The downward walk over the stored child lists: does it reach the group?\<close>

function descends_to :: "(string \<times> group) list \<Rightarrow> string \<Rightarrow> string list \<Rightarrow> string list \<Rightarrow> bool" where
  "descends_to gs gid visited queue =
     (case rev queue of
        [] \<Rightarrow> False
      | current # rest \<Rightarrow>
          if current = gid then True
          else if current \<in> set visited then descends_to gs gid visited (rev rest)
          else descends_to gs gid (current # visited)
            (rev rest @ (case map_of gs current of None \<Rightarrow> [] | Some g \<Rightarrow> g_children g)))"
  by pat_completeness auto
termination
proof (relation "measures [\<lambda>(gs, gid, visited, queue). card (fst ` set gs - set visited),
    \<lambda>(gs, gid, visited, queue). length queue]", goal_cases)
  case (2 gs gid visited queue current rest)
  then have "length queue = Suc (length rest)" by (metis length_Cons length_rev)
  then show ?case by simp
next
  case (3 gs gid visited queue current rest)
  then have len: "length queue = Suc (length rest)" by (metis length_Cons length_rev)
  show ?case
  proof (cases "current \<in> fst ` set gs")
    case True
    then have "card (fst ` set gs - set (current # visited)) < card (fst ` set gs - set visited)"
      using 3 by (intro psubset_card_mono) auto
    then show ?thesis by simp
  next
    case False
    then have "map_of gs current = None" by (simp add: map_of_eq_None_iff)
    moreover have "fst ` set gs - set (current # visited) = fst ` set gs - set visited" using False by auto
    ultimately show ?thesis using len by simp
  qed
qed simp

declare descends_to.simps [simp del]

definition parent_denied :: "group_store \<Rightarrow> string \<Rightarrow> event \<Rightarrow> bool \<Rightarrow> bool \<Rightarrow> write_error + bool" where
  "parent_denied S gid e relay_signed replay =
     (case parent_value e of
        None \<Rightarrow> Inr False
      | Some p \<Rightarrow>
          if replay \<and> Option.bind (group_of S gid) g_parent = Some p then Inr False
          else (case group_of S p of
              Some pg \<Rightarrow>
                if \<not> relay_signed \<and> \<not> is_admin pg (pubkey e) then (if replay then Inr True else Inl NotParentAdmin)
                else Inr False
            | None \<Rightarrow> if replay then Inr True else Inl NoParentGroup))"

fun denied_children ::
  "group_store \<Rightarrow> string \<Rightarrow> event \<Rightarrow> bool \<Rightarrow> bool \<Rightarrow> string list \<Rightarrow> string list \<Rightarrow> write_error + string list" where
  "denied_children S gid e relay_signed replay acc [] = Inr acc"
| "denied_children S gid e relay_signed replay acc (c # cs) =
     (if is_some_and (group_of S c) (\<lambda>g. g_parent g = Some gid) then denied_children S gid e relay_signed replay acc cs
      else if \<not> relay_signed \<and> is_some_and (group_of S c) (\<lambda>g. \<not> is_admin g (pubkey e)) then
        (if replay then denied_children S gid e relay_signed replay (List.insert c acc) cs else Inl NotChildAdmin)
      else denied_children S gid e relay_signed replay acc cs)"

definition validate_edit_metadata ::
  "group_store \<Rightarrow> string \<Rightarrow> group \<Rightarrow> event \<Rightarrow> bool \<Rightarrow> bool \<Rightarrow> write_error + edit_denials" where
  "validate_edit_metadata S gid g e relay_signed replay =
     (let parent = parent_value e; children = child_values e; gs = gr_groups S in
      if length (event_tag_values e ''parent'') > 1 then Inl ManyParents
      else case check_children 0 children of Some err \<Rightarrow> Inl err | None \<Rightarrow>
      if is_some_and (tag_value e ''parent'') (\<lambda>p. p \<noteq> [] \<and> length p > MAX_CHILD_ID_BYTES) then Inl ParentTooLong
      else if gid \<in> set children then Inl OwnChild
      else if is_some_and parent (\<lambda>p. p \<in> set children) then Inl ParentAndChild
      else if list_ex (\<lambda>start. climb_revisits gs gid parent children [] (Some start))
                (gid # (case parent of None \<Rightarrow> [] | Some p \<Rightarrow> [p]) @ children) then Inl WouldCycle
      else if list_ex (\<lambda>c. descends_to gs gid [] [c]) children then Inl WouldCycle
      else case parent_denied S gid e relay_signed replay of Inl err \<Rightarrow> Inl err | Inr dp \<Rightarrow>
      if \<not> replay \<and> \<not> (gr_buzz S \<and> children = []) \<and> \<not> list_all (\<lambda>c. c \<in> set children) (g_children g) then Inl MissingChildren
      else case denied_children S gid e relay_signed replay [] children of Inl err \<Rightarrow> Inl err | Inr dc \<Rightarrow>
      let declared_after = remdups (filter (\<lambda>i. i \<in> set (live_children S)) (gr_declared S)
                                    @ filter (\<lambda>c. c \<notin> set dc) children)
      in if length declared_after > declared_children_cap S then Inl TooManyDeclared
         else Inr \<lparr>d_parent = dp, d_children = dc\<rparr>)"

section \<open>Writes\<close>

fun check_role_bytes :: "nat \<Rightarrow> string list \<Rightarrow> write_error option" where
  "check_role_bytes used [] = None"
| "check_role_bytes used (r # rs) =
     (if length r > MAX_ROLE_BYTES then Some RoleTooLong
      else if used + length r > MAX_ROLES_BYTES_PER_MEMBER then Some TooManyRoleBytes
      else check_role_bytes (used + length r) rs)"

fun check_role_tags :: "tag list \<Rightarrow> write_error option" where
  "check_role_tags [] = None"
| "check_role_tags (t # ts) =
     (let unique = remdups (filter (\<lambda>r. r \<noteq> []) (drop 2 t))
      in if length unique > MAX_ROLES_PER_MEMBER then Some TooManyRoles
         else case check_role_bytes 0 unique of Some err \<Rightarrow> Some err | None \<Rightarrow> check_role_tags ts)"

fun check_codes :: "string list \<Rightarrow> write_error option" where
  "check_codes [] = None"
| "check_codes (c # cs) =
     (if c = [] then Some EmptyInvite
      else if length c > MAX_INVITE_CODE_BYTES then Some InviteTooLong
      else check_codes cs)"

definition has_admin :: "group \<Rightarrow> bool" where
  "has_admin g \<longleftrightarrow> list_ex (\<lambda>(pk, roles). roles \<noteq> []) (g_members g)"

definition role_overrides :: "bool \<Rightarrow> event \<Rightarrow> tag list \<Rightarrow> (string \<times> bool) list" where
  "role_overrides buzz e ts =
     foldl (\<lambda>m t. AList.update (t ! 1)
        (tag_grants_privileged_role t buzz (if buzz then tag_value e ''role'' else None)) m) [] ts"

definition overridden_admin :: "(string \<times> bool) list \<Rightarrow> group \<Rightarrow> bool" where
  "overridden_admin ov g \<longleftrightarrow>
     list_ex (\<lambda>(pk, roles). case map_of ov pk of Some b \<Rightarrow> b | None \<Rightarrow> roles \<noteq> []) (g_members g)"

definition retains_unlisted :: "string list \<Rightarrow> group \<Rightarrow> bool" where
  "retains_unlisted removing g \<longleftrightarrow> list_ex (\<lambda>(pk, roles). roles \<noteq> [] \<and> pk \<notin> set removing) (g_members g)"

definition create_refusal :: "group_store \<Rightarrow> event \<Rightarrow> write_error option" where
  "create_refusal S e =
     (if \<not> gr_buzz S \<and> has_replay_sensitive_buzz_tags e then Some BuzzTagsRefused
      else if at_capacity S then Some GroupLimit
      else if at_member_capacity S 1 then Some MemberLimit
      else None)"

definition join_refusal :: "group_store \<Rightarrow> group \<Rightarrow> event \<Rightarrow> write_error option" where
  "join_refusal S g e =
     (if is_member g (pubkey e) then Some AlreadyMember
      else if length (g_members g) \<ge> MAX_MEMBERS then Some GroupFull
      else if at_member_capacity S 1 then Some MemberLimit
      else if gs_closed (g_settings g) then
        (case nonempty_value (event_code e) of
           None \<Rightarrow> Some GroupClosed
         | Some c \<Rightarrow> if has_invite g c then None else Some InvalidInvite)
      else None)"

definition moderation_refusal :: "group_store \<Rightarrow> string \<Rightarrow> group \<Rightarrow> event \<Rightarrow> bool \<Rightarrow> write_error option" where
  "moderation_refusal S gid g e relay_signed =
     (if \<not> relay_signed \<and> \<not> is_admin g (pubkey e) then Some NotAdmin
      else case (if kind e = 9002 then validate_edit_metadata S gid g e relay_signed False else Inr no_denials) of
        Inl err \<Rightarrow> Some err
      | Inr _ \<Rightarrow>
      if kind e = 9010 \<and> length (filter (\<lambda>t. 2 \<le> length t \<and> (t ! 0 = ''e'' \<or> t ! 0 = ''a'')) (tags e)) > MAX_PINS
        then Some TooManyPins
      else case (if kind e = 9009 then check_codes (event_tag_values e ''code'') else None) of Some err \<Rightarrow> Some err | None \<Rightarrow>
      if kind e = 9009 \<and> length (g_invites g)
           + length (remdups (filter (\<lambda>c. \<not> has_invite g c) (event_tag_values e ''code''))) > MAX_INVITES
        then Some TooManyInvites
      else if kind e = 9000 \<and> length (g_members g) + length (fresh_members g e) > MAX_MEMBERS then Some TooManyMembers
      else case (if kind e = 9000 then check_role_tags (p_tags e) else None) of Some err \<Rightarrow> Some err | None \<Rightarrow>
      if kind e = 9000 \<and> at_member_capacity S (length (fresh_members g e)) then Some MemberLimit
      else if kind e = 9000 then
        (let ov = role_overrides (gr_buzz S) e (p_tags e)
         in if has_admin g \<and> \<not> (overridden_admin ov g \<or> list_ex snd ov) then Some LastAdmin else None)
      else if has_admin g \<and> \<not> retains_unlisted (if kind e = 9001 then event_tag_values e ''p'' else []) g then Some LastAdmin
      else None)"

definition group_refusal :: "group_store \<Rightarrow> string \<Rightarrow> group \<Rightarrow> event \<Rightarrow> bool \<Rightarrow> write_error option" where
  "group_refusal S gid g e relay_signed =
     (if kind e \<noteq> CREATE_GROUP \<and> is_some_and (g_created_at g) (\<lambda>t. created_at e < t) then Some PredatesGroup
      else if \<not> gr_buzz S \<and> kind e = 9002 \<and> g_channel_type g = [] \<and> \<not> g_buzz_metadata g
           \<and> has_replay_sensitive_buzz_tags e then Some BuzzTagsRefused
      else if kind e = GROUP_JOIN then join_refusal S g e
      else if kind e = GROUP_LEAVE then None
      else if gr_buzz S \<and> \<not> is_group_action e \<and> is_guest g (pubkey e) then Some GuestPost
      else if gr_buzz S \<and> kind e = 9002 \<and> \<not> relay_signed \<and> \<not> is_admin g (pubkey e) then
        (if is_member_topic_edit g e relay_signed then None else Some NotAdmin)
      else if MOD_MIN \<le> kind e \<and> kind e \<le> MOD_MAX then moderation_refusal S gid g e relay_signed
      else if gs_restricted (g_settings g) \<and> \<not> is_member g (pubkey e) then Some MembersOnly
      else if is_some_and (gs_supported_kinds (g_settings g)) (\<lambda>ks. kind e \<notin> set ks) then Some KindNotSupported
      else None)"

text \<open>\<open>Ok\<close> is \<open>None\<close>.\<close>

definition validate_write_inner :: "group_store \<Rightarrow> event \<Rightarrow> string option \<Rightarrow> write_error option" where
  "validate_write_inner S e relay =
     (let relay_signed = is_some_and relay (\<lambda>pk. eq_ignore_ascii_case pk (pubkey e)) in
      if length (filter (\<lambda>t. t \<noteq> [] \<and> t ! 0 = ''h'') (tags e)) > 1 then Some ManyHTags
      else if gr_unrestored S \<and> kind e \<noteq> DELETE_GROUP then Some StateUnavailable
      else case nonempty_value (group_id e) of
        None \<Rightarrow> if is_group_action e then Some MissingHTag else None
      | Some gid \<Rightarrow>
          if group_is_stale S gid then Some Rebuilding
          else if gid \<in> set (gr_ghost S) then
            (if kind e = DELETE_GROUP \<and> relay_signed then None else Some GroupDeleted)
          else if gid \<in> set (gr_deleted S) then
            (if kind e = CREATE_GROUP then create_refusal S e else Some GroupDeleted)
          else case group_of S gid of
            None \<Rightarrow> if kind e = CREATE_GROUP then create_refusal S e else Some UnknownGroup
          | Some g \<Rightarrow> group_refusal S gid g e relay_signed)"

definition validate_write :: "group_store \<Rightarrow> event \<Rightarrow> write_error option" where
  "validate_write S e = validate_write_inner S e None"

definition validate_write_for_relay :: "group_store \<Rightarrow> event \<Rightarrow> string option \<Rightarrow> write_error option" where
  "validate_write_for_relay S e relay = validate_write_inner S e relay"

definition authorize_live_state_event :: "group_store \<Rightarrow> event \<Rightarrow> string \<Rightarrow> write_error option" where
  "authorize_live_state_event S e relay =
     (if \<not> (MOD_MIN \<le> kind e \<and> kind e \<le> MOD_MAX) then None
      else case group_id e of
        None \<Rightarrow> None
      | Some gid \<Rightarrow>
          case group_of S gid of
            None \<Rightarrow> None
          | Some g \<Rightarrow>
              if relay \<noteq> [] \<and> eq_ignore_ascii_case (pubkey e) relay then None
              else if is_admin g (pubkey e) then None
              else if kind e = 9002 \<and> gr_buzz S \<and> is_member_topic_edit g e False then None
              else Some NotAdmin)"

section \<open>Visibility\<close>

definition channel_ttl_expired_gid :: "group_store \<Rightarrow> string \<Rightarrow> u64 \<Rightarrow> u64 \<Rightarrow> u64 \<Rightarrow> bool" where
  "channel_ttl_expired_gid S gid k created now \<longleftrightarrow>
     \<not> (is_group_action_kind k \<or> is_group_meta k \<or> is_membership_notice_kind k \<or> k = 30622)
     \<and> is_some_and (Option.bind (group_of S gid) (\<lambda>g. gs_ttl (g_settings g))) (\<lambda>ttl. ttl > 0 \<and> saturating_add created ttl \<le> now)"

definition channel_ttl_expired :: "group_store \<Rightarrow> event \<Rightarrow> u64 \<Rightarrow> bool" where
  "channel_ttl_expired S e now \<longleftrightarrow>
     is_some_and (group_id_any e) (\<lambda>gid. channel_ttl_expired_gid S gid (kind e) (created_at e) now)"

definition visible_kind :: "group_store \<Rightarrow> string \<Rightarrow> u64 \<Rightarrow> string option \<Rightarrow> bool" where
  "visible_kind S gid k authed =
     (if group_is_stale S gid then False
      else if gid \<in> set (gr_deleted S) then False
      else if gid \<in> set (gr_ghost S) then False
      else if gr_ghost_overflow S \<and> group_of S gid = None then False
      else case group_of S gid of
        None \<Rightarrow> \<not> gr_unrestored S
      | Some g \<Rightarrow>
          let member = is_some_and authed (is_member g) in
          if gs_private (g_settings g) \<and> \<not> member \<and> \<not> is_group_meta k then False
          else if gs_hidden (g_settings g) \<and> \<not> member \<and> (is_group_meta k \<or> is_group_action_kind k) then False
          else if k = CREATE_INVITE \<and> \<not> member then False
          else True)"

definition visible_to :: "group_store \<Rightarrow> event \<Rightarrow> string option \<Rightarrow> bool" where
  "visible_to S e authed =
     (case group_id_any e of
        None \<Rightarrow> True
      | Some gid \<Rightarrow>
          if \<not> visible_kind S gid (kind e) authed then False
          else if kind e = GROUP_JOIN \<and> is_some_and (event_code e) (\<lambda>c. c \<noteq> []) then
            is_some_and authed (\<lambda>pk. is_some_and (group_of S gid) (\<lambda>g. is_member g pk))
          else True)"

definition privacy_gated :: "group_store \<Rightarrow> event \<Rightarrow> bool" where
  "privacy_gated S e =
     (case group_id_any e of
        None \<Rightarrow> False
      | Some gid \<Rightarrow>
          if group_is_stale S gid then False
          else if gid \<in> set (gr_deleted S) \<or> gid \<in> set (gr_ghost S) then False
          else is_some_and (group_of S gid) (\<lambda>g.
            gs_private (g_settings g) \<and> \<not> is_group_meta (kind e)
            \<or> gs_hidden (g_settings g) \<and> (is_group_meta (kind e) \<or> is_group_action_kind (kind e))
            \<or> kind e = CREATE_INVITE
            \<or> kind e = GROUP_JOIN \<and> is_some_and (event_code e) (\<lambda>c. c \<noteq> [])))"

end
