(* ===== verification/GroupApply.thy ===== *)
theory GroupApply
  imports GroupWrite
begin

text \<open>
  The group state machine: \<open>GroupStore::apply_with_epoch\<close> (\<open>nips/nip29/mod.rs\<close>), one definition per arm,
  with the events the relay publishes. \<open>emit\<close> is off in a rebuild, \<open>replay\<close> marks stored history.
\<close>

section \<open>Joining and leaving\<close>

definition joins_as_guest :: "group_store \<Rightarrow> group \<Rightarrow> bool" where
  "joins_as_guest S g \<longleftrightarrow> gr_buzz S \<and> is_some_and (gs_join_role (g_settings g)) (\<lambda>r. r \<noteq> ''member'')"

definition join_admitted :: "group_store \<Rightarrow> group \<Rightarrow> event \<Rightarrow> string \<Rightarrow> bool \<Rightarrow> bool" where
  "join_admitted S g e relay replay \<longleftrightarrow>
     (replay \<and> gr_trust_joins S \<and> relay = [])
     \<or> (if gs_closed (g_settings g) then is_some_and (event_code e) (has_invite g) else True)"

definition add_member :: "group_store \<Rightarrow> string \<Rightarrow> group \<Rightarrow> group" where
  "add_member S pk g = g\<lparr>g_members := AList.update pk [] (g_members g),
     g_guests := (if joins_as_guest S g then List.insert pk (g_guests g) else g_guests g)\<rparr>"

definition apply_join :: "(json \<Rightarrow> string) \<Rightarrow> group_store \<Rightarrow> string \<Rightarrow> event \<Rightarrow> string \<Rightarrow> u64 \<Rightarrow> bool \<Rightarrow> bool \<Rightarrow> group_store \<times> event list" where
  "apply_join J S gid e relay now emit replay =
     (case group_of S gid of
        None \<Rightarrow> (S, [])
      | Some g \<Rightarrow>
          let m = pubkey e;
              over_global = gr_max_total S > 0 \<and> gr_total S \<ge> gr_max_total S \<and> \<not> is_member g m;
              added = join_admitted S g e relay replay \<and> \<not> over_global
                \<and> (length (g_members g) < MAX_MEMBERS \<or> is_member g m) \<and> \<not> is_member g m
          in if \<not> added then (S, [])
             else let S1 = (set_group gid (add_member S m g) S)\<lparr>gr_total := gr_total S + 1\<rparr>
             in if \<not> emit then (S1, [])
                else let put = attach_create_id (g_create_id g)
                           ((if joins_as_guest S g then push_tags [[''role'', ''guest'']] else id) (build_put_user gid m [] relay now));
                         (S2, ms) = membership_events S1 gid relay now
                     in (S2, put # ms @ [build_system_message J gid m (Some m) ''member_joined'' relay now,
                           build_membership_notice J MEMBER_ADDED gid (notice_channel_type S2 gid) m m relay now]))"

definition drop_member :: "string \<Rightarrow> group \<Rightarrow> group" where
  "drop_member pk g = g\<lparr>g_guests := removeAll pk (g_guests g), g_bots := removeAll pk (g_bots g),
     g_hidden_for := removeAll pk (g_hidden_for g), g_members := AList.delete pk (g_members g)\<rparr>"

definition apply_leave :: "(json \<Rightarrow> string) \<Rightarrow> group_store \<Rightarrow> string \<Rightarrow> event \<Rightarrow> string \<Rightarrow> u64 \<Rightarrow> bool \<Rightarrow> group_store \<times> event list" where
  "apply_leave J S gid e relay now emit =
     (case group_of S gid of
        None \<Rightarrow> (S, [])
      | Some g \<Rightarrow>
          let m = pubkey e; S1 = set_group gid (drop_member m g) S
          in if \<not> is_member g m then (S1, [])
             else let S2 = S1\<lparr>gr_total := gr_total S - 1\<rparr>
             in if \<not> emit then (S2, [])
                else let (S3, ms) = membership_events S2 gid relay now
                     in (S3, attach_create_id (g_create_id g) (build_remove_user gid m relay now) # ms
                           @ [build_system_message J gid m (Some m) ''member_left'' relay now,
                              build_membership_notice J MEMBER_REMOVED gid (notice_channel_type S3 gid) m m relay now]))"

section \<open>Put-user and remove-user\<close>

definition signed_by_relay :: "event \<Rightarrow> string \<Rightarrow> bool" where
  "signed_by_relay e relay \<longleftrightarrow> relay \<noteq> [] \<and> eq_ignore_ascii_case (pubkey e) relay"

definition is_join_mirror :: "event \<Rightarrow> string \<Rightarrow> bool" where
  "is_join_mirror e relay \<longleftrightarrow> signed_by_relay e relay \<and> has_tag e JOIN_MIRROR_TAG"

text \<open>The capacity decisions of the loop below, in tag order.\<close>

fun simulate_inserts :: "group \<Rightarrow> nat \<Rightarrow> nat \<Rightarrow> string list \<Rightarrow> tag list \<Rightarrow> string list" where
  "simulate_inserts g group_room global_room inserted [] = inserted"
| "simulate_inserts g group_room global_room inserted (t # ts) =
     (if is_member g (t ! 1) \<or> t ! 1 \<in> set inserted then simulate_inserts g group_room global_room inserted ts
      else if group_room > 0 \<and> global_room > 0
        then simulate_inserts g (group_room - 1) (global_room - 1) (t ! 1 # inserted) ts
      else simulate_inserts g group_room global_room inserted ts)"

definition put_retains_admin :: "group_store \<Rightarrow> group \<Rightarrow> event \<Rightarrow> string \<Rightarrow> bool" where
  "put_retains_admin S g e relay =
     (let ov = role_overrides (gr_buzz S) e
            (filter (\<lambda>t. \<not> (is_join_mirror e relay \<and> is_member g (t ! 1))) (p_tags e));
          inserted = simulate_inserts g (MAX_MEMBERS - length (g_members g))
            (if gr_max_total S > 0 then gr_max_total S - gr_total S else 2 ^ 64 - 1) [] (p_tags e)
      in overridden_admin ov g \<or> list_ex (\<lambda>pk. map_of ov pk = Some True) inserted)"

text \<open>The Buzz \<open>role\<close> tag: the roles, the guest tier and the bot tier it stands for.\<close>

definition tier_role :: "string option \<Rightarrow> string list \<times> bool \<times> bool" where
  "tier_role role =
     (case role of
        None \<Rightarrow> ([], False, False)
      | Some r \<Rightarrow>
          if r = [] \<or> r = ''member'' then ([], False, False)
          else if r = ''guest'' then ([], True, False)
          else if r = ''bot'' then ([], False, True)
          else ([r], False, False))"

text \<open>What one \<open>p\<close> tag grants: the roles, the guest and bot tiers, and whether it names any of them.\<close>

definition tag_tier :: "bool \<Rightarrow> event \<Rightarrow> tag \<Rightarrow> string list \<times> bool \<times> bool \<times> bool" where
  "tag_tier buzz e t =
     (let buzz_role = (if buzz then tag_value e ''role'' else None);
          listed = remdups (filter (\<lambda>r. r \<noteq> []) (drop 2 t));
          explicit = (listed \<noteq> [] \<or> is_some_and buzz_role (\<lambda>r. r \<noteq> []));
          (roles1, guest1, bot1) = (if listed = [] then tier_role buzz_role else (listed, False, False));
          roles = (if buzz then filter (\<lambda>r. r \<notin> {''guest'', ''bot'', ''member''}) roles1 else roles1)
      in (roles, roles = [] \<and> (guest1 \<or> ''guest'' \<in> set roles1), roles = [] \<and> (bot1 \<or> ''bot'' \<in> set roles1), explicit))"

definition set_tier :: "bool \<Rightarrow> bool \<Rightarrow> bool \<Rightarrow> string \<Rightarrow> string list \<Rightarrow> string list" where
  "set_tier buzz on replace pk xs =
     (if buzz \<and> on then List.insert pk xs else if buzz \<and> \<not> replace then xs else removeAll pk xs)"

definition assign_tier :: "bool \<Rightarrow> bool \<Rightarrow> bool \<Rightarrow> string \<Rightarrow> string list \<times> bool \<times> bool \<times> bool \<Rightarrow> group \<Rightarrow> group" where
  "assign_tier buzz relay_signed guests_join pk tier g =
     (let (roles, guest, is_bot, explicit) = tier;
          new = (\<not> is_member g pk);
          replace = (explicit \<or> new \<or> \<not> relay_signed)
      in g\<lparr>g_guests := set_tier buzz (guest \<or> \<not> explicit \<and> new \<and> guests_join) replace pk (g_guests g),
           g_bots := set_tier buzz is_bot replace pk (g_bots g),
           g_hidden_for := (if new then removeAll pk (g_hidden_for g) else g_hidden_for g),
           g_members := AList.update pk (bounded_member_roles roles) (g_members g)\<rparr>)"

definition put_skipped :: "group_store \<Rightarrow> event \<Rightarrow> string \<Rightarrow> group \<Rightarrow> nat \<Rightarrow> string \<Rightarrow> bool" where
  "put_skipped S e relay g added pk \<longleftrightarrow>
     length (g_members g) \<ge> MAX_MEMBERS \<and> \<not> is_member g pk
     \<or> gr_max_total S > 0 \<and> gr_total S + added \<ge> gr_max_total S \<and> \<not> is_member g pk
     \<or> is_join_mirror e relay \<and> is_member g pk"

definition put_user_tag :: "group_store \<Rightarrow> event \<Rightarrow> string \<Rightarrow> bool \<Rightarrow> group \<times> string list \<Rightarrow> tag \<Rightarrow> group \<times> string list" where
  "put_user_tag S e relay guests_join acc t =
     (let (g, added) = acc; pk = t ! 1 in
      if put_skipped S e relay g (length added) pk then acc
      else (assign_tier (gr_buzz S) (signed_by_relay e relay) guests_join pk (tag_tier (gr_buzz S) e t) g,
            if is_member g pk then added else added @ [pk]))"

definition put_users :: "group_store \<Rightarrow> group \<Rightarrow> event \<Rightarrow> string \<Rightarrow> group \<times> string list" where
  "put_users S g e relay =
     (let (g1, added) = foldl (put_user_tag S e relay (joins_as_guest S g)) (g, []) (p_tags e)
      in (if list_ex (\<lambda>t. g_creator g1 = Some (t ! 1)) (p_tags e) then g1\<lparr>g_creator_role_explicit := True\<rparr> else g1, added))"

definition roster_notices ::
  "(json \<Rightarrow> string) \<Rightarrow> group_store \<Rightarrow> string \<Rightarrow> string \<Rightarrow> string list \<Rightarrow> string \<Rightarrow> u64 \<Rightarrow> string \<Rightarrow> u64 \<Rightarrow> event list" where
  "roster_notices J S gid actor ms message k relay now =
     concat (map (\<lambda>m. [build_system_message J gid actor (Some m) message relay now,
        build_membership_notice J k gid (notice_channel_type S gid) m actor relay now]) ms)"

definition apply_put_user :: "(json \<Rightarrow> string) \<Rightarrow> group_store \<Rightarrow> string \<Rightarrow> event \<Rightarrow> string \<Rightarrow> u64 \<Rightarrow> bool \<Rightarrow> group_store \<times> event list" where
  "apply_put_user J S gid e relay now emit =
     (let step = (case group_of S gid of
            None \<Rightarrow> Some (S, [])
          | Some g \<Rightarrow>
              if has_admin g \<and> \<not> put_retains_admin S g e relay then None
              else let (g1, added) = put_users S g e relay
                   in Some ((set_group gid g1 S)\<lparr>gr_total := gr_total S + length added\<rparr>, added))
      in case step of
           None \<Rightarrow> (S, [])
         | Some (S1, added) \<Rightarrow>
             if \<not> emit then (S1, [])
             else let (S2, ms) = membership_events S1 gid relay now
                  in (S2, ms @ roster_notices J S2 gid (pubkey e) added ''member_joined'' MEMBER_ADDED relay now))"

fun drop_members :: "string list \<Rightarrow> group \<times> string list \<Rightarrow> group \<times> string list" where
  "drop_members [] acc = acc"
| "drop_members (pk # pks) (g, removed) =
     drop_members pks (drop_member pk g, if is_member g pk then removed @ [pk] else removed)"

definition apply_remove_user :: "(json \<Rightarrow> string) \<Rightarrow> group_store \<Rightarrow> string \<Rightarrow> event \<Rightarrow> string \<Rightarrow> u64 \<Rightarrow> bool \<Rightarrow> group_store \<times> event list" where
  "apply_remove_user J S gid e relay now emit =
     (let removing = event_tag_values e ''p'';
          step = (case group_of S gid of
            None \<Rightarrow> Some (S, [])
          | Some g \<Rightarrow>
              if has_admin g \<and> \<not> retains_unlisted removing g then None
              else let (g1, removed) = drop_members removing (g, [])
                   in Some ((set_group gid g1 S)\<lparr>gr_total := gr_total S - length removed\<rparr>, removed))
      in case step of
           None \<Rightarrow> (S, [])
         | Some (S1, removed) \<Rightarrow>
             if \<not> emit then (S1, [])
             else let (S2, ms) = membership_events S1 gid relay now
                  in (S2, (if removed \<noteq> [] then [attach_create_id (Option.bind (group_of S1 gid) g_create_id)
                                 (build_remove_users gid removed relay now)] else [])
                        @ ms @ roster_notices J S2 gid (pubkey e) removed ''member_removed'' MEMBER_REMOVED relay now))"

section \<open>Editing the metadata\<close>

definition mark_buzz :: "group_store \<Rightarrow> string \<Rightarrow> event \<Rightarrow> bool \<Rightarrow> group_store" where
  "mark_buzz S gid e replay =
     edit_group gid (\<lambda>g.
       if gr_buzz S \<or> replay \<and> list_ex (\<lambda>t. t \<noteq> [] \<and> t ! 0 = ''visibility'' \<and> second t = Some ''private'') (tags e)
       then g\<lparr>g_buzz_metadata := True\<rparr> else g) S"

definition prune_declared_children :: "group_store \<Rightarrow> group_store" where
  "prune_declared_children S = S\<lparr>gr_declared := filter (\<lambda>i. i \<in> set (live_children S)) (gr_declared S)\<rparr>"

definition declare_child :: "string \<Rightarrow> group_store \<Rightarrow> group_store" where
  "declare_child i S =
     (if i \<in> set (gr_declared S) then S
      else let cap = declared_children_cap S;
               S1 = (if length (gr_declared S) \<ge> cap then prune_declared_children S else S)
           in if length (gr_declared S1) \<ge> cap then S1 else S1\<lparr>gr_declared := List.insert i (gr_declared S1)\<rparr>)"

text \<open>Appending the new ids of a list within a bound; with the bound out of reach, removing duplicates.\<close>

fun append_new :: "nat \<Rightarrow> string list \<Rightarrow> string list \<Rightarrow> string list" where
  "append_new cap merged [] = merged"
| "append_new cap merged (c # cs) =
     (if length merged \<ge> cap then merged
      else append_new cap (if c \<in> set merged then merged else merged @ [c]) cs)"

definition child_listed :: "event \<Rightarrow> edit_denials \<Rightarrow> string list" where
  "child_listed e d = filter (\<lambda>c. length c \<le> MAX_CHILD_ID_BYTES \<and> c \<notin> set (d_children d)) (child_values e)"

definition declared_list :: "event \<Rightarrow> edit_denials \<Rightarrow> string list" where
  "declared_list e d = (let cs = filter (\<lambda>c. c \<noteq> []) (child_listed e d) in append_new (Suc (length cs)) [] cs)"

definition partial_links :: "group_store \<Rightarrow> group \<Rightarrow> bool \<Rightarrow> bool" where
  "partial_links S g replay \<longleftrightarrow> gr_buzz S \<or> replay \<and> (g_channel_type g \<noteq> [] \<or> g_buzz_metadata g)"

definition children_after :: "group_store \<Rightarrow> group \<Rightarrow> event \<Rightarrow> edit_denials \<Rightarrow> bool \<Rightarrow> string list" where
  "children_after S g e d replay =
     (if replay then append_new (declared_children_cap S) (append_new (declared_children_cap S) [] (declared_list e d)) (g_children g)
      else if partial_links S g replay \<and> child_values e = [] then g_children g
      else declared_list e d)"

definition parent_after :: "group_store \<Rightarrow> group \<Rightarrow> event \<Rightarrow> edit_denials \<Rightarrow> bool \<Rightarrow> string option" where
  "parent_after S g e d replay =
     (if d_parent d \<or> partial_links S g replay \<and> event_tag_values e ''parent'' = [] then g_parent g else parent_value e)"

definition has_child :: "string \<Rightarrow> group_store \<Rightarrow> string \<Rightarrow> bool" where
  "has_child gid S p \<longleftrightarrow> is_some_and (group_of S p) (\<lambda>g. gid \<in> set (g_children g))"

definition unlink :: "string \<Rightarrow> string option \<Rightarrow> group_store \<Rightarrow> group_store" where
  "unlink gid old S =
     (case old of None \<Rightarrow> S | Some p \<Rightarrow> edit_group p (\<lambda>g. g\<lparr>g_children := filter (\<lambda>c. c \<noteq> gid) (g_children g)\<rparr>) S)"

definition link_parent :: "string \<Rightarrow> string option \<Rightarrow> string option \<Rightarrow> group_store \<Rightarrow> group_store" where
  "link_parent gid before after S =
     (if before = after then S
      else let S1 = unlink gid before S;
               linked = is_some_and after (\<lambda>p. group_of S1 p \<noteq> None \<and> \<not> has_child gid S1 p);
               S2 = (if linked then edit_group (the after) (\<lambda>g. g\<lparr>g_children := g_children g @ [gid]\<rparr>) S1 else S1);
               S3 = (if is_none_or after (\<lambda>p. group_of S2 p \<noteq> None)
                     then edit_group gid (\<lambda>g. g\<lparr>g_parent := after\<rparr>) S2 else S2)
           in if linked then declare_child gid S3 else S3)"

definition parent_of :: "group_store \<Rightarrow> string \<Rightarrow> string option" where
  "parent_of S i = Option.bind (group_of S i) g_parent"

fun adopt_children :: "group_store \<Rightarrow> string \<Rightarrow> string list \<Rightarrow> string \<Rightarrow> u64 \<Rightarrow> bool \<Rightarrow> group_store \<times> event list" where
  "adopt_children S gid [] relay now emit = (S, [])"
| "adopt_children S gid (c # cs) relay now emit =
     (let old = parent_of S c in
      if old = Some gid then adopt_children S gid cs relay now emit
      else let S1 = edit_group c (\<lambda>g. g\<lparr>g_parent := Some gid\<rparr>) (unlink c old S);
               out = (if emit then (case old of None \<Rightarrow> [] | Some p \<Rightarrow> [meta_event S1 p relay now])
                        @ (if group_of S1 c \<noteq> None then [meta_event S1 c relay now] else []) else []);
               (S2, out') = adopt_children S1 gid cs relay now emit
           in (S2, out @ out'))"

fun release_children :: "group_store \<Rightarrow> string \<Rightarrow> string list \<Rightarrow> string \<Rightarrow> u64 \<Rightarrow> bool \<Rightarrow> group_store \<times> event list" where
  "release_children S gid [] relay now emit = (S, [])"
| "release_children S gid (c # cs) relay now emit =
     (if parent_of S c = Some gid
      then let S1 = edit_group c (\<lambda>g. g\<lparr>g_parent := None\<rparr>) S;
               (S2, out) = release_children S1 gid cs relay now emit
           in (S2, (if emit then [meta_event S1 c relay now] else []) @ out)
      else release_children S gid cs relay now emit)"

definition edit_metas ::
  "group_store \<Rightarrow> string \<Rightarrow> bool \<Rightarrow> string option \<Rightarrow> string option \<Rightarrow> string \<Rightarrow> u64 \<Rightarrow> event list" where
  "edit_metas S gid livekit_before before after relay now =
     [meta_event S gid relay now]
     @ (if livekit_before \<and> \<not> is_some_and (group_of S gid) (\<lambda>g. gs_livekit (g_settings g))
        then [build_participants_event gid [] relay now] else [])
     @ (case parent_of S gid of None \<Rightarrow> [] | Some p \<Rightarrow> [meta_event S p relay now])
     @ (case before of Some old \<Rightarrow> if before \<noteq> after then [meta_event S old relay now] else [] | None \<Rightarrow> [])
     @ map (\<lambda>c. meta_event S c relay now)
         (filter (\<lambda>c. group_of S c \<noteq> None) (case group_of S gid of None \<Rightarrow> [] | Some g \<Rightarrow> g_children g))"

definition edit_links ::
  "group_store \<Rightarrow> string \<Rightarrow> group \<Rightarrow> event \<Rightarrow> edit_denials \<Rightarrow> string \<Rightarrow> u64 \<Rightarrow> bool \<Rightarrow> bool \<Rightarrow> group_store \<times> event list" where
  "edit_links S gid g e d relay now emit replay =
     (let after = children_after S g e d replay;
          parent = parent_after S g e d replay;
          S1 = set_group gid ((apply_settings g e (gr_buzz S) replay)\<lparr>g_children := after\<rparr>) S;
          S2 = link_parent gid (g_parent g) parent (fold declare_child after S1);
          (S3, out1) = adopt_children S2 gid (child_listed e d) relay now emit;
          (S4, out2) = release_children S3 gid (filter (\<lambda>c. c \<notin> set after) (g_children g)) relay now emit
      in (S4, out1 @ out2
            @ (if emit then edit_metas S4 gid (gs_livekit (g_settings g)) (g_parent g) parent relay now else [])))"

definition apply_edit :: "group_store \<Rightarrow> string \<Rightarrow> event \<Rightarrow> string \<Rightarrow> u64 \<Rightarrow> bool \<Rightarrow> bool \<Rightarrow> group_store \<times> event list" where
  "apply_edit S gid e relay now emit replay =
     (let S0 = mark_buzz S gid e replay in
      case group_of S0 gid of
        None \<Rightarrow> (S0, [])
      | Some g \<Rightarrow>
          if gr_buzz S0 \<and> is_member_topic_edit g e (signed_by_relay e relay) then
            (let S1 = set_group gid (apply_settings g e True replay) S0
             in (S1, if emit then [meta_event S1 gid relay now] else []))
          else case validate_edit_metadata S0 gid g e (signed_by_relay e relay) replay of
            Inl _ \<Rightarrow> if replay then (set_group gid (apply_settings g e (gr_buzz S0) replay) S0, []) else (S0, [])
          | Inr d \<Rightarrow> edit_links S0 gid g e d relay now emit replay)"

section \<open>Creating and deleting groups\<close>

fun reclaim_loop :: "nat \<Rightarrow> nat \<Rightarrow> string list \<Rightarrow> string list" where
  "reclaim_loop live budget [] = []"
| "reclaim_loop live budget (d # ds) =
     (if live + length (d # ds) > budget then reclaim_loop live budget ds else d # ds)"

definition reclaim_tombstones :: "nat \<Rightarrow> group_store \<Rightarrow> group_store" where
  "reclaim_tombstones room S =
     (if gr_max_groups S = 0 then S
      else S\<lparr>gr_deleted := reclaim_loop (length (gr_groups S)) (gr_max_groups S - room) (gr_deleted S)\<rparr>)"

definition created_channel_type :: "group_store \<Rightarrow> event \<Rightarrow> bool \<Rightarrow> string" where
  "created_channel_type S e replay =
     (if gr_buzz S then channel_type e
      else if replay then
        (case tag_value e ''channel_type'' of None \<Rightarrow> [] | Some v \<Rightarrow> if v \<in> set CHANNEL_TYPES then v else [])
      else [])"

definition created_settings :: "group_store \<Rightarrow> event \<Rightarrow> bool \<Rightarrow> group \<Rightarrow> group" where
  "created_settings S e replay g =
     (if gr_buzz S then apply_settings g e True replay
      else if replay then
        (let g1 = apply_plain_create_privacy g e;
             marker = list_ex (\<lambda>t. t \<noteq> [] \<and> t ! 0 = ''visibility''
               \<and> second t \<in> {Some ''private'', Some ''open'', Some ''public''}) (tags e);
             g2 = (if g_channel_type g1 = [] \<and> marker then g1\<lparr>g_channel_type := ''stream''\<rparr> else g1)
         in if g_channel_type g2 \<noteq> [] then apply_settings (g2\<lparr>g_buzz_metadata := True\<rparr>) e True replay else g2)
      else g)"

definition created_group :: "group_store \<Rightarrow> string \<Rightarrow> event \<Rightarrow> bool \<Rightarrow> group" where
  "created_group S gid e replay =
     (let g = created_settings S e replay (default_group\<lparr>g_creator := Some (pubkey e), g_created_at := Some (created_at e),
             g_create_id := Some (if ev_id e = [] then ''synthetic:'' @ gid else ev_id e),
             g_channel_type := created_channel_type S e replay, g_buzz_metadata := gr_buzz S\<rparr>);
          g1 = (if (gr_buzz S \<or> replay) \<and> is_dm_or_system g \<and> tag_value e ''visibility'' \<noteq> Some ''open''
                then g\<lparr>g_settings := make_private True (g_settings g)\<rparr> else g)
      in g1\<lparr>g_members := AList.update (pubkey e) [if gr_buzz S then ''owner'' else ''admin''] (g_members g1)\<rparr>)"

definition adopting_parent :: "group_store \<Rightarrow> string \<Rightarrow> event \<Rightarrow> string \<Rightarrow> string option" where
  "adopting_parent S gid e relay =
     (if gid \<in> set (gr_declared S) then
        (case sort (map fst (filter (\<lambda>(i, g). gid \<in> set (g_children g)
                \<and> (signed_by_relay e relay \<or> is_admin g (pubkey e))) (gr_groups S))) of
           [] \<Rightarrow> None
         | i # _ \<Rightarrow> Some i)
      else None)"

definition disown :: "string \<Rightarrow> string option \<Rightarrow> string \<times> group \<Rightarrow> string \<times> group" where
  "disown gid adopted entry =
     (let (i, g) = entry in if Some i = adopted then entry else (i, g\<lparr>g_children := remove1 gid (g_children g)\<rparr>))"

definition create_admitted :: "group_store \<Rightarrow> string \<Rightarrow> bool \<Rightarrow> bool" where
  "create_admitted S gid replay \<longleftrightarrow>
     gid \<noteq> [] \<and> group_of S gid = None \<and> gid \<notin> set (gr_ghost S)
     \<and> (replay \<or> \<not> at_capacity S \<and> \<not> at_member_capacity S 1)"

definition clear_tombstone :: "group_store \<Rightarrow> string \<Rightarrow> group_store" where
  "clear_tombstone S gid =
     (let S1 = reclaim_tombstones 1 S in S1\<lparr>gr_deleted := removeAll gid (gr_deleted S1)\<rparr>)"

definition created_store :: "group_store \<Rightarrow> string \<Rightarrow> event \<Rightarrow> string \<Rightarrow> bool \<Rightarrow> group_store" where
  "created_store S gid e relay replay =
     (let S0 = clear_tombstone S gid;
          adopted = adopting_parent S0 gid e relay;
          g = created_group S0 gid e replay;
          g' = (if adopted = None then g else g\<lparr>g_parent := adopted\<rparr>);
          Sa = (set_group gid g' S0)\<lparr>gr_total := gr_total S0 + 1\<rparr>
      in Sa\<lparr>gr_groups := map (disown gid adopted) (gr_groups Sa)\<rparr>)"

text \<open>The metadata of the groups that lose or keep the new child.\<close>

definition adoption_metas :: "group_store \<Rightarrow> group_store \<Rightarrow> string \<Rightarrow> event \<Rightarrow> string \<Rightarrow> u64 \<Rightarrow> event list" where
  "adoption_metas S S' gid e relay now =
     (let adopted = adopting_parent S gid e relay;
          others = filter (\<lambda>(i, g). Some i \<noteq> adopted \<and> gid \<in> set (g_children g)) (gr_groups S)
      in map (\<lambda>(i, g). meta_event S' i relay now) others
         @ (case adopted of None \<Rightarrow> [] | Some p \<Rightarrow> [meta_event S' p relay now]))"

definition apply_create :: "(json \<Rightarrow> string) \<Rightarrow> group_store \<Rightarrow> string \<Rightarrow> event \<Rightarrow> string \<Rightarrow> u64 \<Rightarrow> bool \<Rightarrow> bool \<Rightarrow> group_store \<times> event list" where
  "apply_create J S gid e relay now emit replay =
     (let created = create_admitted S gid replay;
          S1 = (if created then created_store S gid e relay replay else S);
          out = (if created \<and> emit then adoption_metas (clear_tombstone S gid) S1 gid e relay now else [])
      in if emit \<and> group_of S1 gid \<noteq> None then
           (let metas = (if is_dm S1 gid then [] else [meta_event S1 gid relay now])
                  @ (if created then [build_system_message J gid (pubkey e) None ''channel_created'' relay now,
                       build_membership_notice J MEMBER_ADDED gid (notice_channel_type S1 gid) (pubkey e) (pubkey e) relay now]
                     else []);
                (S2, ms) = membership_events S1 gid relay now
            in (S2, out @ metas @ ms))
         else (S1, out))"

fun orphan_children :: "group_store \<Rightarrow> string list \<Rightarrow> string \<Rightarrow> u64 \<Rightarrow> bool \<Rightarrow> group_store \<times> event list" where
  "orphan_children S [] relay now emit = (S, [])"
| "orphan_children S (c # cs) relay now emit =
     (if group_of S c = None then orphan_children S cs relay now emit
      else let S1 = edit_group c (\<lambda>g. g\<lparr>g_parent := None\<rparr>) S;
               (S2, out) = orphan_children S1 cs relay now emit
           in (S2, (if emit then [meta_event S1 c relay now] else []) @ out))"

definition apply_delete :: "group_store \<Rightarrow> string \<Rightarrow> string \<Rightarrow> u64 \<Rightarrow> bool \<Rightarrow> group_store \<times> event list" where
  "apply_delete S gid relay now emit =
     (let known = group_of S gid \<noteq> None \<or> gid \<in> set (gr_ghost S) \<or> gid \<in> set (gr_deleted S);
          (S1, out) = (case group_of S gid of
            None \<Rightarrow> (S, [])
          | Some g \<Rightarrow>
              let S0 = S\<lparr>gr_groups := AList.delete gid (gr_groups S), gr_total := gr_total S - length (g_members g),
                    gr_published_at := AList.delete gid (gr_published_at S), gr_dirty := removeAll gid (gr_dirty S)\<rparr>;
                  (Sa, out1) = orphan_children S0 (g_children g) relay now emit;
                  Sb = unlink gid (g_parent g) Sa
              in (Sb, out1 @ (case g_parent g of None \<Rightarrow> []
                   | Some p \<Rightarrow> if emit \<and> group_of Sa p \<noteq> None then [meta_event Sb p relay now] else [])))
      in if known then (let S2 = reclaim_tombstones 1 S1 in (S2\<lparr>gr_deleted := List.insert gid (gr_deleted S2)\<rparr>, out))
         else (S1, out))"

section \<open>Invites and pins\<close>

definition add_invite :: "group \<Rightarrow> string \<Rightarrow> group" where
  "add_invite g c =
     (if c = [] \<or> length c > MAX_INVITE_CODE_BYTES \<or> length (g_invites g) \<ge> MAX_INVITES then g
      else g\<lparr>g_invites := List.insert c (g_invites g)\<rparr>)"

definition apply_invites :: "group_store \<Rightarrow> string \<Rightarrow> event \<Rightarrow> group_store" where
  "apply_invites S gid e = edit_group gid (\<lambda>g. foldl add_invite g (event_tag_values e ''code'')) S"

definition apply_pins :: "group_store \<Rightarrow> string \<Rightarrow> event \<Rightarrow> string \<Rightarrow> u64 \<Rightarrow> bool \<Rightarrow> group_store \<times> event list" where
  "apply_pins S gid e relay now emit =
     (let S1 = edit_group gid (\<lambda>g. g\<lparr>g_pins := take MAX_PINS (map (\<lambda>t. (t ! 0, t ! 1))
            (filter (\<lambda>t. 2 \<le> length t \<and> (t ! 0 = ''e'' \<or> t ! 0 = ''a'')) (tags e)))\<rparr>) S
      in (S1, if emit then [build_pins_event gid (group_of S1 gid) relay now] else []))"

section \<open>The state machine\<close>

text \<open>A relay-signed mirror, or an event with a recorded epoch, of another incarnation of the group.\<close>

definition other_incarnation :: "group_store \<Rightarrow> string \<Rightarrow> event \<Rightarrow> string \<Rightarrow> bool \<Rightarrow> string option \<Rightarrow> bool" where
  "other_incarnation S gid e relay replay epoch \<longleftrightarrow>
     kind e \<noteq> CREATE_GROUP
     \<and> (let current = Option.bind (group_of S gid) g_create_id in
        signed_by_relay e relay
          \<and> is_some_and (List.find (\<lambda>t. 2 \<le> length t \<and> t ! 0 = CREATE_ID_TAG) (tags e)) (\<lambda>t. current \<noteq> Some (t ! 1))
        \<or> epoch \<noteq> None \<and> current \<noteq> epoch
        \<or> \<not> replay \<and> is_some_and (Option.bind (group_of S gid) g_created_at) (\<lambda>t. created_at e < t))"

definition apply_with_epoch ::
  "(json \<Rightarrow> string) \<Rightarrow> group_store \<Rightarrow> event \<Rightarrow> string \<Rightarrow> u64 \<Rightarrow> bool \<Rightarrow> bool \<Rightarrow> string option \<Rightarrow> group_store \<times> event list" where
  "apply_with_epoch J S e relay now emit replay epoch =
     (case group_id e of
        None \<Rightarrow> (S, [])
      | Some gid \<Rightarrow>
          if other_incarnation S gid e relay replay epoch then (S, [])
          else if kind e = GROUP_JOIN then apply_join J S gid e relay now emit replay
          else if kind e = GROUP_LEAVE then apply_leave J S gid e relay now emit
          else if kind e = 9000 then apply_put_user J S gid e relay now emit
          else if kind e = 9001 then apply_remove_user J S gid e relay now emit
          else if kind e = 9002 then apply_edit S gid e relay now emit replay
          else if kind e = CREATE_GROUP then apply_create J S gid e relay now emit replay
          else if kind e = DELETE_GROUP then apply_delete S gid relay now emit
          else if kind e = 9009 then (apply_invites S gid e, [])
          else if kind e = 9010 then apply_pins S gid e relay now emit
          else (S, []))"

definition group_apply ::
  "(json \<Rightarrow> string) \<Rightarrow> group_store \<Rightarrow> event \<Rightarrow> string \<Rightarrow> u64 \<Rightarrow> bool \<Rightarrow> bool \<Rightarrow> group_store \<times> event list" where
  "group_apply J S e relay now emit replay = apply_with_epoch J S e relay now emit replay None"

end
