(* ===== verification/GroupState.thy ===== *)
theory GroupState
  imports GroupApply
begin

text \<open>
  The other operations of the group store (\<open>nips/nip29/mod.rs\<close>): ghost markers, staleness, the removal of a
  vanished member, rollback, adoption of direct-message groups, restoring a snapshot, and the order in
  which a rebuild replays the events of one second.
\<close>

section \<open>Markers\<close>

definition insert_ghost :: "string \<Rightarrow> group_store \<Rightarrow> group_store \<times> bool" where
  "insert_ghost gid S =
     (if gid \<in> set (gr_ghost S) then (S, True)
      else if length (gr_ghost S) \<ge> MAX_GHOSTS then (S\<lparr>gr_ghost_overflow := True\<rparr>, False)
      else (S\<lparr>gr_ghost := List.insert gid (gr_ghost S)\<rparr>, True))"

definition mark_ghost :: "string \<Rightarrow> group_store \<Rightarrow> group_store" where
  "mark_ghost gid S = fst (insert_ghost gid (reclaim_tombstones 1 S))"

definition unghost :: "string \<Rightarrow> group_store \<Rightarrow> group_store" where
  "unghost gid S = S\<lparr>gr_ghost := removeAll gid (gr_ghost S), gr_deleted := List.insert gid (gr_deleted S)\<rparr>"

definition clear_ghost :: "string \<Rightarrow> group_store \<Rightarrow> group_store" where
  "clear_ghost gid S = S\<lparr>gr_ghost := removeAll gid (gr_ghost S)\<rparr>"

definition is_ghosted :: "group_store \<Rightarrow> string \<Rightarrow> bool" where
  "is_ghosted S gid \<longleftrightarrow>
     gid \<in> set (gr_ghost S) \<or> gr_ghost_overflow S \<and> group_of S gid = None \<and> gid \<notin> set (gr_deleted S)"

definition is_deleted :: "group_store \<Rightarrow> string \<Rightarrow> bool" where
  "is_deleted S gid \<longleftrightarrow> gid \<in> set (gr_deleted S)"

definition hidden_group_ids :: "group_store \<Rightarrow> string list" where
  "hidden_group_ids S = map fst (gr_groups S) @ gr_ghost S @ gr_deleted S"

definition ghost_missing :: "string list \<Rightarrow> group_store \<Rightarrow> group_store" where
  "ghost_missing previous S =
     fold (\<lambda>gid S. if group_of S gid = None \<and> gid \<notin> set (gr_deleted S) then fst (insert_ghost gid S) else S) previous S"

definition restore_hidden :: "string list \<Rightarrow> string list \<Rightarrow> string list \<Rightarrow> group_store \<Rightarrow> group_store" where
  "restore_hidden previous previous_deleted previous_ghost S =
     ghost_missing previous
       (fold (\<lambda>gid S. if group_of S gid = None then S\<lparr>gr_deleted := List.insert gid (gr_deleted S)\<rparr> else S) previous_deleted
         (fold (\<lambda>gid S. fst (insert_ghost gid S)) previous_ghost S))"

definition mark_stale :: "group_store \<Rightarrow> group_store" where
  "mark_stale S = S\<lparr>gr_stale := True\<rparr>"

definition mark_unrestored :: "group_store \<Rightarrow> group_store" where
  "mark_unrestored S = S\<lparr>gr_unrestored := True\<rparr>"

definition mark_groups_stale :: "string list \<Rightarrow> group_store \<Rightarrow> group_store" where
  "mark_groups_stale gids S = S\<lparr>gr_stale_groups := fold List.insert gids (gr_stale_groups S)\<rparr>"

section \<open>Members and groups\<close>

definition remove_member_everywhere :: "string \<Rightarrow> group_store \<Rightarrow> group_store \<times> string list" where
  "remove_member_everywhere pk S =
     (let affected = map fst (filter (\<lambda>(gid, g). is_member g pk) (gr_groups S))
      in (S\<lparr>gr_groups := map (\<lambda>(gid, g). (gid, if is_member g pk then drop_member pk g else g)) (gr_groups S),
            gr_total := gr_total S - length affected,
            gr_published_at := filter (\<lambda>(gid, _). gid \<notin> set affected) (gr_published_at S)\<rparr>, affected))"

definition rollback_unstored_group :: "string \<Rightarrow> group_store \<Rightarrow> group_store \<times> bool" where
  "rollback_unstored_group gid S =
     (case group_of S gid of
        None \<Rightarrow> (S, False)
      | Some g \<Rightarrow>
          (S\<lparr>gr_groups := AList.delete gid (gr_groups S), gr_total := gr_total S - length (g_members g),
             gr_published_at := AList.delete gid (gr_published_at S), gr_dirty := removeAll gid (gr_dirty S)\<rparr>, True))"

definition recompute_derived :: "group_store \<Rightarrow> group_store" where
  "recompute_derived S =
     S\<lparr>gr_total := sum_list (map (\<lambda>(gid, g). length (g_members g)) (gr_groups S)),
       gr_declared := remdups (live_children S),
       gr_published_at := filter (\<lambda>(gid, _). group_of S gid \<noteq> None) (gr_published_at S)\<rparr>"

definition adopt_dm :: "string \<times> group \<Rightarrow> group_store \<Rightarrow> group_store" where
  "adopt_dm entry S =
     (let (gid, g) = entry in
      if g_channel_type g \<noteq> ''dm'' \<or> is_some_and (group_of S gid) (\<lambda>x. g_channel_type x \<noteq> ''dm'') then S
      else let S1 = clear_ghost gid (set_group gid g S)
           in S1\<lparr>gr_deleted := removeAll gid (gr_deleted S1), gr_stale_groups := removeAll gid (gr_stale_groups S1)\<rparr>)"

definition adopt_live_dm_groups :: "(string \<times> group) list \<Rightarrow> group_store \<Rightarrow> group_store" where
  "adopt_live_dm_groups gs S = recompute_derived (fold adopt_dm gs S)"

section \<open>Snapshots\<close>

record groups_snapshot =
  sn_groups :: "(string \<times> group) list"
  sn_deleted :: "string list"
  sn_ghost :: "string list"
  sn_ghost_overflow :: bool
  sn_stamp :: u64
  sn_seq :: u64
  sn_group_seq :: "u64 option"
  sn_buzz :: "bool option"

text \<open>The bounds a restored group is cut to.\<close>

definition bound_group :: "group \<Rightarrow> group" where
  "bound_group g =
     (let keep = (if length (g_members g) > MAX_MEMBERS then take MAX_MEMBERS (sort (map fst (g_members g))) else map fst (g_members g));
          fits = (\<lambda>c. c \<noteq> [] \<and> length c \<le> MAX_INVITE_CODE_BYTES)
      in g\<lparr>g_members := map (\<lambda>(pk, roles). (pk, bounded_member_roles roles)) (filter (\<lambda>(pk, _). pk \<in> set keep) (g_members g)),
           g_invites := (if length (g_invites g) > MAX_INVITES then take MAX_INVITES (sort (filter fits (g_invites g)))
                         else filter fits (g_invites g)),
           g_pins := take MAX_PINS (g_pins g)\<rparr>)"

text \<open>The creator label of the other mode: a lone default role is relabelled.\<close>

definition relabel_creator :: "bool \<Rightarrow> group \<Rightarrow> group" where
  "relabel_creator buzz g =
     (case g_creator g of
        None \<Rightarrow> g
      | Some c \<Rightarrow>
          (case map_of (g_members g) c of
             None \<Rightarrow> g
           | Some roles \<Rightarrow>
               if buzz \<and> \<not> g_creator_role_explicit g \<and> roles = [''admin'']
                 then g\<lparr>g_members := AList.update c [''owner''] (g_members g)\<rparr>
               else if \<not> buzz \<and> \<not> g_creator_role_explicit g \<and> g_channel_type g \<noteq> [] \<and> roles = [''owner'']
                 then g\<lparr>g_members := AList.update c [''admin''] (g_members g)\<rparr>
               else g))"

definition restore :: "groups_snapshot \<Rightarrow> group_store \<Rightarrow> group_store" where
  "restore sn S =
     (let over = length (sn_ghost sn) > MAX_GHOSTS;
          ghosts = (if over then take MAX_GHOSTS (sort (sn_ghost sn)) else sn_ghost sn);
          gs = map (\<lambda>(gid, g). (gid, relabel_creator (gr_buzz S) (bound_group g)))
                 (filter (\<lambda>(gid, _). gid \<notin> set (sn_deleted sn) \<and> gid \<notin> set ghosts) (sn_groups sn))
      in recompute_derived (S\<lparr>gr_groups := gs, gr_deleted := sn_deleted sn, gr_ghost := ghosts,
           gr_ghost_overflow := (sn_ghost_overflow sn \<or> over),
           gr_dirty := map fst (filter (\<lambda>(gid, g). length (g_members g) > MEMBERS_EAGER_MAX) gs),
           gr_unrestored := False\<rparr>))"

definition snapshot_is_current :: "u64 \<Rightarrow> u64 \<Rightarrow> bool" where
  "snapshot_is_current snapshot_stamp current_stamp \<longleftrightarrow> snapshot_stamp \<ge> current_stamp"

definition restore_checked :: "groups_snapshot \<Rightarrow> u64 \<Rightarrow> u64 \<Rightarrow> group_store \<Rightarrow> group_store \<times> bool" where
  "restore_checked sn current_stamp current_seq S =
     (let current = (case sn_group_seq sn of
            Some q \<Rightarrow> snapshot_is_current q current_seq
          | None \<Rightarrow> snapshot_is_current (sn_stamp sn) current_stamp \<and> snapshot_is_current (sn_seq sn) current_seq)
      in if current then (restore sn S, True) else (S, False))"

section \<open>Replay order\<close>

definition group_rank :: "u64 \<Rightarrow> nat" where
  "group_rank k = (if k = 9007 \<or> k = 9008 then 0 else if k = 9021 \<or> k = 9022 then 2 else 1)"

definition replay_class :: "u64 \<Rightarrow> nat" where
  "replay_class k = (if k = CREATE_GROUP then 0 else if k = DELETE_GROUP then 1 else 2)"

definition base_key :: "event \<Rightarrow> nat \<times> u64 \<times> string" where
  "base_key e = (group_rank (kind e), kind e, ev_id e)"

text \<open>\<open>replay_order a b != Greater\<close>.\<close>

definition replays_before :: "(string \<times> u64) list \<Rightarrow> event \<Rightarrow> event \<Rightarrow> bool" where
  "replays_before arrivals a b =
     (if created_at a \<noteq> created_at b then created_at a < created_at b
      else if replay_class (kind a) \<noteq> replay_class (kind b) then replay_class (kind a) < replay_class (kind b)
      else if replay_class (kind a) = 2 then
        (case (map_of arrivals (ev_id a), map_of arrivals (ev_id b)) of
           (Some sa, Some sb) \<Rightarrow> if sa \<noteq> sb then sa < sb else base_key a \<le> base_key b
         | _ \<Rightarrow> base_key a \<le> base_key b)
      else base_key a \<le> base_key b)"

end
