(* ===== verification/GroupTree.thy ===== *)
theory GroupTree
  imports GroupState
begin

text \<open>
  The tree of groups. Every group has at most one parent, a parent lists its children, and a listed
  child that exists names its parent; the parent relation has no cycle. The state machine keeps this,
  live and in a replay, whatever events it is given.
\<close>

section \<open>Group maps\<close>

lemma group_of_set_group [simp]: "group_of (set_group gid g S) x = (if x = gid then Some g else group_of S x)"
  by (simp add: group_of_def set_group_def update_conv)

lemma group_of_edit_group [simp]:
  "group_of (edit_group gid f S) x = (if x = gid then map_option f (group_of S gid) else group_of S x)"
  by (cases "group_of S gid") (auto simp: edit_group_def)

lemma group_of_more [simp]:
  "group_of (S\<lparr>gr_total := n\<rparr>) = group_of S" "group_of (S\<lparr>gr_deleted := ds\<rparr>) = group_of S"
  "group_of (S\<lparr>gr_declared := ds\<rparr>) = group_of S" "group_of (S\<lparr>gr_dirty := ds\<rparr>) = group_of S"
  "group_of (S\<lparr>gr_published_at := p\<rparr>) = group_of S" "group_of (S\<lparr>gr_ghost := ds\<rparr>) = group_of S"
  "group_of (S\<lparr>gr_ghost_overflow := b\<rparr>) = group_of S" "group_of (S\<lparr>gr_stale := b\<rparr>) = group_of S"
  "group_of (S\<lparr>gr_stale_groups := ds\<rparr>) = group_of S" "group_of (S\<lparr>gr_unrestored := b\<rparr>) = group_of S"
  "group_of (S\<lparr>gr_buzz := b\<rparr>) = group_of S" "group_of (S\<lparr>gr_trust_joins := b\<rparr>) = group_of S"
  by (simp_all add: group_of_def fun_eq_iff)

lemma group_of_delete [simp]:
  "group_of (S\<lparr>gr_groups := AList.delete gid (gr_groups S)\<rparr>) x = (if x = gid then None else group_of S x)"
  by (simp add: group_of_def delete_conv)

lemma group_of_membership_events [simp]: "group_of (fst (membership_events S gid relay now)) = group_of S"
  by (simp add: membership_events_def Let_def)

lemma group_of_declare_child [simp]: "group_of (declare_child i S) = group_of S"
  by (simp add: declare_child_def prune_declared_children_def Let_def)

lemma group_of_fold_declare [simp]: "group_of (fold declare_child is S) = group_of S"
  by (induction "is" arbitrary: S) simp_all

lemma group_of_reclaim [simp]: "group_of (reclaim_tombstones n S) = group_of S"
  by (simp add: reclaim_tombstones_def)

section \<open>The tree\<close>

type_synonym tree = "string \<Rightarrow> (string option \<times> string list) option"

definition tree :: "group_store \<Rightarrow> tree" where
  "tree S x = map_option (\<lambda>g. (g_parent g, g_children g)) (group_of S x)"

definition up :: "tree \<Rightarrow> (string \<times> string) set" where
  "up T = {(x, p). \<exists>cs. T x = Some (Some p, cs)}"

definition lists :: "tree \<Rightarrow> string \<Rightarrow> string \<Rightarrow> bool" where
  "lists T y c \<longleftrightarrow> (\<exists>p cs. T y = Some (p, cs) \<and> c \<in> set cs)"

definition tree_ok :: "tree \<Rightarrow> bool" where
  "tree_ok T \<longleftrightarrow>
     (\<forall>x p cs. T x = Some (p, cs) \<longrightarrow> distinct cs)
   \<and> (\<forall>x p. (x, p) \<in> up T \<longrightarrow> lists T p x)
   \<and> (\<forall>y c. lists T y c \<longrightarrow> T c \<noteq> None \<longrightarrow> (c, y) \<in> up T)
   \<and> acyclic (up T)"

lemma tree_okI:
  assumes "\<And>x p cs. T x = Some (p, cs) \<Longrightarrow> distinct cs" and "\<And>x p. (x, p) \<in> up T \<Longrightarrow> lists T p x"
    and "\<And>y c. lists T y c \<Longrightarrow> T c \<noteq> None \<Longrightarrow> (c, y) \<in> up T" and "acyclic (up T)"
  shows "tree_ok T"
  using assms by (simp add: tree_ok_def)

lemma tree_okD:
  assumes "tree_ok T"
  shows "\<And>x p cs. T x = Some (p, cs) \<Longrightarrow> distinct cs" and "\<And>x p. (x, p) \<in> up T \<Longrightarrow> lists T p x"
    and "\<And>y c. lists T y c \<Longrightarrow> T c \<noteq> None \<Longrightarrow> (c, y) \<in> up T" and "acyclic (up T)"
  using assms by (simp_all add: tree_ok_def)

lemma up_fun: "(x, p) \<in> up T \<Longrightarrow> (x, q) \<in> up T \<Longrightarrow> p = q"
  by (auto simp: up_def)

lemma up_exists: "tree_ok T \<Longrightarrow> (x, p) \<in> up T \<Longrightarrow> T p \<noteq> None"
  by (auto dest!: tree_okD(2) simp: lists_def)

lemma not_own_child: "tree_ok T \<Longrightarrow> \<not> lists T x x"
  using tree_okD(3) [of T x x] tree_okD(4) [of T] by (auto simp: lists_def acyclic_def)

text \<open>Several new edges into one node.\<close>

lemma acyclic_into:
  assumes ac: "acyclic R" and no: "\<And>c. c \<in> L \<Longrightarrow> (x, c) \<notin> R\<^sup>*"
  shows "acyclic (R \<union> L \<times> {x})"
proof -
  have path: "(a, b) \<in> R\<^sup>+ \<or> (\<exists>c \<in> L. (a, c) \<in> R\<^sup>* \<and> (x, b) \<in> R\<^sup>*)" if "(a, b) \<in> (R \<union> L \<times> {x})\<^sup>+" for a b
    using that
  proof (induction rule: trancl_induct)
    case (base b)
    then show ?case by auto
  next
    case (step b c)
    show ?case
    proof (cases "(b, c) \<in> R")
      case True
      then show ?thesis using step.IH by (meson rtrancl.rtrancl_into_rtrancl trancl.trancl_into_trancl)
    next
      case False
      then have "b \<in> L" "c = x" using step.hyps by auto
      then show ?thesis using step.IH no by (auto dest: trancl_into_rtrancl)
    qed
  qed
  have "(a, a) \<notin> (R \<union> L \<times> {x})\<^sup>+" for a
    using path [of a a] ac no by (auto simp: acyclic_def dest: rtrancl_trans)
  then show ?thesis by (simp add: acyclic_def)
qed

section \<open>The two walks\<close>

definition upcoming :: "(string \<times> group) list \<Rightarrow> string \<Rightarrow> string option \<Rightarrow> string list \<Rightarrow> (string \<times> string) set" where
  "upcoming gs gid parent children = {(a, b). upcoming_parent gs gid parent children a = Some b}"

lemma climb_avoids:
  "\<not> climb_revisits gs gid parent children visited cursor \<Longrightarrow> cursor = Some s
     \<Longrightarrow> (s, y) \<in> (upcoming gs gid parent children)\<^sup>* \<Longrightarrow> y \<notin> set visited"
proof (induction gs gid parent children visited cursor arbitrary: s rule: climb_revisits.induct)
  case (2 gs gid parent children visited current)
  from "2.prems"(1) have nv: "current \<notin> set visited"
    and rest: "\<not> climb_revisits gs gid parent children (current # visited) (upcoming_parent gs gid parent children current)"
    by (simp_all add: climb_revisits.simps split: if_splits)
  from "2.prems"(3) show ?case
  proof (cases rule: converse_rtranclE)
    case base
    then show ?thesis using nv "2.prems"(2) by simp
  next
    case (step z)
    then have "upcoming_parent gs gid parent children current = Some z" using "2.prems"(2) by (simp add: upcoming_def)
    then show ?thesis using "2.IH" [OF nv rest] step by simp
  qed
qed simp

lemma climb_no_return:
  assumes "\<not> climb_revisits gs gid parent children [] (Some gid)" and "parent = Some p"
    and "(p, y) \<in> (upcoming gs gid parent children)\<^sup>*"
  shows "y \<noteq> gid"
proof -
  have "\<not> climb_revisits gs gid parent children [gid] (Some p)"
    using assms(1,2) by (simp add: climb_revisits.simps upcoming_parent_def)
  from climb_avoids [OF this refl assms(3)] show ?thesis by simp
qed

definition child_rel :: "(string \<times> group) list \<Rightarrow> (string \<times> string) set" where
  "child_rel gs = {(y, c). \<exists>g. map_of gs y = Some g \<and> c \<in> set (g_children g)}"

lemma descends_closed:
  assumes "\<not> descends_to gs gid visited queue"
    and "\<And>v c. v \<in> set visited \<Longrightarrow> v \<noteq> gid \<and> ((v, c) \<in> child_rel gs \<longrightarrow> c \<in> set visited \<union> set queue)"
  shows "\<exists>V. set visited \<union> set queue \<subseteq> V \<and> gid \<notin> V \<and> (\<forall>v c. v \<in> V \<longrightarrow> (v, c) \<in> child_rel gs \<longrightarrow> c \<in> V)"
  using assms
proof (induction gs gid visited queue rule: descends_to.induct)
  case (1 gs gid visited queue)
  show ?case
  proof (cases queue rule: rev_cases)
    case Nil
    then show ?thesis using "1.prems"(2) by (intro exI [of _ "set visited"]) auto
  next
    case (snoc rest current)
    then have r: "rev queue = current # rev rest" by simp
    have ne: "current \<noteq> gid" using "1.prems"(1) r by (auto simp: descends_to.simps [of gs gid visited queue])
    show ?thesis
    proof (cases "current \<in> set visited")
      case True
      have "\<not> descends_to gs gid visited rest"
        using "1.prems"(1) r ne True by (simp add: descends_to.simps [of gs gid visited queue])
      moreover have "set visited \<union> set rest = set visited \<union> set queue" using snoc True by auto
      ultimately show ?thesis using "1.IH"(1) [OF r ne True] "1.prems"(2) by simp
    next
      case False
      let ?cs = "case map_of gs current of None \<Rightarrow> [] | Some g \<Rightarrow> g_children g"
      have "\<not> descends_to gs gid (current # visited) (rest @ ?cs)"
        using "1.prems"(1) r ne False by (simp add: descends_to.simps [of gs gid visited queue])
      moreover have "v \<noteq> gid \<and> ((v, c) \<in> child_rel gs \<longrightarrow> c \<in> set (current # visited) \<union> set (rest @ ?cs))"
        if "v \<in> set (current # visited)" for v c
        using that "1.prems"(2) [of v c] ne snoc by (auto simp: child_rel_def)
      ultimately obtain V where V: "set (current # visited) \<union> set (rest @ ?cs) \<subseteq> V" "gid \<notin> V"
          "\<forall>v c. v \<in> V \<longrightarrow> (v, c) \<in> child_rel gs \<longrightarrow> c \<in> V"
        using "1.IH"(2) [OF r ne False] by (metis rev_rev_ident)
      have "set visited \<union> set queue \<subseteq> V" using V(1) snoc by auto
      then show ?thesis using V(2,3) by blast
    qed
  qed
qed

lemma descends_avoids:
  assumes "\<not> descends_to gs gid [] [c]"
  shows "(c, gid) \<notin> (child_rel gs)\<^sup>*"
proof
  assume reach: "(c, gid) \<in> (child_rel gs)\<^sup>*"
  obtain V where V: "c \<in> V" "gid \<notin> V" "\<forall>v c. v \<in> V \<longrightarrow> (v, c) \<in> child_rel gs \<longrightarrow> c \<in> V"
    using descends_closed [OF assms] by auto
  from reach have "gid \<in> V" by (induction rule: rtrancl_induct) (use V in blast)+
  then show False using V(2) by simp
qed

section \<open>The tree a metadata edit leaves\<close>

definition edited_tree ::
  "tree \<Rightarrow> string \<Rightarrow> string option \<Rightarrow> string option \<Rightarrow> string list \<Rightarrow> string set \<Rightarrow> string set \<Rightarrow> tree" where
  "edited_tree T gid before pa A L Rm x =
     (case T x of
        None \<Rightarrow> None
      | Some (q, ks) \<Rightarrow> Some
          (if x = gid then pa else if x \<in> L then Some gid else if x \<in> Rm \<and> q = Some gid then None else q,
           if x = gid then A
           else filter (\<lambda>c. \<not> (c \<in> L \<and> (c, x) \<in> up T))
             (if before = pa then ks
              else if Some x = before then filter (\<lambda>c. c \<noteq> gid) ks
              else if Some x = pa then ks @ [gid] else ks)))"

locale tree_edit =
  fixes T :: tree and gid :: string and before pa :: "string option" and K A :: "string list" and L :: "string set"
  assumes ok: "tree_ok T" and here: "T gid = Some (before, K)"
    and L: "gid \<notin> L" "L \<subseteq> set A" "set A \<subseteq> L \<union> set K" and A: "distinct A"
    and parent: "\<And>p. pa = Some p \<Longrightarrow> before \<noteq> pa \<Longrightarrow> T p \<noteq> None \<and> p \<noteq> gid"
    and below: "\<And>c. c \<in> L \<Longrightarrow> (gid, c) \<notin> (up T)\<^sup>*"
    and above: "\<And>p y. pa = Some p \<Longrightarrow> before \<noteq> pa
      \<Longrightarrow> (p, y) \<in> {(a, b) \<in> up T. a \<notin> L \<and> a \<noteq> gid}\<^sup>* \<Longrightarrow> y \<noteq> gid \<and> y \<notin> L"
begin

definition T' :: tree where
  "T' = edited_tree T gid before pa A L (set K - set A)"

definition kept :: "(string \<times> string) set" where
  "kept = {(a, b) \<in> up T. a \<notin> L \<and> a \<noteq> gid}"

lemma T'_None: "T' x = None \<longleftrightarrow> T x = None"
  by (auto simp: T'_def edited_tree_def split: option.splits)

lemma up_T':
  "(x, p) \<in> up T' \<longleftrightarrow>
     (if x = gid then pa = Some p
      else if x \<in> L then T x \<noteq> None \<and> p = gid
      else (x, p) \<in> up T \<and> \<not> (x \<in> set K \<and> x \<notin> set A \<and> p = gid))"
  using here by (auto simp: up_def T'_def edited_tree_def split: option.splits if_splits)

lemma lists_gid: "lists T' gid c \<longleftrightarrow> c \<in> set A"
  using here by (auto simp: lists_def T'_def edited_tree_def)

lemma lists_other:
  assumes "y \<noteq> gid"
  shows "lists T' y c \<longleftrightarrow>
     T y \<noteq> None \<and> \<not> (c \<in> L \<and> (c, y) \<in> up T)
     \<and> (if c = gid \<and> before \<noteq> pa then Some y = pa \<or> lists T y gid \<and> Some y \<noteq> before
        else lists T y c)"
proof (cases "T y")
  case None
  then show ?thesis by (auto simp: lists_def T'_def edited_tree_def)
next
  case (Some v)
  obtain q ks where v: "v = (q, ks)" by (cases v)
  show ?thesis using Some v assms L(1) by (auto simp: lists_def T'_def edited_tree_def)
qed

lemma gid_listed: "lists T y gid \<longleftrightarrow> before = Some y"
proof
  assume "lists T y gid"
  then show "before = Some y" using tree_okD(3) [OF ok, of y gid] here by (auto simp: up_def)
next
  assume "before = Some y"
  then show "lists T y gid" using tree_okD(2) [OF ok, of gid y] here by (auto simp: up_def)
qed

lemma K_up: "x \<in> set K \<Longrightarrow> T x \<noteq> None \<Longrightarrow> (x, gid) \<in> up T"
  using tree_okD(3) [OF ok, of gid x] here by (auto simp: lists_def)

lemma up_K: "(x, gid) \<in> up T \<Longrightarrow> x \<in> set K"
  using tree_okD(2) [OF ok, of x gid] here by (auto simp: lists_def)

lemma gid_not_K: "gid \<notin> set K"
  using not_own_child [OF ok, of gid] here by (auto simp: lists_def)

lemma parents_listed:
  assumes "(x, p) \<in> up T'"
  shows "lists T' p x"
proof (cases "x = gid")
  case True
  then have pa: "pa = Some p" using assms by (simp add: up_T')
  have pg: "p \<noteq> gid"
  proof (cases "before = pa")
    case True
    then show ?thesis using pa tree_okD(2) [OF ok, of gid p] here gid_not_K by (auto simp: up_def lists_def)
  qed (use parent [OF pa] in simp)
  have "T p \<noteq> None"
  proof (cases "before = pa")
    case True
    then show ?thesis using pa gid_listed [of p] by (auto simp: lists_def)
  qed (use parent [OF pa] in simp)
  then show ?thesis using True lists_other [OF pg, of gid] pa L(1) gid_listed [of p] by auto
next
  case False
  show ?thesis
  proof (cases "x \<in> L")
    case True
    then show ?thesis using assms False L(2) by (auto simp: up_T' lists_gid)
  next
    case xL: False
    then have up: "(x, p) \<in> up T" and keep: "p = gid \<Longrightarrow> x \<in> set A" using assms False up_K by (auto simp: up_T')
    show ?thesis
    proof (cases "p = gid")
      case True
      then show ?thesis using keep by (simp add: lists_gid)
    next
      case pg: False
      then show ?thesis using up xL False up_exists [OF ok up] tree_okD(2) [OF ok up] by (auto simp: lists_other)
    qed
  qed
qed

lemma listed_parents:
  assumes "lists T' y c" and "T' c \<noteq> None"
  shows "(c, y) \<in> up T'"
proof (cases "y = gid")
  case True
  then have c: "c \<in> set A" using assms(1) by (simp add: lists_gid)
  have cg: "c \<noteq> gid" using c L gid_not_K by auto
  show ?thesis
  proof (cases "c \<in> L")
    case True
    then show ?thesis using \<open>y = gid\<close> cg assms(2) T'_None by (simp add: up_T')
  next
    case False
    then have "c \<in> set K" using c L by auto
    then show ?thesis using \<open>y = gid\<close> cg False c K_up assms(2) T'_None by (simp add: up_T')
  qed
next
  case False
  have o: "T y \<noteq> None" "\<not> (c \<in> L \<and> (c, y) \<in> up T)"
    "if c = gid \<and> before \<noteq> pa then Some y = pa \<or> lists T y gid \<and> Some y \<noteq> before else lists T y c"
    using assms(1) lists_other [OF False] by blast+
  show ?thesis
  proof (cases "c = gid")
    case True
    then have "pa = Some y" using o(3) gid_listed [of y] by (auto split: if_splits)
    then show ?thesis using True up_T' [of gid y] by simp
  next
    case cg: False
    then have "lists T y c" using o(3) by simp
    then have "(c, y) \<in> up T" using tree_okD(3) [OF ok] assms(2) T'_None by simp
    then show ?thesis using cg o(2) False by (simp add: up_T')
  qed
qed

lemma edges: "up T' \<subseteq> kept \<union> {(gid, p) | p. pa = Some p} \<union> L \<times> {gid}"
proof
  fix e assume e: "e \<in> up T'"
  obtain x p where [simp]: "e = (x, p)" by (cases e)
  show "e \<in> kept \<union> {(gid, p) | p. pa = Some p} \<union> L \<times> {gid}"
    using e by (auto simp: up_T' kept_def split: if_splits)
qed

lemma kept_sub: "kept \<subseteq> up T"
  by (auto simp: kept_def)

lemma acyclic_T': "acyclic (up T')"
proof -
  let ?R = "kept \<union> {(gid, p) | p. pa = Some p}"
  have R: "acyclic ?R \<and> (\<forall>c \<in> L. (gid, c) \<notin> ?R\<^sup>*)"
  proof (cases "before = pa \<or> pa = None")
    case True
    then have sub: "?R \<subseteq> up T" using kept_sub here by (auto simp: up_def)
    then have "?R\<^sup>* \<subseteq> (up T)\<^sup>*" by (rule rtrancl_mono)
    then show ?thesis using acyclic_subset [OF tree_okD(4) [OF ok] sub] below by auto
  next
    case False
    then obtain p where p: "pa = Some p" and ne: "before \<noteq> pa" by auto
    have R: "?R = insert (gid, p) kept" using p by auto
    have path: "y \<noteq> gid \<and> y \<notin> L" if "(p, y) \<in> kept\<^sup>*" for y
      using above [OF p ne, of y] that unfolding kept_def by blast
    have ac: "acyclic (insert (gid, p) kept)"
      unfolding acyclic_insert using path [of gid] acyclic_subset [OF tree_okD(4) [OF ok] kept_sub] by blast
    have nog: "(gid, y) \<notin> kept" for y by (simp add: kept_def)
    have "y = gid \<or> (p, y) \<in> kept\<^sup>*" if "(gid, y) \<in> (insert (gid, p) kept)\<^sup>*" for y
      using that
    proof (induction rule: rtrancl_induct)
      case (step y z)
      then show ?case using nog by (auto intro: rtrancl_into_rtrancl)
    qed simp
    then show ?thesis using ac path L(1) unfolding R by blast
  qed
  have "acyclic (?R \<union> L \<times> {gid})" using R by (intro acyclic_into) auto
  then show ?thesis using edges acyclic_subset by blast
qed

lemma distinct_T': "T' x = Some (p, cs) \<Longrightarrow> distinct cs"
proof -
  assume x: "T' x = Some (p, cs)"
  then obtain q ks where q: "T x = Some (q, ks)" by (auto simp: T'_def edited_tree_def split: option.splits)
  have d: "distinct ks" using tree_okD(1) [OF ok q] .
  have "gid \<notin> set ks" if "Some x \<noteq> before" using gid_listed [of x] that q by (auto simp: lists_def)
  then show "distinct cs" using x q d A by (auto simp: T'_def edited_tree_def split: if_splits)
qed

lemma edited_ok: "tree_ok (edited_tree T gid before pa A L (set K - set A))"
  using tree_okI [OF distinct_T' parents_listed listed_parents acyclic_T'] by (simp add: T'_def)

end

section \<open>How the links change\<close>

lemma tree_set_group: "tree (set_group gid g S) = (tree S)(gid \<mapsto> (g_parent g, g_children g))"
  by (auto simp: tree_def)

lemma tree_more [simp]:
  "tree (S\<lparr>gr_total := n\<rparr>) = tree S" "tree (S\<lparr>gr_deleted := ds\<rparr>) = tree S"
  by (simp_all add: tree_def fun_eq_iff)

lemma tree_of_eq: "group_of S' = group_of S \<Longrightarrow> tree S' = tree S"
  by (simp add: tree_def fun_eq_iff)

lemma up_tree: "(x, p) \<in> up (tree S) \<longleftrightarrow> parent_of S x = Some p"
  by (auto simp: up_def tree_def parent_of_def bind_eq_Some_conv)

lemma tree_unlink:
  "tree (unlink c old S) x =
     map_option (\<lambda>(q, ks). (q, if Some x = old then filter (\<lambda>k. k \<noteq> c) ks else ks)) (tree S x)"
  by (cases old; cases "group_of S x") (auto simp: unlink_def tree_def)

lemma tree_set_parent:
  "tree (edit_group c (\<lambda>g. g\<lparr>g_parent := p\<rparr>) S) x = map_option (\<lambda>(q, ks). (if x = c then p else q, ks)) (tree S x)"
  by (cases "group_of S x") (auto simp: tree_def)

lemma tree_adopt:
  "gid \<notin> set cs \<Longrightarrow> tree (fst (adopt_children S gid cs relay now emit)) x =
     map_option (\<lambda>(q, ks). (if x \<in> set cs then Some gid else q,
       if x = gid then ks else filter (\<lambda>c. \<not> (c \<in> set cs \<and> (c, x) \<in> up (tree S))) ks)) (tree S x)"
proof (induction S gid cs relay now emit rule: adopt_children.induct)
  case (2 S gid c cs relay now emit)
  show ?case
  proof (cases "parent_of S c = Some gid")
    case True
    have eq: "fst (adopt_children S gid (c # cs) relay now emit) = fst (adopt_children S gid cs relay now emit)"
      using True by simp
    have "(c, x) \<in> up (tree S) \<longleftrightarrow> x = gid" using True by (auto simp: up_tree)
    moreover have "x = c \<Longrightarrow> tree S x = Some (q, ks) \<Longrightarrow> q = Some gid" for q ks
      using True by (auto simp: tree_def parent_of_def)
    ultimately show ?thesis unfolding eq using "2.IH"(1) [OF refl True] "2.prems" by (cases "tree S x") (auto intro!: filter_cong)
  next
    case False
    let ?S1 = "edit_group c (\<lambda>g. g\<lparr>g_parent := Some gid\<rparr>) (unlink c (parent_of S c) S)"
    have nf: "(c, gid) \<notin> up (tree S)" using False by (simp add: up_tree)
    have t1: "tree ?S1 y = map_option (\<lambda>(q, ks). (if y = c then Some gid else q,
        if (c, y) \<in> up (tree S) then filter (\<lambda>k. k \<noteq> c) ks else ks)) (tree S y)" for y
      by (cases "tree S y") (auto simp: tree_set_parent tree_unlink up_tree)
    have u1: "(d, y) \<in> up (tree ?S1) \<longleftrightarrow> (if d = c then tree S c \<noteq> None \<and> y = gid else (d, y) \<in> up (tree S))" for d y
      by (cases "tree S d") (auto simp: up_def t1)
    have "tree (fst (adopt_children S gid (c # cs) relay now emit)) x = tree (fst (adopt_children ?S1 gid cs relay now emit)) x"
      using False by (simp add: Let_def split: prod.splits)
    also have "\<dots> = map_option (\<lambda>(q, ks). (if x \<in> set cs then Some gid else q,
       if x = gid then ks else filter (\<lambda>d. \<not> (d \<in> set cs \<and> (d, x) \<in> up (tree ?S1))) ks)) (tree ?S1 x)"
      using "2.IH"(2) [OF refl False refl refl] "2.prems" by simp
    also have "\<dots> = map_option (\<lambda>(q, ks). (if x \<in> set (c # cs) then Some gid else q,
       if x = gid then ks else filter (\<lambda>d. \<not> (d \<in> set (c # cs) \<and> (d, x) \<in> up (tree S))) ks)) (tree S x)"
      using "2.prems" nf by (cases "tree S x") (auto simp: t1 u1 intro!: filter_cong)
    finally show ?thesis .
  qed
qed (simp add: case_prod_beta map_option_case split: option.split)

lemma tree_release:
  "tree (fst (release_children S gid cs relay now emit)) x =
     map_option (\<lambda>(q, ks). (if x \<in> set cs \<and> q = Some gid then None else q, ks)) (tree S x)"
proof (induction S gid cs relay now emit rule: release_children.induct)
  case (2 S gid c cs relay now emit)
  show ?case
  proof (cases "parent_of S c = Some gid")
    case True
    let ?S1 = "edit_group c (\<lambda>g. g\<lparr>g_parent := None\<rparr>) S"
    have "tree (fst (release_children S gid (c # cs) relay now emit)) x = tree (fst (release_children ?S1 gid cs relay now emit)) x"
      using True by (simp add: Let_def split: prod.splits)
    moreover have "x = c \<Longrightarrow> tree S x = Some (q, ks) \<Longrightarrow> q = Some gid" for q ks
      using True by (auto simp: tree_def parent_of_def)
    ultimately show ?thesis using "2.IH"(1) [OF True refl] by (cases "tree S x") (auto simp: tree_set_parent)
  next
    case False
    then have "x = c \<Longrightarrow> tree S x = Some (q, ks) \<Longrightarrow> q \<noteq> Some gid" for q ks
      by (auto simp: tree_def parent_of_def)
    then show ?thesis using "2.IH"(2) [OF False] False by (cases "tree S x") auto
  qed
qed (simp add: case_prod_beta map_option_case split: option.split)

lemma tree_link_parent:
  assumes ne: "before \<noteq> after" and g: "tree S gid = Some (before, K)" and b: "before \<noteq> Some gid"
    and p: "\<And>p. after = Some p \<Longrightarrow> tree S p \<noteq> None \<and> p \<noteq> gid \<and> \<not> lists (tree S) p gid"
  shows "tree (link_parent gid before after S) x =
     map_option (\<lambda>(q, ks). (if x = gid then after else q,
       if Some x = before then filter (\<lambda>k. k \<noteq> gid) ks else if Some x = after then ks @ [gid] else ks)) (tree S x)"
proof -
  let ?S1 = "unlink gid before S"
  have ex: "group_of ?S1 y = None \<longleftrightarrow> tree S y = None" for y
    using tree_unlink [of gid before S y] by (auto simp: tree_def map_option_is_None)
  have nl: "\<not> has_child gid ?S1 p" if "after = Some p" for p
  proof -
    have "Some p \<noteq> before" using ne that by simp
    then have "tree ?S1 p = tree S p" by (cases "tree S p") (auto simp: tree_unlink)
    then show ?thesis using assms(4) [OF that] by (auto simp: has_child_def is_some_and_def lists_def tree_def split: option.splits)
  qed
  have t: "tree (link_parent gid before after S) x
    = tree (edit_group gid (\<lambda>g. g\<lparr>g_parent := after\<rparr>)
        (case after of None \<Rightarrow> ?S1 | Some p \<Rightarrow> edit_group p (\<lambda>g. g\<lparr>g_children := g_children g @ [gid]\<rparr>) ?S1)) x"
  proof (cases after)
    case None
    then show ?thesis using ne by (auto simp: link_parent_def Let_def is_some_and_def is_none_or_def)
  next
    case (Some p)
    have "group_of ?S1 p \<noteq> None" using ex [of p] assms(4) [OF Some] by simp
    then show ?thesis using ne Some nl [OF Some]
      by (auto simp: link_parent_def Let_def is_some_and_def is_none_or_def intro: fun_cong [OF tree_of_eq])
  qed
  have c: "tree (edit_group p (\<lambda>g. g\<lparr>g_children := g_children g @ [gid]\<rparr>) R) y
      = map_option (\<lambda>(q, ks). (q, if y = p then ks @ [gid] else ks)) (tree R y)" for p R y
    by (cases "group_of R y") (auto simp: tree_def)
  show ?thesis unfolding t using ne by (cases after; cases "tree S x") (auto simp: tree_set_parent tree_unlink c)
qed

section \<open>A metadata edit keeps the tree\<close>

lemma update_labels_fields [simp]:
  "g_parent (update_labels e g) = g_parent g" "g_children (update_labels e g) = g_children g"
  "g_members (update_labels e g) = g_members g" "g_invites (update_labels e g) = g_invites g"
  "g_pins (update_labels e g) = g_pins g" "g_channel_type (update_labels e g) = g_channel_type g"
  "g_settings (update_labels e g) = g_settings g"
  by (simp_all add: update_labels_def)

lemma apply_settings_fields [simp]:
  "g_parent (apply_settings g e b h) = g_parent g" "g_children (apply_settings g e b h) = g_children g"
  "g_members (apply_settings g e b h) = g_members g" "g_invites (apply_settings g e b h) = g_invites g"
  "g_pins (apply_settings g e b h) = g_pins g" "g_channel_type (apply_settings g e b h) = g_channel_type g"
  by (simp_all add: apply_settings_def apply_nip29_settings_def Let_def)

lemma check_children_ok: "check_children used cs = None \<Longrightarrow> c \<in> set cs \<Longrightarrow> c \<noteq> [] \<and> length c \<le> MAX_CHILD_ID_BYTES"
  by (induction used cs rule: check_children.induct) (auto split: if_splits)

lemma denied_children_live: "denied_children S gid e rs False acc cs = Inr dc \<Longrightarrow> dc = acc"
  by (induction S gid e rs False acc cs rule: denied_children.induct) (auto split: if_splits)

lemma edit_checks:
  assumes "validate_edit_metadata S gid g e rs replay = Inr d"
  shows "check_children 0 (child_values e) = None" and "gid \<notin> set (child_values e)"
    and "\<not> climb_revisits (gr_groups S) gid (parent_value e) (child_values e) [] (Some gid)"
    and "\<And>c. c \<in> set (child_values e) \<Longrightarrow> \<not> descends_to (gr_groups S) gid [] [c]"
    and "parent_denied S gid e rs replay = Inr (d_parent d)"
    and "\<not> replay \<Longrightarrow> gr_buzz S \<and> child_values e = [] \<or> set (g_children g) \<subseteq> set (child_values e)"
    and "denied_children S gid e rs replay [] (child_values e) = Inr (d_children d)"
    and "length (remdups (filter (\<lambda>c. c \<notin> set (d_children d)) (child_values e))) \<le> declared_children_cap S"
proof -
  let ?xs = "filter (\<lambda>i. i \<in> set (live_children S)) (gr_declared S)"
  let ?ys = "filter (\<lambda>c. c \<notin> set (d_children d)) (child_values e)"
  have "length (remdups ?ys) \<le> length (remdups (?xs @ ?ys))"
    unfolding length_remdups_card_conv by (intro card_mono) auto
  then show "length (remdups ?ys) \<le> declared_children_cap S"
    using assms by (auto simp: validate_edit_metadata_def Let_def split: if_splits option.splits sum.splits)
qed (use assms in \<open>auto simp: validate_edit_metadata_def Let_def list_ex_iff list_all_iff subset_iff
      split: if_splits option.splits sum.splits\<close>)

lemma append_new_set:
  "set (append_new cap merged cs) \<subseteq> set merged \<union> set cs" "set merged \<subseteq> set (append_new cap merged cs)"
  by (induction cap merged cs rule: append_new.induct) (auto split: if_splits)

lemma append_new_distinct: "distinct merged \<Longrightarrow> distinct (append_new cap merged cs)"
  by (induction cap merged cs rule: append_new.induct) auto

lemma append_new_all:
  "distinct merged \<Longrightarrow> card (set merged \<union> set cs) \<le> cap \<Longrightarrow> set cs \<subseteq> set (append_new cap merged cs)"
proof (induction cap merged cs rule: append_new.induct)
  case (2 cap merged c cs)
  show ?case
  proof (cases "length merged \<ge> cap")
    case True
    have "card (set merged) = length merged" using "2.prems"(1) distinct_card by blast
    then have "card (set merged \<union> set (c # cs)) \<le> card (set merged)" using True "2.prems"(2) by simp
    then have "set merged \<union> set (c # cs) = set merged"
      by (metis List.finite_set card_seteq finite_UnI sup_ge1)
    then show ?thesis using True by auto
  next
    case False
    let ?m = "if c \<in> set merged then merged else merged @ [c]"
    have "set ?m \<union> set cs = set merged \<union> set (c # cs)" by auto
    then have "set cs \<subseteq> set (append_new cap ?m cs)" using "2.IH" [OF False] "2.prems" by simp
    moreover have "c \<in> set (append_new cap ?m cs)" using append_new_set(2) [of ?m cap cs] by (auto split: if_splits)
    ultimately show ?thesis using False by simp
  qed
qed simp

lemma declared_list_set:
  "set (declared_list e d) = {c \<in> set (child_listed e d). c \<noteq> []}" "distinct (declared_list e d)"
proof -
  let ?cs = "filter (\<lambda>c. c \<noteq> []) (child_listed e d)"
  have "card (set ?cs) \<le> Suc (length ?cs)" by (meson card_length le_Suc_eq)
  then have "set ?cs \<subseteq> set (declared_list e d)" using append_new_all [of "[]" ?cs] by (simp add: declared_list_def Let_def)
  then show "set (declared_list e d) = {c \<in> set (child_listed e d). c \<noteq> []}"
    using append_new_set(1) [of "Suc (length ?cs)" "[]" ?cs] by (auto simp: declared_list_def Let_def)
  show "distinct (declared_list e d)" by (simp add: declared_list_def Let_def append_new_distinct)
qed

lemma children_after_ok:
  assumes v: "validate_edit_metadata S gid g e rs replay = Inr d" and dk: "distinct (g_children g)"
  shows "distinct (children_after S g e d replay) \<and> set (child_listed e d) \<subseteq> set (children_after S g e d replay)
    \<and> set (children_after S g e d replay) \<subseteq> set (child_listed e d) \<union> set (g_children g)"
proof -
  note c = edit_checks [OF v]
  have L: "set (declared_list e d) = set (child_listed e d)"
    using check_children_ok [OF c(1)] declared_list_set(1) [of e d] by (auto simp: child_listed_def)
  have sub: "set (child_listed e d) \<subseteq> set (filter (\<lambda>c. c \<notin> set (d_children d)) (child_values e))" by (auto simp: child_listed_def)
  have "card (set (child_listed e d)) \<le> card (set (filter (\<lambda>c. c \<notin> set (d_children d)) (child_values e)))"
    using sub by (intro card_mono) simp_all
  then have cap: "card (set (declared_list e d)) \<le> declared_children_cap S"
    using c(8) L unfolding length_remdups_card_conv by simp
  let ?m = "append_new (declared_children_cap S) [] (declared_list e d)"
  have m: "set (declared_list e d) \<subseteq> set ?m" using append_new_all [of "[]" "declared_list e d"] cap by simp
  show ?thesis
  proof (cases replay)
    case True
    then show ?thesis
      using m L append_new_set(1) [of "declared_children_cap S" ?m "g_children g"]
        append_new_set(2) [of ?m "declared_children_cap S" "g_children g"]
        append_new_set(1) [of "declared_children_cap S" "[]" "declared_list e d"]
        append_new_distinct [OF append_new_distinct [of "[]"]]
      by (auto simp: children_after_def)
  next
    case False
    then show ?thesis using L dk declared_list_set(2) [of e d] by (auto simp: children_after_def child_listed_def)
  qed
qed

lemma group_of_groups: "map_of (gr_groups S) = group_of S"
  by (simp add: group_of_def fun_eq_iff)

lemma child_rel_tree: "(y, c) \<in> child_rel (gr_groups S) \<longleftrightarrow> lists (tree S) y c"
  by (auto simp: child_rel_def lists_def tree_def group_of_groups)

lemma above_path:
  assumes nc: "\<not> climb_revisits (gr_groups S) gid (Some p) cs [] (Some gid)" and sub: "L \<subseteq> set cs"
    and path: "(p, y) \<in> {(a, b) \<in> up (tree S). a \<notin> L \<and> a \<noteq> gid}\<^sup>*"
  shows "y \<noteq> gid \<and> y \<notin> L"
proof -
  let ?U = "upcoming (gr_groups S) gid (Some p) cs"
  have free: "y \<noteq> gid \<and> y \<notin> set cs" if "(p, y) \<in> ?U\<^sup>*" for y
  proof -
    have "y \<noteq> gid" using climb_no_return [OF nc refl that] .
    moreover have "(y, gid) \<in> ?U" if "y \<in> set cs" "y \<noteq> gid" using that by (simp add: upcoming_def upcoming_parent_def)
    ultimately show ?thesis using climb_no_return [OF nc refl, of gid] that by (meson rtrancl.rtrancl_into_rtrancl)
  qed
  from path have "(p, y) \<in> ?U\<^sup>*"
  proof (induction rule: rtrancl_induct)
    case (step y z)
    then have "(y, z) \<in> ?U"
      using free [OF step.IH] by (auto simp: upcoming_def upcoming_parent_def up_tree parent_of_def group_of_groups)
    then show ?case using step.IH by (rule rtrancl_into_rtrancl [rotated])
  qed simp
  then show ?thesis using free sub by auto
qed

lemma below_path:
  assumes ok: "tree_ok (tree S)" and nd: "\<not> descends_to (gr_groups S) gid [] [c]"
  shows "(gid, c) \<notin> (up (tree S))\<^sup>*"
proof
  assume "(gid, c) \<in> (up (tree S))\<^sup>*"
  then have "(c, gid) \<in> (child_rel (gr_groups S))\<^sup>*"
  proof (induction rule: rtrancl_induct)
    case (step y z)
    then have "(z, y) \<in> child_rel (gr_groups S)" using tree_okD(2) [OF ok] by (simp add: child_rel_tree)
    then show ?case using step.IH by (rule converse_rtrancl_into_rtrancl)
  qed simp
  then show False using descends_avoids [OF nd] by simp
qed

lemma parent_after_ok:
  assumes v: "validate_edit_metadata S gid g e rs replay = Inr d" and g: "group_of S gid = Some g"
    and pa: "parent_after S g e d replay = Some p" and ne: "g_parent g \<noteq> parent_after S g e d replay"
  shows "parent_value e = Some p \<and> group_of S p \<noteq> None \<and> p \<noteq> gid"
proof -
  note c = edit_checks [OF v]
  have nd: "\<not> d_parent d" and pv: "parent_value e = Some p" using pa ne by (auto simp: parent_after_def split: if_splits)
  have "group_of S p \<noteq> None"
    using c(5) nd pv g ne pa by (auto simp: parent_denied_def split: if_splits option.splits)
  moreover have "p \<noteq> gid"
    using climb_no_return [OF c(3) pv, of p] by simp
  ultimately show ?thesis using pv by simp
qed

lemma tree_edit_applies:
  assumes ok: "tree_ok (tree S)" and g: "group_of S gid = Some g"
    and v: "validate_edit_metadata S gid g e rs replay = Inr d"
  shows "tree_edit (tree S) gid (g_parent g) (parent_after S g e d replay) (g_children g) (children_after S g e d replay)
    (set (child_listed e d))"
proof
  note c = edit_checks [OF v]
  have here: "tree S gid = Some (g_parent g, g_children g)" using g by (simp add: tree_def)
  have dk: "distinct (g_children g)" using tree_okD(1) [OF ok here] .
  have sub: "set (child_listed e d) \<subseteq> set (child_values e)" by (auto simp: child_listed_def)
  show "tree_ok (tree S)" "tree S gid = Some (g_parent g, g_children g)" by (fact ok, fact here)
  show "gid \<notin> set (child_listed e d)" using c(2) sub by auto
  show "set (child_listed e d) \<subseteq> set (children_after S g e d replay)"
    "set (children_after S g e d replay) \<subseteq> set (child_listed e d) \<union> set (g_children g)"
    "distinct (children_after S g e d replay)" using children_after_ok [OF v dk] by simp_all
  show "tree S p \<noteq> None \<and> p \<noteq> gid" if "parent_after S g e d replay = Some p" "g_parent g \<noteq> parent_after S g e d replay" for p
    using parent_after_ok [OF v g that] by (simp add: tree_def)
  show "(gid, x) \<notin> (up (tree S))\<^sup>*" if "x \<in> set (child_listed e d)" for x
    using below_path [OF ok c(4)] that sub by auto
  show "y \<noteq> gid \<and> y \<notin> set (child_listed e d)"
    if "parent_after S g e d replay = Some p" "g_parent g \<noteq> parent_after S g e d replay"
      "(p, y) \<in> {(a, b) \<in> up (tree S). a \<notin> set (child_listed e d) \<and> a \<noteq> gid}\<^sup>*" for p y
    using above_path [OF _ sub that(3)] c(3) parent_after_ok [OF v g that(1,2)] by simp
qed

text \<open>The interpretation on the store: an accepted edit, and otherwise the edit that leaves a lone group alone.\<close>

definition valid_edit :: "group_store \<Rightarrow> string \<Rightarrow> group \<Rightarrow> event \<Rightarrow> bool \<Rightarrow> bool \<Rightarrow> edit_denials \<Rightarrow> bool" where
  "valid_edit S gid g e rs replay d \<longleftrightarrow>
     tree_ok (tree S) \<and> group_of S gid = Some g \<and> validate_edit_metadata S gid g e rs replay = Inr d"

lemma tree_ok_lone: "tree_ok [gid \<mapsto> (None, [])]"
proof -
  have "up [gid \<mapsto> (None, [])] = {}" by (auto simp: up_def split: if_splits)
  then show ?thesis by (auto intro!: tree_okI simp: lists_def acyclic_def split: if_splits)
qed

lemma edits_view:
  "tree_edit
  (if valid_edit S gid g e rs replay d then tree S else [gid \<mapsto> (None, [])]) gid
  (if valid_edit S gid g e rs replay d then g_parent g else None)
  (if valid_edit S gid g e rs replay d then parent_after S g e d replay else None)
  (if valid_edit S gid g e rs replay d then g_children g else [])
  (if valid_edit S gid g e rs replay d then children_after S g e d replay else [])
  (if valid_edit S gid g e rs replay d then set (child_listed e d) else {})"
proof (cases "valid_edit S gid g e rs replay d")
  case True
  then show ?thesis using tree_edit_applies [of S gid g e rs replay d] by (simp add: valid_edit_def)
next
  case False
  then show ?thesis using tree_ok_lone [of gid] by (simp add: tree_edit_def)
qed

interpretation edits: tree_edit
  "if valid_edit S gid g e rs replay d then tree S else [gid \<mapsto> (None, [])]" gid
  "if valid_edit S gid g e rs replay d then g_parent g else None"
  "if valid_edit S gid g e rs replay d then parent_after S g e d replay else None"
  "if valid_edit S gid g e rs replay d then g_children g else []"
  "if valid_edit S gid g e rs replay d then children_after S g e d replay else []"
  "if valid_edit S gid g e rs replay d then set (child_listed e d) else {}"
  for S gid g e rs replay d
  by (rule edits_view)

lemma tree_edit_links:
  assumes ok: "tree_ok (tree S)" and g: "group_of S gid = Some g"
    and v: "validate_edit_metadata S gid g e rs replay = Inr d"
  shows "tree (fst (edit_links S gid g e d relay now emit replay)) =
    edited_tree (tree S) gid (g_parent g) (parent_after S g e d replay) (children_after S g e d replay)
      (set (child_listed e d)) (set (g_children g) - set (children_after S g e d replay))"
proof
  fix x
  note te = tree_edit_applies [OF ok g v]
  let ?A = "children_after S g e d replay" and ?pa = "parent_after S g e d replay" and ?L = "child_listed e d"
  let ?S1 = "fold declare_child ?A (set_group gid ((apply_settings g e (gr_buzz S) replay)\<lparr>g_children := ?A\<rparr>) S)"
  let ?S2 = "link_parent gid (g_parent g) ?pa ?S1"
  let ?S3 = "fst (adopt_children ?S2 gid ?L relay now emit)"
  have here: "tree S gid = Some (g_parent g, g_children g)" using g by (simp add: tree_def)
  have ve: "valid_edit S gid g e rs replay d" using ok g v by (simp add: valid_edit_def)
  have gK: "gid \<notin> set (g_children g)" using edits.gid_not_K [where gid = gid and S = S and g = g and e = e and rs = rs and replay = replay and d = d] ve by simp
  have gL: "gid \<notin> set ?L" and LA: "set ?L \<subseteq> set ?A" using te by (simp_all add: tree_edit_def)
  have t1: "tree ?S1 = (tree S)(gid \<mapsto> (g_parent g, ?A))"
    using tree_of_eq [of ?S1 "set_group gid ((apply_settings g e (gr_buzz S) replay)\<lparr>g_children := ?A\<rparr>) S"]
    by (simp add: tree_set_group fun_eq_iff)
  have nb: "g_parent g \<noteq> Some gid" using tree_okD(2) [OF ok, of gid gid] not_own_child [OF ok, of gid] here by (auto simp: up_def)
  have t2: "tree ?S2 y = (case tree S y of None \<Rightarrow> None | Some (q, ks) \<Rightarrow> Some (if y = gid then ?pa else q,
      if y = gid then ?A
      else if g_parent g = ?pa then ks else if Some y = g_parent g then filter (\<lambda>c. c \<noteq> gid) ks
      else if Some y = ?pa then ks @ [gid] else ks))" for y
  proof (cases "g_parent g = ?pa")
    case True
    then have "?S2 = ?S1" by (simp add: link_parent_def)
    then show ?thesis using True here by (auto simp: t1 split: option.splits)
  next
    case False
    have pc: "tree ?S1 p \<noteq> None \<and> p \<noteq> gid \<and> \<not> lists (tree ?S1) p gid" if "?pa = Some p" for p
      using parent_after_ok [OF v g that False] edits.gid_listed [where gid = gid and S = S and g = g and e = e and rs = rs and replay = replay and d = d and y = p] ve False that
      by (auto simp: t1 lists_def tree_def)
    have pg: "?pa \<noteq> Some gid" using pc [of gid] by auto
    show ?thesis
      using tree_link_parent [OF False _ nb pc, where x = y and K = ?A] False nb here pg
      by (cases "tree S y") (auto simp: t1)
  qed
  have u2: "c \<in> set ?L \<Longrightarrow> (c, y) \<in> up (tree ?S2) \<longleftrightarrow> (c, y) \<in> up (tree S)" for c y
    using gL by (auto simp: up_def t2 split: option.splits)
  have f: "filter (\<lambda>c. \<not> (c \<in> set ?L \<and> (c, x) \<in> up (tree ?S2))) ks = filter (\<lambda>c. \<not> (c \<in> set ?L \<and> (c, x) \<in> up (tree S))) ks" for ks
    using u2 by (intro filter_cong) auto
  have "tree (fst (edit_links S gid g e d relay now emit replay)) x
    = tree (fst (release_children ?S3 gid (filter (\<lambda>c. c \<notin> set ?A) (g_children g)) relay now emit)) x"
    by (simp add: edit_links_def Let_def split: prod.splits)
  also have "\<dots> = edited_tree (tree S) gid (g_parent g) ?pa ?A (set ?L) (set (g_children g) - set ?A) x"
    unfolding tree_release tree_adopt [OF gL] f t2 edited_tree_def
    using gK gL LA by (cases "tree S x") (auto simp: subset_iff)
  finally show "tree (fst (edit_links S gid g e d relay now emit replay)) x = edited_tree (tree S) gid (g_parent g) ?pa ?A (set ?L) (set (g_children g) - set ?A) x" .
qed

end
