(* ===== verification/GroupInv.thy ===== *)
theory GroupInv
  imports GroupTree
begin

text \<open>
  The invariant of the group store: one entry per group id, a forest of groups, bounded rosters, invites,
  pins and roles, guests and bots that are members without a role, and an exact member counter.
\<close>

section \<open>Member totals\<close>

definition total_of :: "(string \<times> group) list \<Rightarrow> nat" where
  "total_of gs = sum_list (map (\<lambda>(gid, g). length (g_members g)) gs)"

lemma total_of_simps [simp]: "total_of [] = 0" "total_of ((k, g) # gs) = length (g_members g) + total_of gs"
  by (simp_all add: total_of_def)

lemma total_update_new: "map_of gs k = None \<Longrightarrow> total_of (AList.update k g gs) = total_of gs + length (g_members g)"
  by (induction gs) (auto split: if_splits)

lemma total_update: "distinct (map fst gs) \<Longrightarrow> map_of gs k = Some g
    \<Longrightarrow> total_of (AList.update k g' gs) + length (g_members g) = total_of gs + length (g_members g')"
  by (induction gs) (auto split: if_splits)

lemma total_delete: "distinct (map fst gs) \<Longrightarrow> map_of gs k = Some g
    \<Longrightarrow> total_of (AList.delete k gs) + length (g_members g) = total_of gs"
proof (induction gs)
  case (Cons a gs)
  have "AList.delete k gs = gs" if "map_of gs k = None"
    using that by (simp add: delete_idem map_of_eq_None_iff)
  moreover have "map_of gs k = None" if "fst a = k" using Cons.prems(1) that by (auto simp: map_of_eq_None_iff)
  ultimately show ?case using Cons by (cases a) (auto split: if_splits)
qed simp

lemma total_ge: "distinct (map fst gs) \<Longrightarrow> map_of gs k = Some g \<Longrightarrow> length (g_members g) \<le> total_of gs"
  using total_delete by fastforce

section \<open>Well-formed groups\<close>

definition roles_ok :: "string list \<Rightarrow> bool" where
  "roles_ok roles \<longleftrightarrow> length roles \<le> MAX_ROLES_PER_MEMBER \<and> (\<forall>r \<in> set roles. r \<noteq> [] \<and> length r \<le> MAX_ROLE_BYTES)"

definition group_wf :: "group \<Rightarrow> bool" where
  "group_wf g \<longleftrightarrow>
     distinct (map fst (g_members g)) \<and> length (g_members g) \<le> MAX_MEMBERS
   \<and> (\<forall>pk roles. map_of (g_members g) pk = Some roles \<longrightarrow> roles_ok roles)
   \<and> length (g_invites g) \<le> MAX_INVITES \<and> length (g_pins g) \<le> MAX_PINS
   \<and> (\<forall>pk \<in> set (g_guests g) \<union> set (g_bots g). map_of (g_members g) pk = Some [])"

lemma length_update: "length (AList.update k v xs) = (if map_of xs k = None then Suc (length xs) else length xs)"
  by (induction xs) auto

lemma length_delete: "distinct (map fst xs) \<Longrightarrow> length (AList.delete k xs) = (if map_of xs k = None then length xs else length xs - 1)"
proof (induction xs)
  case (Cons a xs)
  have "AList.delete k xs = xs" if "map_of xs k = None" using that by (simp add: delete_idem map_of_eq_None_iff)
  moreover have "map_of xs k = None" if "fst a = k" using Cons.prems that by (auto simp: map_of_eq_None_iff)
  moreover have "length xs > 0" if "map_of xs k \<noteq> None" using that by auto
  ultimately show ?case using Cons by (cases a) auto
qed simp

lemma set_retain_budget: "set (retain_budget cap used rs) \<subseteq> set rs"
  by (induction cap used rs rule: retain_budget.induct) auto

lemma bounded_roles_ok: "roles_ok (bounded_member_roles roles)"
proof -
  let ?rs = "remdups_adj (sort (filter (\<lambda>r. r \<noteq> [] \<and> length r \<le> MAX_ROLE_BYTES) roles))"
  have sub: "set (bounded_member_roles roles) \<subseteq> set ?rs"
    using set_retain_budget [of MAX_ROLES_BYTES_PER_MEMBER 0 ?rs]
      set_take_subset [of MAX_ROLES_PER_MEMBER "retain_budget MAX_ROLES_BYTES_PER_MEMBER 0 ?rs"]
    unfolding bounded_member_roles_def by (rule subset_trans [rotated])
  have "r \<noteq> [] \<and> length r \<le> MAX_ROLE_BYTES" if "r \<in> set (bounded_member_roles roles)" for r
    using subsetD [OF sub that] unfolding remdups_adj_set set_sort set_filter by simp
  moreover have "length (bounded_member_roles roles) \<le> MAX_ROLES_PER_MEMBER"
    unfolding bounded_member_roles_def length_take by simp
  ultimately show ?thesis unfolding roles_ok_def by simp
qed

lemma bounded_roles_Nil [simp]: "bounded_member_roles [] = []"
  by (simp add: bounded_member_roles_def)

lemma group_wfI:
  assumes "distinct (map fst (g_members g))" and "length (g_members g) \<le> MAX_MEMBERS"
    and "\<And>pk roles. map_of (g_members g) pk = Some roles \<Longrightarrow> roles_ok roles"
    and "length (g_invites g) \<le> MAX_INVITES" and "length (g_pins g) \<le> MAX_PINS"
    and "\<And>pk. pk \<in> set (g_guests g) \<union> set (g_bots g) \<Longrightarrow> map_of (g_members g) pk = Some []"
  shows "group_wf g"
  using assms by (simp add: group_wf_def)

lemma group_wfD:
  assumes "group_wf g"
  shows "distinct (map fst (g_members g))" and "length (g_members g) \<le> MAX_MEMBERS"
    and "\<And>pk roles. map_of (g_members g) pk = Some roles \<Longrightarrow> roles_ok roles"
    and "length (g_invites g) \<le> MAX_INVITES" and "length (g_pins g) \<le> MAX_PINS"
    and "\<And>pk. pk \<in> set (g_guests g) \<union> set (g_bots g) \<Longrightarrow> map_of (g_members g) pk = Some []"
  using assms by (simp_all add: group_wf_def)

lemma wf_drop_member:
  assumes "group_wf g"
  shows "group_wf (drop_member pk g)"
proof (rule group_wfI)
  note w = group_wfD [OF assms]
  show "distinct (map fst (g_members (drop_member pk g)))" using w(1) by (simp add: drop_member_def distinct_delete)
  show "length (g_members (drop_member pk g)) \<le> MAX_MEMBERS"
    using w(2) length_delete_le [of pk "g_members g"] by (simp add: drop_member_def)
  show "roles_ok roles" if "map_of (g_members (drop_member pk g)) x = Some roles" for x roles
    using that w(3) [of x] by (simp add: drop_member_def delete_conv split: if_splits)
  show "map_of (g_members (drop_member pk g)) x = Some []"
    if "x \<in> set (g_guests (drop_member pk g)) \<union> set (g_bots (drop_member pk g))" for x
    using that w(6) [of x] by (auto simp: drop_member_def delete_conv)
qed (use group_wfD [OF assms] in \<open>simp_all add: drop_member_def\<close>)

lemma wf_add_member:
  assumes "group_wf g" and "\<not> is_member g pk" and "length (g_members g) < MAX_MEMBERS"
  shows "group_wf (add_member S pk g)"
proof (rule group_wfI)
  note w = group_wfD [OF assms(1)]
  show "roles_ok roles" if "map_of (g_members (add_member S pk g)) x = Some roles" for x roles
    using that w(3) [of x] by (auto simp: add_member_def update_conv roles_ok_def split: if_splits)
  show "map_of (g_members (add_member S pk g)) x = Some []"
    if "x \<in> set (g_guests (add_member S pk g)) \<union> set (g_bots (add_member S pk g))" for x
    using that w(6) [of x] by (auto simp: add_member_def update_conv split: if_splits)
qed (use group_wfD [OF assms(1)] assms(2,3) in \<open>simp_all add: add_member_def distinct_update length_update is_member_def\<close>)

lemma tag_tier_roles:
  assumes "tag_tier buzz e t = (roles, guest, is_bot, explicit)"
  shows "guest \<or> is_bot \<or> \<not> explicit \<Longrightarrow> roles = []"
  using assms by (auto simp: tag_tier_def Let_def tier_role_def is_some_and_def split: prod.splits option.splits if_splits)

lemma set_tier_sub: "x \<in> set (set_tier buzz on replace pk xs) \<Longrightarrow> x \<in> set xs \<or> x = pk \<and> on"
  by (auto simp: set_tier_def split: if_splits)

lemma set_tier_self: "pk \<in> set (set_tier buzz on replace pk xs) \<Longrightarrow> on \<or> \<not> replace"
  by (auto simp: set_tier_def split: if_splits)

lemma wf_assign_tier:
  assumes wf: "group_wf g" and len: "length (g_members g) < MAX_MEMBERS \<or> is_member g pk"
  shows "group_wf (assign_tier buzz rs gj pk (tag_tier buzz e t) g)"
proof -
  obtain roles guest is_bot explicit where tt: "tag_tier buzz e t = (roles, guest, is_bot, explicit)" by (metis prod_cases4)
  note nr = tag_tier_roles [OF tt]
  let ?g = "assign_tier buzz rs gj pk (tag_tier buzz e t) g"
  have mem: "g_members ?g = AList.update pk (bounded_member_roles roles) (g_members g)"
    by (simp add: assign_tier_def tt Let_def)
  have tier: "map_of (g_members ?g) x = Some []" if "x \<in> set (g_guests ?g) \<union> set (g_bots ?g)" for x
  proof (cases "x = pk")
    case True
    have "roles = []"
      using that True nr set_tier_self unfolding assign_tier_def tt Let_def by fastforce
    then show ?thesis using True by (simp add: mem update_conv)
  next
    case False
    then have "x \<in> set (g_guests g) \<union> set (g_bots g)"
      using that set_tier_sub by (fastforce simp: assign_tier_def tt Let_def)
    then show ?thesis using wf False by (auto simp: group_wf_def mem update_conv)
  qed
  have "g_invites ?g = g_invites g" "g_pins ?g = g_pins g" by (simp_all add: assign_tier_def tt Let_def)
  moreover have "roles_ok rs" if "map_of (g_members ?g) x = Some rs" for x rs
    using that group_wfD(3) [OF wf, of x] bounded_roles_ok [of roles] by (auto simp: mem update_conv split: if_splits)
  ultimately show ?thesis
    using group_wfD [OF wf] len tier
    by (intro group_wfI) (auto simp: mem distinct_update length_update is_member_def)
qed

lemma wf_put_user_tag: "group_wf g \<Longrightarrow> group_wf (fst (put_user_tag S e relay gj (g, added) t))"
  by (auto simp: put_user_tag_def put_skipped_def Let_def not_le intro!: wf_assign_tier)

lemma wf_put_fold: "group_wf g \<Longrightarrow> group_wf (fst (foldl (put_user_tag S e relay gj) (g, added) ts))"
proof (induction ts arbitrary: g added)
  case (Cons t ts)
  then show ?case using wf_put_user_tag [of g S e relay gj added t]
    by (cases "put_user_tag S e relay gj (g, added) t") auto
qed simp

lemma assign_tier_fields [simp]:
  "g_parent (assign_tier b rs gj pk tt g) = g_parent g" "g_children (assign_tier b rs gj pk tt g) = g_children g"
  "g_creator (assign_tier b rs gj pk tt g) = g_creator g"
  by (simp_all add: assign_tier_def Let_def split: prod.splits)

lemma put_fold_fields:
  "g_parent (fst (foldl (put_user_tag S e relay gj) (g, added) ts)) = g_parent g \<and>
   g_children (fst (foldl (put_user_tag S e relay gj) (g, added) ts)) = g_children g"
proof (induction ts arbitrary: g added)
  case (Cons t ts)
  then show ?case by (simp add: put_user_tag_def Let_def)
qed simp

lemma put_fold_count:
  "length (g_members (fst (foldl (put_user_tag S e relay gj) (g, added) ts))) + length added
     = length (g_members g) + length (snd (foldl (put_user_tag S e relay gj) (g, added) ts))"
proof (induction ts arbitrary: g added)
  case (Cons t ts)
  have m: "length (g_members (assign_tier b rs gj pk tt g)) = (if is_member g pk then length (g_members g) else Suc (length (g_members g)))" for b rs pk tt
    by (auto simp: assign_tier_def Let_def length_update is_member_def split: prod.splits)
  let ?n = "put_user_tag S e relay gj (g, added) t"
  have "length (g_members (fst ?n)) + length added = length (g_members g) + length (snd ?n)"
    by (simp add: put_user_tag_def Let_def m)
  moreover have "length (g_members (fst (foldl (put_user_tag S e relay gj) ?n ts))) + length (snd ?n)
     = length (g_members (fst ?n)) + length (snd (foldl (put_user_tag S e relay gj) ?n ts))"
    using Cons.IH [of "fst ?n" "snd ?n"] by simp
  ultimately show ?case by simp
qed simp

section \<open>The invariant\<close>

definition groups_ok :: "group_store \<Rightarrow> bool" where
  "groups_ok S \<longleftrightarrow> distinct (map fst (gr_groups S)) \<and> tree_ok (tree S)
     \<and> (\<forall>x g. group_of S x = Some g \<longrightarrow> group_wf g) \<and> gr_total S = total_of (gr_groups S)"

lemma groups_okD:
  assumes "groups_ok S"
  shows "distinct (map fst (gr_groups S))" and "tree_ok (tree S)" and "\<And>x g. group_of S x = Some g \<Longrightarrow> group_wf g"
    and "gr_total S = total_of (gr_groups S)"
  using assms by (simp_all add: groups_ok_def)

lemma ok_cong: "gr_groups S' = gr_groups S \<Longrightarrow> gr_total S' = gr_total S \<Longrightarrow> groups_ok S' = groups_ok S"
proof -
  assume h: "gr_groups S' = gr_groups S" "gr_total S' = gr_total S"
  then have g: "group_of S' = group_of S" by (simp add: group_of_def fun_eq_iff)
  show "groups_ok S' = groups_ok S" unfolding groups_ok_def h g tree_of_eq [OF g] ..
qed

lemma ok_update:
  assumes ok: "groups_ok S" and g: "group_of S gid = Some g"
    and links: "g_parent g' = g_parent g" "g_children g' = g_children g" and wf: "group_wf g'"
    and n: "n + length (g_members g) = gr_total S + length (g_members g')"
  shows "groups_ok ((set_group gid g' S)\<lparr>gr_total := n\<rparr>)"
proof -
  have m: "map_of (gr_groups S) gid = Some g" using g by (simp add: group_of_def)
  have "tree (set_group gid g' S) = tree S" using g links by (auto simp: tree_set_group tree_def)
  moreover have "n = total_of (AList.update gid g' (gr_groups S))"
    using total_update [OF groups_okD(1) [OF ok] m, of g'] groups_okD(4) [OF ok] n by simp
  ultimately show ?thesis
    using ok wf by (auto simp: groups_ok_def set_group_def distinct_update tree_def group_of_def update_conv)
qed

lemma ok_update_same:
  assumes "groups_ok S" and "group_of S gid = Some g" and "g_parent g' = g_parent g" "g_children g' = g_children g"
    and "group_wf g'" and "length (g_members g') = length (g_members g)"
  shows "groups_ok (set_group gid g' S)"
  using ok_update [OF assms(1-5), of "gr_total S"] assms(6) ok_cong [of "(set_group gid g' S)\<lparr>gr_total := gr_total S\<rparr>" "set_group gid g' S"]
  by (simp add: set_group_def)

lemma total_membership [simp]:
  "gr_groups (fst (membership_events S gid relay now)) = gr_groups S" "gr_total (fst (membership_events S gid relay now)) = gr_total S"
  by (simp_all add: membership_events_def Let_def)

lemma ok_membership [simp]: "groups_ok (fst (membership_events S gid relay now)) = groups_ok S"
  by (rule ok_cong) simp_all

text \<open>Changes of links and settings only.\<close>

definition same_roster :: "group \<Rightarrow> group \<Rightarrow> bool" where
  "same_roster g g' \<longleftrightarrow> g_members g' = g_members g \<and> g_invites g' = g_invites g \<and> g_pins g' = g_pins g
     \<and> g_guests g' = g_guests g \<and> g_bots g' = g_bots g"

definition rosters_kept :: "group_store \<Rightarrow> group_store \<Rightarrow> bool" where
  "rosters_kept S S' \<longleftrightarrow>
     (distinct (map fst (gr_groups S)) \<longrightarrow>
        distinct (map fst (gr_groups S')) \<and> total_of (gr_groups S') = total_of (gr_groups S))
   \<and> gr_total S' = gr_total S \<and> (\<forall>x. rel_option same_roster (group_of S x) (group_of S' x))"

lemma same_roster_trans: "same_roster a b \<Longrightarrow> same_roster b c \<Longrightarrow> same_roster a c"
  by (simp add: same_roster_def)

lemma rosters_refl: "rosters_kept S S"
  by (simp add: rosters_kept_def option.rel_refl same_roster_def)

lemma rosters_trans [trans]:
  assumes "rosters_kept S S'" and "rosters_kept S' S''"
  shows "rosters_kept S S''"
proof -
  have "rel_option same_roster (group_of S x) (group_of S'' x)" for x
  proof -
    have a: "rel_option same_roster (group_of S x) (group_of S' x)" and b: "rel_option same_roster (group_of S' x) (group_of S'' x)"
      using assms by (simp_all add: rosters_kept_def)
    show ?thesis using a b
      by (cases "group_of S x"; cases "group_of S' x"; cases "group_of S'' x") (auto intro: same_roster_trans)
  qed
  then show ?thesis using assms by (simp add: rosters_kept_def)
qed

lemma rosters_set_group:
  assumes "group_of S gid = Some g" and "same_roster g g'"
  shows "rosters_kept S (set_group gid g' S)"
proof -
  have m: "map_of (gr_groups S) gid = Some g" using assms(1) by (simp add: group_of_def)
  have "total_of (gr_groups (set_group gid g' S)) = total_of (gr_groups S)" if "distinct (map fst (gr_groups S))"
    using total_update [OF that m, of g'] assms(2) by (simp add: set_group_def same_roster_def)
  moreover have "rel_option same_roster (group_of S x) (group_of (set_group gid g' S) x)" for x
    using assms by (cases "group_of S x") (auto simp: same_roster_def)
  ultimately show ?thesis by (auto simp: rosters_kept_def set_group_def distinct_update)
qed

lemma rosters_edit:
  assumes "\<And>g. same_roster g (f g)"
  shows "rosters_kept S (edit_group gid f S)"
  using rosters_set_group assms rosters_refl by (cases "group_of S gid") (auto simp: edit_group_def)

lemma rosters_groups: "gr_groups S' = gr_groups S \<Longrightarrow> gr_total S' = gr_total S \<Longrightarrow> rosters_kept S S'"
  using rosters_refl [of S] by (simp add: rosters_kept_def group_of_def)

lemma same_roster_links [simp]:
  "same_roster g (g\<lparr>g_parent := p\<rparr>)" "same_roster g (g\<lparr>g_children := cs\<rparr>)" "same_roster g (g\<lparr>g_buzz_metadata := b\<rparr>)"
  by (simp_all add: same_roster_def)

lemma same_roster_settings: "same_roster g (apply_settings g e b h)"
  by (simp add: same_roster_def apply_settings_def apply_nip29_settings_def update_labels_def Let_def)

lemma rosters_declare: "rosters_kept S (declare_child i S)"
  by (rule rosters_groups) (simp_all add: declare_child_def prune_declared_children_def Let_def)

lemma rosters_fold_declare: "rosters_kept S (fold declare_child is S)"
proof (induction "is" arbitrary: S)
  case (Cons i "is")
  then show ?case using rosters_trans [OF rosters_declare Cons.IH] by simp
qed (simp add: rosters_refl)

lemma rosters_unlink: "rosters_kept S (unlink gid old S)"
  by (cases old) (simp_all add: unlink_def rosters_refl rosters_edit)

lemma rosters_link_parent: "rosters_kept S (link_parent gid before after S)"
proof -
  let ?S1 = "unlink gid before S"
  let ?link = "is_some_and after (\<lambda>p. group_of ?S1 p \<noteq> None \<and> \<not> has_child gid ?S1 p)"
  let ?S2 = "if ?link then edit_group (the after) (\<lambda>g. g\<lparr>g_children := g_children g @ [gid]\<rparr>) ?S1 else ?S1"
  let ?S3 = "if is_none_or after (\<lambda>p. group_of ?S2 p \<noteq> None) then edit_group gid (\<lambda>g. g\<lparr>g_parent := after\<rparr>) ?S2 else ?S2"
  have 1: "rosters_kept S ?S1" by (rule rosters_unlink)
  have 2: "rosters_kept ?S1 ?S2" by (cases ?link) (simp_all only: if_True if_False rosters_refl rosters_edit same_roster_links)
  have 3: "rosters_kept ?S2 ?S3" using rosters_refl rosters_edit by simp
  have 4: "rosters_kept ?S3 (if ?link then declare_child gid ?S3 else ?S3)" using rosters_declare rosters_refl by simp
  have "rosters_kept S (if ?link then declare_child gid ?S3 else ?S3)" using 1 2 3 4 rosters_trans by blast
  moreover have "rosters_kept S (if before = after then S else X)" if "rosters_kept S X" for X using that rosters_refl by simp
  ultimately show ?thesis unfolding link_parent_def Let_def by blast
qed

lemma rosters_adopt: "rosters_kept S (fst (adopt_children S gid cs relay now emit))"
proof (induction S gid cs relay now emit rule: adopt_children.induct)
  case (2 S gid c cs relay now emit)
  show ?case
  proof (cases "parent_of S c = Some gid")
    case True
    then show ?thesis using "2.IH"(1) by simp
  next
    case False
    let ?S1 = "edit_group c (\<lambda>g. g\<lparr>g_parent := Some gid\<rparr>) (unlink c (parent_of S c) S)"
    have 1: "rosters_kept S ?S1" by (rule rosters_trans [OF rosters_unlink rosters_edit]) simp
    have eq: "fst (adopt_children S gid (c # cs) relay now emit) = fst (adopt_children ?S1 gid cs relay now emit)"
      using False by (simp add: Let_def split: prod.splits)
    show ?thesis unfolding eq by (rule rosters_trans [OF 1 "2.IH"(2) [OF refl False refl refl]])
  qed
qed (simp add: rosters_refl)

lemma rosters_release: "rosters_kept S (fst (release_children S gid cs relay now emit))"
proof (induction S gid cs relay now emit rule: release_children.induct)
  case (2 S gid c cs relay now emit)
  show ?case
  proof (cases "parent_of S c = Some gid")
    case True
    let ?S1 = "edit_group c (\<lambda>g. g\<lparr>g_parent := None\<rparr>) S"
    have 1: "rosters_kept S ?S1" by (simp add: rosters_edit)
    have eq: "fst (release_children S gid (c # cs) relay now emit) = fst (release_children ?S1 gid cs relay now emit)"
      using True by (simp add: Let_def split: prod.splits)
    show ?thesis unfolding eq by (rule rosters_trans [OF 1 "2.IH"(1) [OF True refl]])
  next
    case False
    then show ?thesis using "2.IH"(2) by simp
  qed
qed (simp add: rosters_refl)

lemma rosters_orphan: "rosters_kept S (fst (orphan_children S cs relay now emit))"
proof (induction S cs relay now emit rule: orphan_children.induct)
  case (2 S c cs relay now emit)
  show ?case
  proof (cases "group_of S c = None")
    case False
    let ?S1 = "edit_group c (\<lambda>g. g\<lparr>g_parent := None\<rparr>) S"
    have 1: "rosters_kept S ?S1" by (simp add: rosters_edit)
    have eq: "fst (orphan_children S (c # cs) relay now emit) = fst (orphan_children ?S1 cs relay now emit)"
      using False by (auto simp: Let_def split: prod.splits)
    show ?thesis unfolding eq by (rule rosters_trans [OF 1 "2.IH"(2) [OF False refl]])
  qed (use "2.IH"(1) in simp)
qed (simp add: rosters_refl)

lemma ok_rosters:
  assumes ok: "groups_ok S" and k: "rosters_kept S S'" and t: "tree_ok (tree S')"
  shows "groups_ok S'"
proof -
  have "group_wf g'" if "group_of S' x = Some g'" for x g'
  proof -
    have "rel_option same_roster (group_of S x) (Some g')" using k that unfolding rosters_kept_def by metis
    then obtain g where g: "group_of S x = Some g" and r: "same_roster g g'" by (cases "group_of S x") auto
    then show ?thesis using groups_okD(3) [OF ok g] by (simp add: group_wf_def same_roster_def)
  qed
  then show ?thesis using ok k t by (auto simp: groups_ok_def rosters_kept_def)
qed

section \<open>Every operation keeps the invariant\<close>

lemma add_member_fields [simp]:
  "g_parent (add_member S pk g) = g_parent g" "g_children (add_member S pk g) = g_children g"
  by (simp_all add: add_member_def)

lemma drop_member_fields [simp]:
  "g_parent (drop_member pk g) = g_parent g" "g_children (drop_member pk g) = g_children g"
  by (simp_all add: drop_member_def)

lemma length_add_member: "\<not> is_member g pk \<Longrightarrow> length (g_members (add_member S pk g)) = Suc (length (g_members g))"
  by (simp add: add_member_def length_update is_member_def)

lemma length_drop_member:
  "group_wf g \<Longrightarrow> length (g_members (drop_member pk g)) = (if is_member g pk then length (g_members g) - 1 else length (g_members g))"
  using length_delete [OF group_wfD(1), of g pk] by (auto simp: drop_member_def is_member_def)

lemma member_length: "is_member g pk \<Longrightarrow> 0 < length (g_members g)"
  by (auto simp: is_member_def)

lemma ok_join: "groups_ok S \<Longrightarrow> groups_ok (fst (apply_join J S gid e relay now emit replay))"
proof (cases "group_of S gid")
  case (Some g)
  assume ok: "groups_ok S"
  let ?S1 = "(set_group gid (add_member S (pubkey e) g) S)\<lparr>gr_total := gr_total S + 1\<rparr>"
  have "groups_ok ?S1" if "\<not> is_member g (pubkey e)" "length (g_members g) < MAX_MEMBERS"
    using that groups_okD(3) [OF ok Some] length_add_member [of g "pubkey e" S]
    by (intro ok_update [OF ok Some]) (simp_all add: wf_add_member)
  then show ?thesis using Some ok
    by (auto simp: apply_join_def Let_def split: prod.splits) (metis fst_conv ok_membership)+
qed (simp add: apply_join_def)

lemma ok_leave: "groups_ok S \<Longrightarrow> groups_ok (fst (apply_leave J S gid e relay now emit))"
proof (cases "group_of S gid")
  case (Some g)
  assume ok: "groups_ok S"
  have wf: "group_wf g" using groups_okD(3) [OF ok Some] .
  have le: "length (g_members g) \<le> gr_total S"
    using total_ge [OF groups_okD(1) [OF ok], of gid g] Some groups_okD(4) [OF ok] by (simp add: group_of_def)
  let ?S1 = "set_group gid (drop_member (pubkey e) g) S"
  have 1: "groups_ok (?S1\<lparr>gr_total := gr_total S - 1\<rparr>)" if "is_member g (pubkey e)"
  proof (rule ok_update [OF ok Some])
    show "gr_total S - 1 + length (g_members g) = gr_total S + length (g_members (drop_member (pubkey e) g))"
    proof -
      have "length (g_members (drop_member (pubkey e) g)) = length (g_members g) - 1" using length_drop_member [OF wf] that by simp
      then show ?thesis using le member_length [OF that] by linarith
    qed
  qed (simp_all add: wf_drop_member wf)
  have 2: "groups_ok ?S1" if "\<not> is_member g (pubkey e)"
    using that wf by (intro ok_update_same [OF ok Some]) (simp_all add: wf_drop_member length_drop_member)
  show ?thesis using Some 1 2
    by (auto simp: apply_leave_def Let_def split: prod.splits) (metis fst_conv ok_membership)
qed (simp add: apply_leave_def)

lemma put_users_facts:
  assumes "group_wf g" and "put_users S g e relay = (g', added)"
  shows "group_wf g'" and "g_parent g' = g_parent g" and "g_children g' = g_children g"
    and "length (g_members g') = length (g_members g) + length added"
proof -
  let ?r = "foldl (put_user_tag S e relay (joins_as_guest S g)) (g, []) (p_tags e)"
  have added: "added = snd ?r" and g': "g' = fst ?r \<or> g' = (fst ?r)\<lparr>g_creator_role_explicit := True\<rparr>"
    using assms(2) by (auto simp: put_users_def Let_def split: prod.splits if_splits)
  have wf: "group_wf (fst ?r)" by (rule wf_put_fold [OF assms(1)])
  have wfx: "group_wf (h\<lparr>g_creator_role_explicit := True\<rparr>) = group_wf h" for h by (simp add: group_wf_def)
  show "group_wf g'" using g' wf by (auto simp only: wfx)
  show "g_parent g' = g_parent g" "g_children g' = g_children g" using g' put_fold_fields by auto
  show "length (g_members g') = length (g_members g) + length added"
    using g' put_fold_count [of S e relay "joins_as_guest S g" g "[]" "p_tags e"] added by auto
qed

lemma ok_put_user:
  assumes ok: "groups_ok S"
  shows "groups_ok (fst (apply_put_user J S gid e relay now emit))"
proof (cases "group_of S gid")
  case None
  then show ?thesis using ok by (simp add: apply_put_user_def Let_def split: prod.splits) (metis fst_conv ok_membership)
next
  case (Some g)
  obtain g' added where pu: "put_users S g e relay = (g', added)" by fastforce
  note f = put_users_facts [OF groups_okD(3) [OF ok Some] pu]
  have "groups_ok ((set_group gid g' S)\<lparr>gr_total := gr_total S + length added\<rparr>)"
    using f by (intro ok_update [OF ok Some]) simp_all
  then show ?thesis using Some pu ok
    by (auto simp: apply_put_user_def Let_def split: prod.splits) (metis fst_conv ok_membership)+
qed

lemma drop_members_facts:
  assumes "group_wf g" and "drop_members pks (g, removed) = (g', removed')"
  shows "group_wf g' \<and> g_parent g' = g_parent g \<and> g_children g' = g_children g
    \<and> length (g_members g') + length removed' = length (g_members g) + length removed"
  using assms
proof (induction pks arbitrary: g removed)
  case (Cons pk pks)
  have "drop_members pks (drop_member pk g, if is_member g pk then removed @ [pk] else removed) = (g', removed')"
    using Cons.prems(2) by simp
  from Cons.IH [OF wf_drop_member [OF Cons.prems(1)] this] show ?case
    using length_drop_member [OF Cons.prems(1), of pk] member_length [of g pk] by (auto split: if_splits)
qed simp

lemma ok_remove_user:
  assumes ok: "groups_ok S"
  shows "groups_ok (fst (apply_remove_user J S gid e relay now emit))"
proof (cases "group_of S gid")
  case None
  then show ?thesis using ok by (simp add: apply_remove_user_def Let_def split: prod.splits) (metis fst_conv ok_membership)
next
  case (Some g)
  obtain g' removed where dm: "drop_members (event_tag_values e ''p'') (g, []) = (g', removed)" by fastforce
  note f = drop_members_facts [OF groups_okD(3) [OF ok Some] dm]
  have le: "length (g_members g) \<le> gr_total S"
    using total_ge [OF groups_okD(1) [OF ok], of gid g] Some groups_okD(4) [OF ok] by (simp add: group_of_def)
  have "groups_ok ((set_group gid g' S)\<lparr>gr_total := gr_total S - length removed\<rparr>)"
  proof (rule ok_update [OF ok Some])
    show "gr_total S - length removed + length (g_members g) = gr_total S + length (g_members g')"
    proof -
      have "length (g_members g') + length removed = length (g_members g)" using f by simp
      then show ?thesis using le by linarith
    qed
  qed (use f in simp_all)
  then show ?thesis using Some dm ok
    by (auto simp: apply_remove_user_def Let_def split: prod.splits) (metis fst_conv ok_membership)+
qed

lemma wf_add_invite: "group_wf g \<Longrightarrow> group_wf (add_invite g c)"
  by (auto simp: group_wf_def add_invite_def List.insert_def)

lemma invites_facts:
  "group_wf g \<Longrightarrow> group_wf (foldl add_invite g cs) \<and> g_parent (foldl add_invite g cs) = g_parent g
    \<and> g_children (foldl add_invite g cs) = g_children g \<and> g_members (foldl add_invite g cs) = g_members g"
proof (induction cs arbitrary: g)
  case (Cons c cs)
  have "g_parent (add_invite g c) = g_parent g" "g_children (add_invite g c) = g_children g" "g_members (add_invite g c) = g_members g"
    by (simp_all add: add_invite_def)
  then show ?case using Cons.IH [OF wf_add_invite [OF Cons.prems]] by simp
qed simp

lemma ok_invites: "groups_ok S \<Longrightarrow> groups_ok (apply_invites S gid e)"
proof (cases "group_of S gid")
  case (Some g)
  assume ok: "groups_ok S"
  show ?thesis using Some invites_facts [OF groups_okD(3) [OF ok Some]]
    by (simp add: apply_invites_def edit_group_def) (intro ok_update_same [OF ok Some]; simp)
qed (simp add: apply_invites_def edit_group_def)

lemma ok_pins: "groups_ok S \<Longrightarrow> groups_ok (fst (apply_pins S gid e relay now emit))"
proof (cases "group_of S gid")
  case (Some g)
  assume ok: "groups_ok S"
  have "group_wf (g\<lparr>g_pins := take MAX_PINS xs\<rparr>)" for xs
    using groups_okD(3) [OF ok Some] by (simp add: group_wf_def)
  then show ?thesis using Some
    by (simp add: apply_pins_def edit_group_def Let_def) (intro ok_update_same [OF ok Some]; simp)
qed (simp add: apply_pins_def edit_group_def Let_def)

lemma ok_set_same_roster:
  assumes ok: "groups_ok S" and g: "group_of S gid = Some g" and r: "same_roster g g'"
    and l: "g_parent g' = g_parent g" "g_children g' = g_children g"
  shows "groups_ok (set_group gid g' S)"
proof (rule ok_rosters [OF ok rosters_set_group [OF g r]])
  have "tree (set_group gid g' S) = tree S" using g l by (auto simp: tree_set_group tree_def)
  then show "tree_ok (tree (set_group gid g' S))" using groups_okD(2) [OF ok] by simp
qed

lemma ok_mark_buzz: "groups_ok S \<Longrightarrow> groups_ok (mark_buzz S gid e replay)"
proof (cases "group_of S gid")
  case (Some g)
  assume ok: "groups_ok S"
  show ?thesis unfolding mark_buzz_def edit_group_def Some option.case
    by (rule ok_set_same_roster [OF ok Some]) (simp_all add: same_roster_def)
qed (simp add: mark_buzz_def edit_group_def)

lemma rosters_edit_links: "group_of S gid = Some g \<Longrightarrow> rosters_kept S (fst (edit_links S gid g e d relay now emit replay))"
proof -
  assume g: "group_of S gid = Some g"
  let ?A = "children_after S g e d replay" and ?pa = "parent_after S g e d replay" and ?L = "child_listed e d"
  let ?S1 = "set_group gid ((apply_settings g e (gr_buzz S) replay)\<lparr>g_children := ?A\<rparr>) S"
  let ?S2 = "link_parent gid (g_parent g) ?pa (fold declare_child ?A ?S1)"
  let ?S3 = "fst (adopt_children ?S2 gid ?L relay now emit)"
  have 1: "rosters_kept S ?S1"
    by (rule rosters_set_group [OF g same_roster_trans [OF same_roster_settings same_roster_links(2)]])
  have 2: "rosters_kept ?S1 ?S2" by (rule rosters_trans [OF rosters_fold_declare rosters_link_parent])
  have eq: "fst (edit_links S gid g e d relay now emit replay)
    = fst (release_children ?S3 gid (filter (\<lambda>c. c \<notin> set ?A) (g_children g)) relay now emit)"
    by (simp add: edit_links_def Let_def split: prod.splits)
  show ?thesis
    unfolding eq by (rule rosters_trans [OF rosters_trans [OF rosters_trans [OF 1 2] rosters_adopt] rosters_release])
qed

lemma ok_edit_links:
  assumes ok: "groups_ok S" and g: "group_of S gid = Some g"
    and v: "validate_edit_metadata S gid g e rs replay = Inr d"
  shows "groups_ok (fst (edit_links S gid g e d relay now emit replay))"
proof (rule ok_rosters [OF ok rosters_edit_links [OF g]])
  show "tree_ok (tree (fst (edit_links S gid g e d relay now emit replay)))"
    unfolding tree_edit_links [OF groups_okD(2) [OF ok] g v]
    using edits.edited_ok [of S gid g e rs replay d] groups_okD(2) [OF ok] g v by (simp add: valid_edit_def)
qed

lemma ok_edit:
  assumes ok: "groups_ok S"
  shows "groups_ok (fst (apply_edit S gid e relay now emit replay))"
proof (cases "group_of (mark_buzz S gid e replay) gid")
  case None
  then show ?thesis using ok_mark_buzz [OF ok] by (simp add: apply_edit_def Let_def)
next
  case (Some g)
  let ?S0 = "mark_buzz S gid e replay"
  have ok0: "groups_ok ?S0" by (rule ok_mark_buzz [OF ok])
  have set: "groups_ok (set_group gid (apply_settings g e b replay) ?S0)" for b
    by (rule ok_set_same_roster [OF ok0 Some same_roster_settings]) simp_all
  show ?thesis
  proof (cases "validate_edit_metadata ?S0 gid g e (signed_by_relay e relay) replay")
    case (Inl err)
    then show ?thesis using Some set ok0 by (auto simp: apply_edit_def Let_def)
  next
    case (Inr d)
    then show ?thesis using Some set ok_edit_links [OF ok0 Some Inr] by (simp add: apply_edit_def Let_def)
  qed
qed

section \<open>Creating and deleting\<close>

lemma map_of_disown: "map_of (map (disown gid ad) gs) x = map_option (\<lambda>g. snd (disown gid ad (x, g))) (map_of gs x)"
  by (induction gs) (auto simp: disown_def split: prod.splits)

lemma fst_disown [simp]: "fst (disown gid ad a) = fst a"
  by (simp add: disown_def split: prod.splits)

lemma keys_disown: "map fst (map (disown gid ad) gs) = map fst gs"
  by simp

lemma total_disown: "total_of (map (disown gid ad) gs) = total_of gs"
  by (induction gs) (auto simp: disown_def split: prod.splits)

lemma adopting_parent_facts:
  assumes d: "distinct (map fst (gr_groups S))" and a: "adopting_parent S gid e relay = Some p"
  shows "\<exists>g. group_of S p = Some g \<and> gid \<in> set (g_children g)"
proof -
  let ?xs = "map fst (filter (\<lambda>(i, g). gid \<in> set (g_children g) \<and> (signed_by_relay e relay \<or> is_admin g (pubkey e))) (gr_groups S))"
  have "\<exists>r. sort ?xs = p # r" using a by (auto simp: adopting_parent_def split: if_splits list.splits)
  then have "p \<in> set (sort ?xs)" by (metis list.set_intros(1))
  then obtain g where "(p, g) \<in> set (gr_groups S)" "gid \<in> set (g_children g)" by auto
  then show ?thesis using d by (auto simp: group_of_def)
qed

lemma tree_created:
  assumes ok: "tree_ok T" and new: "T gid = None"
    and ad: "\<And>p. ad = Some p \<Longrightarrow> lists T p gid"
  shows "tree_ok (\<lambda>x. if x = gid then Some (ad, [])
     else map_option (\<lambda>(q, ks). (q, if Some x = ad then ks else remove1 gid ks)) (T x))" (is "tree_ok ?T")
proof -
  have nolist: "(x, gid) \<notin> up T" for x using up_exists [OF ok, of x gid] new by auto
  have up: "(x, p) \<in> up ?T \<longleftrightarrow> (if x = gid then ad = Some p else (x, p) \<in> up T)" for x p by (auto simp: up_def)
  have rem: "c \<in> set (remove1 gid ks) \<longleftrightarrow> c \<in> set ks \<and> c \<noteq> gid" if "T x = Some (q, ks)" for x q ks c
    using tree_okD(1) [OF ok that] by (simp add: set_remove1_eq)
  have lst: "lists ?T y c \<longleftrightarrow> y \<noteq> gid \<and> lists T y c \<and> (c = gid \<longrightarrow> ad = Some y)" for y c
    using rem by (cases "T y") (auto simp: lists_def split: if_splits)
  show ?thesis
  proof (rule tree_okI)
    show "distinct cs" if "?T x = Some (p, cs)" for x p cs
      using that tree_okD(1) [OF ok] by (auto split: if_splits simp: distinct_remove1)
    show "lists ?T p x" if "(x, p) \<in> up ?T" for x p
    proof (cases "x = gid")
      case True
      then have a: "ad = Some p" using that up by simp
      have "p \<noteq> gid" using ad [OF a] new by (auto simp: lists_def)
      then show ?thesis using True a ad [OF a] by (simp add: lst)
    next
      case False
      then have u: "(x, p) \<in> up T" using that up by simp
      then have "p \<noteq> gid" using nolist by auto
      then show ?thesis using False tree_okD(2) [OF ok u] by (simp add: lst)
    qed
    show "(c, y) \<in> up ?T" if "lists ?T y c" "?T c \<noteq> None" for y c
      using that tree_okD(3) [OF ok, of y c] by (auto simp: lst up split: if_splits)
    have "up ?T \<subseteq> insert (gid, the ad) (up T)" using up by (auto split: if_splits)
    moreover have "up ?T \<subseteq> up T" if "ad = None" using up that by (auto split: if_splits)
    moreover have "acyclic (insert (gid, p) (up T))" if "ad = Some p" for p
    proof -
      have "p \<noteq> gid" using ad [OF that] new by (auto simp: lists_def)
      moreover have "(p, gid) \<notin> (up T)\<^sup>+" using nolist by (meson tranclD2)
      ultimately have "(p, gid) \<notin> (up T)\<^sup>*" by (meson rtranclD)
      then show ?thesis using tree_okD(4) [OF ok] by (simp add: acyclic_insert)
    qed
    ultimately show "acyclic (up ?T)" using tree_okD(4) [OF ok] acyclic_subset by (cases ad) auto
  qed
qed

lemma created_group_facts:
  "g_members (created_group S gid e replay) = [(pubkey e, [if gr_buzz S then ''owner'' else ''admin''])]"
  "g_children (created_group S gid e replay) = []" "g_parent (created_group S gid e replay) = None"
  "group_wf (created_group S gid e replay)"
proof -
  have s: "same_roster g (created_settings S e replay g) \<and> g_children (created_settings S e replay g) = g_children g
      \<and> g_parent (created_settings S e replay g) = g_parent g" for g
    by (auto simp: created_settings_def apply_plain_create_privacy_def Let_def same_roster_def apply_settings_def
        apply_nip29_settings_def update_labels_def)
  show m: "g_members (created_group S gid e replay) = [(pubkey e, [if gr_buzz S then ''owner'' else ''admin''])]"
    "g_children (created_group S gid e replay) = []" "g_parent (created_group S gid e replay) = None"
    using s by (simp_all add: created_group_def Let_def same_roster_def default_group_def)
  show "group_wf (created_group S gid e replay)"
    using s by (simp add: created_group_def Let_def same_roster_def default_group_def group_wf_def MAX_MEMBERS_def
        MAX_INVITES_def MAX_PINS_def roles_ok_def MAX_ROLES_PER_MEMBER_def MAX_ROLE_BYTES_def)
qed

lemma reclaim_fields [simp]:
  "gr_groups (reclaim_tombstones n S) = gr_groups S" "gr_total (reclaim_tombstones n S) = gr_total S"
  "gr_declared (reclaim_tombstones n S) = gr_declared S" "gr_buzz (reclaim_tombstones n S) = gr_buzz S"
  "gr_ghost (reclaim_tombstones n S) = gr_ghost S"
  by (simp_all add: reclaim_tombstones_def)

lemma clear_tombstone_fields [simp]:
  "gr_groups (clear_tombstone S gid) = gr_groups S" "gr_total (clear_tombstone S gid) = gr_total S"
  "gr_declared (clear_tombstone S gid) = gr_declared S" "gr_buzz (clear_tombstone S gid) = gr_buzz S"
  "group_of (clear_tombstone S gid) = group_of S"
  by (simp_all add: clear_tombstone_def Let_def)

lemma ok_created:
  assumes ok: "groups_ok S" and new: "group_of S gid = None"
  shows "groups_ok (created_store S gid e relay replay)"
proof -
  define ad where "ad = adopting_parent (clear_tombstone S gid) gid e relay"
  define g where "g = (created_group (clear_tombstone S gid) gid e replay)\<lparr>g_parent := ad\<rparr>"
  define gs where "gs = map (disown gid ad) (AList.update gid g (gr_groups S))"
  let ?R = "created_store S gid e relay replay"
  note f = created_group_facts [of "clear_tombstone S gid" gid e replay]
  have m: "map_of (gr_groups S) gid = None" using new by (simp add: group_of_def)
  have orphan: "x\<lparr>g_parent := None\<rparr> = x" if "g_parent x = None" for x :: group using that by (cases x) simp
  have fields: "gr_groups ?R = gs" "gr_total ?R = gr_total S + 1"
    using orphan [OF f(3)] by (simp_all add: created_store_def Let_def gs_def g_def ad_def set_group_def)
  have lookup: "group_of ?R x = (if x = gid then Some (g\<lparr>g_children := []\<rparr>)
      else map_option (\<lambda>h. snd (disown gid ad (x, h))) (group_of S x))" for x
    using f(2) by (auto simp: group_of_def fields gs_def map_of_disown update_conv disown_def g_def)
  have keys: "distinct (map fst gs)" unfolding gs_def keys_disown by (rule distinct_update [OF groups_okD(1) [OF ok]])
  have total: "gr_total ?R = total_of (gr_groups ?R)"
    using groups_okD(4) [OF ok] f(1) by (simp add: fields gs_def total_disown total_update_new [OF m] g_def)
  have wf: "group_wf h" if hx: "group_of ?R x = Some h" for x h
  proof (cases "x = gid")
    case True
    then show ?thesis using that f(4) by (auto simp: lookup g_def group_wf_def)
  next
    case False
    then obtain k where k: "group_of S x = Some k" "h = snd (disown gid ad (x, k))" using hx by (auto simp: lookup)
    show ?thesis using groups_okD(3) [OF ok k(1)] k(2) by (auto simp: disown_def group_wf_def)
  qed
  have d0: "distinct (map fst (gr_groups (clear_tombstone S gid)))" using groups_okD(1) [OF ok] by simp
  have "lists (tree S) p gid" if "ad = Some p" for p
    using adopting_parent_facts [OF d0, of gid e relay p] that by (auto simp: ad_def lists_def tree_def)
  moreover have "tree S gid = None" using new by (simp add: tree_def)
  moreover have "tree ?R = (\<lambda>x. if x = gid then Some (ad, [])
     else map_option (\<lambda>(q, ks). (q, if Some x = ad then ks else remove1 gid ks)) (tree S x))"
    using f(2) by (auto simp: tree_def lookup g_def disown_def fun_eq_iff option.map_comp comp_def intro!: map_option_cong)
  ultimately have "tree_ok (tree ?R)" using tree_created [OF groups_okD(2) [OF ok]] by simp
  then show ?thesis using keys total wf by (simp add: groups_ok_def fields)
qed

lemma ok_create: "groups_ok S \<Longrightarrow> groups_ok (fst (apply_create J S gid e relay now emit replay))"
  using ok_created by (auto simp: apply_create_def create_admitted_def Let_def case_prod_beta)

lemma tree_orphan:
  "tree (fst (orphan_children S cs relay now emit)) x = map_option (\<lambda>(q, ks). (if x \<in> set cs then None else q, ks)) (tree S x)"
proof (induction S cs relay now emit rule: orphan_children.induct)
  case (2 S c cs relay now emit)
  show ?case
  proof (cases "group_of S c = None")
    case True
    then have "x = c \<Longrightarrow> tree S x = None" by (simp add: tree_def)
    then show ?thesis using "2.IH"(1) [OF True] True by (cases "tree S x") auto
  next
    case False
    let ?S1 = "edit_group c (\<lambda>g. g\<lparr>g_parent := None\<rparr>) S"
    have eq: "fst (orphan_children S (c # cs) relay now emit) = fst (orphan_children ?S1 cs relay now emit)"
      using False by (auto simp: Let_def split: prod.splits)
    show ?thesis unfolding eq using "2.IH"(2) [OF False refl] by (cases "tree S x") (auto simp: tree_set_parent)
  qed
qed (simp add: case_prod_beta map_option_case split: option.split)

lemma tree_deleted:
  assumes ok: "tree_ok T" and here: "T gid = Some (par, ch)"
  shows "tree_ok (\<lambda>x. if x = gid then None else map_option (\<lambda>(q, ks). (if x \<in> set ch then None else q,
      if Some x = par then filter (\<lambda>k. k \<noteq> gid) ks else ks)) (T x))" (is "tree_ok ?T")
proof -
  have ch: "(x, gid) \<in> up T \<longleftrightarrow> x \<in> set ch \<and> T x \<noteq> None" for x
    using tree_okD(2) [OF ok, of x gid] tree_okD(3) [OF ok, of gid x] here by (auto simp: lists_def up_def)
  have up: "(x, p) \<in> up ?T \<longleftrightarrow> x \<noteq> gid \<and> x \<notin> set ch \<and> (x, p) \<in> up T" for x p by (auto simp: up_def)
  have lst: "lists ?T y c \<longleftrightarrow> y \<noteq> gid \<and> lists T y c \<and> (par = Some y \<longrightarrow> c \<noteq> gid)" for y c
    by (cases "T y") (auto simp: lists_def split: if_splits)
  show ?thesis
  proof (rule tree_okI)
    show "distinct cs" if "?T x = Some (p, cs)" for x p cs
      using that tree_okD(1) [OF ok] by (auto split: if_splits)
    show "lists ?T p x" if "(x, p) \<in> up ?T" for x p
      using that ch [of x] tree_okD(2) [OF ok, of x p] by (auto simp: up lst)
    show "(c, y) \<in> up ?T" if "lists ?T y c" "?T c \<noteq> None" for y c
    proof -
      have y: "y \<noteq> gid" "lists T y c" "c \<noteq> gid" "T c \<noteq> None" using that by (auto simp: lst split: if_splits)
      then have u: "(c, y) \<in> up T" using tree_okD(3) [OF ok] by simp
      then have "c \<notin> set ch" using ch [of c] y(1,4) up_fun by fastforce
      then show ?thesis using u y(3) by (simp add: up)
    qed
    have "up ?T \<subseteq> up T" using up by auto
    then show "acyclic (up ?T)" using tree_okD(4) [OF ok] acyclic_subset by blast
  qed
qed

lemma ok_delete:
  assumes ok: "groups_ok S"
  shows "groups_ok (fst (apply_delete S gid relay now emit))"
proof (cases "group_of S gid")
  case None
  have "groups_ok ((reclaim_tombstones 1 S)\<lparr>gr_deleted := ds\<rparr>)" for ds
    using ok ok_cong [of "(reclaim_tombstones 1 S)\<lparr>gr_deleted := ds\<rparr>" S] by simp
  then show ?thesis using None ok by (simp add: apply_delete_def Let_def)
next
  case (Some g)
  let ?S0 = "S\<lparr>gr_groups := AList.delete gid (gr_groups S), gr_total := gr_total S - length (g_members g),
        gr_published_at := AList.delete gid (gr_published_at S), gr_dirty := removeAll gid (gr_dirty S)\<rparr>"
  let ?Sb = "unlink gid (g_parent g) (fst (orphan_children ?S0 (g_children g) relay now emit))"
  have m: "map_of (gr_groups S) gid = Some g" using Some by (simp add: group_of_def)
  have l0: "group_of ?S0 x = (if x = gid then None else group_of S x)" for x by (simp add: group_of_def delete_conv)
  have k: "rosters_kept ?S0 ?Sb" by (rule rosters_trans [OF rosters_orphan rosters_unlink])
  have d0: "distinct (map fst (gr_groups ?S0))" using groups_okD(1) [OF ok] by (simp add: distinct_delete)
  have t0: "gr_total ?S0 = total_of (gr_groups ?S0)"
    using total_delete [OF groups_okD(1) [OF ok] m] groups_okD(4) [OF ok] by simp
  have wf: "group_wf h'" if "group_of ?Sb x = Some h'" for x h'
  proof -
    have "rel_option same_roster (group_of ?S0 x) (Some h')" using k that unfolding rosters_kept_def by metis
    then obtain h where h: "group_of ?S0 x = Some h" and r: "same_roster h h'" by (cases "group_of ?S0 x") auto
    then have "group_wf h" using groups_okD(3) [OF ok, of x h] by (simp add: l0 split: if_splits)
    then show ?thesis using r by (simp add: group_wf_def same_roster_def)
  qed
  have here: "tree S gid = Some (g_parent g, g_children g)" using Some by (simp add: tree_def)
  have "tree ?Sb = (\<lambda>x. if x = gid then None else map_option (\<lambda>(q, ks). (if x \<in> set (g_children g) then None else q,
      if Some x = g_parent g then filter (\<lambda>k. k \<noteq> gid) ks else ks)) (tree S x))"
  proof
    fix x
    have "tree ?S0 x = (if x = gid then None else tree S x)" by (simp add: tree_def l0)
    then show "tree ?Sb x = (if x = gid then None else map_option (\<lambda>(q, ks). (if x \<in> set (g_children g) then None else q,
      if Some x = g_parent g then filter (\<lambda>k. k \<noteq> gid) ks else ks)) (tree S x))"
      unfolding tree_unlink tree_orphan by (cases "tree S x") auto
  qed
  then have "tree_ok (tree ?Sb)" using tree_deleted [OF groups_okD(2) [OF ok] here] by simp
  then have okb: "groups_ok ?Sb" using k d0 t0 wf by (auto simp: groups_ok_def rosters_kept_def)
  have "groups_ok ((reclaim_tombstones 1 ?Sb)\<lparr>gr_deleted := ds\<rparr>)" for ds
    using okb ok_cong [of "(reclaim_tombstones 1 ?Sb)\<lparr>gr_deleted := ds\<rparr>" ?Sb] by simp
  then show ?thesis using Some by (simp add: apply_delete_def Let_def case_prod_beta)
qed

theorem ok_apply: "groups_ok S \<Longrightarrow> groups_ok (fst (apply_with_epoch J S e relay now emit replay epoch))"
  by (cases "group_id e")
    (simp_all add: apply_with_epoch_def ok_join ok_leave ok_put_user ok_remove_user ok_edit ok_create ok_delete ok_invites ok_pins)

section \<open>The other operations\<close>

lemma ghost_groups [simp]:
  "gr_groups (fst (insert_ghost gid S)) = gr_groups S" "gr_total (fst (insert_ghost gid S)) = gr_total S"
  "gr_deleted (fst (insert_ghost gid S)) = gr_deleted S" "group_of (fst (insert_ghost gid S)) = group_of S"
  by (simp_all add: insert_ghost_def)

lemma ghost_missing_groups [simp]:
  "gr_groups (ghost_missing xs S) = gr_groups S" "gr_total (ghost_missing xs S) = gr_total S"
  "group_of (ghost_missing xs S) = group_of S" "gr_deleted (ghost_missing xs S) = gr_deleted S"
proof -
  have "gr_groups (ghost_missing xs S) = gr_groups S \<and> gr_total (ghost_missing xs S) = gr_total S
      \<and> gr_deleted (ghost_missing xs S) = gr_deleted S"
    unfolding ghost_missing_def by (induction xs arbitrary: S) simp_all
  then show "gr_groups (ghost_missing xs S) = gr_groups S" "gr_total (ghost_missing xs S) = gr_total S"
    "group_of (ghost_missing xs S) = group_of S" "gr_deleted (ghost_missing xs S) = gr_deleted S"
    by (simp_all add: group_of_def fun_eq_iff)
qed

lemma restore_hidden_groups:
  "gr_groups (restore_hidden ps ds gs S) = gr_groups S \<and> gr_total (restore_hidden ps ds gs S) = gr_total S"
proof -
  have g: "gr_groups (fold (\<lambda>gid S. fst (insert_ghost gid S)) gs S) = gr_groups S
      \<and> gr_total (fold (\<lambda>gid S. fst (insert_ghost gid S)) gs S) = gr_total S" for S
    by (induction gs arbitrary: S) simp_all
  have d: "gr_groups (fold (\<lambda>gid S. if group_of S gid = None then S\<lparr>gr_deleted := List.insert gid (gr_deleted S)\<rparr> else S) ds S) = gr_groups S
      \<and> gr_total (fold (\<lambda>gid S. if group_of S gid = None then S\<lparr>gr_deleted := List.insert gid (gr_deleted S)\<rparr> else S) ds S) = gr_total S" for S
    by (induction ds arbitrary: S) simp_all
  show ?thesis unfolding restore_hidden_def using g d by simp
qed

lemma map_of_drop:
  "map_of (map (\<lambda>(gid, g). (gid, if is_member g pk then drop_member pk g else g)) gs) x
     = map_option (\<lambda>g. if is_member g pk then drop_member pk g else g) (map_of gs x)"
  by (induction gs) auto

lemma keys_drop: "map fst (map (\<lambda>(gid, g). (gid, if is_member g pk then drop_member pk g else g)) gs) = map fst gs"
  by (induction gs) auto

lemma total_drop:
  "(\<And>gid g. (gid, g) \<in> set gs \<Longrightarrow> group_wf g) \<Longrightarrow>
   total_of (map (\<lambda>(gid, g). (gid, if is_member g pk then drop_member pk g else g)) gs)
     + length (filter (\<lambda>(gid, g). is_member g pk) gs) = total_of gs"
proof (induction gs)
  case (Cons a gs)
  obtain gid g where a: "a = (gid, g)" by (cases a)
  have "group_wf g" using Cons.prems [of gid g] a by simp
  then have "is_member g pk \<Longrightarrow> Suc (length (g_members (drop_member pk g))) = length (g_members g)"
    using member_length [of g pk] by (simp add: length_drop_member)
  moreover have "total_of (map (\<lambda>(gid, g). (gid, if is_member g pk then drop_member pk g else g)) gs)
     + length (filter (\<lambda>(gid, g). is_member g pk) gs) = total_of gs"
    by (rule Cons.IH, rule Cons.prems, erule list.set_intros(2))
  ultimately show ?case using a by auto
qed simp

lemma ok_vanish:
  assumes ok: "groups_ok S"
  shows "groups_ok (fst (remove_member_everywhere pk S))"
proof -
  let ?R = "fst (remove_member_everywhere pk S)"
  have lookup: "group_of ?R x = map_option (\<lambda>g. if is_member g pk then drop_member pk g else g) (group_of S x)" for x
    by (simp add: remove_member_everywhere_def Let_def group_of_def map_of_drop)
  have "tree ?R = tree S" by (auto simp: tree_def lookup fun_eq_iff option.map_comp comp_def intro!: map_option_cong)
  moreover have "distinct (map fst (gr_groups ?R))"
  proof -
    have "gr_groups ?R = map (\<lambda>(gid, g). (gid, if is_member g pk then drop_member pk g else g)) (gr_groups S)"
      by (simp add: remove_member_everywhere_def Let_def)
    then have "map fst (gr_groups ?R) = map fst (gr_groups S)" by (simp only: keys_drop)
    then show ?thesis using groups_okD(1) [OF ok] by (simp only:)
  qed
  moreover have "group_wf h" if "group_of ?R x = Some h" for x h
    using that groups_okD(3) [OF ok] wf_drop_member by (auto simp: lookup)
  moreover have "gr_total ?R = total_of (gr_groups ?R)"
  proof -
    have "group_wf g" if "(gid, g) \<in> set (gr_groups S)" for gid g
      using that groups_okD(1,3) [OF ok] by (auto simp: group_of_def)
    then show ?thesis using total_drop [of "gr_groups S" pk] groups_okD(4) [OF ok]
      by (simp add: remove_member_everywhere_def Let_def)
  qed
  ultimately show ?thesis using groups_okD(2) [OF ok] by (simp add: groups_ok_def)
qed

lemma due_groups: "gr_groups (fst (due_loop S gids relay now)) = gr_groups S \<and> gr_total (fst (due_loop S gids relay now)) = gr_total S"
  by (induction S gids relay now rule: due_loop.induct) (simp_all add: Let_def case_prod_beta)

lemma all_groups: "gr_groups (fst (all_loop S gids relay now)) = gr_groups S \<and> gr_total (fst (all_loop S gids relay now)) = gr_total S"
proof (induction gids arbitrary: S)
  case (Cons gid gids)
  then show ?case using Cons.IH [of "fst (membership_events S gid relay now)"]
    by (simp add: Let_def case_prod_beta)
qed simp

text \<open>
  The states of the group store of a running relay: any event applied, live or from history, a vanished
  member removed, markers set and cleared, rosters published, the configuration reloaded.
\<close>

inductive group_run :: "(json \<Rightarrow> string) \<Rightarrow> group_store \<Rightarrow> bool" for J where
  start: "group_run J (with_cap n)"
| event: "group_run J S \<Longrightarrow> group_run J (fst (apply_with_epoch J S e relay now emit replay epoch))"
| vanish: "group_run J S \<Longrightarrow> group_run J (fst (remove_member_everywhere pk S))"
| ghost: "group_run J S \<Longrightarrow> group_run J (mark_ghost gid S)"
| purged: "group_run J S \<Longrightarrow> group_run J (unghost gid S)"
| unghosted: "group_run J S \<Longrightarrow> group_run J (clear_ghost gid S)"
| rebuilt: "group_run J S \<Longrightarrow> group_run J (restore_hidden ps ds gs S)"
| stale: "group_run J S \<Longrightarrow> group_run J (mark_stale S)"
| stale_groups: "group_run J S \<Longrightarrow> group_run J (mark_groups_stale gids S)"
| unrestored: "group_run J S \<Longrightarrow> group_run J (mark_unrestored S)"
| due: "group_run J S \<Longrightarrow> group_run J (fst (due_membership_events S relay now))"
| metadata: "group_run J S \<Longrightarrow> group_run J (fst (all_metadata_events S relay now))"
| configured: "group_run J S \<Longrightarrow> group_run J (S\<lparr>gr_buzz := b, gr_max_groups := n, gr_trust_joins := t\<rparr>)"

lemma ok_start: "groups_ok (with_cap n)"
  by (simp add: groups_ok_def with_cap_def tree_ok_def tree_def group_of_def up_def lists_def acyclic_def)

lemma run_ok: "group_run J S \<Longrightarrow> groups_ok S"
proof (induction rule: group_run.induct)
  case (start n)
  show ?case by (rule ok_start)
next
  case (event S e relay now emit replay epoch)
  then show ?case by (simp add: ok_apply)
next
  case (vanish S pk)
  then show ?case by (simp add: ok_vanish)
next
  case (ghost S gid)
  then show ?case using ok_cong [of "mark_ghost gid S" S] by (simp add: mark_ghost_def)
next
  case (purged S gid)
  then show ?case using ok_cong [of "unghost gid S" S] by (simp add: unghost_def)
next
  case (unghosted S gid)
  then show ?case using ok_cong [of "clear_ghost gid S" S] by (simp add: clear_ghost_def)
next
  case (rebuilt S ps ds gs)
  then show ?case using ok_cong [of "restore_hidden ps ds gs S" S] restore_hidden_groups by simp
next
  case (stale S)
  then show ?case using ok_cong [of "mark_stale S" S] by (simp add: mark_stale_def)
next
  case (stale_groups S gids)
  then show ?case using ok_cong [of "mark_groups_stale gids S" S] by (simp add: mark_groups_stale_def)
next
  case (unrestored S)
  then show ?case using ok_cong [of "mark_unrestored S" S] by (simp add: mark_unrestored_def)
next
  case (due S relay now)
  then show ?case using ok_cong [of "fst (due_membership_events S relay now)" S] due_groups by (simp add: due_membership_events_def)
next
  case (metadata S relay now)
  then show ?case using ok_cong [of "fst (all_metadata_events S relay now)" S] all_groups by (simp add: all_metadata_events_def)
next
  case configured
  show ?case by (rule iffD2 [OF ok_cong configured.IH]) simp_all
qed

end
