(* ===== verification/Spec2Isabelle.thy ===== *)
theory Spec2Isabelle
  imports ScanProps RemovalProps NegProps FeedProps EventProps AuthProps Counting GroupInv
begin

text \<open>
  A verification library for nostrfy, a Nostr relay written in Rust (sources under \<open>src/src/\<close>).

  \<^bold>\<open>The program.\<close> Clients send signed events and subscriptions over WebSockets. The relay verifies an
  event (\<open>event.rs\<close>, \<open>nips/nip01.rs\<close> and the NIP modules it consults), stores it in an LMDB database
  through one writer thread (\<open>db/store.rs\<close>), offers it to the live subscriptions that may match it
  (\<open>relay/index.rs\<close>, \<open>filter.rs\<close>), answers queries from the secondary indexes (\<open>db/scan.rs\<close>), erases
  events on request (\<open>db/removal.rs\<close>) and reconciles its event set with other relays by negentropy
  (\<open>nips/nip77\<close>).

  \<^bold>\<open>Theories and what they model.\<close>
  \<^item> \<open>Prelude\<close>: bytes, UTF-8 strings as byte-like characters, big-endian integers, \<open>u64\<close> arithmetic with
    its wrap-around and saturation, sorting with a comparison, the hex-codec contract (a locale).
  \<^item> \<open>Event\<close>, \<open>Requests\<close>, \<open>Identity\<close>, \<open>Bech32\<close>: the event record and the NIP modules (1, 9, 13, 19, 26,
    33, 40, 42, 62, 70, 78, identity archive). SHA-256, Schnorr verification, hex and JSON are fields
    of the record \<open>ext\<close>, an argument of every definition that uses them.
  \<^item> \<open>Search\<close>, \<open>ReqFilter\<close>, \<open>SubIndex\<close>: tokenizing and matching of NIP-50 searches, filters with their
    compiled tag plan, and the inverted index of live subscriptions.
  \<^item> \<open>HttpAuth\<close>, \<open>Counting\<close>: NIP-98 authorizations with the replay guard (its mutex-protected map as an
    association list, one \<open>accept_as\<close> per step) and the NIP-45 answer with its HyperLogLog registers.
  \<^item> \<open>NegCodec\<close>, \<open>Negentropy\<close>: the NIP-77 wire format and the answer to a message.
  \<^item> \<open>Lmdb\<close>, \<open>Keys\<close>, \<open>Store\<close>: an LMDB table as a sorted association list (locale \<open>kv_table\<close>), the key and
    record layouts, and the write path \<open>put_event_in\<close> / \<open>remove_event\<close> on a record with the fields of
    \<open>Store\<close>.
  \<^item> \<open>Removal\<close>, \<open>Retention\<close>: \<open>db/removal.rs\<close>. Each chunk of a walk is one transaction on the store; the
    shutdown flag is a countdown in the state, so a walk can stop at every chunk boundary. Walks have
    fuel equal to the number of keys of the walked table, shown to suffice.
  \<^item> \<open>Scan\<close>: the query engine with its collector as a record of operations (the trait), index planner,
    merged index walks, quotas and ordering.

  \<^bold>\<open>What is proved.\<close>
  \<^item> \<open>StoreInv\<close>, \<open>StoreProps\<close>: every index, metadata and slot table is exactly determined by the set of
    stored events; puts and removals implement insertion, replacement and deletion on that set.
  \<^item> \<open>IndexScan\<close>, \<open>ScanWalk\<close>, \<open>ScanPlan\<close>, \<open>ScanGather\<close>, \<open>ScanInv\<close>, \<open>ScanAll\<close>, \<open>ScanProps\<close>: whatever
    plan is chosen, a query returns only matching deliverable events and all of them unless it says
    otherwise; it never fails on a consistent store, is ordered and bounded. The walk and the
    collector are locales (\<open>index_walk\<close>, \<open>scan_collector\<close>), the second a sublocale of the first and
    interpreted on the event collector.
  \<^item> \<open>RemovalInv\<close>, \<open>RemovalWalks\<close>: a vanish drops the delegator-side entries of surviving events, so the
    removals keep the store consistent up to the feeds of vanished identities; the locale
    \<open>chunked_removal\<close> shows that a chunked walk ends and covers its range, and is interpreted for every
    walk of the code. \<open>RemovalOps\<close>, \<open>DeletionOps\<close> and \<open>PurgeOps\<close> lift this to the operations,
    \<open>Tombstones\<close> shows that deletion markers are never taken back.
  \<^item> \<open>Writer\<close>, \<open>RemovalProps\<close>: the writer thread as a transition system (\<open>writes\<close>, \<open>runs\<close>) over all store
    operations, with interruptions and a full disk; its reachable stores are consistent, erasure is
    exact, limited to what a request may touch, final, and completed after a restart.
  \<^item> \<open>NegProps\<close>, \<open>FeedProps\<close>, \<open>EventProps\<close>: truthfulness and liveness of negentropy answers, completeness of
    live delivery, verification, proof of work, expiry, delegation, AUTH and codec round trips.
  \<^item> \<open>AuthProps\<close>, \<open>Counting\<close>: a management authorization cannot be replayed while it verifies, whatever is
    presented in between; the guard is bounded; register sets merge.
  \<^item> \<open>Reference\<close> instantiates the external parameters, so that the hypotheses on them are satisfiable.

  \<^bold>\<open>Not modelled.\<close> Threads, channels and sockets (\<open>db/threads.rs\<close>, \<open>ws\<close>, \<open>server\<close>), configuration and
  command line, group and role state (\<open>nips/nip29\<close>, \<open>nips/nip43\<close>), the management API and media
  storage. LMDB faults abort the transaction they occur in and are not modelled.
\<close>

end
